(* ===== verification/Prelude.thy ===== *)
theory Prelude
  imports Main "HOL-Library.Word"
begin

text \<open>
  Shared vocabulary of the development: the machine integers of \<^verbatim>\<open>types.h\<close>, the outcome of a
  piece of kernel code (it returns, it calls \<^verbatim>\<open>panic\<close>, it runs into behaviour that C leaves
  undefined, or it does not return), sequencing of outcomes, counted loops over outcomes, and the
  arithmetic of 32-bit addresses (alignment, page numbers, page offsets) that the memory code rests
  on. The collections \<open>outcome_simps\<close> and \<open>addr_simps\<close> gather what the component theories hand to
  the simplifier.
\<close>

unbundle bit_operations_syntax

named_theorems outcome_simps \<open>rules about outcomes and their sequencing\<close>
named_theorems addr_simps \<open>rules about addresses, pages and alignment\<close>

section \<open>Machine integers\<close>

type_synonym u8 = "8 word"
type_synonym u16 = "16 word"
type_synonym u32 = "32 word"

section \<open>Outcomes\<close>

text \<open>
  \<open>Ok x\<close>: the code returned \<open>x\<close>. \<open>Panic msg\<close>: it called \<^verbatim>\<open>panic(msg)\<close>, which prints the message
  and halts the processor with interrupts off (\<^verbatim>\<open>util.c\<close>), so nothing runs after it. \<open>Undef why\<close>:
  it left what C defines (an index outside an array, a null pointer), or wrote to memory of the kernel
  through a pointer of a program. \<open>Diverge\<close>: a loop that does not end.
\<close>

datatype 'a outcome = Ok 'a | Panic string | Undef string | Diverge

fun bnd :: "'a outcome \<Rightarrow> ('a \<Rightarrow> 'b outcome) \<Rightarrow> 'b outcome" where
  "bnd (Ok x) f = f x"
| "bnd (Panic msg) f = Panic msg"
| "bnd (Undef why) f = Undef why"
| "bnd Diverge f = Diverge"

definition returns :: "'a outcome \<Rightarrow> bool" where
  "returns r \<longleftrightarrow> (case r of Ok _ \<Rightarrow> True | _ \<Rightarrow> False)"

lemma returns_simps [simp, outcome_simps]:
  "returns (Ok x)" "\<not> returns (Panic m)" "\<not> returns (Undef w)" "\<not> returns Diverge"
  by (simp_all add: returns_def)

lemma returns_iff: "returns r \<longleftrightarrow> (\<exists>x. r = Ok x)"
  by (cases r) auto

lemma bnd_eq_Ok [outcome_simps]: "bnd r f = Ok y \<longleftrightarrow> (\<exists>x. r = Ok x \<and> f x = Ok y)"
  by (cases r) auto

lemma bnd_assoc: "bnd (bnd r f) g = bnd r (\<lambda>x. bnd (f x) g)"
  by (cases r) auto

lemma bnd_Ok_right [simp]: "bnd r Ok = r"
  by (cases r) auto

lemma bnd_cong [fundef_cong]:
  "r = r' \<Longrightarrow> (\<And>x. r' = Ok x \<Longrightarrow> f x = g x) \<Longrightarrow> bnd r f = bnd r' g"
  by (cases r') auto

text \<open>
  A counted loop \<^verbatim>\<open>for (i = 0; i < n; i++)\<close> whose body takes the state at the start of the round
  and may panic: \<open>loop_from i n body s\<close> runs the rounds \<open>i\<close>, \<open>i + 1\<close>, ..., \<open>i + n - 1\<close>.
\<close>

primrec loop_from :: "nat \<Rightarrow> nat \<Rightarrow> (nat \<Rightarrow> 's \<Rightarrow> 's outcome) \<Rightarrow> 's \<Rightarrow> 's outcome" where
  "loop_from i 0 body s = Ok s"
| "loop_from i (Suc n) body s = bnd (body i s) (loop_from (Suc i) n body)"

text \<open>The rule for such loops: an invariant indexed by the round, each round returning.\<close>

lemma loop_from_invariant:
  assumes "P i s"
    and "\<And>j t. i \<le> j \<Longrightarrow> j < i + n \<Longrightarrow> P j t \<Longrightarrow> \<exists>t'. body j t = Ok t' \<and> P (Suc j) t'"
  shows "\<exists>s'. loop_from i n body s = Ok s' \<and> P (i + n) s'"
  using assms
proof (induction n arbitrary: i s)
  case 0
  then show ?case by simp
next
  case (Suc n)
  obtain t where t: "body i s = Ok t" "P (Suc i) t"
    using Suc.prems(2) [OF _ _ Suc.prems(1)] by auto
  have "\<exists>s'. loop_from (Suc i) n body t = Ok s' \<and> P (Suc i + n) s'"
  proof (rule Suc.IH [where i = "Suc i" and s = t])
    show "P (Suc i) t" by (rule t(2))
  next
    fix j u
    assume j: "Suc i \<le> j" "j < Suc i + n" and P: "P j u"
    have "i \<le> j" "j < i + Suc n" using j by linarith+
    then show "\<exists>t'. body j u = Ok t' \<and> P (Suc j) t'"
      using P by (rule Suc.prems(2))
  qed
  then show ?case using t(1) by simp
qed

lemma loop_from_add:
  "loop_from i (m + n) body s = bnd (loop_from i m body s) (loop_from (i + m) n body)"
proof (induction m arbitrary: i s)
  case (Suc m)
  then have "loop_from (Suc i) (m + n) body =
      (\<lambda>s. bnd (loop_from (Suc i) m body s) (loop_from (Suc i + m) n body))"
    by blast
  then show ?case by (simp add: bnd_assoc)
qed simp

text \<open>A loop over the elements of a list.\<close>

primrec for_each :: "('s \<Rightarrow> 'a \<Rightarrow> 's outcome) \<Rightarrow> 'a list \<Rightarrow> 's \<Rightarrow> 's outcome" where
  "for_each f [] s = Ok s"
| "for_each f (x # xs) s = bnd (f s x) (for_each f xs)"

section \<open>Addresses\<close>

text \<open>\<^verbatim>\<open>PGSIZE\<close> of \<^verbatim>\<open>memory.h\<close>, and the page number and alignment predicates used in proofs.\<close>

definition PGSIZE :: u32 where
  "PGSIZE = 0x1000"

definition pgno :: "u32 \<Rightarrow> nat" where
  "pgno a = unat a div 4096"

definition page_aligned :: "u32 \<Rightarrow> bool" where
  "page_aligned a \<longleftrightarrow> unat a mod 4096 = 0"

definition word_aligned :: "u32 \<Rightarrow> bool" where
  "word_aligned a \<longleftrightarrow> unat a mod 4 = 0"

lemma unat_lt_2p32 [simp]: "unat (a :: u32) < 4294967296"
  using unsigned_less [of a] by simp

lemma unat_add_lt:
  "unat (a :: u32) + n < 4294967296 \<Longrightarrow> unat (a + of_nat n) = unat a + n"
  by (simp add: unat_word_ariths unat_of_nat mod_add_right_eq)

lemma unat_and_0xfff: "unat ((a :: u32) AND 0xfff) = unat a mod 4096"
proof -
  have "unat (a AND 0xfff) = unat a AND unat (0xfff :: u32)"
    by (simp add: unsigned_and_eq)
  also have "\<dots> = unat a AND mask 12"
    by (simp add: mask_eq_exp_minus_1)
  also have "\<dots> = unat a mod 4096"
    by (simp add: take_bit_eq_mod flip: take_bit_eq_mask)
  finally show ?thesis .
qed

lemma and_0xfff_eq_0 [addr_simps]: "(a :: u32) AND 0xfff = 0 \<longleftrightarrow> page_aligned a"
  by (metis page_aligned_def unat_and_0xfff unat_0 unat_eq_zero)

lemma and_not_add_and: "((a :: u32) AND NOT m) + (a AND m) = a"
proof -
  have "(a AND NOT m) + (a AND m) = (a AND NOT m) OR (a AND m)"
    by (rule disjunctive_add) (simp add: bit_simps)
  also have "\<dots> = a"
    by (rule bit_word_eqI) (auto simp: bit_simps)
  finally show ?thesis .
qed

lemma unat_and_not_0xfff: "unat ((a :: u32) AND NOT 0xfff) = 4096 * (unat a div 4096)"
proof -
  have "a AND NOT 0xfff = a - (a AND 0xfff)"
    by (metis add_diff_cancel_right' and_not_add_and)
  moreover have "a AND 0xfff \<le> a"
    by (simp add: word_le_nat_alt unat_and_0xfff)
  ultimately have "unat (a AND NOT 0xfff) = unat a - unat a mod 4096"
    by (simp add: unat_sub unat_and_0xfff)
  then show ?thesis
    by (simp add: minus_mod_eq_mult_div)
qed

lemma page_aligned_unat: "page_aligned a \<longleftrightarrow> unat a = 4096 * pgno a"
  unfolding page_aligned_def pgno_def using mult_div_mod_eq [of 4096 "unat a"] by linarith

lemma unat_pgno_bounds: "4096 * pgno a \<le> unat a" "unat a < 4096 * pgno a + 4096"
  using mult_div_mod_eq [of 4096 "unat a"] mod_less_divisor [of 4096 "unat a"]
  unfolding pgno_def by linarith+

lemma pgno_lt: "pgno a < 1048576"
  unfolding pgno_def by (rule less_mult_imp_div_less) (use unat_lt_2p32 [of a] in simp)

lemma pgno_eqI: "4096 * k \<le> unat a \<Longrightarrow> unat a < 4096 * k + 4096 \<Longrightarrow> pgno a = k"
  using unat_pgno_bounds [of a] by linarith

lemma page_aligned_le: "page_aligned a \<Longrightarrow> unat a + 4096 \<le> 4294967296"
  using pgno_lt [of a] by (simp add: page_aligned_unat)

lemma unat_page_offset: "page_aligned p \<Longrightarrow> n < 4096 \<Longrightarrow> unat (p + of_nat n) = unat p + n"
  by (rule unat_add_lt) (use page_aligned_le [of p] in linarith)

lemma pgno_page_offset [addr_simps]:
  "page_aligned p \<Longrightarrow> n < 4096 \<Longrightarrow> pgno (p + of_nat n) = pgno p"
  by (rule pgno_eqI) (simp_all add: unat_page_offset page_aligned_unat)

lemma word_aligned_unat: "word_aligned a \<longleftrightarrow> unat a = 4 * (unat a div 4)"
  unfolding word_aligned_def using mult_div_mod_eq [of 4 "unat a"] by linarith

lemma word_alignedI: "unat a = 4 * k \<Longrightarrow> word_aligned a"
  by (simp add: word_aligned_def)

lemma page_aligned_word_aligned: "page_aligned p \<Longrightarrow> word_aligned p"
  by (rule word_alignedI [where k = "1024 * pgno p"]) (simp add: page_aligned_unat)

lemma pgno_inject: "page_aligned p \<Longrightarrow> page_aligned q \<Longrightarrow> pgno p = pgno q \<longleftrightarrow> p = q"
  by (metis page_aligned_unat word_unat_eq_iff)

lemma page_aligned_PGSIZE [simp]: "page_aligned PGSIZE"
  by (simp add: page_aligned_def PGSIZE_def)

lemma unat_PGSIZE [simp]: "unat PGSIZE = 4096"
  by (simp add: PGSIZE_def)

lemma page_aligned_add: "page_aligned a \<Longrightarrow> page_aligned b \<Longrightarrow> page_aligned (a + b)"
proof -
  assume "page_aligned a" "page_aligned b"
  then have "unat a + unat b = 4096 * (pgno a + pgno b)"
    by (simp add: page_aligned_unat)
  then have "unat (a + b) = 4096 * (pgno a + pgno b) mod (4096 * 1048576)"
    by (simp add: unat_word_ariths)
  also have "\<dots> = 4096 * ((pgno a + pgno b) mod 1048576)"
    by (rule mult_mod_right [symmetric])
  finally show ?thesis by (simp add: page_aligned_def)
qed

text \<open>\<^verbatim>\<open>PG_ROUNDDOWN\<close> and \<^verbatim>\<open>PG_ROUNDUP\<close> of \<^verbatim>\<open>memory.h\<close>, on 32-bit unsigned values.\<close>

definition PG_ROUNDDOWN :: "u32 \<Rightarrow> u32" where
  "PG_ROUNDDOWN addr = addr AND NOT (PGSIZE - 1)"

definition PG_ROUNDUP :: "u32 \<Rightarrow> u32" where
  "PG_ROUNDUP addr = (addr + PGSIZE - 1) AND NOT (PGSIZE - 1)"

lemma PGSIZE_minus_1: "PGSIZE - 1 = 0xfff"
  by (simp add: PGSIZE_def)

lemma unat_PG_ROUNDDOWN: "unat (PG_ROUNDDOWN a) = 4096 * pgno a"
  unfolding PG_ROUNDDOWN_def PGSIZE_minus_1 by (simp only: unat_and_not_0xfff pgno_def)

lemma page_aligned_PG_ROUNDDOWN [simp, addr_simps]: "page_aligned (PG_ROUNDDOWN a)"
  by (simp add: page_aligned_def unat_PG_ROUNDDOWN)

lemma pgno_PG_ROUNDDOWN [simp, addr_simps]: "pgno (PG_ROUNDDOWN a) = pgno a"
  by (simp add: pgno_def [of "PG_ROUNDDOWN a"] unat_PG_ROUNDDOWN)

lemma PG_ROUNDDOWN_id [addr_simps]: "page_aligned a \<Longrightarrow> PG_ROUNDDOWN a = a"
  by (metis page_aligned_unat unat_PG_ROUNDDOWN word_unat_eq_iff)

lemma PG_ROUNDUP_conv: "PG_ROUNDUP a = PG_ROUNDDOWN (a + PGSIZE - 1)"
  by (simp add: PG_ROUNDUP_def PG_ROUNDDOWN_def)

lemma page_aligned_PG_ROUNDUP [simp, addr_simps]: "page_aligned (PG_ROUNDUP a)"
  by (simp add: PG_ROUNDUP_conv)

lemma unat_PG_ROUNDUP:
  assumes "unat a \<le> 4294963200"
  shows "unat (PG_ROUNDUP a) = 4096 * ((unat a + 4095) div 4096)"
proof -
  have "a + PGSIZE - 1 = a + of_nat 4095"
    by (simp add: PGSIZE_def)
  moreover have "unat (a + of_nat 4095) = unat a + 4095"
    by (rule unat_add_lt) (use assms in linarith)
  ultimately show ?thesis
    by (simp only: PG_ROUNDUP_conv unat_PG_ROUNDDOWN pgno_def)
qed

lemma PG_ROUNDUP_id [addr_simps]:
  assumes "page_aligned a"
  shows "PG_ROUNDUP a = a"
proof -
  have "unat a \<le> 4294963200"
    using page_aligned_le [OF assms] by linarith
  then have "unat (PG_ROUNDUP a) = 4096 * ((4096 * pgno a + 4095) div 4096)"
    using assms by (simp add: unat_PG_ROUNDUP page_aligned_unat)
  then have "unat (PG_ROUNDUP a) = unat a"
    using assms by (simp add: page_aligned_unat)
  then show ?thesis by (simp only: word_unat_eq_iff)
qed

text \<open>The pages of a range of addresses, one page after the other.\<close>

definition page_range :: "u32 \<Rightarrow> nat \<Rightarrow> u32 list" where
  "page_range a n = map (\<lambda>i. a + of_nat (4096 * i)) [0..<n]"

lemma page_range_0 [simp]: "page_range a 0 = []"
  by (simp add: page_range_def)

lemma page_range_Suc: "page_range a (Suc n) = a # page_range (a + PGSIZE) n"
proof -
  have "map (\<lambda>i. a + of_nat (4096 * i)) [1..<Suc n] = map (\<lambda>i. a + PGSIZE + of_nat (4096 * i)) [0..<n]"
    by (simp add: map_Suc_upt [symmetric] PGSIZE_def algebra_simps del: upt_Suc)
  then show ?thesis
    by (simp add: page_range_def upt_conv_Cons del: upt_Suc)
qed

lemma length_page_range [simp]: "length (page_range a n) = n"
  by (simp add: page_range_def)

lemma unat_page_step:
  assumes "page_aligned a" and "pgno a + i < 1048576"
  shows "unat (a + of_nat (4096 * i)) = 4096 * (pgno a + i)"
proof -
  have "unat a + 4096 * i < 4294967296"
    using assms by (simp add: page_aligned_unat)
  then show ?thesis
    using assms(1) unat_add_lt [of a "4096 * i"] by (simp add: page_aligned_unat del: of_nat_mult)
qed

lemma page_step:
  assumes "page_aligned a" and "pgno a + i < 1048576"
  shows page_aligned_step: "page_aligned (a + of_nat (4096 * i))"
    and pgno_step: "pgno (a + of_nat (4096 * i)) = pgno a + i"
  using unat_page_step [OF assms] by (simp_all add: page_aligned_def pgno_def del: of_nat_mult)

lemma pgno_page_range:
  "page_aligned a \<Longrightarrow> pgno a + n \<le> 1048576 \<Longrightarrow> map pgno (page_range a n) = [pgno a..<pgno a + n]"
  by (rule nth_equalityI) (auto simp: page_range_def pgno_step simp del: of_nat_mult)

lemma page_range_pages:
  "page_aligned a \<Longrightarrow> pgno a + n \<le> 1048576 \<Longrightarrow> p \<in> set (page_range a n) \<Longrightarrow>
   page_aligned p \<and> pgno a \<le> pgno p \<and> pgno p < pgno a + n"
  by (auto simp: page_range_def pgno_step page_aligned_step simp del: of_nat_mult)

lemma distinct_page_range:
  "page_aligned a \<Longrightarrow> pgno a + n \<le> 1048576 \<Longrightarrow> distinct (page_range a n)"
  using pgno_page_range [of a n] by (metis distinct_map distinct_upt)

end
