(* ===== verification/Store.thy ===== *)
theory Store
  imports Prelude
begin

text \<open>
  The byte-addressed memory of the kernel and the block operations of \<^verbatim>\<open>string.c\<close> on it. A
  \<open>mem\<close> maps every 32-bit address to its byte; 16- and 32-bit accesses are little endian, as on the
  processor. The lemmas say what a store, a \<^verbatim>\<open>memset\<close> or a \<^verbatim>\<open>memcpy\<close> writes and what it leaves
  alone, at the granularity of bytes and of pages (\<open>changes_only\<close>).
\<close>

type_synonym mem = "u32 \<Rightarrow> u8"

definition load32 :: "mem \<Rightarrow> u32 \<Rightarrow> u32" where
  "load32 m a = ucast (m a) OR push_bit 8 (ucast (m (a + 1)))
     OR push_bit 16 (ucast (m (a + 2))) OR push_bit 24 (ucast (m (a + 3)))"

definition store32 :: "mem \<Rightarrow> u32 \<Rightarrow> u32 \<Rightarrow> mem" where
  "store32 m a v = m(a := ucast v, a + 1 := ucast (drop_bit 8 v),
     a + 2 := ucast (drop_bit 16 v), a + 3 := ucast (drop_bit 24 v))"

definition load16 :: "mem \<Rightarrow> u32 \<Rightarrow> u16" where
  "load16 m a = ucast (m a) OR push_bit 8 (ucast (m (a + 1)))"

definition store16 :: "mem \<Rightarrow> u32 \<Rightarrow> u16 \<Rightarrow> mem" where
  "store16 m a v = m(a := ucast v, a + 1 := ucast (drop_bit 8 v))"

text \<open>
  \<^verbatim>\<open>memset(s, c, n)\<close> writes the \<^emph>\<open>int\<close> \<open>c\<close> into the \<^verbatim>\<open>n / sizeof(int)\<close> words from \<open>s\<close> on; a
  remainder of up to three bytes is not touched. \<^verbatim>\<open>memcpy(d, s, n)\<close> copies byte by byte, upwards.
  Both return their first argument, which no caller uses.
\<close>

definition memset :: "mem \<Rightarrow> u32 \<Rightarrow> u32 \<Rightarrow> u32 \<Rightarrow> mem" where
  "memset m s c n = fold (\<lambda>i m. store32 m (s + of_nat (4 * i)) c) [0..<unat n div 4] m"

definition copy_byte :: "u32 \<Rightarrow> u32 \<Rightarrow> nat \<Rightarrow> mem \<Rightarrow> mem" where
  "copy_byte d s i m = m(d + of_nat i := m (s + of_nat i))"

definition memcpy :: "mem \<Rightarrow> u32 \<Rightarrow> u32 \<Rightarrow> u32 \<Rightarrow> mem" where
  "memcpy m d s n = fold (copy_byte d s) [0..<unat n] m"

section \<open>Loads and stores\<close>

lemma load32_cong:
  "m a = m' a \<Longrightarrow> m (a + 1) = m' (a + 1) \<Longrightarrow> m (a + 2) = m' (a + 2) \<Longrightarrow> m (a + 3) = m' (a + 3) \<Longrightarrow>
   load32 m a = load32 m' a"
  by (simp add: load32_def)

lemma load32_store32_same [simp]: "load32 (store32 m a v) a = v"
proof (rule bit_word_eqI)
  fix n
  assume "n < LENGTH(32)"
  then consider "n < 8" | "8 \<le> n" "n < 16" | "16 \<le> n" "n < 24" | "24 \<le> n" "n < 32"
    by fastforce
  then show "bit (load32 (store32 m a v) a) n \<longleftrightarrow> bit v n"
    by cases (auto simp: load32_def store32_def bit_simps)
qed

lemma load16_store16_same [simp]: "load16 (store16 m a v) a = v"
  unfolding load16_def store16_def
  by (rule bit_word_eqI) (auto simp: bit_simps)

lemma unat_word_offset:
  assumes "word_aligned a" and "n < 4"
  shows "unat (a + of_nat n) = unat a + n"
proof (rule unat_add_lt)
  have "unat a = 4 * (unat a div 4)"
    using assms(1) by (simp only: word_aligned_unat)
  moreover have "unat a div 4 < 1073741824"
    by (rule less_mult_imp_div_less) (use unat_lt_2p32 [of a] in simp)
  ultimately show "unat a + n < 4294967296"
    using assms(2) by linarith
qed

lemma store32_apply:
  assumes "word_aligned a" and "unat x < unat a \<or> unat a + 4 \<le> unat x"
  shows "store32 m a v x = m x"
proof -
  have "x \<noteq> a + of_nat n" if "n < 4" for n
    using assms unat_word_offset [OF assms(1) that] that by auto
  from this [of 0] this [of 1] this [of 2] this [of 3] show ?thesis
    by (simp add: store32_def)
qed

lemma load32_store32_other:
  assumes "word_aligned a" and "word_aligned b" and "a \<noteq> b"
  shows "load32 (store32 m a v) b = load32 m b"
proof -
  obtain q r where q: "unat a = 4 * q" and r: "unat b = 4 * r"
    using assms(1,2) by (auto simp only: word_aligned_unat)
  have "q \<noteq> r" using assms(3) q r by (metis word_unat_eq_iff)
  then have apart: "unat b + 4 \<le> unat a \<or> unat a + 4 \<le> unat b"
    unfolding q r by linarith
  have "store32 m a v (b + of_nat n) = m (b + of_nat n)" if "n < 4" for n
    by (rule store32_apply [OF assms(1)])
      (use apart that in \<open>auto simp: unat_word_offset [OF assms(2) that]\<close>)
  from this [of 0] this [of 1] this [of 2] this [of 3] show ?thesis
    by (simp add: load32_def)
qed

section \<open>What a piece of code may change\<close>

definition changes_only :: "nat set \<Rightarrow> mem \<Rightarrow> mem \<Rightarrow> bool" where
  "changes_only P m m' \<longleftrightarrow> (\<forall>x. pgno x \<notin> P \<longrightarrow> m' x = m x)"

lemma changes_only_refl [simp]: "changes_only P m m"
  by (simp add: changes_only_def)

lemma changes_only_trans:
  "changes_only P m m' \<Longrightarrow> changes_only Q m' m'' \<Longrightarrow> P \<union> Q \<subseteq> R \<Longrightarrow> changes_only R m m''"
  unfolding changes_only_def by (metis UnCI subset_iff)

lemma changes_only_mono: "changes_only P m m' \<Longrightarrow> P \<subseteq> Q \<Longrightarrow> changes_only Q m m'"
  unfolding changes_only_def by blast

lemma changes_onlyD: "changes_only P m m' \<Longrightarrow> pgno x \<notin> P \<Longrightarrow> m' x = m x"
  by (simp add: changes_only_def)

lemma pgno_word_offset: "word_aligned a \<Longrightarrow> n < 4 \<Longrightarrow> pgno (a + of_nat n) = pgno a"
proof (rule pgno_eqI)
  assume a: "word_aligned a" "n < 4"
  then have un: "unat (a + of_nat n) = unat a + n" by (rule unat_word_offset)
  from a(1) obtain q where q: "unat a = 4 * q" by (auto simp only: word_aligned_unat)
  show "4096 * pgno a \<le> unat (a + of_nat n)"
    using unat_pgno_bounds(1) [of a] unfolding un by linarith
  have "q < 1024 * pgno a + 1024"
    using unat_pgno_bounds(2) [of a] unfolding q by linarith
  then show "unat (a + of_nat n) < 4096 * pgno a + 4096"
    using a(2) unfolding un q by linarith
qed

lemma changes_only_load32:
  assumes "changes_only P m m'" and "word_aligned a" and "pgno a \<notin> P"
  shows "load32 m' a = load32 m a"
proof -
  have "m' (a + of_nat n) = m (a + of_nat n)" if "n < 4" for n
    by (rule changes_onlyD [OF assms(1)]) (simp add: pgno_word_offset assms that)
  from this [of 0] this [of 1] this [of 2] this [of 3] show ?thesis
    by (simp add: load32_def)
qed

lemma changes_only_store32:
  assumes "word_aligned a"
  shows "changes_only {pgno a} m (store32 m a v)"
  unfolding changes_only_def
proof (intro allI impI)
  fix x assume "pgno x \<notin> {pgno a}"
  then have "x \<noteq> a + of_nat n" if "n < 4" for n
    using pgno_word_offset [OF assms that] by auto
  from this [of 0] this [of 1] this [of 2] this [of 3] show "store32 m a v x = m x"
    by (simp add: store32_def)
qed

section \<open>Block operations\<close>

lemma fold_upt_Suc: "fold f [0..<Suc k] s = f k (fold f [0..<k] s)"
  by simp

lemma memset_words_spec:
  fixes s c :: u32
  assumes "word_aligned s" and "unat s + 4 * k \<le> 4294967296"
  shows "(\<forall>i < k. load32 (fold (\<lambda>i m. store32 m (s + of_nat (4 * i)) c) [0..<k] m)
        (s + of_nat (4 * i)) = c) \<and>
    (\<forall>x. unat x < unat s \<or> unat s + 4 * k \<le> unat x \<longrightarrow>
      fold (\<lambda>i m. store32 m (s + of_nat (4 * i)) c) [0..<k] m x = m x)"
  using assms(2)
proof (induction k)
  case 0
  then show ?case by simp
next
  case (Suc k)
  let ?m = "fold (\<lambda>i m. store32 m (s + of_nat (4 * i)) c) [0..<k] m"
  have un: "unat (s + of_nat (4 * i)) = unat s + 4 * i" if "i \<le> k" for i
    by (rule unat_add_lt) (use Suc.prems that in simp)
  have al: "word_aligned (s + of_nat (4 * i))" if "i \<le> k" for i
    using assms(1) unfolding word_aligned_def un [OF that] by simp
  from Suc have IH: "\<forall>i < k. load32 ?m (s + of_nat (4 * i)) = c"
    "\<forall>x. unat x < unat s \<or> unat s + 4 * k \<le> unat x \<longrightarrow> ?m x = m x" by simp_all
  have "load32 (store32 ?m (s + of_nat (4 * k)) c) (s + of_nat (4 * i)) = c" if "i < Suc k" for i
  proof (cases "i = k")
    case False
    with that have "i < k" by simp
    moreover from \<open>i < k\<close> have "s + of_nat (4 * k) \<noteq> s + of_nat (4 * i)"
      using un [of i] un [of k] by auto
    ultimately show ?thesis
      using IH(1) al by (simp add: load32_store32_other del: of_nat_mult)
  qed simp
  moreover have "store32 ?m (s + of_nat (4 * k)) c x = m x"
    if "unat x < unat s \<or> unat s + 4 * Suc k \<le> unat x" for x
  proof -
    have "store32 ?m (s + of_nat (4 * k)) c x = ?m x"
      by (rule store32_apply [OF al]) (use un [of k] that in auto)
    also have "\<dots> = m x" using IH(2) that by auto
    finally show ?thesis .
  qed
  ultimately show ?case by (simp del: of_nat_mult)
qed

lemma memset_page:
  assumes "page_aligned p"
  shows memset_page_load: "i < 1024 \<Longrightarrow> load32 (memset m p c PGSIZE) (p + of_nat (4 * i)) = c"
    and memset_page_changes: "changes_only {pgno p} m (memset m p c PGSIZE)"
proof -
  note spec = memset_words_spec [OF page_aligned_word_aligned [OF assms], of 1024 c m]
  have le: "unat p + 4 * 1024 \<le> 4294967296"
    using page_aligned_le [OF assms] by simp
  show "i < 1024 \<Longrightarrow> load32 (memset m p c PGSIZE) (p + of_nat (4 * i)) = c"
    using spec [OF le] by (simp add: memset_def del: of_nat_mult)
  have "unat x < unat p \<or> unat p + 4096 \<le> unat x" if "pgno x \<noteq> pgno p" for x
    using that assms pgno_eqI [of "pgno p" x] unfolding page_aligned_unat by linarith
  then show "changes_only {pgno p} m (memset m p c PGSIZE)"
    using spec [OF le] by (auto simp: memset_def changes_only_def simp del: of_nat_mult)
qed

text \<open>Copying between ranges that do not overlap.\<close>

lemma copy_byte_apply:
  "copy_byte d s i m x = (if x = d + of_nat i then m (s + of_nat i) else m x)"
  by (simp add: copy_byte_def)

lemma memcpy_bytes_spec:
  fixes d s :: u32
  assumes "unat d + k \<le> 4294967296" and "unat s + k \<le> 4294967296"
    and "unat d + k \<le> unat s \<or> unat s + k \<le> unat d"
  shows "j \<le> k \<Longrightarrow> fold (copy_byte d s) [0..<j] m x =
    (if unat d \<le> unat x \<and> unat x < unat d + j then m (s + of_nat (unat x - unat d)) else m x)"
proof (induction j arbitrary: x)
  case 0
  then show ?case by auto
next
  case (Suc j)
  have ud: "unat (d + of_nat j) = unat d + j"
    by (rule unat_add_lt) (use Suc.prems assms(1) in linarith)
  have us: "unat (s + of_nat j) = unat s + j"
    by (rule unat_add_lt) (use Suc.prems assms(2) in linarith)
  have src: "fold (copy_byte d s) [0..<j] m (s + of_nat j) = m (s + of_nat j)"
    using Suc us assms(3) by auto
  show ?case
  proof (cases "x = d + of_nat j")
    case True
    then show ?thesis using ud src by (simp add: copy_byte_apply [of d s j])
  next
    case False
    then have "unat x \<noteq> unat d + j" using ud by (metis word_unat_eq_iff)
    then show ?thesis using False Suc by (auto simp: copy_byte_apply [of d s j])
  qed
qed

lemma memcpy_apply:
  assumes "unat d + unat n \<le> 4294967296" and "unat s + unat n \<le> 4294967296"
    and "unat d + unat n \<le> unat s \<or> unat s + unat n \<le> unat d"
  shows "memcpy m d s n x =
    (if unat d \<le> unat x \<and> unat x < unat d + unat n then m (s + of_nat (unat x - unat d)) else m x)"
  using memcpy_bytes_spec [OF assms, of "unat n" m x] by (simp add: memcpy_def)

end
