(* ===== verification/Kmalloc.thy ===== *)
theory Kmalloc
  imports Store
begin

text \<open>
  The physical page allocator of \<^verbatim>\<open>memory.c\<close>: \<^verbatim>\<open>kfree\<close>, \<^verbatim>\<open>kmalloc\<close> and \<^verbatim>\<open>register_free_mem\<close>. Free
  pages form a singly linked list through their own first words, as in the code; \<open>free_list m p xs\<close>
  relates the memory and the head pointer to the list of free pages. The locale \<open>page_allocator\<close>
  is the interface the paging and task code relies on, interpreted on the code's functions, and
  \<open>client_step\<close> is the allocator running against clients that write to the pages they hold.
\<close>

text \<open>
  The part of the kernel's state this file touches; the other components extend the record.
  \<open>mem\<close> is physical memory, addressed through the kernel's direct map (\<^verbatim>\<open>PHYS_TO_VIRT\<close>).
  \<open>cr3\<close> is the processor's page directory register, a physical address. \<open>num_allocated\<close> is the
  counter \<^verbatim>\<open>kmalloc\<close> keeps and nothing reads.
\<close>

record mstate =
  mem :: mem
  cr3 :: u32
  free_pages :: u32
  num_allocated :: u32

definition NULL :: u32 where
  "NULL = 0"

definition kfree :: "'z mstate_scheme \<Rightarrow> u32 \<Rightarrow> 'z mstate_scheme outcome" where
  "kfree s ptr =
     (let s1 = (if free_pages s = NULL
                then s\<lparr>mem := store32 (mem s) ptr NULL\<rparr>
                else s\<lparr>mem := store32 (mem s) ptr (free_pages s)\<rparr>)
      in if ptr AND 0xfff \<noteq> 0 then Panic ''kmalloc: page not aligned (kfree)''
         else Ok (s1\<lparr>free_pages := ptr\<rparr>))"

definition kmalloc :: "'z mstate_scheme \<Rightarrow> (u32 \<times> 'z mstate_scheme) outcome" where
  "kmalloc s =
     (let ret = free_pages s
      in if ret = NULL then Panic ''kmalloc: no memory to allocate''
         else let s1 = s\<lparr>num_allocated := num_allocated s + 1\<rparr>
         in if ret AND 0xfff \<noteq> 0 then Panic ''kmalloc: page not aligned (kmalloc)''
            else Ok (ret, s1\<lparr>free_pages := load32 (mem s1) ret\<rparr>))"

text \<open>
  The loop of \<^verbatim>\<open>register_free_mem\<close>. The address grows by a page each round and stays below the
  end, so it visits each of the 2^20 pages at most once: the fuel is never used up
  (\<open>register_free_mem_spec\<close>).
\<close>

fun register_loop :: "nat \<Rightarrow> 'z mstate_scheme \<Rightarrow> u32 \<Rightarrow> u32 \<Rightarrow> 'z mstate_scheme outcome" where
  "register_loop 0 s now end_page = Diverge"
| "register_loop (Suc fuel) s now end_page =
     (if now < end_page
      then bnd (kfree s now) (\<lambda>s'. register_loop fuel s' (now + PGSIZE) end_page)
      else Ok s)"

definition register_free_mem ::
    "'z mstate_scheme \<Rightarrow> u32 \<Rightarrow> u32 \<Rightarrow> 'z mstate_scheme outcome" where
  "register_free_mem s start end_addr =
     (if PG_ROUNDDOWN end_addr \<le> PG_ROUNDDOWN start
      then Panic ''Illegal free memory registeration''
      else register_loop 1048577 s (PG_ROUNDUP start) (PG_ROUNDDOWN end_addr))"

section \<open>The free list\<close>

fun free_list :: "mem \<Rightarrow> u32 \<Rightarrow> u32 list \<Rightarrow> bool" where
  "free_list m p [] \<longleftrightarrow> p = NULL"
| "free_list m p (x # xs) \<longleftrightarrow>
     p = x \<and> x \<noteq> NULL \<and> page_aligned x \<and> free_list m (load32 m x) xs"

definition kheap :: "'z mstate_scheme \<Rightarrow> u32 list \<Rightarrow> bool" where
  "kheap s xs \<longleftrightarrow> free_list (mem s) (free_pages s) xs"

lemma free_list_unique: "free_list m p xs \<Longrightarrow> free_list m p ys \<Longrightarrow> xs = ys"
proof (induction xs arbitrary: p ys)
  case Nil
  then show ?case by (cases ys) auto
next
  case (Cons x xs)
  then show ?case by (cases ys) auto
qed

lemma free_list_append:
  "free_list m p (xs @ ys) \<Longrightarrow> \<exists>q. free_list m q ys"
  by (induction xs arbitrary: p) auto

text \<open>The list ends, so no page is on it twice.\<close>

lemma free_list_distinct: "free_list m p xs \<Longrightarrow> distinct xs"
proof (induction xs arbitrary: p)
  case (Cons x xs)
  have "x \<notin> set xs"
  proof
    assume "x \<in> set xs"
    then obtain ys zs where xs: "xs = ys @ x # zs" by (meson split_list)
    with Cons.prems have "free_list m (load32 m x) (ys @ x # zs)" by simp
    moreover from this have "\<exists>q. free_list m q (x # zs)" by (rule free_list_append)
    then have "free_list m (load32 m x) zs" by auto
    ultimately have "ys @ x # zs = zs" by (rule free_list_unique)
    then have "length (ys @ x # zs) = length zs" by (rule arg_cong)
    then show False by simp
  qed
  then show ?case using Cons by auto
qed simp

lemma free_list_pages: "free_list m p xs \<Longrightarrow> x \<in> set xs \<Longrightarrow> x \<noteq> NULL \<and> page_aligned x"
  by (induction xs arbitrary: p) auto

text \<open>Writing elsewhere leaves the list as it is.\<close>

lemma free_list_frame:
  "free_list m p xs \<Longrightarrow> changes_only P m m' \<Longrightarrow> P \<inter> pgno ` set xs = {} \<Longrightarrow> free_list m' p xs"
proof (induction xs arbitrary: p)
  case (Cons x xs)
  then have "load32 m' x = load32 m x"
    by (intro changes_only_load32) (auto intro: page_aligned_word_aligned)
  with Cons show ?case by auto
qed simp

lemma kheap_distinct: "kheap s xs \<Longrightarrow> distinct xs"
  unfolding kheap_def by (rule free_list_distinct)

lemma kheap_page: "kheap s xs \<Longrightarrow> x \<in> set xs \<Longrightarrow> x \<noteq> NULL \<and> page_aligned x"
  unfolding kheap_def by (rule free_list_pages)

lemma kheap_frame:
  "kheap s xs \<Longrightarrow> changes_only P (mem s) m' \<Longrightarrow> P \<inter> pgno ` set xs = {} \<Longrightarrow>
   kheap (s\<lparr>mem := m'\<rparr>) xs"
  unfolding kheap_def by (simp add: free_list_frame)

section \<open>kmalloc and kfree on the free list\<close>

lemma kfree_aligned:
  "page_aligned p \<Longrightarrow>
   kfree s p = Ok (s\<lparr>mem := store32 (mem s) p (free_pages s), free_pages := p\<rparr>)"
  by (simp add: kfree_def Let_def and_0xfff_eq_0)

lemma kfree_unaligned:
  "\<not> page_aligned p \<Longrightarrow> kfree s p = Panic ''kmalloc: page not aligned (kfree)''"
  by (simp add: kfree_def Let_def and_0xfff_eq_0)

lemma kmalloc_empty: "kheap s [] \<Longrightarrow> kmalloc s = Panic ''kmalloc: no memory to allocate''"
  by (simp add: kheap_def kmalloc_def)

lemma kmalloc_Cons:
  "kheap s (p # ps) \<Longrightarrow>
   kmalloc s = Ok (p, s\<lparr>num_allocated := num_allocated s + 1, free_pages := load32 (mem s) p\<rparr>)"
  by (auto simp: kheap_def kmalloc_def Let_def and_0xfff_eq_0)

lemma kmalloc_heap:
  assumes "kheap s (p # ps)"
  shows "\<exists>s'. kmalloc s = Ok (p, s') \<and> kheap s' ps \<and> mem s' = mem s \<and>
    mstate.more s' = mstate.more s"
  using assms kmalloc_Cons [OF assms] by (auto simp: kheap_def)

lemma kfree_heap:
  assumes "kheap s ps" and "page_aligned p" and "p \<noteq> NULL" and "p \<notin> set ps"
  shows "\<exists>s'. kfree s p = Ok s' \<and> kheap s' (p # ps) \<and> changes_only {pgno p} (mem s) (mem s') \<and>
    mstate.more s' = mstate.more s"
proof -
  have ch: "changes_only {pgno p} (mem s) (store32 (mem s) p (free_pages s))"
    using assms(2) by (intro changes_only_store32 page_aligned_word_aligned)
  have "pgno p \<notin> pgno ` set ps"
    using assms kheap_page [OF assms(1)] by (auto simp: pgno_inject)
  then have "free_list (store32 (mem s) p (free_pages s)) (free_pages s) ps"
    using assms(1) unfolding kheap_def by (intro free_list_frame [OF _ ch]) auto
  then show ?thesis
    using assms ch by (simp add: kfree_aligned kheap_def)
qed

section \<open>The interface\<close>

text \<open>
  What a client of an allocator may rely on: the pages it has left are a list, allocation takes
  the head of it, freeing a page that is not on it puts it in front.
\<close>

locale page_allocator =
  fixes alloc :: "'s \<Rightarrow> (u32 \<times> 's) outcome"
    and free :: "'s \<Rightarrow> u32 \<Rightarrow> 's outcome"
    and pages :: "'s \<Rightarrow> u32 list \<Rightarrow> bool"
  assumes alloc_Cons: "pages s (p # ps) \<Longrightarrow> \<exists>s'. alloc s = Ok (p, s') \<and> pages s' ps"
    and alloc_Nil: "pages s [] \<Longrightarrow> \<exists>msg. alloc s = Panic msg"
    and free_Cons: "pages s ps \<Longrightarrow> page_aligned p \<Longrightarrow> p \<noteq> NULL \<Longrightarrow> p \<notin> set ps \<Longrightarrow>
      \<exists>s'. free s p = Ok s' \<and> pages s' (p # ps)"
    and pages_distinct: "pages s ps \<Longrightarrow> distinct ps"
    and pages_page: "pages s ps \<Longrightarrow> p \<in> set ps \<Longrightarrow> p \<noteq> NULL \<and> page_aligned p"
begin

lemma alloc_Ok_iff:
  assumes "pages s ps"
  shows "returns (alloc s) \<longleftrightarrow> ps \<noteq> []"
  using assms alloc_Nil [of s] alloc_Cons [of s "hd ps" "tl ps"] by (cases ps) auto

lemma alloc_OkD:
  assumes "pages s ps" and "alloc s = Ok (p, s')"
  shows "\<exists>ps'. ps = p # ps' \<and> pages s' ps'"
  using assms alloc_Nil [of s] alloc_Cons [of s "hd ps" "tl ps"] by (cases ps) auto

text \<open>Allocation and deallocation are inverse, in both orders.\<close>

lemma free_then_alloc:
  assumes "pages s ps" and "page_aligned p" and "p \<noteq> NULL" and "p \<notin> set ps"
  shows "\<exists>s' s''. free s p = Ok s' \<and> alloc s' = Ok (p, s'') \<and> pages s'' ps"
  using free_Cons [OF assms] alloc_Cons by blast

lemma alloc_then_free:
  assumes "pages s (p # ps)"
  shows "\<exists>s' s''. alloc s = Ok (p, s') \<and> free s' p = Ok s'' \<and> pages s'' (p # ps)"
proof -
  obtain s' where s': "alloc s = Ok (p, s')" "pages s' ps"
    using alloc_Cons [OF assms] by blast
  moreover have "page_aligned p" "p \<noteq> NULL" "p \<notin> set ps"
    using pages_distinct [OF assms] pages_page [OF assms, of p] by auto
  ultimately show ?thesis using free_Cons by blast
qed

lemma free_list_of_pages:
  "pages s ps \<Longrightarrow> distinct qs \<Longrightarrow> set qs \<inter> set ps = {} \<Longrightarrow>
   (\<forall>q \<in> set qs. page_aligned q \<and> q \<noteq> NULL) \<Longrightarrow>
   \<exists>s'. for_each free qs s = Ok s' \<and> pages s' (rev qs @ ps)"
proof (induction qs arbitrary: s ps)
  case (Cons q qs)
  then obtain s1 where "free s q = Ok s1" and "pages s1 (q # ps)"
    using free_Cons [of s ps q] by auto
  then show ?case
    using Cons.IH [of s1 "q # ps"] Cons.prems by auto
qed simp

end

interpretation km: page_allocator kmalloc kfree kheap
proof unfold_locales
  show "kheap s (p # ps) \<Longrightarrow> \<exists>s'. kmalloc s = Ok (p, s') \<and> kheap s' ps" for s p ps
    using kmalloc_heap by blast
  show "kheap s [] \<Longrightarrow> \<exists>msg. kmalloc s = Panic msg" for s
    using kmalloc_empty by blast
  show "kheap s ps \<Longrightarrow> page_aligned p \<Longrightarrow> p \<noteq> NULL \<Longrightarrow> p \<notin> set ps \<Longrightarrow>
      \<exists>s'. kfree s p = Ok s' \<and> kheap s' (p # ps)" for s ps p
    using kfree_heap by blast
  show "kheap s ps \<Longrightarrow> distinct ps" for s ps
    by (rule kheap_distinct)
  show "kheap s ps \<Longrightarrow> p \<in> set ps \<Longrightarrow> p \<noteq> NULL \<and> page_aligned p" for s ps p
    by (rule kheap_page)
qed

section \<open>register_free_mem\<close>

lemma register_loop_for_each:
  assumes "page_aligned now" and "pgno now + n < 1048576" and "n < fuel"
  shows "register_loop fuel s now (now + of_nat (4096 * n)) = for_each kfree (page_range now n) s"
  using assms
proof (induction n arbitrary: fuel s now)
  case 0
  then show ?case by (cases fuel) auto
next
  case (Suc n)
  then obtain f where f: "fuel = Suc f" by (cases fuel) auto
  have up: "unat (now + of_nat (4096 * Suc n)) = 4096 * (pgno now + Suc n)"
    using Suc.prems by (intro unat_page_step)
  have lt: "now < now + of_nat (4096 * Suc n)"
    using Suc.prems unfolding word_less_nat_alt up by (simp add: page_aligned_unat)
  have one: "now + PGSIZE = now + of_nat (4096 * 1)" by (simp add: PGSIZE_def)
  have "pgno (now + PGSIZE) = pgno now + 1" "page_aligned (now + PGSIZE)"
    unfolding one using Suc.prems by (intro pgno_step page_aligned_step; simp)+
  moreover have e: "now + of_nat (4096 * Suc n) = now + PGSIZE + of_nat (4096 * n)"
    by (simp add: PGSIZE_def algebra_simps)
  ultimately have "register_loop f t (now + PGSIZE) (now + of_nat (4096 * Suc n)) =
      for_each kfree (page_range (now + PGSIZE) n) t" for t :: "'a mstate_scheme"
    unfolding e by (intro Suc.IH) (use Suc.prems f in auto)
  then have "(\<lambda>t. register_loop f t (now + PGSIZE) (now + of_nat (4096 * Suc n))) =
      (for_each kfree (page_range (now + PGSIZE) n) :: 'a mstate_scheme \<Rightarrow> _)"
    by blast
  then show ?case
    using lt by (simp add: f page_range_Suc del: of_nat_mult of_nat_Suc mult_Suc_right)
qed

lemma pgno_PG_ROUNDUP:
  assumes "pgno a < k" and "k < 1048576"
  shows "pgno (PG_ROUNDUP a) = (unat a + 4095) div 4096" and "pgno (PG_ROUNDUP a) \<le> k"
    and "a \<noteq> 0 \<Longrightarrow> PG_ROUNDUP a \<noteq> 0"
proof -
  have le: "unat a + 4096 \<le> 4096 * k + 4095 - 4095 + 4096" "unat a < 4096 * k"
    using unat_pgno_bounds(2) [of a] assms(1) by linarith+
  then have "unat a \<le> 4294963200" using assms(2) by linarith
  then have up: "unat (PG_ROUNDUP a) = 4096 * ((unat a + 4095) div 4096)"
    by (rule unat_PG_ROUNDUP)
  then show up': "pgno (PG_ROUNDUP a) = (unat a + 4095) div 4096"
    by (simp add: pgno_def [of "PG_ROUNDUP a"])
  have "(unat a + 4095) div 4096 < Suc k"
    by (rule less_mult_imp_div_less) (use le in simp)
  then show "pgno (PG_ROUNDUP a) \<le> k" using up' by simp
  assume "a \<noteq> 0"
  then have "0 < unat a" by (simp add: unat_gt_0)
  then have "4096 * 1 \<le> unat a + 4095" by simp
  then have "1 \<le> (unat a + 4095) div 4096"
    by (metis div_le_mono nonzero_mult_div_cancel_left zero_neq_numeral)
  then have "0 < unat (PG_ROUNDUP a)" unfolding up by simp
  then show "PG_ROUNDUP a \<noteq> 0" by (simp add: unat_gt_0)
qed

definition region_pages :: "u32 \<Rightarrow> u32 \<Rightarrow> u32 list" where
  "region_pages start end_addr =
     page_range (PG_ROUNDUP start) (pgno end_addr - pgno (PG_ROUNDUP start))"

lemma region_pages_page:
  assumes "pgno start < pgno end_addr" and "start \<noteq> 0" and "p \<in> set (region_pages start end_addr)"
  shows "page_aligned p \<and> p \<noteq> NULL \<and> pgno (PG_ROUNDUP start) \<le> pgno p \<and> pgno p < pgno end_addr"
proof -
  note up = pgno_PG_ROUNDUP [OF assms(1) pgno_lt]
  have p: "page_aligned p \<and> pgno (PG_ROUNDUP start) \<le> pgno p \<and>
      pgno p < pgno (PG_ROUNDUP start) + (pgno end_addr - pgno (PG_ROUNDUP start))"
    using assms(3) up(2) pgno_lt [of end_addr] unfolding region_pages_def
    by (intro page_range_pages) auto
  moreover have "0 < pgno (PG_ROUNDUP start)"
    using up(3) [OF assms(2)] page_aligned_unat [of "PG_ROUNDUP start"]
    by (metis gr0I mult_0_right page_aligned_PG_ROUNDUP unat_eq_zero)
  ultimately have "p \<noteq> NULL"
    by (auto simp: NULL_def pgno_def)
  then show ?thesis using p up(2) by auto
qed

lemma register_free_mem_pages:
  assumes lt: "pgno start < pgno end_addr"
  shows "register_free_mem s start end_addr = for_each kfree (region_pages start end_addr) s"
    and "distinct (region_pages start end_addr)"
proof -
  let ?a = "PG_ROUNDUP start" and ?e = "PG_ROUNDDOWN end_addr"
  let ?n = "pgno end_addr - pgno ?a"
  note up = pgno_PG_ROUNDUP [OF lt pgno_lt]
  have small: "pgno ?a + ?n < 1048576" using up(2) pgno_lt [of end_addr] by simp
  have "unat (?a + of_nat (4096 * ?n)) = unat ?e"
    using unat_page_step [of ?a ?n] small up(2) by (simp add: unat_PG_ROUNDDOWN)
  then have e: "?e = ?a + of_nat (4096 * ?n)"
    by (simp only: word_unat_eq_iff)
  have "\<not> ?e \<le> PG_ROUNDDOWN start"
    using lt by (simp add: word_le_nat_alt unat_PG_ROUNDDOWN)
  then show "register_free_mem s start end_addr = for_each kfree (region_pages start end_addr) s"
    unfolding register_free_mem_def region_pages_def e
    using register_loop_for_each [of ?a ?n 1048577 s] small by (simp add: e del: of_nat_mult)
  show "distinct (region_pages start end_addr)"
    unfolding region_pages_def using small by (intro distinct_page_range) auto
qed

lemma register_free_mem_spec:
  assumes "kheap s ps" and lt: "pgno start < pgno end_addr" and "start \<noteq> 0"
    and "set (region_pages start end_addr) \<inter> set ps = {}"
  shows "\<exists>s'. register_free_mem s start end_addr = Ok s' \<and>
    kheap s' (rev (region_pages start end_addr) @ ps)"
  using km.free_list_of_pages [OF assms(1)] region_pages_page [OF lt assms(3)] assms(4) register_free_mem_pages [OF lt]
  by metis

text \<open>Freeing pages writes to them only.\<close>

lemma kfree_frame:
  assumes "kfree s p = Ok s'"
  shows "changes_only {pgno p} (mem s) (mem s')" "cr3 s' = cr3 s" "mstate.more s' = mstate.more s"
proof -
  have p: "page_aligned p" using assms kfree_unaligned [of p s] by (cases "page_aligned p") auto
  then have "s' = s\<lparr>mem := store32 (mem s) p (free_pages s), free_pages := p\<rparr>" using assms kfree_aligned [OF p, of s] by simp
  then show "changes_only {pgno p} (mem s) (mem s')" "cr3 s' = cr3 s" "mstate.more s' = mstate.more s"
    using changes_only_store32 [OF page_aligned_word_aligned [OF p]] by simp_all
qed

lemma for_each_kfree_frame:
  "for_each kfree ps s = Ok s' \<Longrightarrow>
   changes_only (pgno ` set ps) (mem s) (mem s') \<and> cr3 s' = cr3 s \<and> mstate.more s' = mstate.more s"
proof (induction ps arbitrary: s)
  case (Cons p ps)
  then obtain s1 where s1: "kfree s p = Ok s1" "for_each kfree ps s1 = Ok s'" by (auto simp: bnd_eq_Ok)
  note F = kfree_frame [OF s1(1)] and IH = Cons.IH [OF s1(2)]
  have "changes_only (pgno ` set (p # ps)) (mem s) (mem s')"
    by (rule changes_only_trans [OF F(1) conjunct1 [OF IH]]) auto
  then show ?case using F(2,3) IH by simp
qed simp

section \<open>The allocator and its clients\<close>

text \<open>
  The allocator used by arbitrary clients: the state and the set of pages handed out. A client may
  allocate, give back a page it holds, and write anything it likes into the pages it holds.
\<close>

inductive client_step :: "mstate \<times> u32 set \<Rightarrow> mstate \<times> u32 set \<Rightarrow> bool" where
  step_alloc: "kmalloc s = Ok (p, s') \<Longrightarrow> client_step (s, held) (s', insert p held)"
| step_free: "p \<in> held \<Longrightarrow> kfree s p = Ok s' \<Longrightarrow> client_step (s, held) (s', held - {p})"
| step_write: "changes_only (pgno ` held) (mem s) m' \<Longrightarrow>
    client_step (s, held) (s\<lparr>mem := m'\<rparr>, held)"

inductive_cases client_stepE: "client_step (s, held) (s', held')"

inductive client_reach :: "mstate \<Rightarrow> mstate \<times> u32 set \<Rightarrow> bool" for s0 where
  reach_start: "client_reach s0 (s0, {})"
| reach_step: "client_reach s0 c \<Longrightarrow> client_step c c' \<Longrightarrow> client_reach s0 c'"

definition heap_inv :: "u32 set \<Rightarrow> mstate \<times> u32 set \<Rightarrow> bool" where
  "heap_inv all c \<longleftrightarrow> (\<exists>ps. kheap (fst c) ps \<and> set ps \<inter> snd c = {} \<and> set ps \<union> snd c = all \<and>
     (\<forall>p \<in> snd c. page_aligned p \<and> p \<noteq> NULL))"

lemma client_step_heap_inv: "client_step c c' \<Longrightarrow> heap_inv all c \<Longrightarrow> heap_inv all c'"
proof (induction rule: client_step.induct)
  case (step_alloc s p s' held)
  then obtain ps where ps: "kheap s ps" "set ps \<inter> held = {}" "set ps \<union> held = all"
      "\<forall>p \<in> held. page_aligned p \<and> p \<noteq> NULL"
    by (auto simp: heap_inv_def)
  obtain ps' where ps': "ps = p # ps'" "kheap s' ps'"
    using km.alloc_OkD [OF ps(1) step_alloc.hyps] by blast
  have "page_aligned p \<and> p \<noteq> NULL" "p \<notin> set ps'"
    using kheap_page [OF ps(1), of p] kheap_distinct [OF ps(1)] ps'(1) by auto
  then show ?case
    using ps ps' unfolding heap_inv_def by (intro exI [of _ ps']) auto
next
  case (step_free p held s s')
  then obtain ps where ps: "kheap s ps" "set ps \<inter> held = {}" "set ps \<union> held = all"
      "\<forall>p \<in> held. page_aligned p \<and> p \<noteq> NULL"
    by (auto simp: heap_inv_def)
  with step_free.hyps have "kheap s' (p # ps)"
    using km.free_Cons [OF ps(1), of p] by auto
  then show ?case
    using ps step_free.hyps(1) unfolding heap_inv_def by (intro exI [of _ "p # ps"]) auto
next
  case (step_write held s m')
  then obtain ps where ps: "kheap s ps" "set ps \<inter> held = {}" "set ps \<union> held = all"
      "\<forall>p \<in> held. page_aligned p \<and> p \<noteq> NULL"
    by (auto simp: heap_inv_def)
  have "pgno ` held \<inter> pgno ` set ps = {}"
    using ps(2,4) kheap_page [OF ps(1)] by (auto simp: pgno_inject)
  then have "kheap (s\<lparr>mem := m'\<rparr>) ps"
    by (rule kheap_frame [OF ps(1) step_write.hyps])
  then show ?case
    using ps unfolding heap_inv_def by (intro exI [of _ ps]) auto
qed

lemma client_reach_heap_inv:
  "client_reach s0 c \<Longrightarrow> kheap s0 ps \<Longrightarrow> heap_inv (set ps) c"
proof (induction rule: client_reach.induct)
  case reach_start
  then show ?case by (auto simp: heap_inv_def)
next
  case (reach_step c c')
  then show ?case by (blast intro: client_step_heap_inv)
qed

section \<open>Properties\<close>

text \<open>
  Property C4: whatever the clients of \<^verbatim>\<open>kmalloc\<close>/\<^verbatim>\<open>kfree\<close> do with the pages they hold (allocate, give
  back, overwrite), \<^verbatim>\<open>kmalloc\<close> hands out only pages that were registered and that nobody holds, and
  it panics only when every registered page is held.
\<close>

theorem kmalloc_never_hands_out_held_page:
  assumes "kheap s0 ps" and "client_reach s0 (s, held)"
  shows "(\<forall>p s'. kmalloc s = Ok (p, s') \<longrightarrow> p \<in> set ps \<and> p \<notin> held) \<and>
    (\<not> returns (kmalloc s) \<longrightarrow> held = set ps)"
proof -
  obtain qs where q: "kheap s qs" "set qs \<inter> held = {}" "set qs \<union> held = set ps"
    using client_reach_heap_inv [OF assms(2,1)] by (auto simp: heap_inv_def)
  have "p \<in> set qs" if "kmalloc s = Ok (p, s')" for p s'
    using km.alloc_OkD [OF q(1) that] by auto
  moreover have "qs = []" if "\<not> returns (kmalloc s)"
    using km.alloc_Ok_iff [OF q(1)] that by simp
  ultimately show ?thesis using q by auto
qed

text \<open>A two-page heap, used by the witnesses.\<close>

definition sample_heap :: mstate where
  "sample_heap = \<lparr>mem = store32 (store32 (\<lambda>_. 0) 0xc0001000 0xc0002000) 0xc0002000 0, cr3 = 0,
     free_pages = 0xc0001000, num_allocated = 0\<rparr>"

lemma kheap_sample: "kheap sample_heap [0xc0001000, 0xc0002000]"
proof -
  have "load32 (store32 (store32 (\<lambda>_. 0) 0xc0001000 0xc0002000) 0xc0002000 0) 0xc0001000 = 0xc0002000"
    by (subst load32_store32_other) (simp_all add: word_aligned_def)
  then show ?thesis
    by (simp add: kheap_def sample_heap_def NULL_def page_aligned_def)
qed

theorem kmalloc_never_hands_out_held_page_witness:
  "\<exists>p s'. kmalloc sample_heap = Ok (p, s') \<and> p \<in> {0xc0001000, 0xc0002000} \<and> p \<notin> {}"
proof -
  obtain s' where "kmalloc sample_heap = Ok (0xc0001000, s')"
    using kmalloc_heap [OF kheap_sample] by blast
  then show ?thesis
    using kmalloc_never_hands_out_held_page [OF kheap_sample reach_start] by auto
qed

text \<open>
  \<^verbatim>\<open>register_free_mem(start, end)\<close> returns and puts exactly the whole pages inside the
  range in front of the free list, the highest page first; nothing before or after the range is
  registered.
\<close>

theorem register_free_mem_list:
  assumes "kheap s ps" and "pgno start < pgno end_addr" and "start \<noteq> 0"
    and "set (region_pages start end_addr) \<inter> set ps = {}"
  shows "\<exists>s'. register_free_mem s start end_addr = Ok s' \<and>
    kheap s' (rev (region_pages start end_addr) @ ps) \<and>
    (\<forall>p \<in> set (region_pages start end_addr). start \<le> p \<and> unat p + 4096 \<le> unat end_addr)"
proof -
  have "start \<le> p \<and> unat p + 4096 \<le> unat end_addr"
    if "p \<in> set (region_pages start end_addr)" for p
  proof -
    note p = region_pages_page [OF assms(2,3) that]
    have "unat start \<le> 4096 * ((unat start + 4095) div 4096)"
      using mult_div_mod_eq [of 4096 "unat start + 4095"] mod_less_divisor [of 4096 "unat start + 4095"]
      by linarith
    also have "\<dots> \<le> 4096 * pgno p"
      using p pgno_PG_ROUNDUP(1) [OF assms(2) pgno_lt] by simp
    finally have "start \<le> p"
      using p by (simp add: word_le_nat_alt page_aligned_unat)
    moreover have "4096 * pgno p + 4096 \<le> 4096 * pgno end_addr"
      using p by simp
    ultimately show ?thesis
      using p unat_pgno_bounds(1) [of end_addr] unfolding page_aligned_unat by linarith
  qed
  then show ?thesis using register_free_mem_spec [OF assms] by blast
qed

theorem register_free_mem_list_witness:
  "\<exists>s'. register_free_mem (sample_heap\<lparr>free_pages := 0\<rparr>) 0xc0100234 0xc0103010 = Ok s' \<and>
    kheap s' [0xc0102000, 0xc0101000]"
proof -
  have r: "region_pages 0xc0100234 0xc0103010 = [0xc0101000, 0xc0102000]"
    by (simp add: region_pages_def PG_ROUNDUP_def PGSIZE_def pgno_def page_range_def upt_rec)
  show ?thesis
    using register_free_mem_list [of "sample_heap\<lparr>free_pages := 0\<rparr>" "[]" "0xc0100234" "0xc0103010"]
    by (auto simp: r kheap_def NULL_def pgno_def)
qed

text \<open>
  Freeing a page and allocating again gives that same page back and leaves the free list
  as it was (last in, first out); nothing else changes in memory than the freed page.
\<close>

theorem kfree_kmalloc_roundtrip:
  assumes "kheap s ps" and "page_aligned p" and "p \<noteq> NULL" and "p \<notin> set ps"
  shows "\<exists>s' s''. kfree s p = Ok s' \<and> kmalloc s' = Ok (p, s'') \<and> kheap s'' ps \<and>
    changes_only {pgno p} (mem s) (mem s'')"
proof -
  obtain s' where s': "kfree s p = Ok s'" "kheap s' (p # ps)" "changes_only {pgno p} (mem s) (mem s')"
    using kfree_heap [OF assms] by blast
  moreover obtain s'' where "kmalloc s' = Ok (p, s'')" "kheap s'' ps" "mem s'' = mem s'"
    using kmalloc_heap [OF s'(2)] by blast
  ultimately show ?thesis by auto
qed

theorem kfree_kmalloc_roundtrip_witness:
  "\<exists>s' s''. kfree sample_heap 0xc0003000 = Ok s' \<and> kmalloc s' = Ok (0xc0003000, s'') \<and>
    kheap s'' [0xc0001000, 0xc0002000]"
  using kfree_kmalloc_roundtrip [OF kheap_sample, where p = "0xc0003000"]
  by (auto simp: page_aligned_def NULL_def)

end
