(* ===== verification/Paging.thy ===== *)
theory Paging
  imports Kmalloc
begin

text \<open>
  The two-level page tables of \<^verbatim>\<open>memory.c\<close>: \<^verbatim>\<open>walk_pgdir\<close>, \<^verbatim>\<open>map_page\<close>, \<^verbatim>\<open>unmap_page\<close> and the loops
  over them, on tables that live in the byte memory and are allocated with \<^verbatim>\<open>kmalloc\<close>. \<open>translate\<close>
  is what the processor's paging unit makes of a directory (32-bit mode with page size extensions,
  as \<^verbatim>\<open>start.asm\<close> sets it up). The lemmas relate the tables to a map from page numbers to entries:
  each operation updates that map at one page and takes at most one page from the free list. The
  locale \<open>page_mapper\<close> is that contract, and the loops are proved in it.
\<close>

section \<open>Constants of memory.h\<close>

definition KERN_BASE :: u32 where "KERN_BASE = 0xc0000000"
definition KERN_LINK :: u32 where "KERN_LINK = 0xc0100000"
definition KERN_BASE_PHYS :: u32 where "KERN_BASE_PHYS = 0x00000000"
definition KERN_TOP :: u32 where "KERN_TOP = 0xc8000000"
definition MMDEV_BASE :: u32 where "MMDEV_BASE = 0xfe000000"

definition VIRT_TO_PHYS :: "u32 \<Rightarrow> u32" where "VIRT_TO_PHYS va = va - KERN_BASE"
definition PHYS_TO_VIRT :: "u32 \<Rightarrow> u32" where "PHYS_TO_VIRT pa = pa + KERN_BASE"

definition PDE_P :: u32 where "PDE_P = 1"
definition PDE_RW :: u32 where "PDE_RW = 2"
definition PDE_US :: u32 where "PDE_US = 4"
definition PDE_PS :: u32 where "PDE_PS = 128"
definition PTE_P :: u32 where "PTE_P = PDE_P"
definition PTE_RW :: u32 where "PTE_RW = PDE_RW"
definition PTE_US :: u32 where "PTE_US = PDE_US"

lemmas entry_bits = PDE_P_def PDE_RW_def PDE_US_def PDE_PS_def PTE_P_def PTE_RW_def PTE_US_def

section \<open>Walking, mapping and unmapping one page\<close>

text \<open>
  \<open>pgdir + ((vaddr >> 22) & 0x3ff)\<close> and \<open>pgtab + ((vaddr >> 12) & 0x3ff)\<close> on pointers to
  4-byte entries, and the frame of an entry, \<^verbatim>\<open>*p & ~0xfff\<close>.
\<close>

definition pde_ptr :: "u32 \<Rightarrow> u32 \<Rightarrow> u32" where
  "pde_ptr pgdir vaddr = pgdir + 4 * (drop_bit 22 vaddr AND 0x3ff)"

definition pte_ptr :: "u32 \<Rightarrow> u32 \<Rightarrow> u32" where
  "pte_ptr pgtab vaddr = pgtab + 4 * (drop_bit 12 vaddr AND 0x3ff)"

definition frame :: "u32 \<Rightarrow> u32" where
  "frame e = e AND NOT 0xfff"

definition walk_pgdir :: "mem \<Rightarrow> u32 \<Rightarrow> u32 \<Rightarrow> u32" where
  "walk_pgdir m pgdir vaddr =
     (let pde = load32 m (pde_ptr pgdir vaddr)
      in if pde AND PDE_P = 0 then NULL else pte_ptr (PHYS_TO_VIRT (frame pde)) vaddr)"

definition map_page ::
    "'z mstate_scheme \<Rightarrow> u32 \<Rightarrow> u32 \<Rightarrow> u32 \<Rightarrow> u32 \<Rightarrow> 'z mstate_scheme outcome" where
  "map_page s pgdir vaddr paddr perm =
     (let pde_p = pde_ptr pgdir vaddr
      in bnd (if load32 (mem s) pde_p AND PDE_P = 0
              then bnd (kmalloc s) (\<lambda>(pgtab, s1).
                let m1 = memset (mem s1) pgtab 0 PGSIZE;
                    m2 = store32 m1 pde_p (VIRT_TO_PHYS pgtab OR PDE_P OR PDE_RW OR PDE_US)
                in Ok (pgtab, s1\<lparr>mem := m2\<rparr>))
              else Ok (PHYS_TO_VIRT (frame (load32 (mem s) pde_p)), s))
           (\<lambda>(pgtab, s2).
              Ok (s2\<lparr>mem := store32 (mem s2) (pte_ptr pgtab vaddr) (paddr OR PTE_P OR perm)\<rparr>)))"

definition unmap_page :: "'z mstate_scheme \<Rightarrow> u32 \<Rightarrow> u32 \<Rightarrow> 'z mstate_scheme outcome" where
  "unmap_page s pgdir vaddr =
     (let pde = load32 (mem s) (pde_ptr pgdir vaddr)
      in if pde AND PDE_P = 0
         then Panic ''unmap_page: unmapping page from an unallocated page table''
         else let pte_p = pte_ptr (PHYS_TO_VIRT (frame pde)) vaddr;
                  pte = load32 (mem s) pte_p
         in if pte AND PTE_P = 0
            then Panic ''unmap_page: unmapping an unmapped page''
            else bnd (kfree s (PHYS_TO_VIRT (frame pte)))
                   (\<lambda>s1. Ok (s1\<lparr>mem := store32 (mem s1) pte_p 0\<rparr>)))"

section \<open>Ranges of pages\<close>

definition map_memory ::
    "'z mstate_scheme \<Rightarrow> u32 \<Rightarrow> u32 \<Rightarrow> u32 \<Rightarrow> u32 \<Rightarrow> u32 \<Rightarrow> 'z mstate_scheme outcome" where
  "map_memory s pgdir vaddr paddr nbytes perm =
     (if nbytes = 0 then Panic ''map_memory: map 0 bytes''
      else let num_pages = PG_ROUNDUP nbytes div PGSIZE
      in loop_from 0 (unat num_pages)
           (\<lambda>i s. map_page s pgdir (vaddr + of_nat i * PGSIZE) (paddr + of_nat i * PGSIZE) perm) s)"

definition alloc_map_memory ::
    "'z mstate_scheme \<Rightarrow> u32 \<Rightarrow> u32 \<Rightarrow> u32 \<Rightarrow> u32 \<Rightarrow> 'z mstate_scheme outcome" where
  "alloc_map_memory s pgdir vaddr nbytes perm =
     (if nbytes = 0 then Panic ''alloc_map_memory: alloc and map 0 bytes''
      else let num_pages = PG_ROUNDUP nbytes div PGSIZE
      in loop_from 0 (unat num_pages)
           (\<lambda>i s. bnd (kmalloc s) (\<lambda>(pg, s1).
              map_page s1 pgdir (vaddr + of_nat i * PGSIZE) (VIRT_TO_PHYS pg) perm)) s)"

definition unmap_memory :: "'z mstate_scheme \<Rightarrow> u32 \<Rightarrow> u32 \<Rightarrow> u32 \<Rightarrow> 'z mstate_scheme outcome" where
  "unmap_memory s pgdir vaddr nbytes =
     (if nbytes = 0 then Panic ''unmap_memory: unmap 0 bytes''
      else let num_pages = PG_ROUNDUP nbytes div PGSIZE
      in loop_from 0 (unat num_pages)
           (\<lambda>i s. unmap_page s pgdir (vaddr + of_nat i * PGSIZE)) s)"

section \<open>What the processor makes of a page directory\<close>

text \<open>
  The translation of a linear address: the physical address, and whether the page may be written
  and whether user mode may access it (both levels of the walk must allow it).
\<close>

record xlation =
  xl_paddr :: u32
  xl_write :: bool
  xl_user :: bool

definition translate :: "mem \<Rightarrow> u32 \<Rightarrow> u32 \<Rightarrow> xlation option" where
  "translate m pgdir va =
     (let pde = load32 m (pde_ptr pgdir va)
      in if pde AND PDE_P = 0 then None
         else if pde AND PDE_PS \<noteq> 0
         then Some \<lparr>xl_paddr = (pde AND NOT 0x3fffff) + (va AND 0x3fffff),
                    xl_write = (pde AND PDE_RW \<noteq> 0), xl_user = (pde AND PDE_US \<noteq> 0)\<rparr>
         else let pte = load32 m (pte_ptr (PHYS_TO_VIRT (frame pde)) va)
         in if pte AND PTE_P = 0 then None
            else Some \<lparr>xl_paddr = frame pte + (va AND 0xfff),
                    xl_write = (pde AND pte AND PTE_RW \<noteq> 0),
                    xl_user = (pde AND pte AND PTE_US \<noteq> 0)\<rparr>)"

section \<open>Entries of a table\<close>

definition entry :: "mem \<Rightarrow> u32 \<Rightarrow> nat \<Rightarrow> u32" where
  "entry m t i = load32 m (t + of_nat (4 * i))"

definition pdx :: "u32 \<Rightarrow> nat" where "pdx va = pgno va div 1024"
definition ptx :: "u32 \<Rightarrow> nat" where "ptx va = pgno va mod 1024"

lemma pdx_lt [simp]: "pdx va < 1024"
  unfolding pdx_def by (rule less_mult_imp_div_less) (use pgno_lt [of va] in simp)

lemma ptx_lt [simp]: "ptx va < 1024"
  by (simp add: ptx_def)

lemma unat_and_0x3ff: "unat ((a :: u32) AND 0x3ff) = unat a mod 1024"
proof -
  have "unat (a AND 0x3ff) = unat a AND unat (0x3ff :: u32)"
    by (simp add: unsigned_and_eq)
  also have "\<dots> = unat a AND mask 10"
    by (simp add: mask_eq_exp_minus_1)
  also have "\<dots> = unat a mod 1024"
    by (simp add: take_bit_eq_mod flip: take_bit_eq_mask)
  finally show ?thesis .
qed

lemma pte_ptr_conv: "pte_ptr t va = t + of_nat (4 * ptx va)"
proof -
  have "unat (drop_bit 12 va) = pgno va"
    by (simp add: drop_bit_eq_div unat_div pgno_def)
  then have "unat (drop_bit 12 va AND 0x3ff) = ptx va"
    by (simp add: unat_and_0x3ff ptx_def)
  then have "drop_bit 12 va AND 0x3ff = (of_nat (ptx va) :: u32)"
    by (metis of_nat_unat ucast_id)
  then show ?thesis by (simp add: pte_ptr_def)
qed

lemma pde_ptr_conv: "pde_ptr t va = t + of_nat (4 * pdx va)"
proof -
  have "unat (drop_bit 22 va) = pdx va"
    by (simp add: drop_bit_eq_div unat_div pdx_def pgno_def flip: div_mult2_eq)
  then have "unat (drop_bit 22 va AND 0x3ff) = pdx va"
    by (simp add: unat_and_0x3ff)
  then have "drop_bit 22 va AND 0x3ff = (of_nat (pdx va) :: u32)"
    by (metis of_nat_unat ucast_id)
  then show ?thesis by (simp add: pde_ptr_def)
qed

lemma load32_pde: "load32 m (pde_ptr t va) = entry m t (pdx va)"
  by (simp add: pde_ptr_conv entry_def del: of_nat_mult)

lemma load32_pte: "load32 m (pte_ptr t va) = entry m t (ptx va)"
  by (simp add: pte_ptr_conv entry_def del: of_nat_mult)

lemma entry_address:
  assumes "page_aligned t" and "i < 1024"
  shows unat_entry_address: "unat (t + of_nat (4 * i)) = unat t + 4 * i"
    and word_aligned_entry_address: "word_aligned (t + of_nat (4 * i))"
    and pgno_entry_address: "pgno (t + of_nat (4 * i)) = pgno t"
proof -
  show un: "unat (t + of_nat (4 * i)) = unat t + 4 * i"
    by (rule unat_page_offset [OF assms(1)]) (use assms(2) in simp)
  show "word_aligned (t + of_nat (4 * i))"
    using assms(1) by (intro word_alignedI [where k = "1024 * pgno t + i"])
      (simp add: un page_aligned_unat del: of_nat_mult)
  show "pgno (t + of_nat (4 * i)) = pgno t"
    by (rule pgno_page_offset [OF assms(1)]) (use assms(2) in simp)
qed

text \<open>Storing one entry changes that entry and no other.\<close>

lemma entry_store32:
  assumes "page_aligned t" "i < 1024" "page_aligned u" "j < 1024"
  shows "entry (store32 m (t + of_nat (4 * i)) v) u j = (if t = u \<and> i = j then v else entry m u j)"
proof (cases "t = u \<and> i = j")
  case True
  then show ?thesis by (simp add: entry_def del: of_nat_mult)
next
  case False
  have "t + of_nat (4 * i) \<noteq> u + of_nat (4 * j)"
  proof
    assume eq: "t + of_nat (4 * i) = u + of_nat (4 * j)"
    then have "pgno t = pgno u"
      using assms pgno_entry_address by metis
    then have "t = u" using assms by (simp add: pgno_inject)
    moreover from this have "4 * i = 4 * j"
      using eq assms unat_entry_address by (metis add_left_cancel)
    ultimately show False using False by simp
  qed
  then show ?thesis
    using False assms unfolding entry_def
    by (auto simp: load32_store32_other word_aligned_entry_address simp del: of_nat_mult)
qed

lemma entry_changes_only:
  "changes_only P m m' \<Longrightarrow> page_aligned t \<Longrightarrow> i < 1024 \<Longrightarrow> pgno t \<notin> P \<Longrightarrow> entry m' t i = entry m t i"
  unfolding entry_def
  by (rule changes_only_load32) (simp_all add: word_aligned_entry_address pgno_entry_address del: of_nat_mult)

lemma entry_memset:
  assumes "page_aligned t" "page_aligned u" "j < 1024"
  shows "entry (memset m t 0 PGSIZE) u j = (if t = u then 0 else entry m u j)"
proof (cases "t = u")
  case True
  then show ?thesis
    using memset_page_load [OF assms(1,3)] by (simp add: entry_def del: of_nat_mult)
next
  case False
  then show ?thesis
    using entry_changes_only [OF memset_page_changes [OF assms(1)] assms(2,3)] assms
    by (simp add: pgno_inject)
qed

lemma changes_only_entry:
  "page_aligned t \<Longrightarrow> i < 1024 \<Longrightarrow> changes_only {pgno t} m (store32 m (t + of_nat (4 * i)) v)"
  using changes_only_store32 [OF word_aligned_entry_address] by (simp add: pgno_entry_address del: of_nat_mult)

section \<open>Bits of entries\<close>

lemma frame_conv: "frame e = PG_ROUNDDOWN e"
  unfolding frame_def PG_ROUNDDOWN_def PGSIZE_minus_1 ..

lemma page_aligned_frame [simp]: "page_aligned (frame e)"
  by (simp add: frame_conv)

lemma frame_aligned: "page_aligned a \<Longrightarrow> frame a = a"
  by (simp add: frame_conv PG_ROUNDDOWN_id)

lemma frame_or: "frame (a OR b) = frame a OR frame b"
  by (simp only: frame_def bit.conj_disj_distrib2)

lemma frame_bits [simp]:
  "frame PDE_P = 0" "frame PDE_RW = 0" "frame PDE_US = 0" "frame PTE_P = 0" "frame PTE_RW = 0"
  "frame PTE_US = 0"
  by (simp_all add: frame_def entry_bits)

text \<open>The low twelve bits of an entry do not depend on its frame.\<close>

lemma low_and:
  assumes "page_aligned x" and "b AND 0xfff = b"
  shows "(x OR y) AND b = y AND b"
proof -
  have "x AND b = (x AND 0xfff) AND b"
    using assms(2) by (metis and.assoc and.commute)
  also have "x AND 0xfff = 0" using assms(1) by (simp only: and_0xfff_eq_0)
  finally have "x AND b = 0" by simp
  then show ?thesis by (simp only: bit.conj_disj_distrib2 or.left_neutral)
qed

lemma or_AND_1: "(a OR 1 OR b) AND (1 :: u32) = 1"
  by (rule bit_word_eqI) (auto simp: bit_simps)

lemma present_or [simp]: "(a OR PTE_P OR b) AND PTE_P \<noteq> 0" "(a OR PDE_P OR b) AND PDE_P \<noteq> 0"
  by (simp_all add: entry_bits or_AND_1)

lemma page_aligned_KERN_BASE [simp]: "page_aligned KERN_BASE"
  by (simp add: KERN_BASE_def page_aligned_def)

lemma page_aligned_PHYS_TO_VIRT: "page_aligned a \<Longrightarrow> page_aligned (PHYS_TO_VIRT a)"
  by (simp add: PHYS_TO_VIRT_def page_aligned_add)

lemma page_aligned_VIRT_TO_PHYS: "page_aligned a \<Longrightarrow> page_aligned (VIRT_TO_PHYS a)"
proof -
  have "VIRT_TO_PHYS a = a + 0x40000000" by (simp add: VIRT_TO_PHYS_def KERN_BASE_def)
  moreover have "page_aligned 0x40000000" by (simp add: page_aligned_def)
  ultimately show "page_aligned a \<Longrightarrow> page_aligned (VIRT_TO_PHYS a)"
    by (simp add: page_aligned_add)
qed

lemma PHYS_TO_VIRT_inverse [simp]: "PHYS_TO_VIRT (VIRT_TO_PHYS a) = a" "VIRT_TO_PHYS (PHYS_TO_VIRT a) = a"
  by (simp_all add: PHYS_TO_VIRT_def VIRT_TO_PHYS_def)

section \<open>Page directories as maps\<close>

text \<open>The table a directory slot points to, and the entry for a page number.\<close>

definition ptab :: "mem \<Rightarrow> u32 \<Rightarrow> nat \<Rightarrow> u32 option" where
  "ptab m pd d = (let e = entry m pd d in
     if e AND PDE_P = 0 then None else Some (PHYS_TO_VIRT (frame e)))"

definition page_entry :: "mem \<Rightarrow> u32 \<Rightarrow> nat \<Rightarrow> u32 option" where
  "page_entry m pd v = (case ptab m pd (v div 1024) of None \<Rightarrow> None
     | Some t \<Rightarrow> let e = entry m t (v mod 1024) in if e AND PTE_P = 0 then None else Some e)"

definition tables :: "mem \<Rightarrow> u32 \<Rightarrow> u32 set" where
  "tables m pd = insert pd {t. \<exists>d < 1024. ptab m pd d = Some t}"

text \<open>
  A directory as the kernel builds them: its tables are pages of their own, no two slots share one,
  and every slot in use is writable, accessible from user mode and not a 4 MB page.
\<close>

definition table_slot :: "u32 \<Rightarrow> bool" where
  "table_slot e \<longleftrightarrow> e AND PDE_PS = 0 \<and> e AND PDE_RW \<noteq> 0 \<and> e AND PDE_US \<noteq> 0"

definition pgdir_ok :: "mem \<Rightarrow> u32 \<Rightarrow> bool" where
  "pgdir_ok m pd \<longleftrightarrow> page_aligned pd \<and>
     (\<forall>d < 1024. \<forall>t. ptab m pd d = Some t \<longrightarrow> t \<noteq> pd \<and> table_slot (entry m pd d)) \<and>
     (\<forall>d < 1024. \<forall>d' < 1024. \<forall>t. ptab m pd d = Some t \<longrightarrow> ptab m pd d' = Some t \<longrightarrow> d = d')"

lemma pgdir_okD:
  assumes "pgdir_ok m pd"
  shows "page_aligned pd" and "d < 1024 \<Longrightarrow> ptab m pd d = Some t \<Longrightarrow> t \<noteq> pd"
    and "d < 1024 \<Longrightarrow> ptab m pd d = Some t \<Longrightarrow> table_slot (entry m pd d)"
    and "d < 1024 \<Longrightarrow> d' < 1024 \<Longrightarrow> ptab m pd d = Some t \<Longrightarrow> ptab m pd d' = Some t \<Longrightarrow> d = d'"
  using assms unfolding pgdir_ok_def by blast+

lemma ptab_aligned: "ptab m pd d = Some t \<Longrightarrow> page_aligned t"
  by (auto simp: ptab_def Let_def page_aligned_PHYS_TO_VIRT split: if_splits)

lemma tables_aligned: "pgdir_ok m pd \<Longrightarrow> t \<in> tables m pd \<Longrightarrow> page_aligned t"
  by (auto simp: tables_def ptab_aligned dest: pgdir_okD(1))

lemma ptab_in_tables: "d < 1024 \<Longrightarrow> ptab m pd d = Some t \<Longrightarrow> t \<in> tables m pd"
  by (auto simp: tables_def)

lemma pd_in_tables [simp]: "pd \<in> tables m pd"
  by (simp add: tables_def)

lemma ptab_cong: "entry m' pd d = entry m pd d \<Longrightarrow> ptab m' pd d = ptab m pd d"
  by (simp add: ptab_def)

lemma pgdir_ok_cong:
  "pgdir_ok m pd \<Longrightarrow> (\<And>d. d < 1024 \<Longrightarrow> entry m' pd d = entry m pd d) \<Longrightarrow> pgdir_ok m' pd"
  unfolding pgdir_ok_def ptab_def by simp

lemma tables_cong:
  "(\<And>d. d < 1024 \<Longrightarrow> entry m' pd d = entry m pd d) \<Longrightarrow> tables m' pd = tables m pd"
  unfolding tables_def ptab_def by auto

text \<open>A write away from the directory and its tables changes nothing of the map.\<close>

lemma pgdir_frame:
  assumes "pgdir_ok m pd" and "changes_only P m m'" and "P \<inter> pgno ` tables m pd = {}"
  shows pgdir_frame_pd: "d < 1024 \<Longrightarrow> entry m' pd d = entry m pd d"
    and pgdir_frame_entry: "v < 1048576 \<Longrightarrow> page_entry m' pd v = page_entry m pd v"
proof -
  have al: "page_aligned pd" using assms(1) by (rule pgdir_okD)
  show pd: "entry m' pd d = entry m pd d" if "d < 1024" for d
    by (rule entry_changes_only [OF assms(2) al that]) (use assms(3) in auto)
  show "page_entry m' pd v = page_entry m pd v" if v: "v < 1048576"
  proof (cases "ptab m pd (v div 1024)")
    case None
    then show ?thesis using pd [of "v div 1024"] v by (simp add: page_entry_def ptab_def)
  next
    case (Some t)
    have d: "v div 1024 < 1024" using v by simp
    have "pgno t \<notin> P"
      using assms(3) ptab_in_tables [OF d Some] by auto
    then have "entry m' t (v mod 1024) = entry m t (v mod 1024)"
      by (intro entry_changes_only [OF assms(2) ptab_aligned [OF Some]]) auto
    then show ?thesis using ptab_cong [OF pd [OF d]] Some by (simp add: page_entry_def)
  qed
qed

lemma pgdir_frame_ok:
  "pgdir_ok m pd \<Longrightarrow> changes_only P m m' \<Longrightarrow> P \<inter> pgno ` tables m pd = {} \<Longrightarrow> pgdir_ok m' pd"
  using pgdir_ok_cong pgdir_frame_pd by metis

lemma pgdir_frame_tables:
  "pgdir_ok m pd \<Longrightarrow> changes_only P m m' \<Longrightarrow> P \<inter> pgno ` tables m pd = {} \<Longrightarrow>
   tables m' pd = tables m pd"
  using tables_cong pgdir_frame_pd by metis

text \<open>Writing an entry of an existing table updates the map at one page.\<close>

lemma set_entry:
  fixes e :: u32
  assumes ok: "pgdir_ok m pd" and v: "v < 1048576" and t: "ptab m pd (v div 1024) = Some t"
  defines "m' \<equiv> store32 m (t + of_nat (4 * (v mod 1024))) e"
  shows set_entry_pd: "d < 1024 \<Longrightarrow> entry m' pd d = entry m pd d"
    and set_entry_map: "w < 1048576 \<Longrightarrow> page_entry m' pd w =
      (if w = v then if e AND PTE_P = 0 then None else Some e else page_entry m pd w)"
    and set_entry_changes: "changes_only {pgno t} m m'"
proof -
  have d: "v div 1024 < 1024" using v by simp
  have al: "page_aligned pd" "page_aligned t"
    using pgdir_okD(1) [OF ok] ptab_aligned [OF t] by auto
  have ne: "t \<noteq> pd" using pgdir_okD(2) [OF ok d t] .
  have en: "entry m' u j = (if t = u \<and> v mod 1024 = j then e else entry m u j)"
    if "page_aligned u" "j < 1024" for u j
    unfolding m'_def by (rule entry_store32) (use al that in auto)
  show pd: "entry m' pd d = entry m pd d" if "d < 1024" for d
    using en [OF al(1) that] ne by simp
  show "changes_only {pgno t} m m'"
    unfolding m'_def by (rule changes_only_entry) (use al in auto)
  show "page_entry m' pd w =
      (if w = v then if e AND PTE_P = 0 then None else Some e else page_entry m pd w)"
    if w: "w < 1048576"
  proof (cases "ptab m pd (w div 1024)")
    case None
    then show ?thesis
      using ptab_cong [OF pd, of "w div 1024"] w t by (auto simp: page_entry_def)
  next
    case (Some u)
    have dw: "w div 1024 < 1024" using w by simp
    have "u = t \<longleftrightarrow> w div 1024 = v div 1024"
      using pgdir_okD(4) [OF ok dw d] Some t by auto
    moreover have "w = v \<longleftrightarrow> w div 1024 = v div 1024 \<and> w mod 1024 = v mod 1024"
      by (metis div_mult_mod_eq)
    ultimately show ?thesis
      using ptab_cong [OF pd [OF dw]] Some en [OF ptab_aligned [OF Some], of "w mod 1024"]
      by (auto simp: page_entry_def)
  qed
qed

text \<open>Hanging an empty table into a free slot changes nothing of the map.\<close>

lemma table_entry:
  assumes "page_aligned p"
  defines "e \<equiv> VIRT_TO_PHYS p OR PDE_P OR PDE_RW OR PDE_US"
  shows "table_slot e" and "e AND PDE_P \<noteq> 0" and "PHYS_TO_VIRT (frame e) = p"
  unfolding e_def
  by (simp_all add: table_slot_def low_and page_aligned_VIRT_TO_PHYS assms frame_or frame_aligned)
     (simp_all add: entry_bits low_and page_aligned_VIRT_TO_PHYS assms)

lemma add_table:
  assumes ok: "pgdir_ok m pd" and d0: "d0 < 1024" and none: "ptab m pd d0 = None"
    and p: "page_aligned p" "p \<notin> tables m pd"
  defines "m' \<equiv> store32 (memset m p 0 PGSIZE) (pd + of_nat (4 * d0))
    (VIRT_TO_PHYS p OR PDE_P OR PDE_RW OR PDE_US)"
  shows add_table_ptab: "d < 1024 \<Longrightarrow> ptab m' pd d = (if d = d0 then Some p else ptab m pd d)"
    and add_table_ok: "pgdir_ok m' pd"
    and add_table_tables: "tables m' pd = insert p (tables m pd)"
    and add_table_map: "w < 1048576 \<Longrightarrow> page_entry m' pd w = page_entry m pd w"
    and add_table_changes: "changes_only {pgno p, pgno pd} m m'"
proof -
  let ?e = "VIRT_TO_PHYS p OR PDE_P OR PDE_RW OR PDE_US"
  note te = table_entry [OF p(1)]
  have al: "page_aligned pd" using ok by (rule pgdir_okD)
  have ne: "p \<noteq> pd" using p(2) by auto
  have en: "entry m' u j = (if pd = u \<and> d0 = j then ?e else if p = u then 0 else entry m u j)"
    if "page_aligned u" "j < 1024" for u j
    unfolding m'_def entry_store32 [OF al d0 that] entry_memset [OF p(1) that] ..
  have pd: "entry m' pd d = (if d = d0 then ?e else entry m pd d)" if "d < 1024" for d
    using en [OF al that] ne by simp
  show pt: "ptab m' pd d = (if d = d0 then Some p else ptab m pd d)" if "d < 1024" for d
    using pd [OF that] te by (simp add: ptab_def)
  have new: "ptab m pd d \<noteq> Some p" if "d < 1024" for d
    using p(2) ptab_in_tables [OF that] by blast
  show "tables m' pd = insert p (tables m pd)"
    unfolding tables_def using pt d0 none by (auto split: if_splits) (metis option.distinct(1))
  show "pgdir_ok m' pd"
    unfolding pgdir_ok_def
    using ok pt pd te new ne by (auto simp: pgdir_ok_def split: if_splits)
  show "changes_only {pgno p, pgno pd} m m'"
    unfolding m'_def
    by (rule changes_only_trans [OF memset_page_changes [OF p(1)] changes_only_entry [OF al d0]]) auto
  show "page_entry m' pd w = page_entry m pd w" if w: "w < 1048576"
  proof (cases "w div 1024 = d0")
    case True
    then show ?thesis
      using pt [OF d0] none en [OF p(1), of "w mod 1024"] ne by (simp add: page_entry_def)
  next
    case False
    have dw: "w div 1024 < 1024" using w by simp
    have "entry m' u (w mod 1024) = entry m u (w mod 1024)" if "ptab m pd (w div 1024) = Some u" for u
      using en [OF ptab_aligned [OF that], of "w mod 1024"] new [OF dw] that
        pgdir_okD(2) [OF ok dw that] by auto
    then show ?thesis
      using pt [OF dw] False by (auto simp: page_entry_def split: option.splits)
  qed
qed

section \<open>One page, functionally\<close>

text \<open>
  The state in which a directory may be changed: the free list is intact, the directory is well
  formed, and none of its pages is free.
\<close>

definition aspace_ok :: "'z mstate_scheme \<Rightarrow> u32 \<Rightarrow> u32 list \<Rightarrow> bool" where
  "aspace_ok s pd ps \<longleftrightarrow> kheap s ps \<and> pgdir_ok (mem s) pd \<and> set ps \<inter> tables (mem s) pd = {}"

lemma aspace_okD:
  assumes "aspace_ok s pd ps"
  shows "kheap s ps" and "pgdir_ok (mem s) pd" and "p \<in> set ps \<Longrightarrow> p \<notin> tables (mem s) pd"
    and "pgno ` set ps \<inter> pgno ` tables (mem s) pd = {}"
proof -
  show a: "kheap s ps" "pgdir_ok (mem s) pd" "p \<in> set ps \<Longrightarrow> p \<notin> tables (mem s) pd" for p
    using assms by (auto simp: aspace_ok_def)
  show "pgno ` set ps \<inter> pgno ` tables (mem s) pd = {}"
    using a kheap_page [OF a(1)] tables_aligned [OF a(2)] by (auto simp: pgno_inject)
qed

text \<open>Writing an entry in an existing table.\<close>

lemma set_entry_aspace:
  fixes s :: "'z mstate_scheme" and e :: u32
  assumes ok: "aspace_ok s pd ps" and v: "v < 1048576" and t: "ptab (mem s) pd (v div 1024) = Some t"
  defines "s' \<equiv> s\<lparr>mem := store32 (mem s) (t + of_nat (4 * (v mod 1024))) e\<rparr>"
  shows "aspace_ok s' pd ps" and "tables (mem s') pd = tables (mem s) pd"
    and "changes_only (pgno ` tables (mem s) pd) (mem s) (mem s')"
proof -
  note D = aspace_okD [OF ok]
  have d: "v div 1024 < 1024" using v by simp
  have tt: "t \<in> tables (mem s) pd" by (rule ptab_in_tables [OF d t])
  have m': "mem s' = store32 (mem s) (t + of_nat (4 * (v mod 1024))) e"
    by (simp add: s'_def)
  note E = set_entry_pd [OF D(2) v t, of _ e, folded m']
  have "changes_only {pgno t} (mem s) (mem s')"
    unfolding m' by (rule set_entry_changes [OF D(2) v t])
  then show ch: "changes_only (pgno ` tables (mem s) pd) (mem s) (mem s')"
    by (rule changes_only_mono) (use tt in auto)
  show tb: "tables (mem s') pd = tables (mem s) pd"
    using E by (rule tables_cong)
  have "pgdir_ok (mem s') pd"
    using D(2) E by (rule pgdir_ok_cong)
  moreover have "kheap (s\<lparr>mem := mem s'\<rparr>) ps"
    by (rule kheap_frame [OF D(1) ch]) (use D(4) in auto)
  then have "kheap s' ps" by (simp add: s'_def)
  ultimately show "aspace_ok s' pd ps"
    using tb ok by (simp add: aspace_ok_def)
qed

lemma map_page_present:
  assumes "ptab (mem s) pd (pdx va) = Some t"
  shows "map_page s pd va pa perm =
    Ok (s\<lparr>mem := store32 (mem s) (t + of_nat (4 * ptx va)) (pa OR PTE_P OR perm)\<rparr>)"
  using assms
  by (auto simp: map_page_def Let_def load32_pde ptab_def pte_ptr_conv split: if_splits
      simp del: of_nat_mult)

lemma map_page_missing:
  assumes "ptab (mem s) pd (pdx va) = None" and "kmalloc s = Ok (p, s1)"
  shows "map_page s pd va pa perm =
    (let s2 = s1\<lparr>mem := store32 (memset (mem s1) p 0 PGSIZE) (pd + of_nat (4 * pdx va))
          (VIRT_TO_PHYS p OR PDE_P OR PDE_RW OR PDE_US)\<rparr>
     in Ok (s2\<lparr>mem := store32 (mem s2) (p + of_nat (4 * ptx va)) (pa OR PTE_P OR perm)\<rparr>))"
  using assms
  by (auto simp: map_page_def Let_def ptab_def entry_def pte_ptr_conv pde_ptr_conv split: if_splits
      simp del: of_nat_mult)

lemma map_page_no_memory:
  assumes "ptab (mem s) pd (pdx va) = None" and "kheap s []"
  shows "map_page s pd va pa perm = Panic ''kmalloc: no memory to allocate''"
  using assms
  by (auto simp: map_page_def Let_def load32_pde ptab_def kmalloc_empty split: if_splits)

text \<open>What \<^verbatim>\<open>map_page\<close> does to the map, the free list and the memory.\<close>

definition mapped_one ::
    "'z mstate_scheme \<Rightarrow> 'z mstate_scheme \<Rightarrow> u32 \<Rightarrow> u32 list \<Rightarrow> nat \<Rightarrow> u32 \<Rightarrow> bool" where
  "mapped_one s s' pd ps v e \<longleftrightarrow>
     aspace_ok s' pd (if ptab (mem s) pd (v div 1024) = None then tl ps else ps) \<and>
     tables (mem s') pd =
       tables (mem s) pd \<union> (if ptab (mem s) pd (v div 1024) = None then {hd ps} else {}) \<and>
     (\<forall>d < 1024. ptab (mem s') pd d = None \<longleftrightarrow> ptab (mem s) pd d = None \<and> d \<noteq> v div 1024) \<and>
     (\<forall>w < 1048576. page_entry (mem s') pd w = (if w = v then Some e else page_entry (mem s) pd w)) \<and>
     changes_only (pgno ` tables (mem s') pd) (mem s) (mem s') \<and>
     cr3 s' = cr3 s \<and> mstate.more s' = mstate.more s"

lemma map_page_present_spec:
  assumes ok: "aspace_ok s pd ps" and t: "ptab (mem s) pd (pdx va) = Some t"
  shows "\<exists>s'. map_page s pd va pa perm = Ok s' \<and>
    mapped_one s s' pd ps (pgno va) (pa OR PTE_P OR perm)"
proof -
  let ?e = "pa OR PTE_P OR perm"
  let ?s' = "s\<lparr>mem := store32 (mem s) (t + of_nat (4 * ptx va)) ?e\<rparr>"
  have t': "ptab (mem s) pd (pgno va div 1024) = Some t" using t by (simp add: pdx_def)
  note S = set_entry_aspace [OF ok pgno_lt t', of ?e, folded ptx_def]
  note E = set_entry_pd [OF aspace_okD(2) [OF ok] pgno_lt t', of _ ?e, folded ptx_def]
  note M = set_entry_map [OF aspace_okD(2) [OF ok] pgno_lt t', of _ ?e, folded ptx_def]
  have "mapped_one s ?s' pd ps (pgno va) ?e"
    unfolding mapped_one_def using S E M t' by (auto simp: ptab_def)
  then show ?thesis using map_page_present [OF t] by blast
qed

lemma map_page_missing_spec:
  assumes ok: "aspace_ok s pd (p # ps)" and none: "ptab (mem s) pd (pdx va) = None"
  shows "\<exists>s'. map_page s pd va pa perm = Ok s' \<and>
    mapped_one s s' pd (p # ps) (pgno va) (pa OR PTE_P OR perm)"
proof -
  let ?e = "pa OR PTE_P OR perm"
  note D = aspace_okD [OF ok]
  obtain s1 where s1: "kmalloc s = Ok (p, s1)" "kheap s1 ps" "mem s1 = mem s"
      "mstate.more s1 = mstate.more s" "cr3 s1 = cr3 s"
    using kmalloc_Cons [OF D(1)] kmalloc_heap [OF D(1)] by auto
  have p: "page_aligned p" "p \<notin> tables (mem s) pd" "p \<notin> set ps"
    using kheap_page [OF D(1), of p] D(3) [of p] kheap_distinct [OF D(1)] by auto
  define s2 where "s2 = s1\<lparr>mem := store32 (memset (mem s1) p 0 PGSIZE) (pd + of_nat (4 * pdx va))
    (VIRT_TO_PHYS p OR PDE_P OR PDE_RW OR PDE_US)\<rparr>"
  note A = add_table [OF D(2) pdx_lt none p(1,2)]
  have m2: "mem s2 = store32 (memset (mem s) p 0 PGSIZE) (pd + of_nat (4 * pdx va))
    (VIRT_TO_PHYS p OR PDE_P OR PDE_RW OR PDE_US)"
    by (simp add: s2_def s1)
  have ch: "changes_only {pgno p, pgno pd} (mem s) (mem s2)"
    unfolding m2 by (rule A)
  have tb2: "tables (mem s2) pd = insert p (tables (mem s) pd)"
    unfolding m2 by (rule A)
  have "pgno pd \<in> pgno ` tables (mem s) pd"
    by (rule imageI) simp
  moreover have "pgno p \<notin> pgno ` set ps"
    using p(1,3) kheap_page [OF D(1)] by (auto simp: pgno_inject)
  moreover have "pgno ` set ps \<inter> pgno ` tables (mem s) pd = {}"
    using D(4) by auto
  ultimately have "{pgno p, pgno pd} \<inter> pgno ` set ps = {}"
    by blast
  then have kh: "kheap s2 ps"
    unfolding s2_def using kheap_frame [OF s1(2), of _ "mem s2"] ch s1(3) by (simp add: s2_def)
  have ok2: "aspace_ok s2 pd ps"
    using kh tb2 A(2) [folded m2] p(3) D(3) by (auto simp: aspace_ok_def)
  have t2: "ptab (mem s2) pd (pgno va div 1024) = Some p"
    using A(1) [OF pdx_lt [of va], folded m2] by (simp add: pdx_def)
  define s' where "s' = s2\<lparr>mem := store32 (mem s2) (p + of_nat (4 * ptx va)) ?e\<rparr>"
  note S = set_entry_aspace [OF ok2 pgno_lt t2, of ?e, folded ptx_def, folded s'_def]
  have m': "mem s' = store32 (mem s2) (p + of_nat (4 * (pgno va mod 1024))) ?e"
    by (simp add: s'_def ptx_def)
  note E = set_entry_pd [OF aspace_okD(2) [OF ok2] pgno_lt t2, of _ ?e, folded m']
  note M = set_entry_map [OF aspace_okD(2) [OF ok2] pgno_lt t2, of _ ?e, folded m']
  have "changes_only (pgno ` tables (mem s') pd) (mem s) (mem s')"
    using ch S(3) unfolding S(2) tb2 by (auto elim: changes_only_trans)
  moreover have "ptab (mem s') pd d = None \<longleftrightarrow> ptab (mem s) pd d = None \<and> d \<noteq> pgno va div 1024"
    if "d < 1024" for d
    using A(1) [OF that, folded m2] E [OF that] by (simp add: ptab_def pdx_def)
  moreover have "page_entry (mem s') pd w = (if w = pgno va then Some ?e else page_entry (mem s) pd w)"
    if "w < 1048576" for w
    using M [OF that] A(4) [OF that, folded m2] by simp
  ultimately have "mapped_one s s' pd (p # ps) (pgno va) ?e"
    unfolding mapped_one_def using S(1,2) tb2 none s1 by (auto simp: pdx_def s'_def s2_def)
  moreover have "map_page s pd va pa perm = Ok s'"
    unfolding map_page_missing [OF none s1(1)] by (simp add: s'_def s2_def Let_def)
  ultimately show ?thesis by blast
qed

lemma map_page_spec:
  assumes "aspace_ok s pd ps" and "ptab (mem s) pd (pdx va) = None \<Longrightarrow> ps \<noteq> []"
  shows "\<exists>s'. map_page s pd va pa perm = Ok s' \<and>
    mapped_one s s' pd ps (pgno va) (pa OR PTE_P OR perm)"
proof (cases "ptab (mem s) pd (pdx va)")
  case None
  then obtain p qs where "ps = p # qs" using assms(2) by (cases ps) auto
  then show ?thesis using map_page_missing_spec [of s pd p qs] assms(1) None by blast
next
  case (Some t)
  then show ?thesis using map_page_present_spec [OF assms(1)] by blast
qed

text \<open>Unmapping frees the frame and clears the entry; both error branches panic.\<close>

lemma unmap_page_spec:
  assumes ok: "aspace_ok s pd ps" and e: "page_entry (mem s) pd (pgno va) = Some e"
    and u: "u = PHYS_TO_VIRT (frame e)" "u \<noteq> NULL" "u \<notin> set ps" "u \<notin> tables (mem s) pd"
  shows "\<exists>s'. unmap_page s pd va = Ok s' \<and> aspace_ok s' pd (u # ps) \<and>
    tables (mem s') pd = tables (mem s) pd \<and>
    (\<forall>d < 1024. entry (mem s') pd d = entry (mem s) pd d) \<and>
    (\<forall>w < 1048576. page_entry (mem s') pd w = (if w = pgno va then None else page_entry (mem s) pd w)) \<and>
    changes_only (insert (pgno u) (pgno ` tables (mem s) pd)) (mem s) (mem s') \<and>
    cr3 s' = cr3 s \<and> mstate.more s' = mstate.more s"
proof -
  note D = aspace_okD [OF ok]
  have al: "page_aligned u" by (simp add: u(1) page_aligned_PHYS_TO_VIRT)
  obtain t where t: "ptab (mem s) pd (pgno va div 1024) = Some t"
      and et: "entry (mem s) t (pgno va mod 1024) = e" "e AND PTE_P \<noteq> 0"
    using e by (auto simp: page_entry_def Let_def split: option.splits if_splits)
  define s1 where "s1 = s\<lparr>mem := store32 (mem s) u (free_pages s), free_pages := u\<rparr>"
  have k: "kfree s u = Ok s1" by (simp add: s1_def kfree_aligned [OF al])
  then have kh: "kheap s1 (u # ps)" and ch: "changes_only {pgno u} (mem s) (mem s1)"
    using kfree_heap [OF D(1) al u(2,3)] by auto
  have off: "{pgno u} \<inter> pgno ` tables (mem s) pd = {}"
    using u(4) al tables_aligned [OF D(2)] by (auto simp: pgno_inject)
  have tb1: "tables (mem s1) pd = tables (mem s) pd"
    by (rule pgdir_frame_tables [OF D(2) ch off])
  have e1: "entry (mem s1) pd d = entry (mem s) pd d" if "d < 1024" for d
    by (rule pgdir_frame_pd [OF D(2) ch off that])
  have ok1: "aspace_ok s1 pd (u # ps)"
    using kh tb1 pgdir_frame_ok [OF D(2) ch off] u(4) D(3) by (auto simp: aspace_ok_def)
  have t1: "ptab (mem s1) pd (pgno va div 1024) = Some t"
    using ptab_cong [OF e1, of "pgno va div 1024"] t pdx_lt [of va] by (simp add: pdx_def)
  define s' where "s' = s1\<lparr>mem := store32 (mem s1) (t + of_nat (4 * (pgno va mod 1024))) 0\<rparr>"
  have m': "mem s' = store32 (mem s1) (t + of_nat (4 * (pgno va mod 1024))) 0"
    by (simp add: s'_def)
  note S = set_entry_aspace [OF ok1 pgno_lt t1, of 0, folded s'_def]
  note E = set_entry_pd [OF aspace_okD(2) [OF ok1] pgno_lt t1, of _ 0, folded m']
  note M = set_entry_map [OF aspace_okD(2) [OF ok1] pgno_lt t1, of _ 0, folded m']
  have "changes_only (insert (pgno u) (pgno ` tables (mem s) pd)) (mem s) (mem s')"
    using ch S(3) unfolding tb1 by (auto elim: changes_only_trans)
  moreover have "unmap_page s pd va = Ok s'"
  proof -
    have pde: "load32 (mem s) (pde_ptr pd va) AND PDE_P \<noteq> 0"
        "PHYS_TO_VIRT (frame (load32 (mem s) (pde_ptr pd va))) = t"
      using t by (auto simp: load32_pde ptab_def pdx_def Let_def split: if_splits)
    have pte: "load32 (mem s) (pte_ptr t va) = e"
      using et by (simp add: load32_pte ptx_def)
    show ?thesis
      using pde pte et(2) k
      by (simp add: unmap_page_def Let_def flip: u(1))
        (simp add: s'_def pte_ptr_conv ptx_def)
  qed
  ultimately show ?thesis
    using S(1,2) tb1 E e1 M pgdir_frame_entry [OF D(2) ch off]
    by (intro exI [of _ s']) (auto simp: s'_def s1_def)
qed

lemma unmap_page_errors:
  shows "ptab (mem s) pd (pdx va) = None \<Longrightarrow>
      unmap_page s pd va = Panic ''unmap_page: unmapping page from an unallocated page table''"
    and "ptab (mem s) pd (pdx va) \<noteq> None \<Longrightarrow> page_entry (mem s) pd (pgno va) = None \<Longrightarrow>
      unmap_page s pd va = Panic ''unmap_page: unmapping an unmapped page''"
  by (auto simp: unmap_page_def Let_def load32_pde load32_pte page_entry_def pdx_def ptx_def ptab_def
      split: if_splits)

end
