(* ===== verification/AddrSpace.thy ===== *)
theory AddrSpace
  imports Paging
begin

text \<open>
  Whole address spaces: \<^verbatim>\<open>map_kernel\<close> with its table \<^verbatim>\<open>kernel_map\<close>, \<^verbatim>\<open>destroy_address_space\<close> and
  \<^verbatim>\<open>init_kernel_memory\<close> of \<^verbatim>\<open>memory.c\<close>. The locale \<open>page_mapper\<close> states what mapping one page
  promises, its extension \<open>page_source\<close> adds allocation, and the loops of \<^verbatim>\<open>map_memory\<close> and
  \<^verbatim>\<open>alloc_map_memory\<close> are verified inside them; both are interpreted on \<^verbatim>\<open>map_page\<close> and
  \<^verbatim>\<open>kmalloc\<close>. The properties say what a kernel directory translates, that building and destroying
  an address space gives every page back, and what goes wrong when one without a user page is
  destroyed.
\<close>

section \<open>Building and destroying\<close>

record map_info =
  mi_va :: u32
  mi_pa :: u32
  mi_size :: u32
  mi_perm :: u32

definition kernel_map :: "map_info list" where
  "kernel_map =
     [\<lparr>mi_va = 0, mi_pa = 0, mi_size = push_bit 20 1 * 4, mi_perm = PTE_RW\<rparr>,
      \<lparr>mi_va = KERN_BASE, mi_pa = KERN_BASE_PHYS, mi_size = MMDEV_BASE - KERN_BASE, mi_perm = PTE_RW\<rparr>,
      \<lparr>mi_va = MMDEV_BASE, mi_pa = MMDEV_BASE, mi_size = 0 - MMDEV_BASE, mi_perm = PTE_RW\<rparr>]"

definition map_kernel :: "'z mstate_scheme \<Rightarrow> (u32 \<times> 'z mstate_scheme) outcome" where
  "map_kernel s =
     bnd (kmalloc s) (\<lambda>(pgdir, s1).
     bnd (for_each (\<lambda>s mi. map_memory s pgdir (mi_va mi) (mi_pa mi) (mi_size mi) (mi_perm mi))
            kernel_map (s1\<lparr>mem := memset (mem s1) pgdir 0 PGSIZE\<rparr>)) (\<lambda>s2.
     Ok (pgdir, s2)))"

definition destroy_user_address_space :: "'z mstate_scheme \<Rightarrow> u32 \<Rightarrow> 'z mstate_scheme outcome" where
  "destroy_user_address_space s pgdir = unmap_memory s pgdir 0 PGSIZE"

definition destroy_address_space :: "'z mstate_scheme \<Rightarrow> u32 \<Rightarrow> 'z mstate_scheme outcome" where
  "destroy_address_space s pgdir =
     bnd (destroy_user_address_space s pgdir) (\<lambda>s1.
     bnd (loop_from 0 1024 (\<lambda>i s.
            let pde = load32 (mem s) (pgdir + of_nat (4 * i))
            in if pde AND PDE_P = 0 then Ok s else kfree s (PHYS_TO_VIRT (frame pde))) s1) (\<lambda>s2.
     kfree s2 pgdir))"

text \<open>\<^verbatim>\<open>lcr3\<close> of \<^verbatim>\<open>asm.h\<close> loads the physical address of a directory.\<close>

definition lcr3 :: "'z mstate_scheme \<Rightarrow> u32 \<Rightarrow> 'z mstate_scheme" where
  "lcr3 s pde = s\<lparr>cr3 := VIRT_TO_PHYS pde\<rparr>"

text \<open>\<^verbatim>\<open>init_kernel_memory\<close> also stores the directory in the global \<^verbatim>\<open>kpgdir\<close>, the value returned here.\<close>

definition init_kernel_memory :: "'z mstate_scheme \<Rightarrow> (u32 \<times> 'z mstate_scheme) outcome" where
  "init_kernel_memory s = bnd (map_kernel s) (\<lambda>(kpgdir, s1). Ok (kpgdir, lcr3 s1 kpgdir))"

section \<open>Mapping a range, for any way to map one page\<close>

definition slots :: "nat \<Rightarrow> nat \<Rightarrow> nat set" where
  "slots v n = (\<lambda>w. w div 1024) ` {v..<v + n}"

lemma slots_0 [simp]: "slots v 0 = {}"
  by (simp add: slots_def)

lemma slots_Suc: "slots v (Suc n) = insert ((v + n) div 1024) (slots v n)"
  by (simp add: slots_def atLeastLessThanSuc)

lemma slots_aligned: "slots (1024 * a) (1024 * b) = {a..<a + b}"
proof
  show "slots (1024 * a) (1024 * b) \<subseteq> {a..<a + b}"
    by (auto simp: slots_def less_eq_div_iff_mult_less_eq div_less_iff_less_mult algebra_simps)
  show "{a..<a + b} \<subseteq> slots (1024 * a) (1024 * b)"
  proof
    fix d assume "d \<in> {a..<a + b}"
    then show "d \<in> slots (1024 * a) (1024 * b)"
      unfolding slots_def by (intro image_eqI [where x = "1024 * d"]) auto
  qed
qed

text \<open>
  The contract of mapping one page: \<open>put s v a\<close> maps page number \<open>v\<close> to the physical page \<open>a\<close>. It
  needs a free page when the directory slot of \<open>v\<close> has no table yet, and then takes the first one.
\<close>

locale page_mapper =
  fixes put :: "'s \<Rightarrow> nat \<Rightarrow> u32 \<Rightarrow> 's outcome"
    and ok :: "'s \<Rightarrow> u32 list \<Rightarrow> bool"
    and missing :: "'s \<Rightarrow> nat set"
    and view :: "'s \<Rightarrow> nat \<Rightarrow> u32 option"
    and owned :: "'s \<Rightarrow> u32 set"
    and keeps :: "'s \<Rightarrow> 's \<Rightarrow> bool"
    and mk :: "u32 \<Rightarrow> u32"
  assumes put_ok: "ok s ps \<Longrightarrow> v < 1048576 \<Longrightarrow> (v div 1024 \<in> missing s \<Longrightarrow> ps \<noteq> []) \<Longrightarrow>
      \<exists>s'. put s v a = Ok s' \<and> ok s' (if v div 1024 \<in> missing s then tl ps else ps) \<and>
        missing s' = missing s - {v div 1024} \<and>
        owned s' = owned s \<union> (if v div 1024 \<in> missing s then {hd ps} else {}) \<and>
        (\<forall>w < 1048576. view s' w = (if w = v then Some (mk a) else view s w)) \<and> keeps s s'"
    and finite_missing: "finite (missing s)"
    and keeps_refl: "keeps s s"
    and keeps_trans: "keeps s t \<Longrightarrow> keeps t u \<Longrightarrow> keeps s u"
begin

lemma put_range:
  assumes "ok s ps" and "v + n \<le> 1048576" and "card (missing s \<inter> slots v n) \<le> length ps"
  shows "\<exists>s'. loop_from 0 n (\<lambda>i s. put s (v + i) (a i)) s = Ok s' \<and>
    ok s' (drop (card (missing s \<inter> slots v n)) ps) \<and> missing s' = missing s - slots v n \<and>
    owned s' = owned s \<union> set (take (card (missing s \<inter> slots v n)) ps) \<and>
    (\<forall>w < 1048576. view s' w =
      (if v \<le> w \<and> w < v + n then Some (mk (a (w - v))) else view s w)) \<and> keeps s s'"
  using assms(2,3)
proof (induction n)
  case 0
  then show ?case using assms(1) by (auto simp: keeps_refl)
next
  case (Suc n)
  let ?k = "card (missing s \<inter> slots v n)" and ?d = "(v + n) div 1024"
  have le: "?k \<le> card (missing s \<inter> slots v (Suc n))"
    using finite_missing by (intro card_mono) (auto simp: slots_Suc)
  then obtain t where t: "loop_from 0 n (\<lambda>i s. put s (v + i) (a i)) s = Ok t"
      "ok t (drop ?k ps)" "missing t = missing s - slots v n"
      "owned t = owned s \<union> set (take ?k ps)"
      "\<forall>w < 1048576. view t w = (if v \<le> w \<and> w < v + n then Some (mk (a (w - v))) else view s w)"
      "keeps s t"
    using Suc by auto
  have k': "card (missing s \<inter> slots v (Suc n)) = (if ?d \<in> missing t then Suc ?k else ?k)"
    using finite_missing [of s] by (auto simp: slots_Suc t(3) Int_insert_right insert_absorb)
  have "drop ?k ps \<noteq> []" if "?d \<in> missing t"
    using that k' Suc.prems(2) by simp
  moreover have "v + n < 1048576" using Suc.prems(1) by simp
  ultimately obtain s' where s': "put t (v + n) (a n) = Ok s'"
      "ok s' (if ?d \<in> missing t then tl (drop ?k ps) else drop ?k ps)"
      "missing s' = missing t - {?d}"
      "owned s' = owned t \<union> (if ?d \<in> missing t then {hd (drop ?k ps)} else {})"
      "\<forall>w < 1048576. view s' w = (if w = v + n then Some (mk (a n)) else view t w)" "keeps t s'"
    using put_ok [OF t(2), of "v + n" "a n"] by auto
  have "loop_from 0 (Suc n) (\<lambda>i s. put s (v + i) (a i)) s = Ok s'"
    using loop_from_add [of 0 n 1 "\<lambda>i s. put s (v + i) (a i)" s] t(1) s'(1) by simp
  moreover have "ok s' (drop (card (missing s \<inter> slots v (Suc n))) ps)"
    using s'(2) k' by (cases "?d \<in> missing t") (simp_all add: drop_Suc tl_drop)
  moreover have "owned s' = owned s \<union> set (take (card (missing s \<inter> slots v (Suc n))) ps)"
    using s'(4) t(4) k' Suc.prems(2)
    by (auto simp: take_Suc_conv_app_nth hd_drop_conv_nth split: if_splits)
  ultimately show ?case
    using s'(3,5,6) t(3,5,6) keeps_trans by (auto simp: slots_Suc)
qed

end

text \<open>The same with frames taken from an allocator that shares the state.\<close>

locale page_source = page_mapper +
  fixes alloc :: "'s \<Rightarrow> (u32 \<times> 's) outcome"
  assumes alloc_ok: "ok s (p # ps) \<Longrightarrow> \<exists>s'. alloc s = Ok (p, s') \<and> ok s' ps \<and>
      missing s' = missing s \<and> owned s' = owned s \<and> (\<forall>w < 1048576. view s' w = view s w) \<and> keeps s s'"
begin

lemma fill_range:
  assumes "ok s ps" and "v + n \<le> 1048576" and "n \<le> length ps" and "missing s \<inter> slots v n = {}"
  shows "\<exists>s'. loop_from 0 n (\<lambda>i s. bnd (alloc s) (\<lambda>(p, s1). put s1 (v + i) (VIRT_TO_PHYS p))) s = Ok s' \<and>
    ok s' (drop n ps) \<and> missing s' = missing s \<and> owned s' = owned s \<and>
    (\<forall>w < 1048576. view s' w =
      (if v \<le> w \<and> w < v + n then Some (mk (VIRT_TO_PHYS (ps ! (w - v)))) else view s w)) \<and> keeps s s'"
  using assms(2,3,4)
proof (induction n)
  case 0
  then show ?case using assms(1) by (auto simp: keeps_refl)
next
  case (Suc n)
  let ?body = "\<lambda>i s. bnd (alloc s) (\<lambda>(p, s1). put s1 (v + i) (VIRT_TO_PHYS p))"
  obtain t where t: "loop_from 0 n ?body s = Ok t" "ok t (drop n ps)" "missing t = missing s"
      "owned t = owned s" "\<forall>w < 1048576. view t w =
        (if v \<le> w \<and> w < v + n then Some (mk (VIRT_TO_PHYS (ps ! (w - v)))) else view s w)" "keeps s t"
    using Suc by (auto simp: slots_Suc)
  have dr: "drop n ps = ps ! n # drop (Suc n) ps"
    using Suc.prems(2) by (simp add: Cons_nth_drop_Suc)
  obtain t' where t': "alloc t = Ok (ps ! n, t')" "ok t' (drop (Suc n) ps)" "missing t' = missing t"
      "owned t' = owned t" "\<forall>w < 1048576. view t' w = view t w" "keeps t t'"
    using alloc_ok [OF t(2) [unfolded dr]] by auto
  have "(v + n) div 1024 \<notin> missing t'" "v + n < 1048576"
    using Suc.prems t(3) t'(3) by (auto simp: slots_Suc)
  then obtain s' where s': "put t' (v + n) (VIRT_TO_PHYS (ps ! n)) = Ok s'"
      "ok s' (drop (Suc n) ps)" "missing s' = missing t'" "owned s' = owned t'"
      "\<forall>w < 1048576. view s' w = (if w = v + n then Some (mk (VIRT_TO_PHYS (ps ! n))) else view t' w)"
      "keeps t' s'"
    using put_ok [OF t'(2), of "v + n" "VIRT_TO_PHYS (ps ! n)"] by auto
  have "loop_from 0 (Suc n) ?body s = Ok s'"
    using loop_from_add [of 0 n 1 ?body s] t(1) t'(1) s'(1) by simp
  moreover have "view s' w =
      (if v \<le> w \<and> w < v + Suc n then Some (mk (VIRT_TO_PHYS (ps ! (w - v)))) else view s w)"
    if "w < 1048576" for w
    using that s'(5) t'(5) t(5) by auto
  moreover have "keeps s s'"
    using keeps_trans [OF keeps_trans [OF t(6) t'(6)] s'(6)] .
  ultimately show ?case
    using s'(2,3,4) t(3,4) t'(3,4) by (intro exI [of _ s']) simp
qed

end

section \<open>The interpretation on the code's page tables\<close>

definition free_slots :: "u32 \<Rightarrow> 'z mstate_scheme \<Rightarrow> nat set" where
  "free_slots pd s = {d. d < 1024 \<and> ptab (mem s) pd d = None}"

definition grows :: "u32 \<Rightarrow> 'z mstate_scheme \<Rightarrow> 'z mstate_scheme \<Rightarrow> bool" where
  "grows pd s s' \<longleftrightarrow> tables (mem s) pd \<subseteq> tables (mem s') pd \<and>
     changes_only (pgno ` tables (mem s') pd) (mem s) (mem s') \<and>
     cr3 s' = cr3 s \<and> mstate.more s' = mstate.more s"

lemma grows_trans: "grows pd s t \<Longrightarrow> grows pd t u \<Longrightarrow> grows pd s u"
proof -
  assume a: "grows pd s t" "grows pd t u"
  then have sub: "pgno ` tables (mem t) pd \<subseteq> pgno ` tables (mem u) pd"
    by (simp add: grows_def image_mono)
  have "changes_only (pgno ` tables (mem u) pd) (mem s) (mem u)"
    by (rule changes_only_trans [of "pgno ` tables (mem t) pd" _ "mem t" "pgno ` tables (mem u) pd"])
      (use a sub in \<open>simp_all add: grows_def\<close>)
  then show ?thesis using a by (auto simp: grows_def)
qed

text \<open>The address of a page number.\<close>

definition vpage :: "nat \<Rightarrow> u32" where
  "vpage v = of_nat (4096 * v)"

lemma pgno_vpage: "v < 1048576 \<Longrightarrow> pgno (vpage v) = v"
  by (simp add: vpage_def pgno_def unat_of_nat del: of_nat_mult)

lemma vpage_pgno: "page_aligned a \<Longrightarrow> vpage (pgno a) = a"
  by (metis page_aligned_unat vpage_def of_nat_unat ucast_id)

lemma vpage_add: "vpage (v + i) = vpage v + of_nat i * PGSIZE"
  by (simp add: vpage_def PGSIZE_def algebra_simps)

interpretation pg: page_mapper
  "\<lambda>s v a. map_page s pd (vpage v) a perm" "\<lambda>s ps. aspace_ok s pd ps" "free_slots pd"
  "\<lambda>s. page_entry (mem s) pd" "\<lambda>s. tables (mem s) pd" "grows pd" "\<lambda>a. a OR PTE_P OR perm"
  for pd perm
proof unfold_locales
  fix s :: "'a mstate_scheme" and ps v a
  assume a: "aspace_ok s pd ps" "v < 1048576" "v div 1024 \<in> free_slots pd s \<Longrightarrow> ps \<noteq> []"
  have v: "pgno (vpage v) = v" "v div 1024 < 1024"
    using a(2) by (simp_all add: pgno_vpage)
  have fs: "v div 1024 \<in> free_slots pd s \<longleftrightarrow> ptab (mem s) pd (v div 1024) = None"
    using v by (simp add: free_slots_def)
  obtain s' where "map_page s pd (vpage v) a perm = Ok s'"
      and m: "mapped_one s s' pd ps v (a OR PTE_P OR perm)"
    using map_page_spec [OF a(1), of "vpage v" a perm] a(3) v by (auto simp: pdx_def fs)
  then show "\<exists>s'. map_page s pd (vpage v) a perm = Ok s' \<and>
      aspace_ok s' pd (if v div 1024 \<in> free_slots pd s then tl ps else ps) \<and>
      free_slots pd s' = free_slots pd s - {v div 1024} \<and>
      tables (mem s') pd = tables (mem s) pd \<union> (if v div 1024 \<in> free_slots pd s then {hd ps} else {}) \<and>
      (\<forall>w < 1048576. page_entry (mem s') pd w =
        (if w = v then Some (a OR PTE_P OR perm) else page_entry (mem s) pd w)) \<and> grows pd s s'"
    using m unfolding mapped_one_def fs
    by (intro exI [of _ s']) (auto simp: free_slots_def grows_def)
next
  show "finite (free_slots pd s)" for s :: "'a mstate_scheme"
    by (simp add: free_slots_def)
  show "grows pd s s" for s :: "'a mstate_scheme"
    by (simp add: grows_def)
  show "grows pd s t \<Longrightarrow> grows pd t u \<Longrightarrow> grows pd s u" for s t u :: "'a mstate_scheme"
    by (rule grows_trans)
qed

interpretation pga: page_source
  "\<lambda>s v a. map_page s pd (vpage v) a perm" "\<lambda>s ps. aspace_ok s pd ps" "free_slots pd"
  "\<lambda>s. page_entry (mem s) pd" "\<lambda>s. tables (mem s) pd" "grows pd" "\<lambda>a. a OR PTE_P OR perm" kmalloc
  for pd perm
proof unfold_locales
  fix s :: "'a mstate_scheme" and p ps
  assume a: "aspace_ok s pd (p # ps)"
  note D = aspace_okD [OF a]
  obtain s' where "kmalloc s = Ok (p, s')" "kheap s' ps" "mem s' = mem s" "cr3 s' = cr3 s"
      "mstate.more s' = mstate.more s"
    using kmalloc_heap [OF D(1)] kmalloc_Cons [OF D(1)] by auto
  then show "\<exists>s'. kmalloc s = Ok (p, s') \<and> aspace_ok s' pd ps \<and> free_slots pd s' = free_slots pd s \<and>
      tables (mem s') pd = tables (mem s) pd \<and>
      (\<forall>w < 1048576. page_entry (mem s') pd w = page_entry (mem s) pd w) \<and> grows pd s s'"
    using a by (auto simp: aspace_ok_def free_slots_def grows_def)
qed

section \<open>map_memory and alloc_map_memory\<close>

definition npages :: "u32 \<Rightarrow> nat" where
  "npages nbytes = unat (PG_ROUNDUP nbytes div PGSIZE)"

lemma npages_conv: "unat nbytes \<le> 4294963200 \<Longrightarrow> npages nbytes = (unat nbytes + 4095) div 4096"
  by (simp add: npages_def unat_div unat_PG_ROUNDUP)

lemma map_memory_loop:
  assumes "nbytes \<noteq> 0" and "page_aligned va"
  shows "map_memory s pd va pa nbytes perm =
    loop_from 0 (npages nbytes)
      (\<lambda>i s. map_page s pd (vpage (pgno va + i)) (pa + of_nat i * PGSIZE) perm) s"
  using assms by (simp add: map_memory_def npages_def Let_def vpage_add vpage_pgno)

lemma page_shift: "page_aligned pa \<Longrightarrow> pa + of_nat k * PGSIZE = vpage (pgno pa + k)"
  by (simp add: vpage_add vpage_pgno)

lemma map_memory_spec:
  assumes "aspace_ok s pd ps" and "nbytes \<noteq> 0" and "page_aligned va" and "page_aligned pa"
    and "pgno va + npages nbytes \<le> 1048576"
    and "card (free_slots pd s \<inter> slots (pgno va) (npages nbytes)) \<le> length ps"
  shows "\<exists>s'. map_memory s pd va pa nbytes perm = Ok s' \<and>
    aspace_ok s' pd (drop (card (free_slots pd s \<inter> slots (pgno va) (npages nbytes))) ps) \<and>
    free_slots pd s' = free_slots pd s - slots (pgno va) (npages nbytes) \<and>
    tables (mem s') pd = tables (mem s) pd \<union>
      set (take (card (free_slots pd s \<inter> slots (pgno va) (npages nbytes))) ps) \<and>
    (\<forall>w < 1048576. page_entry (mem s') pd w =
      (if pgno va \<le> w \<and> w < pgno va + npages nbytes
       then Some (vpage (pgno pa + (w - pgno va)) OR PTE_P OR perm)
       else page_entry (mem s) pd w)) \<and> grows pd s s'"
  unfolding map_memory_loop [OF assms(2,3)] page_shift [OF assms(4)]
  by (rule pg.put_range [OF assms(1,5,6), where a = "\<lambda>i. vpage (pgno pa + i)"])

lemma alloc_map_memory_loop:
  assumes "nbytes \<noteq> 0" and "page_aligned va"
  shows "alloc_map_memory s pd va nbytes perm =
    loop_from 0 (npages nbytes)
      (\<lambda>i s. bnd (kmalloc s) (\<lambda>(p, s1). map_page s1 pd (vpage (pgno va + i)) (VIRT_TO_PHYS p) perm)) s"
  using assms by (simp add: alloc_map_memory_def npages_def Let_def vpage_add vpage_pgno)

lemma alloc_map_memory_spec:
  assumes "aspace_ok s pd ps" and "nbytes \<noteq> 0" and "page_aligned va"
    and "pgno va + npages nbytes \<le> 1048576" and "npages nbytes \<le> length ps"
    and "free_slots pd s \<inter> slots (pgno va) (npages nbytes) = {}"
  shows "\<exists>s'. alloc_map_memory s pd va nbytes perm = Ok s' \<and>
    aspace_ok s' pd (drop (npages nbytes) ps) \<and> free_slots pd s' = free_slots pd s \<and>
    tables (mem s') pd = tables (mem s) pd \<and>
    (\<forall>w < 1048576. page_entry (mem s') pd w =
      (if pgno va \<le> w \<and> w < pgno va + npages nbytes
       then Some (VIRT_TO_PHYS (ps ! (w - pgno va)) OR PTE_P OR perm)
       else page_entry (mem s) pd w)) \<and> grows pd s s'"
  unfolding alloc_map_memory_loop [OF assms(2,3)]
  by (rule pga.fill_range [OF assms(1,4,5,6)])

section \<open>map_kernel\<close>

lemma fresh_pgdir:
  assumes "kheap s (p # ps)" and "kmalloc s = Ok (p, s1)"
  defines "s2 \<equiv> s1\<lparr>mem := memset (mem s1) p 0 PGSIZE\<rparr>"
  shows "aspace_ok s2 p ps" and "free_slots p s2 = {..<1024}" and "tables (mem s2) p = {p}"
    and "w < 1048576 \<Longrightarrow> page_entry (mem s2) p w = None"
    and "changes_only {pgno p} (mem s) (mem s2)" and "cr3 s2 = cr3 s"
    and "mstate.more s2 = mstate.more s"
proof -
  have p: "page_aligned p" "p \<notin> set ps" "\<And>q. q \<in> set ps \<Longrightarrow> page_aligned q"
    using kheap_page [OF assms(1)] kheap_distinct [OF assms(1)] by auto
  have s1: "kheap s1 ps" "mem s1 = mem s" "cr3 s1 = cr3 s" "mstate.more s1 = mstate.more s"
    using kmalloc_heap [OF assms(1)] kmalloc_Cons [OF assms(1)] assms(2) by auto
  have e: "entry (mem s2) p d = 0" if "d < 1024" for d
    unfolding s2_def using entry_memset [OF p(1,1) that] by simp
  then have pt: "ptab (mem s2) p d = None" if "d < 1024" for d
    using that by (simp add: ptab_def)
  show ch: "changes_only {pgno p} (mem s) (mem s2)"
    unfolding s2_def using memset_page_changes [OF p(1)] s1(2) by simp
  show tb: "tables (mem s2) p = {p}"
    using pt by (auto simp: tables_def)
  have "{pgno p} \<inter> pgno ` set ps = {}"
    using p by (auto simp: pgno_inject)
  then have "kheap s2 ps"
    unfolding s2_def using kheap_frame [OF s1(1)] ch [unfolded s2_def] s1(2) by simp
  moreover have "pgdir_ok (mem s2) p"
    using p(1) pt by (simp add: pgdir_ok_def)
  ultimately show "aspace_ok s2 p ps"
    using tb p(2) by (simp add: aspace_ok_def)
  show "free_slots p s2 = {..<1024}" using pt by (auto simp: free_slots_def)
  show "w < 1048576 \<Longrightarrow> page_entry (mem s2) p w = None" using pt by (simp add: page_entry_def)
  show "cr3 s2 = cr3 s" "mstate.more s2 = mstate.more s" using s1 by (simp_all add: s2_def)
qed

text \<open>The entries of a kernel directory: three ranges, none accessible from user mode.\<close>

definition kernel_entry :: "nat \<Rightarrow> u32 option" where
  "kernel_entry w =
     (if w < 0x400 then Some (vpage w OR PTE_P OR PTE_RW)
      else if 0xc0000 \<le> w \<and> w < 0xfe000 then Some (vpage (w - 0xc0000) OR PTE_P OR PTE_RW)
      else if 0xfe000 \<le> w then Some (vpage w OR PTE_P OR PTE_RW)
      else None)"

definition kernel_tables :: nat where
  "kernel_tables = 257"

lemma kernel_map_ranges:
  "npages (push_bit 20 1 * 4) = 1024 * 1" "npages (MMDEV_BASE - KERN_BASE) = 1024 * 248"
  "npages (0 - MMDEV_BASE) = 1024 * 8"
  "pgno 0 = 1024 * 0" "pgno KERN_BASE = 1024 * 768" "pgno MMDEV_BASE = 1024 * 1016"
  "pgno KERN_BASE_PHYS = 1024 * 0"
  by (simp_all add: npages_conv MMDEV_BASE_def KERN_BASE_def KERN_BASE_PHYS_def pgno_def)

lemma card_slots: "a + b \<le> 1024 \<Longrightarrow> free = {..<1024} - used \<Longrightarrow> used \<inter> {a..<a + b} = {} \<Longrightarrow>
    card (free \<inter> slots (1024 * a) (1024 * b)) = b"
proof -
  assume "a + b \<le> 1024" "free = {..<1024} - used" "used \<inter> {a..<a + b} = {}"
  then have "free \<inter> slots (1024 * a) (1024 * b) = {a..<a + b}"
    by (auto simp: slots_aligned)
  then show ?thesis by simp
qed

lemma map_kernel_spec:
  assumes "kheap s (pd # ps)" and "kernel_tables \<le> length ps"
  shows "\<exists>s'. map_kernel s = Ok (pd, s') \<and> aspace_ok s' pd (drop kernel_tables ps) \<and>
    tables (mem s') pd = insert pd (set (take kernel_tables ps)) \<and>
    free_slots pd s' = {..<1024} - ({0} \<union> {768..<1024}) \<and>
    (\<forall>w < 1048576. page_entry (mem s') pd w = kernel_entry w) \<and> 
    changes_only (pgno ` tables (mem s') pd) (mem s) (mem s') \<and>
    cr3 s' = cr3 s \<and> mstate.more s' = mstate.more s"
proof -
  obtain s1 where k: "kmalloc s = Ok (pd, s1)" using kmalloc_heap [OF assms(1)] by blast
  let ?s0 = "s1\<lparr>mem := memset (mem s1) pd 0 PGSIZE\<rparr>"
  note F = fresh_pgdir [OF assms(1) k]
  have len: "1 \<le> length ps" "248 \<le> length ps - Suc 0" "8 \<le> length ps - 249"
    using assms(2) by (simp_all add: kernel_tables_def)
  \<comment> \<open>[0, 4 MB)\<close>
  have c1: "card (free_slots pd ?s0 \<inter> slots (1024 * 0) (1024 * 1)) = 1"
    by (rule card_slots [where used = "{}"]) (simp_all add: F(2))
  obtain t1 where t1: "map_memory ?s0 pd 0 0 (push_bit 20 1 * 4) PTE_RW = Ok t1"
      "aspace_ok t1 pd (drop 1 ps)" "free_slots pd t1 = {..<1024} - {0}"
      "tables (mem t1) pd = {pd} \<union> set (take 1 ps)"
      "\<forall>w < 1048576. page_entry (mem t1) pd w =
        (if w < 1024 then Some (vpage w OR PTE_P OR PTE_RW) else None)" "grows pd ?s0 t1"
    using map_memory_spec [OF F(1), of "push_bit 20 1 * 4" 0 0 PTE_RW, unfolded kernel_map_ranges c1] len
      F(2,3,4) slots_aligned [of 0 1]
    by (auto simp: page_aligned_def pgno_def)
  \<comment> \<open>the direct map\<close>
  have c2: "card (free_slots pd t1 \<inter> slots (1024 * 768) (1024 * 248)) = 248"
    by (rule card_slots [where used = "{0}"]) (simp_all add: t1(3))
  obtain t2 where t2: "map_memory t1 pd KERN_BASE KERN_BASE_PHYS (MMDEV_BASE - KERN_BASE) PTE_RW = Ok t2"
      "aspace_ok t2 pd (drop 248 (drop 1 ps))"
      "free_slots pd t2 = {..<1024} - {0} - slots (1024 * 768) (1024 * 248)"
      "tables (mem t2) pd = tables (mem t1) pd \<union> set (take 248 (drop 1 ps))"
      "\<forall>w < 1048576. page_entry (mem t2) pd w =
        (if 786432 \<le> w \<and> w < 1040384 then Some (vpage (w - 786432) OR PTE_P OR PTE_RW)
         else page_entry (mem t1) pd w)" "grows pd t1 t2"
    using map_memory_spec [OF t1(2), of "MMDEV_BASE - KERN_BASE" KERN_BASE KERN_BASE_PHYS PTE_RW,
        unfolded kernel_map_ranges c2] len t1(3)
    by (auto simp: KERN_BASE_PHYS_def MMDEV_BASE_def KERN_BASE_def page_aligned_def pgno_def
        cong: if_cong)
  have f2: "free_slots pd t2 = {..<1024} - ({0} \<union> {768..<1016})"
    unfolding t2(3) slots_aligned by auto
  \<comment> \<open>the memory mapped devices\<close>
  have c3: "card (free_slots pd t2 \<inter> slots (1024 * 1016) (1024 * 8)) = 8"
    by (rule card_slots [where used = "{0} \<union> {768..<1016}"]) (auto simp: f2)
  have al: "page_aligned MMDEV_BASE" by (simp add: MMDEV_BASE_def page_aligned_def)
  obtain t3 where t3: "map_memory t2 pd MMDEV_BASE MMDEV_BASE (0 - MMDEV_BASE) PTE_RW = Ok t3"
      "aspace_ok t3 pd (drop 8 (drop 248 (drop 1 ps)))"
      "free_slots pd t3 = free_slots pd t2 - slots (1024 * 1016) (1024 * 8)"
      "tables (mem t3) pd = tables (mem t2) pd \<union> set (take 8 (drop 248 (drop 1 ps)))"
      "\<forall>w < 1048576. page_entry (mem t3) pd w =
        (if 1040384 \<le> w then Some (vpage w OR PTE_P OR PTE_RW)
         else page_entry (mem t2) pd w)" "grows pd t2 t3"
    using map_memory_spec [OF t2(2), of "0 - MMDEV_BASE" MMDEV_BASE MMDEV_BASE PTE_RW,
        unfolded kernel_map_ranges c3] len al
    by (auto simp: MMDEV_BASE_def cong: if_cong)
  have "map_kernel s = Ok (pd, t3)"
    using t1(1) t2(1) t3(1) by (simp add: map_kernel_def kernel_map_def k)
  moreover have "aspace_ok t3 pd (drop kernel_tables ps)"
    using t3(2) by (simp add: kernel_tables_def)
  moreover have "tables (mem t3) pd = insert pd (set (take kernel_tables ps))"
  proof -
    have "take 257 ps = take 1 ps @ take 248 (drop 1 ps) @ take 8 (drop 248 (drop 1 ps))"
      using take_add [of 1 256 ps] take_add [of 248 8 "drop 1 ps"] by simp
    then have "set (take 257 ps) =
        set (take 1 ps) \<union> set (take 248 (drop 1 ps)) \<union> set (take 8 (drop 248 (drop 1 ps)))"
      by (simp only: set_append Un_assoc)
    then show ?thesis
      unfolding kernel_tables_def t3(4) t2(4) t1(4) by blast
  qed
  moreover have "free_slots pd t3 = {..<1024} - ({0} \<union> {768..<1024})"
    unfolding t3(3) f2 slots_aligned by auto
  moreover have "\<forall>w < 1048576. page_entry (mem t3) pd w = kernel_entry w"
    using t1(5) t2(5) t3(5) by (auto simp: kernel_entry_def)
  moreover have "grows pd ?s0 t3"
    by (rule grows_trans [OF grows_trans [OF t1(6) t2(6)] t3(6)])
  then have "changes_only (pgno ` tables (mem t3) pd) (mem s) (mem t3) \<and> cr3 t3 = cr3 s \<and>
      mstate.more t3 = mstate.more s"
    using F(5,6,7) by (auto simp: grows_def elim: changes_only_trans)
  ultimately show ?thesis by blast
qed

section \<open>What a directory translates\<close>

lemma and_single_bit: "x AND b \<noteq> 0 \<Longrightarrow> x AND b = b" if "b = PDE_RW \<or> b = PDE_US" for x :: u32
proof -
  have "b = push_bit 1 1 \<or> b = push_bit 2 1"
    using that by (auto simp: entry_bits)
  then obtain n where n: "b = push_bit n 1" by blast
  assume "x AND b \<noteq> 0"
  then have "bit x n"
    unfolding n by (auto simp: and_exp_eq_0_iff_not_bit push_bit_eq_mult)
  then show "x AND b = b"
    unfolding n by (intro bit_word_eqI) (auto simp: bit_simps)
qed

lemma translate_page_entry:
  assumes "pgdir_ok m pd"
  shows "translate m pd va = map_option (\<lambda>e. \<lparr>xl_paddr = frame e + (va AND 0xfff),
    xl_write = (e AND PTE_RW \<noteq> 0), xl_user = (e AND PTE_US \<noteq> 0)\<rparr>) (page_entry m pd (pgno va))"
proof (cases "ptab m pd (pdx va)")
  case None
  then show ?thesis
    by (auto simp: translate_def load32_pde page_entry_def ptab_def pdx_def Let_def split: if_splits)
next
  case (Some t)
  let ?d = "entry m pd (pdx va)"
  have ts: "table_slot ?d" using pgdir_okD(3) [OF assms _ Some] by simp
  have bits: "?d AND e AND PTE_RW = e AND PTE_RW" "?d AND e AND PTE_US = e AND PTE_US" for e
    using and_single_bit [of PDE_RW ?d] and_single_bit [of PDE_US ?d] ts
    unfolding table_slot_def PTE_RW_def PTE_US_def by (metis and.assoc and.commute)+
  have "?d AND PDE_P \<noteq> 0" "PHYS_TO_VIRT (frame ?d) = t"
    using Some by (auto simp: ptab_def Let_def split: if_splits)
  moreover have "?d AND PDE_PS = 0" using ts by (simp add: table_slot_def)
  ultimately show ?thesis
    using Some bits
    by (simp add: translate_def load32_pde load32_pte page_entry_def Let_def pdx_def ptx_def)
qed

text \<open>What the three ranges of \<^verbatim>\<open>kernel_map\<close> mean for an address.\<close>

definition kernel_xlation :: "u32 \<Rightarrow> xlation option" where
  "kernel_xlation va =
     (if va < 0x400000 then Some \<lparr>xl_paddr = va, xl_write = True, xl_user = False\<rparr>
      else if va < KERN_BASE then None
      else if va < MMDEV_BASE
      then Some \<lparr>xl_paddr = VIRT_TO_PHYS va, xl_write = True, xl_user = False\<rparr>
      else Some \<lparr>xl_paddr = va, xl_write = True, xl_user = False\<rparr>)"

lemma page_offset_sum: "vpage (pgno va) + (va AND 0xfff) = va"
proof -
  have "vpage (pgno va) = va AND NOT 0xfff"
  proof -
    have "vpage (pgno va) = PG_ROUNDDOWN va"
      using vpage_pgno [of "PG_ROUNDDOWN va"] by simp
    then show ?thesis by (simp only: PG_ROUNDDOWN_def PGSIZE_minus_1)
  qed
  then show ?thesis by (simp only: and_not_add_and)
qed

lemma kernel_bits:
  "page_aligned x \<Longrightarrow> frame (x OR PTE_P OR PTE_RW) = x"
  "page_aligned x \<Longrightarrow> (x OR PTE_P OR PTE_RW) AND PTE_RW \<noteq> 0"
  "page_aligned x \<Longrightarrow> (x OR PTE_P OR PTE_RW) AND PTE_US = 0"
proof -
  assume x: "page_aligned x"
  show "frame (x OR PTE_P OR PTE_RW) = x"
    using x by (simp add: frame_or frame_aligned)
  show "(x OR PTE_P OR PTE_RW) AND PTE_RW \<noteq> 0" "(x OR PTE_P OR PTE_RW) AND PTE_US = 0"
    using low_and [OF x, of PTE_RW] low_and [OF x, of PTE_US] by (simp_all add: entry_bits)
qed

lemma page_aligned_vpage: "v < 1048576 \<Longrightarrow> page_aligned (vpage v)"
  by (simp add: vpage_def page_aligned_def unat_of_nat del: of_nat_mult)

lemma kernel_entry_xlation:
  assumes "pgdir_ok m pd" and "page_entry m pd (pgno va) = kernel_entry (pgno va)"
  shows "translate m pd va = kernel_xlation va"
proof -
  let ?v = "pgno va"
  have v: "?v < 1048576" by (rule pgno_lt)
  have cmp: "va < 0x400000 \<longleftrightarrow> ?v < 0x400" "va < KERN_BASE \<longleftrightarrow> ?v < 0xc0000"
      "va < MMDEV_BASE \<longleftrightarrow> ?v < 0xfe000"
    using unat_pgno_bounds [of va]
    by (auto simp: word_less_nat_alt KERN_BASE_def MMDEV_BASE_def)
  have al: "page_aligned (vpage ?v)" "page_aligned (vpage (?v - 0xc0000))"
    using v by (simp_all add: page_aligned_vpage)
  have sub: "vpage (?v - 0xc0000) + (va AND 0xfff) = VIRT_TO_PHYS va" if "0xc0000 \<le> ?v"
  proof -
    have "vpage ?v = vpage (?v - 0xc0000) + KERN_BASE"
      using vpage_add [of "?v - 0xc0000" "0xc0000"] that by (simp add: PGSIZE_def KERN_BASE_def)
    then show ?thesis
      using page_offset_sum [of va] by (simp add: VIRT_TO_PHYS_def algebra_simps)
  qed
  show ?thesis
    unfolding translate_page_entry [OF assms(1)] assms(2) kernel_xlation_def cmp kernel_entry_def
    using kernel_bits [OF al(1)] kernel_bits [OF al(2)] page_offset_sum [of va] sub
    by auto
qed

section \<open>Properties\<close>

lemma frame_add_offset: "page_aligned p \<Longrightarrow> frame (p + (va AND 0xfff)) = p"
proof -
  assume p: "page_aligned p"
  have "va AND 0xfff = of_nat (unat va mod 4096)"
    by (metis unat_and_0xfff of_nat_unat ucast_id)
  moreover have "pgno (p + of_nat (unat va mod 4096)) = pgno p"
    by (rule pgno_page_offset [OF p]) simp
  ultimately have "pgno (frame (p + (va AND 0xfff))) = pgno p"
    by (simp add: frame_conv)
  then show ?thesis using p by (simp add: pgno_inject)
qed

lemma entry_fields:
  assumes "page_aligned pa" and "frame perm = 0" and "b = PTE_RW \<or> b = PTE_US"
  shows "frame (pa OR PTE_P OR perm) = pa" and "(pa OR PTE_P OR perm) AND b = perm AND b"
proof -
  show "frame (pa OR PTE_P OR perm) = pa"
    using assms(1,2) by (simp add: frame_or frame_aligned)
  have "b AND 0xfff = b" "PTE_P AND b = 0" using assms(3) by (auto simp: entry_bits)
  then show "(pa OR PTE_P OR perm) AND b = perm AND b"
    using low_and [OF assms(1)] by (simp add: bit.conj_disj_distrib2)
qed

text \<open>
  Property C5: \<^verbatim>\<open>map_page\<close> makes the processor translate every address of the page to the frame it was
  given, with exactly the permissions asked for, and changes the translation of no other page; the
  directory stays well formed and takes at most one page from the free list.
\<close>

theorem map_page_translates:
  assumes ok: "aspace_ok s pd (p # ps)" and pa: "page_aligned pa" and perm: "frame perm = 0"
  shows "\<exists>s' qs. map_page s pd va pa perm = Ok s' \<and> aspace_ok s' pd qs \<and> (qs = ps \<or> qs = p # ps) \<and>
    (\<forall>a. translate (mem s') pd a =
      (if pgno a = pgno va
       then Some \<lparr>xl_paddr = pa + (a AND 0xfff), xl_write = (perm AND PTE_RW \<noteq> 0),
                  xl_user = (perm AND PTE_US \<noteq> 0)\<rparr>
       else translate (mem s) pd a))"
proof -
  obtain s' where s': "map_page s pd va pa perm = Ok s'"
      and m: "mapped_one s s' pd (p # ps) (pgno va) (pa OR PTE_P OR perm)"
    using map_page_spec [OF ok] by blast
  let ?qs = "if ptab (mem s) pd (pgno va div 1024) = None then ps else p # ps"
  have ok': "aspace_ok s' pd ?qs"
      "page_entry (mem s') pd w = (if w = pgno va then Some (pa OR PTE_P OR perm) else page_entry (mem s) pd w)"
    if "w < 1048576" for w
    using m that by (auto simp: mapped_one_def split: if_splits)
  note tr = translate_page_entry [OF aspace_okD(2) [OF ok]]
    translate_page_entry [OF aspace_okD(2) [OF ok'(1) [OF pgno_lt]]]
  show ?thesis
    using s' ok'(1) [OF pgno_lt] ok'(2) [OF pgno_lt] entry_fields [OF pa perm]
    by (intro exI [of _ s'] exI [of _ ?qs]) (auto simp: tr)
qed

text \<open>
  Property C19: \<^verbatim>\<open>unmap_page\<close> gives the frame back and removes exactly that page from the translation;
  on a page that is not mapped it panics, so an unmap is never lost silently.
\<close>

theorem unmap_page_translates:
  assumes ok: "aspace_ok s pd ps"
    and u: "\<And>x. translate (mem s) pd va = Some x \<Longrightarrow> u = PHYS_TO_VIRT (frame (xl_paddr x)) \<and>
      u \<noteq> NULL \<and> u \<notin> set ps \<and> u \<notin> tables (mem s) pd"
  shows "case translate (mem s) pd va of
      None \<Rightarrow> (\<exists>msg. unmap_page s pd va = Panic msg)
    | Some _ \<Rightarrow> (\<exists>s'. unmap_page s pd va = Ok s' \<and> aspace_ok s' pd (u # ps) \<and>
        (\<forall>a. translate (mem s') pd a = (if pgno a = pgno va then None else translate (mem s) pd a)))"
proof (cases "page_entry (mem s) pd (pgno va)")
  case None
  then show ?thesis
    using unmap_page_errors [of s pd va] translate_page_entry [OF aspace_okD(2) [OF ok], of va]
    by (cases "ptab (mem s) pd (pdx va)") auto
next
  case (Some e)
  note tr = translate_page_entry [OF aspace_okD(2) [OF ok]]
  have u': "u = PHYS_TO_VIRT (frame e)" "u \<noteq> NULL" "u \<notin> set ps" "u \<notin> tables (mem s) pd"
    using u Some tr [of va] by (auto simp: frame_add_offset)
  obtain s' where s': "unmap_page s pd va = Ok s'" "aspace_ok s' pd (u # ps)"
      "\<forall>w < 1048576. page_entry (mem s') pd w = (if w = pgno va then None else page_entry (mem s) pd w)"
    using unmap_page_spec [OF ok Some u'] by blast
  have "translate (mem s') pd a = (if pgno a = pgno va then None else translate (mem s) pd a)" for a
    using s'(3) pgno_lt [of a] by (simp add: tr translate_page_entry [OF aspace_okD(2) [OF s'(2)]])
  then show ?thesis using s' Some tr [of va] by auto
qed

text \<open>
  Property C18: \<^verbatim>\<open>init_kernel_memory\<close> leaves the processor with a directory that translates the low
  4 MB to themselves, [KERN_BASE, MMDEV_BASE) to physical memory from 0 on and the device range to
  itself, all writable and none of it accessible from user mode, and that translates nothing else;
  it takes the directory and 257 tables from the free list.
\<close>

theorem kernel_directory_translates:
  assumes "kheap s (pd # ps)" and "kernel_tables \<le> length ps"
  shows "\<exists>s'. init_kernel_memory s = Ok (pd, s') \<and> cr3 s' = VIRT_TO_PHYS pd \<and>
    kheap s' (drop kernel_tables ps) \<and> (\<forall>va. translate (mem s') pd va = kernel_xlation va)"
proof -
  obtain s' where s': "map_kernel s = Ok (pd, s')" "aspace_ok s' pd (drop kernel_tables ps)"
      "\<forall>w < 1048576. page_entry (mem s') pd w = kernel_entry w"
    using map_kernel_spec [OF assms] by blast
  have "translate (mem s') pd va = kernel_xlation va" for va
    using s'(3) pgno_lt [of va] by (intro kernel_entry_xlation aspace_okD(2) [OF s'(2)]) simp
  then show ?thesis
    using s' aspace_okD(1) [OF s'(2)]
    by (auto simp: init_kernel_memory_def lcr3_def kheap_def)
qed

section \<open>Concrete spaces for the witnesses\<close>

text \<open>An empty directory in the first page of \<open>sample_heap\<close>, and the heap \<^verbatim>\<open>main\<close> starts with.\<close>

lemma sample_space:
  "\<exists>s :: mstate. aspace_ok s 0xc0001000 [0xc0002000] \<and> tables (mem s) 0xc0001000 = {0xc0001000}"
proof -
  obtain s1 where k: "kmalloc sample_heap = Ok (0xc0001000, s1)"
    using kmalloc_heap [OF kheap_sample] by blast
  note F = fresh_pgdir [OF kheap_sample k]
  show ?thesis using F(1,3) by (intro exI conjI)
qed

lemma mapped_sample:
  "\<exists>s :: mstate. aspace_ok s 0xc0001000 [] \<and> tables (mem s) 0xc0001000 = {0xc0001000, 0xc0002000} \<and>
    page_entry (mem s) 0xc0001000 5 = Some (0x9000 OR PTE_P OR (PTE_RW OR PTE_US))"
proof -
  obtain s :: mstate where s: "aspace_ok s 0xc0001000 [0xc0002000]"
      "tables (mem s) 0xc0001000 = {0xc0001000}"
    using sample_space by blast
  have p: "pgno (0x5000 :: u32) = 5" "pdx 0x5000 = 0" by (simp_all add: pgno_def pdx_def)
  have none: "ptab (mem s) 0xc0001000 0 = None"
    using ptab_in_tables [of 0 "mem s" "0xc0001000"] pgdir_okD(2) [OF aspace_okD(2) [OF s(1)], of 0] s(2)
    by (cases "ptab (mem s) 0xc0001000 0") auto
  obtain s' where "mapped_one s s' 0xc0001000 [0xc0002000] 5 (0x9000 OR PTE_P OR (PTE_RW OR PTE_US))"
    using map_page_spec [OF s(1), of "0x5000" "0x9000" "PTE_RW OR PTE_US"] p by auto
  then show ?thesis
    using none s(2) by (intro exI [of _ s']) (auto simp: mapped_one_def)
qed

theorem map_page_translates_witness:
  "\<exists>(s :: mstate) s'. map_page s 0xc0001000 0x5000 0x7000 (PTE_RW OR PTE_US) = Ok s' \<and>
    translate (mem s') 0xc0001000 0x5123 = Some \<lparr>xl_paddr = 0x7123, xl_write = True, xl_user = True\<rparr>"
proof -
  obtain s :: mstate where s: "aspace_ok s 0xc0001000 [0xc0002000]" using sample_space by blast
  have pre: "page_aligned (0x7000 :: u32)" "frame (PTE_RW OR PTE_US) = 0"
    by (simp_all add: page_aligned_def frame_or)
  have pg: "pgno (0x5123 :: u32) = pgno (0x5000 :: u32)" by (simp add: pgno_def)
  have bits: "(PTE_RW OR PTE_US) AND PTE_RW \<noteq> 0" "(PTE_RW OR PTE_US) AND PTE_US \<noteq> 0"
    by (simp_all add: entry_bits)
  obtain s' where "map_page s 0xc0001000 0x5000 0x7000 (PTE_RW OR PTE_US) = Ok s'"
      and t: "\<forall>a. translate (mem s') 0xc0001000 a =
        (if pgno a = pgno 0x5000
         then Some \<lparr>xl_paddr = 0x7000 + (a AND 0xfff), xl_write = ((PTE_RW OR PTE_US) AND PTE_RW \<noteq> 0),
                    xl_user = ((PTE_RW OR PTE_US) AND PTE_US \<noteq> 0)\<rparr>
         else translate (mem s) 0xc0001000 a)"
    using map_page_translates [OF s pre, of "0x5000"] by blast
  then show ?thesis
    using t [rule_format, of "0x5123"] pg bits by (intro exI [of _ s] exI [of _ s']) simp
qed

theorem unmap_page_translates_witness:
  "\<exists>(s :: mstate) s'. unmap_page s 0xc0001000 0x5000 = Ok s' \<and>
    translate (mem s) 0xc0001000 0x5000 \<noteq> None \<and> translate (mem s') 0xc0001000 0x5000 = None"
proof -
  obtain s :: mstate where s: "aspace_ok s 0xc0001000 []"
      "tables (mem s) 0xc0001000 = {0xc0001000, 0xc0002000}"
      "page_entry (mem s) 0xc0001000 5 = Some (0x9000 OR PTE_P OR (PTE_RW OR PTE_US))"
    using mapped_sample by blast
  have p: "pgno (0x5000 :: u32) = 5" by (simp add: pgno_def)
  have "frame (0x9000 OR PTE_P OR (PTE_RW OR PTE_US)) = 0x9000"
    by (rule entry_fields(1) [where b = PTE_RW]) (simp_all add: page_aligned_def frame_or)
  then have tr: "translate (mem s) 0xc0001000 0x5000 \<noteq> None"
      "translate (mem s) 0xc0001000 0x5000 = Some x \<Longrightarrow> frame (xl_paddr x) = 0x9000" for x
    using translate_page_entry [OF aspace_okD(2) [OF s(1)], of "0x5000"] s(3) p
    by (auto simp: frame_def)
  have "0xc0009000 = PHYS_TO_VIRT (frame (xl_paddr x)) \<and> 0xc0009000 \<noteq> NULL \<and>
      0xc0009000 \<notin> set [] \<and> 0xc0009000 \<notin> tables (mem s) 0xc0001000"
    if "translate (mem s) 0xc0001000 0x5000 = Some x" for x
    using tr(2) [OF that] s(2) by (simp add: PHYS_TO_VIRT_def KERN_BASE_def NULL_def)
  from unmap_page_translates [of s "0xc0001000" "[]" "0x5000" "0xc0009000", OF s(1) this] tr(1)
  obtain s' where "unmap_page s 0xc0001000 0x5000 = Ok s'"
      "translate (mem s') 0xc0001000 0x5000 = None"
    by (cases "translate (mem s) 0xc0001000 0x5000") auto
  then show ?thesis using tr(1) by blast
qed

lemma boot_heap:
  "\<exists>(s :: mstate) ps. kheap s ps \<and> length ps = 767 \<and> KERN_BASE \<notin> set ps \<and> (\<forall>p \<in> set ps. 786689 \<le> pgno p)"
proof -
  let ?s0 = "sample_heap\<lparr>free_pages := 0\<rparr>"
  let ?ps = "region_pages 0xc0100234 0xc0400000"
  have lt: "pgno (0xc0100234 :: u32) < pgno (0xc0400000 :: u32)" by (simp add: pgno_def)
  have "kheap ?s0 []" by (simp add: kheap_def NULL_def)
  then obtain s :: mstate where "kheap s (rev ?ps @ [])"
    using register_free_mem_spec [OF _ lt, of ?s0 "[]"] by auto
  moreover have "length ?ps = 767"
    by (simp add: region_pages_def PG_ROUNDUP_def PGSIZE_def pgno_def)
  moreover have "KERN_BASE \<notin> set ?ps"
  proof
    assume "KERN_BASE \<in> set ?ps"
    then have "pgno (PG_ROUNDUP 0xc0100234) \<le> pgno KERN_BASE"
      using region_pages_page [OF lt] by auto
    then show False by (simp add: PG_ROUNDUP_def PGSIZE_def KERN_BASE_def pgno_def)
  qed
  moreover have "786689 \<le> pgno p" if "p \<in> set ?ps" for p
    using region_pages_page [OF lt _ that] by (simp add: PG_ROUNDUP_def PGSIZE_def pgno_def [of "0xc0101000"])
  ultimately show ?thesis by (intro exI [of _ s] exI [of _ "rev ?ps"]) simp
qed

theorem kernel_directory_translates_witness:
  "\<exists>(s :: mstate) pd s'. init_kernel_memory s = Ok (pd, s') \<and>
    translate (mem s') pd 0xc0123456 = Some \<lparr>xl_paddr = 0x123456, xl_write = True, xl_user = False\<rparr> \<and>
    translate (mem s') pd 0x8000000 = None"
proof -
  obtain s :: mstate and ps where s: "kheap s ps" "length ps = 767" using boot_heap by blast
  then obtain pd qs where ps: "ps = pd # qs" by (cases ps) auto
  then obtain s' where "init_kernel_memory s = Ok (pd, s')"
      and t: "\<And>va. translate (mem s') pd va = kernel_xlation va"
    using kernel_directory_translates [of s pd qs] s by (auto simp: kernel_tables_def)
  then show ?thesis
    using t [of "0xc0123456"] t [of "0x8000000"]
    by (intro exI [of _ s] exI [of _ pd] exI [of _ s'])
      (simp add: kernel_xlation_def KERN_BASE_def MMDEV_BASE_def VIRT_TO_PHYS_def)
qed

end
