(* ===== verification/UserMem.thy ===== *)
theory UserMem
  imports AddrSpace
begin

text \<open>
  Memory as kernel code sees it while a task's directory is loaded: addresses from KERN_BASE on reach
  physical memory directly (every directory has the kernel's ranges, \<open>kernel_directory_translates\<close>),
  lower ones go through the directory in \<open>cr3\<close>, and a miss is a page fault, for which \<^verbatim>\<open>trampoline\<close>
  has no handler. On top of it: \<^verbatim>\<open>memcpy_to_another_space\<close> of \<^verbatim>\<open>memory.c\<close> and the argument readers
  of \<^verbatim>\<open>syscall.c\<close>.
  The properties say that a copy within one page arrives where the other directory maps it, what a
  longer copy does, and which kernel memory a system call argument can reach.
\<close>

section \<open>Bytes by virtual address\<close>

definition page_fault :: "'a outcome" where
  "page_fault = Panic ''Don't know how to handle it :)''"

definition curr_pgdir :: "'z mstate_scheme \<Rightarrow> u32" where
  "curr_pgdir s = PHYS_TO_VIRT (cr3 s)"

text \<open>
  Reads and writes with supervisor rights: the user bit does not matter, the write bit does
  (\<^verbatim>\<open>start.asm\<close> sets the write-protect bit of \<^verbatim>\<open>cr0\<close>).
\<close>

definition vread :: "'z mstate_scheme \<Rightarrow> u32 \<Rightarrow> u8 outcome" where
  "vread s a =
     (if KERN_BASE \<le> a then Ok (mem s a)
      else case translate (mem s) (curr_pgdir s) a of None \<Rightarrow> page_fault
        | Some x \<Rightarrow> Ok (mem s (PHYS_TO_VIRT (xl_paddr x))))"

definition vwrite :: "'z mstate_scheme \<Rightarrow> u32 \<Rightarrow> u8 \<Rightarrow> 'z mstate_scheme outcome" where
  "vwrite s a b =
     (if KERN_BASE \<le> a then Ok (s\<lparr>mem := (mem s)(a := b)\<rparr>)
      else case translate (mem s) (curr_pgdir s) a of None \<Rightarrow> page_fault
        | Some x \<Rightarrow> if xl_write x then Ok (s\<lparr>mem := (mem s)(PHYS_TO_VIRT (xl_paddr x) := b)\<rparr>)
            else page_fault)"

text \<open>
  A store through a pointer that comes from the program, which no handler checks (\<^verbatim>\<open>sys_read\<close>). The program may
  point it at memory of the kernel, from KERN_BASE on or in the identity map below, and the kernel then
  overwrites itself. Its variables are fields of the state and not bytes of \<open>mem\<close>, so what follows such a
  store is not in the model: it is \<open>Undef\<close>. Inside the program's own pages it is the store above.
\<close>

definition kernel_only :: "'z mstate_scheme \<Rightarrow> u32 \<Rightarrow> bool" where
  "kernel_only s a \<longleftrightarrow> KERN_BASE \<le> a \<or>
     (case translate (mem s) (curr_pgdir s) a of None \<Rightarrow> False | Some x \<Rightarrow> \<not> xl_user x)"

definition uwrite :: "'z mstate_scheme \<Rightarrow> u32 \<Rightarrow> u8 \<Rightarrow> 'z mstate_scheme outcome" where
  "uwrite s a b =
     (if kernel_only s a then Undef ''kernel memory written through a pointer of the program'' else vwrite s a b)"

definition vload32 :: "'z mstate_scheme \<Rightarrow> u32 \<Rightarrow> u32 outcome" where
  "vload32 s a =
     bnd (vread s a) (\<lambda>b0. bnd (vread s (a + 1)) (\<lambda>b1. bnd (vread s (a + 2)) (\<lambda>b2.
     bnd (vread s (a + 3)) (\<lambda>b3.
       Ok (ucast b0 OR push_bit 8 (ucast b1) OR push_bit 16 (ucast b2) OR push_bit 24 (ucast b3))))))"

text \<open>\<^verbatim>\<open>memcpy\<close> of \<^verbatim>\<open>string.c\<close> on such addresses, byte by byte upwards.\<close>

definition vmemcpy :: "'z mstate_scheme \<Rightarrow> u32 \<Rightarrow> u32 \<Rightarrow> u32 \<Rightarrow> 'z mstate_scheme outcome" where
  "vmemcpy s d src n =
     loop_from 0 (unat n) (\<lambda>i s. bnd (vread s (src + of_nat i)) (\<lambda>b. vwrite s (d + of_nat i) b)) s"

text \<open>\<^verbatim>\<open>memcpy\<close> to a pointer of the program.\<close>

definition umemcpy :: "'z mstate_scheme \<Rightarrow> u32 \<Rightarrow> u32 \<Rightarrow> u32 \<Rightarrow> 'z mstate_scheme outcome" where
  "umemcpy s d src n =
     loop_from 0 (unat n) (\<lambda>i s. bnd (vread s (src + of_nat i)) (\<lambda>b. uwrite s (d + of_nat i) b)) s"

text \<open>A string pointer into virtual memory.\<close>

definition vptr :: "'z mstate_scheme \<Rightarrow> u32 \<Rightarrow> nat \<Rightarrow> u8 outcome" where
  "vptr s a i = vread s (a + of_nat i)"

section \<open>Reading arguments, copying to another space\<close>

text \<open>\<open>None\<close> is the return value -1; otherwise the word stored through \<^verbatim>\<open>data\<close>.\<close>

definition read_user_mem :: "'z mstate_scheme \<Rightarrow> u32 \<Rightarrow> u32 option outcome" where
  "read_user_mem s addr =
     (if addr \<ge> KERN_BASE \<or> addr + 4 \<ge> KERN_BASE then Ok None
      else bnd (vload32 s addr) (\<lambda>v. Ok (Some v)))"

definition read_syscall_arg :: "'z mstate_scheme \<Rightarrow> u32 \<Rightarrow> nat \<Rightarrow> u32 option outcome" where
  "read_syscall_arg s esp argnum = read_user_mem s (esp + 4 + of_nat argnum * 4)"

text \<open>
  The loop of \<^verbatim>\<open>memcpy_to_another_space\<close> changes \<^verbatim>\<open>n\<close> but neither \<^verbatim>\<open>src\<close> nor the page offset it adds;
  a null pointer from \<^verbatim>\<open>walk_pgdir\<close> is dereferenced.
\<close>

definition copy_round ::
    "u32 \<Rightarrow> u32 \<Rightarrow> u32 \<Rightarrow> nat \<Rightarrow> 'z mstate_scheme \<times> u32 \<Rightarrow> ('z mstate_scheme \<times> u32) outcome" where
  "copy_round pgdir dest src i c =
     (let s = fst c; n = snd c;
          pte_p = walk_pgdir (mem s) pgdir (dest + of_nat i * PGSIZE)
      in if pte_p = NULL then Undef ''null pointer dereferenced''
         else let dest_tgt_va = PHYS_TO_VIRT (frame (load32 (mem s) pte_p)) + dest mod PGSIZE
         in bnd (vmemcpy s dest_tgt_va src (if n mod PGSIZE = 0 then PGSIZE else n mod PGSIZE))
              (\<lambda>s'. Ok (s', n - PGSIZE)))"

definition memcpy_to_another_space ::
    "'z mstate_scheme \<Rightarrow> u32 \<Rightarrow> u32 \<Rightarrow> u32 \<Rightarrow> u32 \<Rightarrow> 'z mstate_scheme outcome" where
  "memcpy_to_another_space s pgdir dest src n =
     (let num_pages = if n mod PGSIZE = 0 then n div PGSIZE else n div PGSIZE + 1
      in bnd (loop_from 0 (unat num_pages) (copy_round pgdir dest src) (s, n)) (\<lambda>c. Ok (fst c)))"

section \<open>Copying into kernel-addressed memory\<close>

text \<open>Memory with the bytes \<open>bs\<close> put at \<open>a\<close>.\<close>

definition put_bytes :: "mem \<Rightarrow> u32 \<Rightarrow> u8 list \<Rightarrow> mem" where
  "put_bytes m a bs = (\<lambda>x. if unat a \<le> unat x \<and> unat x < unat a + length bs
     then bs ! (unat x - unat a) else m x)"

lemma put_bytes_Nil [simp]: "put_bytes m a [] = m"
  unfolding put_bytes_def by (rule ext, rule if_not_P) simp

lemma put_bytes_snoc:
  assumes "unat a + length bs < 4294967296"
  shows "(put_bytes m a bs)(a + of_nat (length bs) := b) = put_bytes m a (bs @ [b])"
proof
  fix x
  have un: "unat (a + of_nat (length bs)) = unat a + length bs"
    by (rule unat_add_lt [OF assms])
  show "((put_bytes m a bs)(a + of_nat (length bs) := b)) x = put_bytes m a (bs @ [b]) x"
  proof (cases "x = a + of_nat (length bs)")
    case True
    then show ?thesis using un by (simp add: put_bytes_def nth_append)
  next
    case False
    then have "unat x \<noteq> unat a + length bs" using un by (metis word_unat_eq_iff)
    then show ?thesis using False by (auto simp: put_bytes_def nth_append)
  qed
qed

lemma put_bytes_outside: "unat x < unat a \<or> unat a + length bs \<le> unat x \<Longrightarrow> put_bytes m a bs x = m x"
  by (auto simp: put_bytes_def)

lemma put_bytes_inside:
  "k < length bs \<Longrightarrow> unat a + length bs \<le> 4294967296 \<Longrightarrow> put_bytes m a bs (a + of_nat k) = bs ! k"
  using unat_add_lt [of a k] by (simp add: put_bytes_def)

text \<open>
  What the source of a copy must satisfy: the bytes are there, and writing any prefix of them to the
  destination does not change what is read.
\<close>

definition source_bytes :: "'z mstate_scheme \<Rightarrow> u32 \<Rightarrow> u32 \<Rightarrow> u8 list \<Rightarrow> bool" where
  "source_bytes s d src bs \<longleftrightarrow> (\<forall>i < length bs. \<forall>k \<le> length bs.
     vread (s\<lparr>mem := put_bytes (mem s) d (take k bs)\<rparr>) (src + of_nat i) = Ok (bs ! i))"

lemma KERN_BASE_offset:
  "KERN_BASE \<le> d \<Longrightarrow> unat d + i < 4294967296 \<Longrightarrow> KERN_BASE \<le> d + of_nat i"
  by (simp add: word_le_nat_alt unat_add_lt)

lemma vmemcpy_spec:
  assumes src: "source_bytes s d src bs" and d: "KERN_BASE \<le> d" "unat d + length bs \<le> 4294967296"
    and n: "unat n = length bs"
  shows "vmemcpy s d src n = Ok (s\<lparr>mem := put_bytes (mem s) d bs\<rparr>)"
proof -
  let ?body = "\<lambda>i s. bnd (vread s (src + of_nat i)) (\<lambda>b. vwrite s (d + of_nat i) b)"
  have "\<exists>s'. loop_from 0 (length bs) ?body s = Ok s' \<and>
      (s' = s\<lparr>mem := put_bytes (mem s) d (take (0 + length bs) bs)\<rparr>)"
  proof (rule loop_from_invariant)
    show "s = s\<lparr>mem := put_bytes (mem s) d (take 0 bs)\<rparr>" by simp
  next
    fix j t assume j: "j < 0 + length bs" and t: "t = s\<lparr>mem := put_bytes (mem s) d (take j bs)\<rparr>"
    have rd: "vread t (src + of_nat j) = Ok (bs ! j)"
      using src j unfolding t source_bytes_def by auto
    have "KERN_BASE \<le> d + of_nat j" using d j by (intro KERN_BASE_offset) auto
    moreover have "(put_bytes (mem s) d (take j bs))(d + of_nat j := bs ! j) = put_bytes (mem s) d (take (Suc j) bs)"
      using put_bytes_snoc [of d "take j bs" "mem s" "bs ! j"] d j by (simp add: take_Suc_conv_app_nth min_def)
    ultimately show "\<exists>t'. ?body j t = Ok t' \<and> t' = s\<lparr>mem := put_bytes (mem s) d (take (Suc j) bs)\<rparr>"
      using rd by (simp add: vwrite_def t)
  qed
  then show ?thesis using n by (simp add: vmemcpy_def)
qed

text \<open>A source in the kernel's own memory, apart from the destination.\<close>

lemma source_bytes_kernel:
  assumes "KERN_BASE \<le> src" and "unat src + n \<le> 4294967296"
    and "unat d + n \<le> unat src \<or> unat src + n \<le> unat d"
  shows "source_bytes s d src (map (\<lambda>i. mem s (src + of_nat i)) [0..<n])"
  unfolding source_bytes_def
proof (intro allI impI)
  fix i k assume i: "i < length (map (\<lambda>i. mem s (src + of_nat i)) [0..<n])"
    and k: "k \<le> length (map (\<lambda>i. mem s (src + of_nat i)) [0..<n])"
  have "KERN_BASE \<le> src + of_nat i" using assms(1,2) i by (intro KERN_BASE_offset) auto
  moreover have "unat (src + of_nat i) = unat src + i" using assms(2) i by (intro unat_add_lt) simp
  ultimately show "vread (s\<lparr>mem := put_bytes (mem s) d (take k (map (\<lambda>i. mem s (src + of_nat i)) [0..<n]))\<rparr>)
      (src + of_nat i) = Ok (map (\<lambda>i. mem s (src + of_nat i)) [0..<n] ! i)"
    using i k assms(3) by (auto simp: vread_def put_bytes_outside)
qed

section \<open>Within one page\<close>

lemma translate_frame:
  assumes "pgdir_ok m pd" and "changes_only P m m'" and "P \<inter> pgno ` tables m pd = {}"
  shows "translate m' pd va = translate m pd va"
  using pgdir_frame_entry [OF assms pgno_lt]
  by (simp add: translate_page_entry [OF assms(1)] translate_page_entry [OF pgdir_frame_ok [OF assms]])

definition page_off :: "u32 \<Rightarrow> nat" where
  "page_off a = unat a mod 4096"

lemma page_off_lt: "page_off a < 4096"
  by (simp add: page_off_def)

lemma unat_in_page: "page_aligned p \<Longrightarrow> unat (p + of_nat (page_off a)) = unat p + page_off a"
  by (rule unat_page_offset [OF _ page_off_lt])

lemma put_bytes_page:
  assumes "page_aligned p" and "page_off a + length bs \<le> 4096"
  shows "changes_only {pgno p} m (put_bytes m (p + of_nat (page_off a)) bs)"
  unfolding changes_only_def
proof (intro allI impI)
  fix x assume x: "pgno x \<notin> {pgno p}"
  have "\<not> (unat (p + of_nat (page_off a)) \<le> unat x \<and> unat x < unat (p + of_nat (page_off a)) + length bs)"
  proof
    assume "unat (p + of_nat (page_off a)) \<le> unat x \<and> unat x < unat (p + of_nat (page_off a)) + length bs"
    then have "pgno x = pgno p"
      using assms unat_in_page [OF assms(1), of a]
      by (intro pgno_eqI) (auto simp: page_aligned_unat)
    then show False using x by simp
  qed
  then show "put_bytes m (p + of_nat (page_off a)) bs x = m x"
    unfolding put_bytes_def by (rule if_not_P)
qed

lemma source_bytes_user:
  assumes ok: "pgdir_ok (mem s) (curr_pgdir s)" and p: "page_aligned p" "page_off a + length bs \<le> 4096"
    and apart: "pgno p \<notin> pgno ` tables (mem s) (curr_pgdir s)"
    and src: "\<And>i. i < length bs \<Longrightarrow> src + of_nat i < KERN_BASE \<and>
      (\<exists>x. translate (mem s) (curr_pgdir s) (src + of_nat i) = Some x \<and>
        mem s (PHYS_TO_VIRT (xl_paddr x)) = bs ! i \<and> pgno (PHYS_TO_VIRT (xl_paddr x)) \<noteq> pgno p)"
  shows "source_bytes s (p + of_nat (page_off a)) src bs"
  unfolding source_bytes_def
proof (intro allI impI)
  fix i k assume i: "i < length bs" and k: "k \<le> length bs"
  let ?m' = "put_bytes (mem s) (p + of_nat (page_off a)) (take k bs)"
  have ch: "changes_only {pgno p} (mem s) ?m'"
    using p k by (intro put_bytes_page) auto
  have "translate ?m' (curr_pgdir s) va = translate (mem s) (curr_pgdir s) va" for va
    by (rule translate_frame [OF ok ch]) (use apart in auto)
  moreover have "curr_pgdir (s\<lparr>mem := ?m'\<rparr>) = curr_pgdir s"
    by (simp add: curr_pgdir_def)
  ultimately show "vread (s\<lparr>mem := ?m'\<rparr>) (src + of_nat i) = Ok (bs ! i)"
    using src [OF i] changes_onlyD [OF ch] by (auto simp: vread_def)
qed

lemma mod_PGSIZE: "a mod PGSIZE = of_nat (page_off a)"
proof -
  have "unat (a mod PGSIZE) = page_off a"
    by (simp add: unat_mod page_off_def)
  then show ?thesis by (metis of_nat_unat ucast_id)
qed

lemma one_page_chunk:
  assumes "0 < unat n" and "unat n \<le> 4096"
  shows "(if n mod PGSIZE = 0 then n div PGSIZE else n div PGSIZE + 1) = 1"
    and "(if n mod PGSIZE = 0 then PGSIZE else n mod PGSIZE) = n"
proof -
  have m: "unat (n mod PGSIZE) = unat n mod 4096" "unat (n div PGSIZE) = unat n div 4096"
    by (simp_all add: unat_mod unat_div)
  have z: "n mod PGSIZE = 0 \<longleftrightarrow> unat n mod 4096 = 0"
    by (metis m(1) unat_0 unat_eq_zero)
  consider "unat n = 4096" | "unat n < 4096" using assms(2) by linarith
  then have "(if n mod PGSIZE = 0 then n div PGSIZE else n div PGSIZE + 1) = 1 \<and>
      (if n mod PGSIZE = 0 then PGSIZE else n mod PGSIZE) = n"
  proof cases
    case 1
    then have "n div PGSIZE = 1" "n = PGSIZE"
      using m(2) by (simp_all add: word_unat_eq_iff)
    then show ?thesis by (simp add: PGSIZE_def)
  next
    case 2
    then have "n div PGSIZE = 0" "n mod PGSIZE = n"
      using m by (simp_all add: word_unat_eq_iff)
    moreover have "n \<noteq> 0" using assms(1) by auto
    ultimately show ?thesis by simp
  qed
  then show "(if n mod PGSIZE = 0 then n div PGSIZE else n div PGSIZE + 1) = 1"
    and "(if n mod PGSIZE = 0 then PGSIZE else n mod PGSIZE) = n" by simp_all
qed

text \<open>The pointer to an entry is null only for a table at the very top of memory.\<close>

lemma walk_pgdir_page:
  assumes "pgdir_ok m pd" and "NULL \<notin> tables m pd" and "page_entry m pd (pgno va) = Some e"
  shows "walk_pgdir m pd va \<noteq> NULL" and "load32 m (walk_pgdir m pd va) = e"
proof -
  obtain t where t: "ptab m pd (pdx va) = Some t" "entry m t (ptx va) = e"
    using assms(3) by (auto simp: page_entry_def pdx_def ptx_def Let_def split: option.splits if_splits)
  then have w: "walk_pgdir m pd va = pte_ptr t va"
    by (auto simp: walk_pgdir_def load32_pde ptab_def Let_def split: if_splits)
  then show "load32 m (walk_pgdir m pd va) = e"
    using t(2) by (simp add: load32_pte)
  have al: "page_aligned t" "t \<noteq> NULL"
    using ptab_aligned [OF t(1)] ptab_in_tables [OF _ t(1)] assms(2) by auto
  have "pgno (pte_ptr t va) = pgno t"
    using pgno_entry_address [OF al(1) ptx_lt] by (simp add: pte_ptr_conv del: of_nat_mult)
  moreover have "pgno t \<noteq> 0"
    using al by (metis NULL_def mult_0_right page_aligned_unat unat_eq_zero)
  ultimately show "walk_pgdir m pd va \<noteq> NULL"
    unfolding w by (auto simp: NULL_def pgno_def)
qed

lemma memcpy_to_another_space_one_page:
  assumes ok: "pgdir_ok (mem s) pd" "NULL \<notin> tables (mem s) pd"
    and e: "page_entry (mem s) pd (pgno dest) = Some e" and p: "p = PHYS_TO_VIRT (frame e)" "KERN_BASE \<le> p"
    and n: "unat n = length bs" "bs \<noteq> []" "page_off dest + length bs \<le> 4096"
    and src: "source_bytes s (p + of_nat (page_off dest)) src bs"
  shows "memcpy_to_another_space s pd dest src n =
    Ok (s\<lparr>mem := put_bytes (mem s) (p + of_nat (page_off dest)) bs\<rparr>)"
proof -
  have al: "page_aligned p" by (simp add: p(1) page_aligned_PHYS_TO_VIRT)
  have n': "0 < unat n" "unat n \<le> 4096" using n by auto
  have "KERN_BASE \<le> p + of_nat (page_off dest)" "unat (p + of_nat (page_off dest)) + length bs \<le> 4294967296"
    using p(2) n(3) page_aligned_le [OF al] unat_in_page [OF al, of dest]
    by (auto simp: word_le_nat_alt)
  note v = vmemcpy_spec [OF src this n(1)]
  note one = one_page_chunk [OF n']
  show ?thesis
    using walk_pgdir_page [OF ok e] v one
    by (simp add: memcpy_to_another_space_def copy_round_def Let_def mod_PGSIZE p(1))
qed

lemma same_page_offset:
  assumes "page_off a + k < 4096"
  shows "pgno (a + of_nat k) = pgno a" and "(a + of_nat k) AND 0xfff = (a AND 0xfff) + of_nat k"
proof -
  have u: "unat a = 4096 * pgno a + page_off a"
    using mult_div_mod_eq [of 4096 "unat a"] by (simp add: pgno_def page_off_def)
  then have un: "unat (a + of_nat k) = unat a + k"
    by (intro unat_add_lt) (use assms pgno_lt [of a] in linarith)
  show pg: "pgno (a + of_nat k) = pgno a"
    by (rule pgno_eqI) (use un u assms in linarith)+
  have "unat (a + of_nat k) mod 4096 = page_off a + k"
    unfolding un u using assms by (simp add: add.assoc)
  moreover have "unat ((a AND 0xfff) + of_nat k) = page_off a + k"
    using unat_add_lt [of "a AND 0xfff" k] assms unfolding unat_and_0xfff page_off_def by simp
  ultimately show "(a + of_nat k) AND 0xfff = (a AND 0xfff) + of_nat k"
    unfolding word_unat_eq_iff unat_and_0xfff by simp
qed

lemma and_0xfff_page_off: "a AND 0xfff = of_nat (page_off a)"
  by (metis page_off_def unat_and_0xfff of_nat_unat ucast_id)

section \<open>User buffers\<close>

text \<open>
  A range of addresses that system calls may write to on behalf of a program: below KERN_BASE, in pages
  that the program may write itself, no two addresses of the range on the same byte, and none of it inside the page tables.
\<close>

definition user_buffer :: "'z mstate_scheme \<Rightarrow> u32 \<Rightarrow> nat \<Rightarrow> bool" where
  "user_buffer s a n \<longleftrightarrow> pgdir_ok (mem s) (curr_pgdir s) \<and>
     (\<forall>i < n. a + of_nat i < KERN_BASE \<and>
       (\<exists>x. translate (mem s) (curr_pgdir s) (a + of_nat i) = Some x \<and> xl_write x \<and> xl_user x \<and>
         pgno (PHYS_TO_VIRT (xl_paddr x)) \<notin> pgno ` tables (mem s) (curr_pgdir s))) \<and>
     inj_on (\<lambda>i. xl_paddr (the (translate (mem s) (curr_pgdir s) (a + of_nat i)))) {..<n}"

lemma user_buffer_le: "user_buffer s a n \<Longrightarrow> k \<le> n \<Longrightarrow> user_buffer s a k"
  by (auto simp: user_buffer_def elim: inj_on_subset)

lemma user_buffer_not_kernel: "user_buffer s a n \<Longrightarrow> i < n \<Longrightarrow> \<not> kernel_only s (a + of_nat i)"
  by (fastforce simp: user_buffer_def kernel_only_def linorder_not_le)

lemma uwrite_user_buffer: "user_buffer s a n \<Longrightarrow> i < n \<Longrightarrow> uwrite s (a + of_nat i) b = vwrite s (a + of_nat i) b"
  by (simp add: uwrite_def user_buffer_not_kernel)

lemma uwrite_user:
  assumes ub: "user_buffer s a n" and i: "i < n"
  shows "\<exists>m'. uwrite s (a + of_nat i) b = Ok (s\<lparr>mem := m'\<rparr>) \<and> user_buffer (s\<lparr>mem := m'\<rparr>) a n \<and>
    vread (s\<lparr>mem := m'\<rparr>) (a + of_nat i) = Ok b \<and>
    (\<forall>k < n. k \<noteq> i \<longrightarrow> vread (s\<lparr>mem := m'\<rparr>) (a + of_nat k) = vread s (a + of_nat k))"
proof -
  let ?t = "\<lambda>k. translate (mem s) (curr_pgdir s) (a + of_nat k)"
  have ok: "pgdir_ok (mem s) (curr_pgdir s)" using ub by (simp add: user_buffer_def)
  have all: "a + of_nat k < KERN_BASE \<and> (\<exists>x. ?t k = Some x \<and> xl_write x \<and> xl_user x \<and>
      pgno (PHYS_TO_VIRT (xl_paddr x)) \<notin> pgno ` tables (mem s) (curr_pgdir s))" if "k < n" for k
    using ub that by (auto simp: user_buffer_def)
  obtain x where x: "?t i = Some x" "xl_write x" "a + of_nat i < KERN_BASE"
      "pgno (PHYS_TO_VIRT (xl_paddr x)) \<notin> pgno ` tables (mem s) (curr_pgdir s)"
    using all [OF i] by blast
  let ?p = "PHYS_TO_VIRT (xl_paddr x)"
  let ?m' = "(mem s)(?p := b)"
  have ch: "changes_only {pgno ?p} (mem s) ?m'" by (auto simp: changes_only_def)
  have off: "{pgno ?p} \<inter> pgno ` tables (mem s) (curr_pgdir s) = {}" using x(4) by simp
  have tr: "translate ?m' (curr_pgdir s) va = translate (mem s) (curr_pgdir s) va" for va
    by (rule translate_frame [OF ok ch off])
  have cp: "curr_pgdir (s\<lparr>mem := ?m'\<rparr>) = curr_pgdir s" by (simp add: curr_pgdir_def)
  have ub': "user_buffer (s\<lparr>mem := ?m'\<rparr>) a n"
    using ub pgdir_frame_ok [OF ok ch off] pgdir_frame_tables [OF ok ch off]
    by (simp add: user_buffer_def tr cp)
  have "vread (s\<lparr>mem := ?m'\<rparr>) (a + of_nat k) = vread s (a + of_nat k)" if k: "k < n" "k \<noteq> i" for k
  proof -
    obtain y where y: "?t k = Some y" using all [OF k(1)] by blast
    have "inj_on (\<lambda>i. xl_paddr (the (?t i))) {..<n}" using ub by (simp add: user_buffer_def)
    then have "xl_paddr y \<noteq> xl_paddr x"
      using k i x(1) y by (auto dest!: inj_onD [of _ _ k i])
    then have "PHYS_TO_VIRT (xl_paddr y) \<noteq> ?p" by (simp add: PHYS_TO_VIRT_def)
    then show ?thesis
      using y all [OF k(1)] by (auto simp: vread_def tr cp linorder_not_le)
  qed
  moreover have nk: "\<not> KERN_BASE \<le> a + of_nat i" using x(3) by (simp add: linorder_not_le)
  then have "uwrite s (a + of_nat i) b = Ok (s\<lparr>mem := ?m'\<rparr>)"
    using x uwrite_user_buffer [OF ub i] by (simp add: vwrite_def)
  moreover have "vread (s\<lparr>mem := ?m'\<rparr>) (a + of_nat i) = Ok b"
    using x nk by (simp add: vread_def tr cp)
  ultimately show ?thesis using ub' by blast
qed

lemma user_buffer_page:
  assumes ok: "pgdir_ok (mem s) (curr_pgdir s)"
    and e: "page_entry (mem s) (curr_pgdir s) (pgno a) = Some e" and w: "e AND PTE_RW \<noteq> 0" "e AND PTE_US \<noteq> 0"
    and apart: "PHYS_TO_VIRT (frame e) \<notin> tables (mem s) (curr_pgdir s)"
    and n: "page_off a + n \<le> 4096" and low: "pgno a < 786432"
  shows "user_buffer s a n"
proof -
  let ?p = "frame e"
  have al: "page_aligned (PHYS_TO_VIRT ?p)" by (simp add: page_aligned_PHYS_TO_VIRT)
  have off: "page_off a + i < 4096" if "i < n" for i using that n by simp
  have tr: "translate (mem s) (curr_pgdir s) (a + of_nat i) =
      Some \<lparr>xl_paddr = ?p + of_nat (page_off a + i), xl_write = True, xl_user = True\<rparr>"
    if "i < n" for i
    using same_page_offset [OF off [OF that]] e w
    by (simp add: translate_page_entry [OF ok] and_0xfff_page_off)
  have "unat (a + of_nat i) < unat KERN_BASE" if "i < n" for i
    using unat_pgno_bounds(2) [of "a + of_nat i"] same_page_offset(1) [OF off [OF that]] low
    by (simp add: KERN_BASE_def)
  then have lt: "a + of_nat i < KERN_BASE" if "i < n" for i
    using that by (simp add: word_less_nat_alt)
  have pg: "pgno (PHYS_TO_VIRT (?p + of_nat (page_off a + i))) = pgno (PHYS_TO_VIRT ?p)" if "i < n" for i
    using pgno_page_offset [OF al off [OF that]] by (simp add: PHYS_TO_VIRT_def add_ac)
  have "pgno (PHYS_TO_VIRT ?p) \<notin> pgno ` tables (mem s) (curr_pgdir s)"
    using al apart tables_aligned [OF ok] by (auto simp: pgno_inject)
  moreover have "inj_on (\<lambda>i. xl_paddr (the (translate (mem s) (curr_pgdir s) (a + of_nat i)))) {..<n}"
  proof (rule inj_onI)
    fix i j assume ij: "i \<in> {..<n}" "j \<in> {..<n}"
      and eq: "xl_paddr (the (translate (mem s) (curr_pgdir s) (a + of_nat i))) =
        xl_paddr (the (translate (mem s) (curr_pgdir s) (a + of_nat j)))"
    then have "PHYS_TO_VIRT ?p + of_nat (page_off a + i) = PHYS_TO_VIRT ?p + of_nat (page_off a + j)"
      using tr [of i] tr [of j] by simp
    then have "unat (PHYS_TO_VIRT ?p) + (page_off a + i) = unat (PHYS_TO_VIRT ?p) + (page_off a + j)"
      using unat_page_offset [OF al off, of i] unat_page_offset [OF al off, of j] ij by (metis lessThan_iff)
    then show "i = j" by simp
  qed
  ultimately show ?thesis
    using ok lt tr pg by (simp add: user_buffer_def)
qed

lemma user_buffer_cong:
  "mem s' = mem s \<Longrightarrow> cr3 s' = cr3 s \<Longrightarrow> user_buffer s' a n = user_buffer s a n"
  "mem s' = mem s \<Longrightarrow> cr3 s' = cr3 s \<Longrightarrow> vread s' va = vread s va"
  by (simp_all add: user_buffer_def vread_def curr_pgdir_def split: option.splits)

section \<open>Properties\<close>

text \<open>
  Property C21: a copy into another address space that stays within one page arrives: reading the
  destination through the other directory gives the source bytes, and no other byte of memory
  changes. The copies of \<^verbatim>\<open>fork\<close> and \<^verbatim>\<open>prepare_ustack\<close>, and of segments that lie within one page, are of this
  form.
\<close>

theorem copy_within_page_arrives:
  assumes ok: "pgdir_ok (mem s) pd" "NULL \<notin> tables (mem s) pd"
    and x: "translate (mem s) pd dest = Some x" and p: "p = PHYS_TO_VIRT (xl_paddr x)" "KERN_BASE \<le> p"
    and apart: "pgno p \<notin> pgno ` tables (mem s) pd"
    and n: "unat n = length bs" "bs \<noteq> []" "page_off dest + length bs \<le> 4096"
    and src: "source_bytes s p src bs"
  shows "\<exists>s'. memcpy_to_another_space s pd dest src n = Ok s' \<and>
    (\<forall>k < length bs. \<exists>y. translate (mem s') pd (dest + of_nat k) = Some y \<and>
      mem s' (PHYS_TO_VIRT (xl_paddr y)) = bs ! k) \<and>
    (\<forall>a. unat a < unat p \<or> unat p + length bs \<le> unat a \<longrightarrow> mem s' a = mem s a)"
proof -
  obtain e where e: "page_entry (mem s) pd (pgno dest) = Some e" "xl_paddr x = frame e + (dest AND 0xfff)"
    using x unfolding translate_page_entry [OF ok(1)] by auto
  define q where "q = PHYS_TO_VIRT (frame e)"
  have al: "page_aligned q" by (simp add: q_def page_aligned_PHYS_TO_VIRT)
  have pq: "p = q + of_nat (page_off dest)"
    using p(1) e(2) by (simp add: q_def PHYS_TO_VIRT_def and_0xfff_page_off)
  have pg: "pgno p = pgno q" unfolding pq by (rule pgno_page_offset [OF al page_off_lt])
  have qb: "KERN_BASE \<le> q"
  proof -
    have "pgno KERN_BASE \<le> pgno q"
      unfolding pg [symmetric] using p(2) by (simp add: pgno_def word_le_nat_alt div_le_mono)
    then show ?thesis
      using al page_aligned_KERN_BASE by (simp add: word_le_nat_alt page_aligned_unat)
  qed
  let ?s' = "s\<lparr>mem := put_bytes (mem s) p bs\<rparr>"
  have run: "memcpy_to_another_space s pd dest src n = Ok ?s'"
    using memcpy_to_another_space_one_page [OF ok e(1) q_def qb n] src pq by simp
  have ch: "changes_only {pgno q} (mem s) (mem ?s')"
    unfolding pq using put_bytes_page [OF al n(3)] by simp
  have up: "unat p + length bs \<le> 4294967296"
    using unat_in_page [OF al, of dest] page_aligned_le [OF al] n(3) pq by simp
  have "translate (mem ?s') pd (dest + of_nat k) = Some (x\<lparr>xl_paddr := xl_paddr x + of_nat k\<rparr>)"
    if k: "k < length bs" for k
  proof -
    have off: "page_off dest + k < 4096" using n(3) k by simp
    have "translate (mem ?s') pd (dest + of_nat k) = translate (mem s) pd (dest + of_nat k)"
      by (rule translate_frame [OF ok(1) ch]) (use apart pg in auto)
    then show ?thesis
      using x unfolding translate_page_entry [OF ok(1)] same_page_offset [OF off] by auto
  qed
  moreover have "mem ?s' (PHYS_TO_VIRT (xl_paddr x + of_nat k)) = bs ! k" if "k < length bs" for k
    using put_bytes_inside [OF that up] p(1) by (simp add: PHYS_TO_VIRT_def add_ac)
  ultimately show ?thesis
    using run by (intro exI [of _ ?s']) (auto simp: put_bytes_outside)
qed

text \<open>
  Property C40: a copy of two whole pages does not arrive: the source pointer is never advanced, so
  the second page of the destination receives the first page of the source again.
\<close>

theorem two_page_copy_repeats_first_page:
  assumes ok: "pgdir_ok (mem s) pd" "NULL \<notin> tables (mem s) pd" and dest: "page_aligned dest" "pgno dest < 1048575"
    and e: "page_entry (mem s) pd (pgno dest) = Some e0" "page_entry (mem s) pd (pgno dest + 1) = Some e1"
    and p: "p0 = PHYS_TO_VIRT (frame e0)" "p1 = PHYS_TO_VIRT (frame e1)" "KERN_BASE \<le> p0" "KERN_BASE \<le> p1"
    and apart: "p0 \<notin> tables (mem s) pd" "p0 \<noteq> p1"
    and src: "page_aligned src" "KERN_BASE \<le> src" "src \<noteq> p0" "src \<noteq> p1"
  shows "\<exists>s'. memcpy_to_another_space s pd dest src (2 * PGSIZE) = Ok s' \<and>
    (\<forall>k < 4096. mem s' (p0 + of_nat k) = mem s (src + of_nat k) \<and>
      mem s' (p1 + of_nat k) = mem s (src + of_nat k))"
proof -
  define N :: nat where "N = 4096"
  define bs where "bs = map (\<lambda>i. mem s (src + of_nat i)) [0..<N]"
  have len: "length bs = 4096" by (simp add: bs_def N_def)
  have nth: "bs ! k = mem s (src + of_nat k)" if "k < 4096" for k
    using that by (simp add: bs_def N_def)
  have al: "page_aligned p0" "page_aligned p1" by (simp_all add: p(1,2) page_aligned_PHYS_TO_VIRT)
  have two: "2 * PGSIZE = (8192 :: u32)" by (simp add: PGSIZE_def)
  have up: "unat q + 4096 \<le> 4294967296" if "page_aligned q" for q
    using page_aligned_le [OF that] .
  have disj: "unat q + 4096 \<le> unat r \<or> unat r + 4096 \<le> unat q"
    if "page_aligned q" "page_aligned r" "q \<noteq> r" for q r
  proof -
    have "pgno q \<noteq> pgno r" using that by (simp add: pgno_inject)
    then show ?thesis using that by (auto simp: page_aligned_unat)
  qed
  define s1 where "s1 = s\<lparr>mem := put_bytes (mem s) p0 bs\<rparr>"
  define s2 where "s2 = s1\<lparr>mem := put_bytes (mem s1) p1 bs\<rparr>"
  have sb: "source_bytes t p src (map (\<lambda>i. mem t (src + of_nat i)) [0..<N])"
    if "page_aligned p" "p \<noteq> src" for p and t :: "'a mstate_scheme"
    unfolding N_def using src(1,2) up disj that by (intro source_bytes_kernel) auto
  have c0: "vmemcpy s p0 src PGSIZE = Ok s1"
    unfolding s1_def
    using sb [OF al(1) src(3) [symmetric], of s, folded bs_def] p(3) up [OF al(1)] len
    by (intro vmemcpy_spec) simp_all
  have keep: "mem s1 (src + of_nat i) = mem s (src + of_nat i)" if i: "i < 4096" for i
    using disj [OF al(1) src(1)] src(3) unat_page_offset [OF src(1) i] len i
    by (auto simp: s1_def put_bytes_outside)
  have "bs = map (\<lambda>i. mem s1 (src + of_nat i)) [0..<N]"
    unfolding bs_def using keep by (intro map_cong) (auto simp: N_def)
  then have "source_bytes s1 p1 src bs"
    using sb [OF al(2) src(4) [symmetric], of s1] by simp
  then have c1: "vmemcpy s1 p1 src PGSIZE = Ok s2"
    unfolding s2_def using p(4) up [OF al(2)] len by (intro vmemcpy_spec) simp_all
  have ch: "changes_only {pgno p0} (mem s) (mem s1)"
    using put_bytes_page [of p0 0 bs "mem s"] al(1) len by (simp add: s1_def page_off_def)
  have "pgno p0 \<notin> pgno ` tables (mem s) pd"
    using al(1) apart(1) tables_aligned [OF ok(1)] by (auto simp: pgno_inject)
  then have off0: "{pgno p0} \<inter> pgno ` tables (mem s) pd = {}" by simp
  note F = pgdir_frame_ok [OF ok(1) ch off0] pgdir_frame_tables [OF ok(1) ch off0]
    pgdir_frame_entry [OF ok(1) ch off0, of "pgno dest + 1"]
  have s1: "pgdir_ok (mem s1) pd" "tables (mem s1) pd = tables (mem s) pd"
      "page_entry (mem s1) pd (pgno dest + 1) = Some e1"
    using F e(2) dest(2) by simp_all
  have d1: "pgno (dest + PGSIZE) = pgno dest + 1"
    using pgno_step [OF dest(1), of 1] dest(2) by (simp add: PGSIZE_def)
  have w0: "walk_pgdir (mem s) pd dest \<noteq> NULL" "load32 (mem s) (walk_pgdir (mem s) pd dest) = e0"
    using walk_pgdir_page [OF ok e(1)] by auto
  have w1: "walk_pgdir (mem s1) pd (dest + PGSIZE) \<noteq> NULL"
      "load32 (mem s1) (walk_pgdir (mem s1) pd (dest + PGSIZE)) = e1"
    using walk_pgdir_page [OF s1(1), of "dest + PGSIZE" e1] ok(2) s1(2,3) d1 by auto
  have off: "dest mod PGSIZE = 0"
    using dest(1) by (simp add: mod_PGSIZE page_off_def page_aligned_def)
  have r0: "copy_round pd dest src 0 (s, 8192) = Ok (s1, PGSIZE)"
    using w0 c0 off p(1) by (simp add: copy_round_def Let_def) (simp add: PGSIZE_def)
  have r1: "copy_round pd dest src 1 (s1, PGSIZE) = Ok (s2, 0)"
    using w1 c1 off p(2) by (simp add: copy_round_def Let_def)
  have md: "(8192 :: u32) mod PGSIZE = 0" "unat ((8192 :: u32) div PGSIZE) = Suc (Suc 0)"
    by (simp_all add: PGSIZE_def)
  have "memcpy_to_another_space s pd dest src (2 * PGSIZE) = Ok s2"
    unfolding two using r0 r1 by (simp add: memcpy_to_another_space_def md Let_def)
  moreover have "mem s2 (p1 + of_nat k) = mem s (src + of_nat k)" if "k < 4096" for k
    using put_bytes_inside [of k bs p1 "mem s1"] that up [OF al(2)] len nth by (simp add: s2_def)
  moreover have "mem s2 (p0 + of_nat k) = mem s (src + of_nat k)" if k: "k < 4096" for k
  proof -
    have "mem s2 (p0 + of_nat k) = mem s1 (p0 + of_nat k)"
      using disj [OF al] apart(2) unat_page_offset [OF al(1) k] k len
      by (auto simp: s2_def put_bytes_outside)
    then show ?thesis
      using put_bytes_inside [of k bs p0 "mem s"] k up [OF al(1)] len nth by (simp add: s1_def)
  qed
  ultimately show ?thesis by blast
qed

text \<open>
  \<^verbatim>\<open>read_user_mem\<close> refuses every address from KERN_BASE - 4 on, but below that it
  does read kernel memory on behalf of a user program: through the identity map of the low 4 MB,
  which user mode cannot access itself, it returns the kernel's bytes.
\<close>

theorem read_user_mem_reads_identity_map:
  assumes map: "\<And>i. i < 4 \<Longrightarrow> translate (mem s) (curr_pgdir s) (a + of_nat i) = kernel_xlation (a + of_nat i)"
    and a: "unat a + 4 \<le> 0x400000"
  shows "read_user_mem s a = Ok (Some (load32 (mem s) (PHYS_TO_VIRT a))) \<and>
    (\<exists>x. translate (mem s) (curr_pgdir s) a = Some x \<and> \<not> xl_user x) \<and>
    (\<forall>b \<ge> KERN_BASE - 4. read_user_mem s b = Ok None)"
proof -
  have un: "unat (a + of_nat i) = unat a + i" if "i < 4" for i
    by (rule unat_add_lt) (use a that in simp)
  have lt: "a + of_nat i < 0x400000" "a + of_nat i < KERN_BASE" if "i < 4" for i
    using un [OF that] a that by (simp_all add: word_less_nat_alt KERN_BASE_def)
  have rd: "vread s (a + of_nat i) = Ok (mem s (PHYS_TO_VIRT a + of_nat i))" if "i < 4" for i
    using map [OF that] lt [OF that]
    by (simp add: vread_def kernel_xlation_def PHYS_TO_VIRT_def add_ac linorder_not_le [symmetric])
  have "vload32 s a = Ok (load32 (mem s) (PHYS_TO_VIRT a))"
    using rd [of 0] rd [of 1] rd [of 2] rd [of 3] by (simp add: vload32_def load32_def)
  moreover have "\<not> KERN_BASE \<le> a" "\<not> KERN_BASE \<le> a + 4"
    using a unat_add_lt [of a 4] by (simp_all add: word_le_nat_alt KERN_BASE_def)
  moreover have "read_user_mem s b = Ok None" if "KERN_BASE - 4 \<le> b" for b
  proof (cases "KERN_BASE \<le> b")
    case False
    then have "KERN_BASE \<le> b + 4"
      using that unat_add_lt [of b 4] by (simp add: word_le_nat_alt KERN_BASE_def)
    then show ?thesis by (simp add: read_user_mem_def)
  qed (simp add: read_user_mem_def)
  ultimately show ?thesis
    using map [of 0] lt [of 0] by (simp add: read_user_mem_def kernel_xlation_def)
qed

section \<open>Witnesses\<close>

lemma sample_frames:
  "PHYS_TO_VIRT (frame (0x9000 OR PTE_P OR (PTE_RW OR PTE_US))) = 0xc0009000"
  "PHYS_TO_VIRT (frame (0xa000 OR PTE_P OR (PTE_RW OR PTE_US))) = 0xc000a000"
proof -
  have "frame (x OR PTE_P OR (PTE_RW OR PTE_US)) = x" if "page_aligned x" for x
    by (rule entry_fields(1) [where b = PTE_RW]) (simp_all add: that frame_or)
  then show "PHYS_TO_VIRT (frame (0x9000 OR PTE_P OR (PTE_RW OR PTE_US))) = 0xc0009000"
      "PHYS_TO_VIRT (frame (0xa000 OR PTE_P OR (PTE_RW OR PTE_US))) = 0xc000a000"
    by (simp_all add: page_aligned_def PHYS_TO_VIRT_def KERN_BASE_def)
qed

text \<open>Two pages of user memory, at 0x5000 and 0x6000.\<close>

lemma mapped_sample_two:
  "\<exists>s :: mstate. pgdir_ok (mem s) 0xc0001000 \<and> tables (mem s) 0xc0001000 = {0xc0001000, 0xc0002000} \<and>
    page_entry (mem s) 0xc0001000 5 = Some (0x9000 OR PTE_P OR (PTE_RW OR PTE_US)) \<and>
    page_entry (mem s) 0xc0001000 6 = Some (0xa000 OR PTE_P OR (PTE_RW OR PTE_US))"
proof -
  obtain s :: mstate where s: "aspace_ok s 0xc0001000 []"
      "tables (mem s) 0xc0001000 = {0xc0001000, 0xc0002000}"
      "page_entry (mem s) 0xc0001000 5 = Some (0x9000 OR PTE_P OR (PTE_RW OR PTE_US))"
    using mapped_sample by blast
  have p: "pgno (0x6000 :: u32) = 6" "pdx 0x6000 = 0" by (simp_all add: pgno_def pdx_def)
  have some: "ptab (mem s) 0xc0001000 0 \<noteq> None"
    using s(3) by (auto simp: page_entry_def split: option.splits)
  then obtain s' where "mapped_one s s' 0xc0001000 [] 6 (0xa000 OR PTE_P OR (PTE_RW OR PTE_US))"
    using map_page_spec [OF s(1), of "0x6000" "0xa000" "PTE_RW OR PTE_US"] p by auto
  then show ?thesis
    using some s(2,3) aspace_okD(2) by (intro exI [of _ s']) (auto simp: mapped_one_def)
qed

theorem copy_within_page_arrives_witness:
  "\<exists>(s :: mstate) s' y. memcpy_to_another_space s 0xc0001000 0x5ffd 0xc0020000 3 = Ok s' \<and>
    translate (mem s') 0xc0001000 (0x5ffd + of_nat 2) = Some y \<and>
    mem s' (PHYS_TO_VIRT (xl_paddr y)) = mem s (0xc0020000 + of_nat 2)"
proof -
  obtain s :: mstate where s: "aspace_ok s 0xc0001000 []"
      "tables (mem s) 0xc0001000 = {0xc0001000, 0xc0002000}"
      "page_entry (mem s) 0xc0001000 5 = Some (0x9000 OR PTE_P OR (PTE_RW OR PTE_US))"
    using mapped_sample by blast
  let ?bs = "map (\<lambda>i. mem s (0xc0020000 + of_nat i)) [0..<3]"
  have p: "pgno (0x5ffd :: u32) = 5" "page_off 0x5ffd = 0xffd" "(0x5ffd :: u32) AND 0xfff = 0xffd"
    by (simp_all add: pgno_def page_off_def)
  obtain x where x: "translate (mem s) 0xc0001000 0x5ffd = Some x"
      "xl_paddr x = frame (0x9000 OR PTE_P OR (PTE_RW OR PTE_US)) + 0xffd"
    using translate_page_entry [OF aspace_okD(2) [OF s(1)], of "0x5ffd"] s(3) p by auto
  have xp: "0xc0009ffd = PHYS_TO_VIRT (xl_paddr x)"
    using sample_frames(1) x(2) by (simp add: PHYS_TO_VIRT_def KERN_BASE_def)
  have nn: "NULL \<notin> tables (mem s) 0xc0001000" "KERN_BASE \<le> 0xc0009ffd"
      "pgno (0xc0009ffd :: u32) \<notin> pgno ` tables (mem s) 0xc0001000"
    using s(2) by (simp_all add: NULL_def KERN_BASE_def pgno_def)
  have sz: "unat (3 :: u32) = length ?bs" "?bs \<noteq> []" "page_off 0x5ffd + length ?bs \<le> 4096"
    by (simp_all add: p)
  have src: "source_bytes s 0xc0009ffd 0xc0020000 ?bs"
    by (rule source_bytes_kernel) (simp_all add: KERN_BASE_def)
  have two: "2 < length ?bs" by simp
  obtain s' where s': "memcpy_to_another_space s 0xc0001000 0x5ffd 0xc0020000 3 = Ok s'"
      and ar: "\<And>k. k < length ?bs \<Longrightarrow> \<exists>y. translate (mem s') 0xc0001000 (0x5ffd + of_nat k) = Some y \<and>
        mem s' (PHYS_TO_VIRT (xl_paddr y)) = ?bs ! k"
    using copy_within_page_arrives [OF aspace_okD(2) [OF s(1)] nn(1) x(1) xp nn(2,3) sz src] by blast
  have "?bs ! 2 = mem s (0xc0020000 + of_nat 2)" by (simp add: nth_append upt_rec)
  then show ?thesis using s' ar [OF two] by metis
qed

theorem two_page_copy_repeats_first_page_witness:
  "\<exists>(s :: mstate) s'. memcpy_to_another_space s 0xc0001000 0x5000 0xc0020000 (2 * PGSIZE) = Ok s' \<and>
    mem s' (0xc000a000 + of_nat 7) = mem s (0xc0020000 + of_nat 7)"
proof -
  obtain s :: mstate where s: "pgdir_ok (mem s) 0xc0001000"
      "tables (mem s) 0xc0001000 = {0xc0001000, 0xc0002000}"
      "page_entry (mem s) 0xc0001000 5 = Some (0x9000 OR PTE_P OR (PTE_RW OR PTE_US))"
      "page_entry (mem s) 0xc0001000 6 = Some (0xa000 OR PTE_P OR (PTE_RW OR PTE_US))"
    using mapped_sample_two by blast
  have d: "page_aligned (0x5000 :: u32)" "pgno (0x5000 :: u32) < 1048575" "pgno (0x5000 :: u32) = 5"
    by (simp_all add: page_aligned_def pgno_def)
  have e: "page_entry (mem s) 0xc0001000 (pgno 0x5000) = Some (0x9000 OR PTE_P OR (PTE_RW OR PTE_US))"
      "page_entry (mem s) 0xc0001000 (pgno 0x5000 + 1) = Some (0xa000 OR PTE_P OR (PTE_RW OR PTE_US))"
    using s(3,4) d(3) by simp_all
  have nn: "NULL \<notin> tables (mem s) 0xc0001000" "KERN_BASE \<le> 0xc0009000" "KERN_BASE \<le> 0xc000a000"
      "0xc0009000 \<notin> tables (mem s) 0xc0001000" "(0xc0009000 :: u32) \<noteq> 0xc000a000"
      "page_aligned (0xc0020000 :: u32)" "KERN_BASE \<le> 0xc0020000" "(0xc0020000 :: u32) \<noteq> 0xc0009000"
      "(0xc0020000 :: u32) \<noteq> 0xc000a000"
    using s(2) by (simp_all add: NULL_def KERN_BASE_def page_aligned_def)
  obtain s' where s': "memcpy_to_another_space s 0xc0001000 0x5000 0xc0020000 (2 * PGSIZE) = Ok s'"
      and c: "\<And>k. k < 4096 \<Longrightarrow> mem s' (0xc000a000 + of_nat k) = mem s (0xc0020000 + of_nat k)"
    using two_page_copy_repeats_first_page [OF s(1) nn(1) d(1,2) e sample_frames [symmetric] nn(2-9)] by blast
  show ?thesis using s' c [of 7] by (intro exI [of _ s] exI [of _ s']) simp
qed

theorem read_user_mem_reads_identity_map_witness:
  "\<exists>(s :: mstate). read_user_mem s 0x100000 = Ok (Some (load32 (mem s) 0xc0100000)) \<and>
    read_user_mem s 0xc0100000 = Ok None"
proof -
  obtain s :: mstate and ps where s: "kheap s ps" "length ps = 767" using boot_heap by blast
  then obtain pd qs where ps: "ps = pd # qs" by (cases ps) auto
  have "kheap s (pd # qs)" "kernel_tables \<le> length qs" using s ps by (simp_all add: kernel_tables_def)
  note K = map_kernel_spec [OF this]
  then obtain s1 where s1: "map_kernel s = Ok (pd, s1)" "aspace_ok s1 pd (drop kernel_tables qs)"
      "\<forall>w < 1048576. page_entry (mem s1) pd w = kernel_entry w"
    by blast
  let ?s = "lcr3 s1 pd"
  have tr: "translate (mem ?s) (curr_pgdir ?s) va = kernel_xlation va" for va
    using kernel_entry_xlation [OF aspace_okD(2) [OF s1(2)], of va] s1(3) pgno_lt [of va]
    by (simp add: lcr3_def curr_pgdir_def)
  have "unat (0x100000 :: u32) + 4 \<le> 0x400000" by simp
  from read_user_mem_reads_identity_map [of ?s "0x100000", OF tr this]
  show ?thesis by (intro exI [of _ ?s]) (simp add: PHYS_TO_VIRT_def KERN_BASE_def)
qed

end
