(* ===== verification/CString.thy ===== *)
theory CString
  imports Store
begin

text \<open>
  C strings: the string functions of \<^verbatim>\<open>string.c\<close> and \<^verbatim>\<open>atoi\<close> of \<^verbatim>\<open>util.c\<close>. A \<^verbatim>\<open>char *\<close> is a
  reader: it gives the byte at each offset from the pointer, or the outcome of reading there
  (\<open>Undef\<close> outside an array, a panic for a page that is not mapped). \<open>cstring s xs\<close> says that \<open>s\<close>
  points to the bytes \<open>xs\<close> followed by a NUL; the lemmas give each function's result on such a
  string. Loops that look for a NUL carry 2^32 units of fuel: after that many steps the pointer has
  visited every address and the loop cannot end, so running out is \<open>Diverge\<close>.
\<close>

type_synonym reader = "nat \<Rightarrow> u8 outcome"

definition NUL_SCAN :: nat where
  "NUL_SCAN = 4294967296"

text \<open>The readers of an array in a structure and of a pointer into kernel memory.\<close>

definition arr :: "u8 list \<Rightarrow> reader" where
  "arr xs i = (if i < length xs then Ok (xs ! i) else Undef ''read past the end of an array'')"

definition kptr :: "mem \<Rightarrow> u32 \<Rightarrow> reader" where
  "kptr m p i = Ok (m (p + of_nat i))"

section \<open>The functions of string.c\<close>

fun strlen_from :: "nat \<Rightarrow> reader \<Rightarrow> nat \<Rightarrow> nat outcome" where
  "strlen_from 0 s ret = Diverge"
| "strlen_from (Suc fuel) s ret =
     bnd (s ret) (\<lambda>c. if c \<noteq> 0 then strlen_from fuel s (Suc ret) else Ok ret)"

definition strlen :: "reader \<Rightarrow> nat outcome" where
  "strlen s = strlen_from NUL_SCAN s 0"

text \<open>\<^verbatim>\<open>char\<close> is signed on this target, so \<^verbatim>\<open>*p1 > *p2\<close> compares two's complement values.\<close>

fun strcmp_from :: "nat \<Rightarrow> reader \<Rightarrow> reader \<Rightarrow> nat \<Rightarrow> int outcome" where
  "strcmp_from 0 s1 s2 i = Diverge"
| "strcmp_from (Suc fuel) s1 s2 i =
     bnd (s1 i) (\<lambda>c1. bnd (s2 i) (\<lambda>c2.
       if c1 = c2 \<and> c1 \<noteq> 0 \<and> c2 \<noteq> 0 then strcmp_from fuel s1 s2 (Suc i)
       else if c1 = c2 \<and> c1 = 0 then Ok 0
       else if sint c1 > sint c2 then Ok 1 else Ok (-1)))"

definition strcmp :: "reader \<Rightarrow> reader \<Rightarrow> int outcome" where
  "strcmp s1 s2 = strcmp_from NUL_SCAN s1 s2 0"

text \<open>
  \<^verbatim>\<open>strcpy\<close> into a fixed-size array (a structure's \<^verbatim>\<open>name\<close>): writing past the array is undefined,
  so it ends after at most \<open>length dest\<close> characters.
\<close>

function strcpy_from :: "u8 list \<Rightarrow> reader \<Rightarrow> nat \<Rightarrow> u8 list outcome" where
  "strcpy_from dest src i =
     bnd (src i) (\<lambda>c.
       if length dest \<le> i then Undef ''write past the end of an array''
       else if c \<noteq> 0 then strcpy_from (dest[i := c]) src (Suc i)
       else Ok (dest[i := 0]))"
  by pat_completeness auto
termination
  by (relation "measure (\<lambda>(dest, src, i). length dest - i)") auto

declare strcpy_from.simps [simp del]

definition strcpy :: "u8 list \<Rightarrow> reader \<Rightarrow> u8 list outcome" where
  "strcpy dest src = strcpy_from dest src 0"

text \<open>The same copy with a destination in memory and a structure's array as the source.\<close>

function strcpy_mem_from :: "mem \<Rightarrow> u32 \<Rightarrow> u8 list \<Rightarrow> nat \<Rightarrow> mem outcome" where
  "strcpy_mem_from m dest src i =
     (if length src \<le> i then Undef ''read past the end of an array''
      else if src ! i \<noteq> 0 then strcpy_mem_from (m(dest + of_nat i := src ! i)) dest src (Suc i)
      else Ok (m(dest + of_nat i := 0)))"
  by pat_completeness auto
termination
  by (relation "measure (\<lambda>(m, dest, src, i). length src - i)") auto

declare strcpy_mem_from.simps [simp del]

definition strcpy_mem :: "mem \<Rightarrow> u32 \<Rightarrow> u8 list \<Rightarrow> mem outcome" where
  "strcpy_mem m dest src = strcpy_mem_from m dest src 0"

section \<open>Strings and what the functions return on them\<close>

definition cstring :: "reader \<Rightarrow> u8 list \<Rightarrow> bool" where
  "cstring s xs \<longleftrightarrow> length xs < NUL_SCAN \<and> 0 \<notin> set xs \<and>
     (\<forall>i < length xs. s i = Ok (xs ! i)) \<and> s (length xs) = Ok 0"

lemma cstring_arr [simp]: "0 \<notin> set xs \<Longrightarrow> length xs < NUL_SCAN \<Longrightarrow> cstring (arr (xs @ 0 # ys)) xs"
  by (simp add: cstring_def arr_def nth_append)

lemma cstring_length: "cstring s xs \<Longrightarrow> length xs < NUL_SCAN"
  by (simp add: cstring_def)

lemma cstring_nth: "cstring s xs \<Longrightarrow> i < length xs \<Longrightarrow> s i = Ok (xs ! i) \<and> xs ! i \<noteq> 0"
  by (auto simp: cstring_def) (metis nth_mem)

lemma cstring_end: "cstring s xs \<Longrightarrow> s (length xs) = Ok 0"
  by (simp add: cstring_def)

text \<open>A pointer has at most one string.\<close>

lemma cstring_not_shorter: "cstring s xs \<Longrightarrow> cstring s ys \<Longrightarrow> \<not> length xs < length ys"
  using cstring_end [of s xs] cstring_nth [of s ys "length xs"] by auto

lemma cstring_unique: "cstring s xs \<Longrightarrow> cstring s ys \<Longrightarrow> xs = ys"
proof -
  assume a: "cstring s xs" "cstring s ys"
  then have "length xs = length ys"
    using cstring_not_shorter by (metis linorder_neqE_nat)
  then show "xs = ys"
    using a cstring_nth by (intro nth_equalityI) (auto, metis outcome.inject(1))
qed

lemma strlen_from_cstring:
  "cstring s xs \<Longrightarrow> i \<le> length xs \<Longrightarrow> length xs - i < fuel \<Longrightarrow> strlen_from fuel s i = Ok (length xs)"
proof (induction fuel arbitrary: i)
  case (Suc fuel)
  then show ?case
    using cstring_nth [of s xs i] cstring_end [of s xs] by (cases "i = length xs") auto
qed simp

lemma strlen_cstring: "cstring s xs \<Longrightarrow> strlen s = Ok (length xs)"
  unfolding strlen_def by (rule strlen_from_cstring) (auto dest: cstring_length)

text \<open>The order \<^verbatim>\<open>strcmp\<close> computes, on lists: the sign of the first difference.\<close>

fun str_order :: "u8 list \<Rightarrow> u8 list \<Rightarrow> int" where
  "str_order [] [] = 0"
| "str_order [] (y # ys) = (if sint y < 0 then 1 else - 1)"
| "str_order (x # xs) [] = (if 0 < sint x then 1 else - 1)"
| "str_order (x # xs) (y # ys) =
     (if x = y then str_order xs ys else if sint y < sint x then 1 else - 1)"

lemma str_order_eq_0: "str_order xs ys = 0 \<longleftrightarrow> xs = ys"
  by (induction xs ys rule: str_order.induct) auto

lemma str_order_swap: "0 \<notin> set xs \<Longrightarrow> 0 \<notin> set ys \<Longrightarrow> str_order ys xs = - str_order xs ys"
proof (induction xs ys rule: str_order.induct)
  case (2 y ys)
  then show ?case using signed_eq_0_iff [of y] by auto
next
  case (3 x xs)
  then show ?case using signed_eq_0_iff [of x] by auto
next
  case (4 x xs y ys)
  then show ?case using signed_word_eqI [of x y] by auto
qed simp

lemma strcmp_from_cstring:
  "cstring s xs \<Longrightarrow> cstring t ys \<Longrightarrow> i \<le> length xs \<Longrightarrow> i \<le> length ys \<Longrightarrow> length xs - i < fuel \<Longrightarrow>
   strcmp_from fuel s t i = Ok (str_order (drop i xs) (drop i ys))"
proof (induction fuel arbitrary: i)
  case (Suc fuel)
  show ?case
  proof (cases "i < length xs \<and> i < length ys")
    case True
    then have "drop i xs = xs ! i # drop (Suc i) xs" "drop i ys = ys ! i # drop (Suc i) ys"
      by (simp_all add: Cons_nth_drop_Suc)
    then show ?thesis
      using Suc True cstring_nth [of s xs i] cstring_nth [of t ys i] by auto
  next
    case False
    then consider "i = length xs" "i = length ys" | "i = length xs" "i < length ys"
      | "i < length xs" "i = length ys"
      using Suc.prems by linarith
    then show ?thesis
    proof cases
      case 1
      then show ?thesis
        using Suc.prems cstring_end [of s xs] cstring_end [of t ys] by auto
    next
      case 2
      then have "drop i ys = ys ! i # drop (Suc i) ys" by (simp add: Cons_nth_drop_Suc)
      then show ?thesis
        using 2 Suc.prems cstring_end [of s xs] cstring_nth [of t ys i] by auto
    next
      case 3
      then have "drop i xs = xs ! i # drop (Suc i) xs" by (simp add: Cons_nth_drop_Suc)
      then show ?thesis
        using 3 Suc.prems cstring_end [of t ys] cstring_nth [of s xs i] by auto
    qed
  qed
qed simp

lemma strcmp_cstring: "cstring s xs \<Longrightarrow> cstring t ys \<Longrightarrow> strcmp s t = Ok (str_order xs ys)"
  unfolding strcmp_def
  using strcmp_from_cstring [of s xs t ys 0 NUL_SCAN] by (simp add: cstring_length)

lemma strcpy_from_cstring:
  "cstring src xs \<Longrightarrow> i \<le> length xs \<Longrightarrow> length xs < length dest \<Longrightarrow> take i dest = take i xs \<Longrightarrow>
   strcpy_from dest src i = Ok (xs @ 0 # drop (Suc (length xs)) dest)"
proof (induction "length xs - i" arbitrary: i dest)
  case 0
  then have "i = length xs" by simp
  then show ?case
    using 0 by (simp add: strcpy_from.simps cstring_end upd_conv_take_nth_drop)
next
  case (Suc k)
  then have i: "i < length xs" by simp
  have "take (Suc i) (dest[i := xs ! i]) = take (Suc i) xs"
    using Suc.prems i by (simp add: take_Suc_conv_app_nth)
  then have "strcpy_from (dest[i := xs ! i]) src (Suc i) = Ok (xs @ 0 # drop (Suc (length xs)) dest)"
    using Suc.hyps(1) [of "Suc i" "dest[i := xs ! i]"] Suc.hyps(2) Suc.prems i by simp
  then show ?case
    using cstring_nth [OF Suc.prems(1) i] i Suc.prems(3) by (subst strcpy_from.simps) simp
qed

lemma strcpy_cstring:
  "cstring src xs \<Longrightarrow> length xs < length dest \<Longrightarrow>
   strcpy dest src = Ok (xs @ 0 # drop (Suc (length xs)) dest)"
  unfolding strcpy_def by (rule strcpy_from_cstring) auto

text \<open>A copy that is too long for its destination is undefined, never a silent truncation.\<close>

lemma strcpy_from_overflow:
  "cstring src xs \<Longrightarrow> length dest \<le> length xs \<Longrightarrow> i \<le> length dest \<Longrightarrow>
   strcpy_from dest src i = Undef ''write past the end of an array''"
proof (induction "length dest - i" arbitrary: i dest)
  case 0
  then have "i = length dest" by simp
  moreover obtain c where "src i = Ok c"
    using 0 cstring_nth [of src xs i] cstring_end [of src xs] by (cases "i = length xs") auto
  ultimately show ?case by (subst strcpy_from.simps) simp
next
  case (Suc k)
  then have i: "i < length xs" "i < length dest" by linarith+
  then have "strcpy_from (dest[i := xs ! i]) src (Suc i) = Undef ''write past the end of an array''"
    using Suc.hyps(1) [of "dest[i := xs ! i]" "Suc i"] Suc.hyps(2) Suc.prems by simp
  then show ?case
    using cstring_nth [OF Suc.prems(1) i(1)] i by (subst strcpy_from.simps) simp
qed

lemma strcpy_overflow:
  "cstring src xs \<Longrightarrow> length dest \<le> length xs \<Longrightarrow>
   strcpy dest src = Undef ''write past the end of an array''"
  unfolding strcpy_def by (rule strcpy_from_overflow) auto

section \<open>Numbers as text\<close>

text \<open>
  Signed arithmetic of C's \<^verbatim>\<open>int\<close>: a result outside 32 bits is undefined. \<open>chr_int\<close> is the value
  of a \<^verbatim>\<open>char\<close> in an expression.
\<close>

definition i32 :: "int \<Rightarrow> int outcome" where
  "i32 x = (if - 2147483648 \<le> x \<and> x < 2147483648 then Ok x else Undef ''signed overflow'')"

text \<open>The first loop of \<^verbatim>\<open>atoi\<close> moves \<open>p\<close> to the last character.\<close>

fun atoi_last :: "nat \<Rightarrow> reader \<Rightarrow> nat \<Rightarrow> nat outcome" where
  "atoi_last 0 s p = Diverge"
| "atoi_last (Suc fuel) s p =
     bnd (s (p + 1)) (\<lambda>c. if c \<noteq> 0 then atoi_last fuel s (Suc p) else Ok p)"

text \<open>The second walks back to the first, which is the sign or the leading digit.\<close>

fun atoi_back :: "reader \<Rightarrow> nat \<Rightarrow> int \<Rightarrow> int \<Rightarrow> int outcome" where
  "atoi_back s (Suc p) ret base =
     bnd (s (Suc p)) (\<lambda>c.
     bnd (i32 (base * (sint c - 48))) (\<lambda>t.
     bnd (i32 (ret + t)) (\<lambda>ret'.
     bnd (i32 (base * 10)) (\<lambda>base'. atoi_back s p ret' base'))))"
| "atoi_back s 0 ret base =
     bnd (s 0) (\<lambda>c.
       if c = 45 then i32 (ret * -1)
       else bnd (i32 (base * (sint c - 48))) (\<lambda>t. i32 (ret + t)))"

definition atoi :: "reader \<Rightarrow> int outcome" where
  "atoi s = bnd (atoi_last NUL_SCAN s 0) (\<lambda>p. atoi_back s p 0 1)"

text \<open>The decimal value of a list of digits, and the text of such a list.\<close>

definition dec_value :: "nat list \<Rightarrow> nat" where
  "dec_value ds = foldl (\<lambda>v d. 10 * v + d) 0 ds"

definition digit_chars :: "nat list \<Rightarrow> u8 list" where
  "digit_chars ds = map (\<lambda>d. of_nat (48 + d)) ds"

lemma length_digit_chars [simp]: "length (digit_chars ds) = length ds"
  by (simp add: digit_chars_def)

lemma dec_value_snoc: "dec_value (ds @ [d]) = 10 * dec_value ds + d"
  by (simp add: dec_value_def)

lemma dec_value_less: "\<forall>d \<in> set ds. d < 10 \<Longrightarrow> dec_value ds < 10 ^ length ds"
proof (induction ds rule: rev_induct)
  case (snoc d ds)
  then show ?case by (simp add: dec_value_snoc)
qed (simp add: dec_value_def)

lemma sint_digit: "d < 10 \<Longrightarrow> sint (of_nat (48 + d) :: u8) = int (48 + d)"
proof -
  assume "d < 10"
  then have "d \<in> set [0..<10]" by simp
  then show ?thesis
    by (auto simp: upt_rec)
qed

lemma digit_chars_nonzero: "\<forall>d \<in> set ds. d < 10 \<Longrightarrow> 0 \<notin> set (digit_chars ds)"
proof
  assume "\<forall>d \<in> set ds. d < 10" "0 \<in> set (digit_chars ds)"
  then obtain d where "d < 10" "(of_nat (48 + d) :: u8) = 0"
    by (auto simp: digit_chars_def)
  then show False using sint_digit [of d] by simp
qed

lemma atoi_last_cstring:
  "cstring s xs \<Longrightarrow> p < length xs \<Longrightarrow> length xs - p < Suc fuel \<Longrightarrow>
   atoi_last fuel s p = Ok (length xs - 1)"
proof (induction fuel arbitrary: p)
  case (Suc fuel)
  show ?case
  proof (cases "Suc p = length xs")
    case True
    then show ?thesis using cstring_end [OF Suc.prems(1)] by auto
  next
    case False
    then show ?thesis
      using Suc cstring_nth [OF Suc.prems(1), of "Suc p"] by auto
  qed
qed simp

text \<open>
  The walk back over digits \<open>ds\<close> adds their value at weight \<open>base\<close>; nothing overflows as long as
  the number written fits and the weight of the leading digit does.
\<close>

lemma i32_ok: "0 \<le> x \<Longrightarrow> x < 2147483648 \<Longrightarrow> i32 x = Ok x"
  by (simp add: i32_def)

lemma i32_ok_nat: "n < 2147483648 \<Longrightarrow> i32 (int n) = Ok (int n)"
  by (simp add: i32_def)

lemma atoi_back_digits:
  assumes "ds \<noteq> []" and "\<forall>d \<in> set ds. d < 10"
    and "\<forall>i < length ds. s i = Ok (digit_chars ds ! i)"
    and "base * 10 ^ (length ds - 1) < 2147483648"
    and "ret + base * dec_value ds < 2147483648" and "0 < base"
  shows "atoi_back s (length ds - 1) (int ret) (int base) = Ok (int (ret + base * dec_value ds))"
  using assms
proof (induction ds arbitrary: ret base rule: rev_induct)
  case (snoc d ds)
  have d: "d < 10" using snoc.prems(2) by simp
  have sd: "s (length ds) = Ok (of_nat (48 + d))"
    using snoc.prems(3) by (simp add: digit_chars_def nth_append)
  have val: "ret + base * (10 * dec_value ds + d) < 2147483648"
    using snoc.prems(5) by (simp add: dec_value_snoc)
  have t: "base * d < 2147483648" "ret + base * d < 2147483648"
    using val by (simp_all add: distrib_left)
  have sub: "int base * (sint (of_nat (48 + d) :: u8) - 48) = int (base * d)"
    using sint_digit [OF d] by simp
  show ?case
  proof (cases ds rule: rev_cases)
    case Nil
    have "(of_nat (48 + d) :: u8) \<noteq> 45"
    proof
      assume "(of_nat (48 + d) :: u8) = 45"
      then have "sint (45 :: u8) = int (48 + d)"
        using sint_digit [OF d] by (simp only:)
      then show False by simp
    qed
    then show ?thesis
      using sd sub t Nil by (simp add: i32_ok dec_value_def del: of_nat_mult of_nat_add)
  next
    case (snoc es e)
    then obtain k where k: "length ds = Suc k" by simp
    have base10: "base * 10 * 10 ^ k < 2147483648"
      using snoc.prems(4) k by (simp add: mult.assoc)
    then have b10: "base * 10 < 2147483648"
      by (metis le_less_trans mult.right_neutral mult_le_mono2 one_le_power one_le_numeral)
    have IH: "atoi_back s k (int (ret + base * d)) (int (base * 10))
        = Ok (int (ret + base * d + base * 10 * dec_value ds))"
      using snoc.IH [of "base * 10" "ret + base * d"] snoc snoc.prems base10 val k
      by (auto simp: digit_chars_def nth_append algebra_simps)
    have i1: "i32 (int base * (sint (of_nat (48 + d) :: u8) - 48)) = Ok (int (base * d))"
      unfolding sub by (rule i32_ok_nat [OF t(1)])
    have i2: "i32 (int ret + int (base * d)) = Ok (int (ret + base * d))"
      using i32_ok_nat [OF t(2)] by simp
    have i3: "i32 (int base * 10) = Ok (int (base * 10))"
      using i32_ok_nat [OF b10] by simp
    have "length (ds @ [d]) - 1 = Suc k" using k by simp
    then have "atoi_back s (length (ds @ [d]) - 1) (int ret) (int base)
        = Ok (int (ret + base * d + base * 10 * dec_value ds))"
      using sd k IH by (simp only: atoi_back.simps bnd.simps i1 i2 i3)
    then show ?thesis
      by (simp add: dec_value_snoc algebra_simps)
  qed
qed simp

lemma atoi_digits:
  assumes "cstring s (digit_chars ds)" and "ds \<noteq> []" and "\<forall>d \<in> set ds. d < 10"
    and "length ds \<le> 10" and "dec_value ds < 2147483648"
  shows "atoi s = Ok (int (dec_value ds))"
proof -
  have "(10::nat) ^ (length ds - 1) \<le> 10 ^ 9"
    by (rule power_increasing) (use assms(4) in auto)
  then have "atoi_back s (length ds - 1) (int 0) (int 1) = Ok (int (0 + 1 * dec_value ds))"
    by (intro atoi_back_digits) (use assms cstring_nth in \<open>auto\<close>)
  moreover have "atoi_last NUL_SCAN s 0 = Ok (length ds - 1)"
    using atoi_last_cstring [OF assms(1), of 0 NUL_SCAN] assms(2) cstring_length [OF assms(1)]
    by simp
  ultimately show ?thesis by (simp add: atoi_def)
qed

section \<open>Properties\<close>

lemma str_order_sign: "str_order xs ys \<in> {- 1, 0, 1}"
  by (induction xs ys rule: str_order.induct) auto

lemma ascii_sint: "(x :: u8) < 128 \<Longrightarrow> sint x = int (unat x)"
proof -
  assume "x < 128"
  then have "uint x < 2 ^ 7" by (simp add: word_less_def)
  moreover have "- (2 ^ 7) \<le> uint x" by (rule order_trans [OF _ uint_ge_0]) simp
  ultimately have "signed_take_bit 7 (uint x) = uint x" by (intro signed_take_bit_int_eq_self)
  then show ?thesis by (simp add: sint_uint)
qed

lemma str_order_lexord:
  "0 \<notin> set xs \<Longrightarrow> 0 \<notin> set ys \<Longrightarrow> \<forall>x \<in> set xs \<union> set ys. x < 128 \<Longrightarrow>
   str_order xs ys = - 1 \<longleftrightarrow> (xs, ys) \<in> lexord {(a, b). a < b}"
proof (induction xs ys rule: str_order.induct)
  case (3 x xs)
  then have "0 < unat x" by (auto simp: unat_gt_0)
  then have "0 < int (unat x)" by (simp only: of_nat_0_less_iff)
  moreover have "sint x = int (unat x)" using 3 by (intro ascii_sint) simp
  ultimately have "0 < sint x" by (simp only:)
  then show ?case by simp
next
  case (2 y ys)
  then show ?case using ascii_sint [of y] by auto
next
  case (4 x xs y ys)
  then show ?case using ascii_sint [of x] ascii_sint [of y] by (auto simp: word_less_def word_uint_eq_iff)
qed simp

text \<open>
  Property C36: on zero-terminated strings \<^verbatim>\<open>strcmp\<close> returns, tells exactly the equal ones by 0 and is
  antisymmetric; on ASCII strings it is the lexicographic order. Beyond ASCII it is not, since \<^verbatim>\<open>char\<close> is
  signed: a string can come after its own extension.
\<close>

theorem strcmp_is_lexicographic:
  assumes "cstring s xs" and "cstring t ys"
  shows "\<exists>r. strcmp s t = Ok r \<and> strcmp t s = Ok (- r) \<and> r \<in> {- 1, 0, 1} \<and> (r = 0 \<longleftrightarrow> xs = ys) \<and>
    ((\<forall>x \<in> set xs \<union> set ys. x < 128) \<longrightarrow> (r = - 1 \<longleftrightarrow> (xs, ys) \<in> lexord {(a, b). a < b}))"
proof (intro exI conjI impI)
  have z: "0 \<notin> set xs" "0 \<notin> set ys" using assms by (auto simp: cstring_def)
  show "strcmp s t = Ok (str_order xs ys)" by (rule strcmp_cstring [OF assms])
  show "strcmp t s = Ok (- str_order xs ys)"
    using strcmp_cstring [OF assms(2,1)] str_order_swap [OF z] by simp
  show "str_order xs ys = - 1 \<longleftrightarrow> (xs, ys) \<in> lexord {(a, b). a < b}" if "\<forall>x \<in> set xs \<union> set ys. x < 128"
    by (rule str_order_lexord [OF z that])
  show "str_order xs ys \<in> {- 1, 0, 1}" by (rule str_order_sign)
qed (simp_all only: str_order_eq_0)

section \<open>Witnesses\<close>

theorem strcmp_is_lexicographic_witness:
  "strcmp (arr [108, 115, 0]) (arr [115, 104, 0]) = Ok (- 1) \<and> strcmp (arr [115, 104, 0]) (arr [108, 115, 0]) = Ok 1"
proof -
  have "cstring (arr [108, 115, 0]) [108, 115]" "cstring (arr [115, 104, 0]) [115, 104]"
    using cstring_arr [of "[108, 115]" "[]"] cstring_arr [of "[115, 104]" "[]"] by (simp_all add: NUL_SCAN_def)
  note strcmp_is_lexicographic [OF this]
  moreover have "([108, 115], [115, 104]) \<in> lexord {(a :: u8, b). a < b}" by simp
  ultimately show ?thesis by auto
qed

end
