(* ===== verification/Devices.thy ===== *)
theory Devices
  imports UserMem CString
begin

text \<open>
  The devices: port and memory-mapped input and output (\<^verbatim>\<open>asm.h\<close>), the serial port of \<^verbatim>\<open>uart.c\<close>, the
  local APIC of \<^verbatim>\<open>lapic.c\<close> and the I/O APIC of \<^verbatim>\<open>ioapic.c\<close>. What a device answers is an input of the
  model (\<open>port_in\<close>, \<open>mmio_in\<close>, by the number of the access and the register); what the kernel sends is
  recorded in \<open>port_out\<close> and \<open>mmio_out\<close>. Waiting for a bit that never comes does not return
  (\<open>Diverge\<close>); under \<open>uart_ready\<close>, that the transmitter is ready again and again, it does.
\<close>

record dev_state = mstate +
  port_in :: "nat \<Rightarrow> u16 \<Rightarrow> u8"
  mmio_in :: "nat \<Rightarrow> u32 \<Rightarrow> u32"
  io_time :: nat
  port_out :: "(u16 \<times> u8) list"
  mmio_out :: "(u32 \<times> u32) list"

section \<open>Input and output\<close>

definition outb :: "'z dev_state_scheme \<Rightarrow> u16 \<Rightarrow> u8 \<Rightarrow> 'z dev_state_scheme" where
  "outb s port x = s\<lparr>port_out := port_out s @ [(port, x)]\<rparr>"

definition inb :: "'z dev_state_scheme \<Rightarrow> u16 \<Rightarrow> u8 \<times> 'z dev_state_scheme" where
  "inb s port = (port_in s (io_time s) port, s\<lparr>io_time := Suc (io_time s)\<rparr>)"

text \<open>
  Accesses to the registers of the two APICs, at addresses from MMDEV_BASE on; \<^verbatim>\<open>reg\<close> counts
  32-bit words.
\<close>

definition mmio_write :: "'z dev_state_scheme \<Rightarrow> u32 \<Rightarrow> u32 \<Rightarrow> 'z dev_state_scheme" where
  "mmio_write s a x = s\<lparr>mmio_out := mmio_out s @ [(a, x)]\<rparr>"

definition mmio_read :: "'z dev_state_scheme \<Rightarrow> u32 \<Rightarrow> u32 \<times> 'z dev_state_scheme" where
  "mmio_read s a = (mmio_in s (io_time s) a, s\<lparr>io_time := Suc (io_time s)\<rparr>)"

section \<open>uart.c\<close>

definition COM1 :: u16 where "COM1 = 0x3f8"
definition UART_LINE_STAT :: u16 where "UART_LINE_STAT = 0x5"
definition UART_STAT_REG_READY :: u8 where "UART_STAT_REG_READY = 1"
definition UART_STAT_REG_EMPTY :: u8 where "UART_STAT_REG_EMPTY = 32"
definition DEL :: int where "DEL = 0x7f"

definition init_uart :: "'z dev_state_scheme \<Rightarrow> 'z dev_state_scheme" where
  "init_uart s =
     (let s = outb s (COM1 + 0x3) 0x80;
          s = outb s (COM1 + 0x0) (115200 div 9600);
          s = outb s (COM1 + 0x1) 0;
          s = outb s (COM1 + 0x3) 0x03;
          s = outb s (COM1 + 0x4) 0x0
      in outb s (COM1 + 0x1) 0x1)"

partial_function (option) uart_wait :: "'z dev_state_scheme \<Rightarrow> 'z dev_state_scheme option" where
  "uart_wait s =
     (if fst (inb s (COM1 + UART_LINE_STAT)) AND UART_STAT_REG_EMPTY = 0
      then uart_wait (snd (inb s (COM1 + UART_LINE_STAT)))
      else Some (snd (inb s (COM1 + UART_LINE_STAT))))"

definition uart_write_byte :: "'z dev_state_scheme \<Rightarrow> u8 \<Rightarrow> 'z dev_state_scheme outcome" where
  "uart_write_byte s ch =
     (case uart_wait s of None \<Rightarrow> Diverge | Some s1 \<Rightarrow> Ok (outb s1 (COM1 + 0) ch))"

definition uart_read_byte :: "'z dev_state_scheme \<Rightarrow> int \<times> 'z dev_state_scheme" where
  "uart_read_byte s =
     (let (st, s1) = inb s (COM1 + UART_LINE_STAT)
      in if st AND UART_STAT_REG_READY = 0 then (-1, s1)
         else let (b, s2) = inb s1 (COM1 + 0);
                  ret = uint b
              in ((if ret = 13 then 10 else ret), s2))"

section \<open>lapic.c\<close>

definition LAPIC :: u32 where "LAPIC = 0xfee00000"
definition LA_ID :: u32 where "LA_ID = 0x20 div 4"
definition LA_SIV :: u32 where "LA_SIV = 0xf0 div 4"
definition LA_LVT_LINT0 :: u32 where "LA_LVT_LINT0 = 0x350 div 4"
definition LA_LVT_LINT1 :: u32 where "LA_LVT_LINT1 = 0x360 div 4"
definition LA_LVT_PERF_MON_CTR :: u32 where "LA_LVT_PERF_MON_CTR = 0x340 div 4"
definition LA_LVT_ERR :: u32 where "LA_LVT_ERR = 0x370 div 4"
definition LA_ERR_STAT :: u32 where "LA_ERR_STAT = 0x280 div 4"
definition LA_EOI :: u32 where "LA_EOI = 0xb0 div 4"
definition LA_TASK_PRI :: u32 where "LA_TASK_PRI = 0x80 div 4"
definition LA_LVT_TIMER :: u32 where "LA_LVT_TIMER = 0x320 div 4"
definition LA_DCR :: u32 where "LA_DCR = 0x3e0 div 4"
definition LA_INIT_CNT :: u32 where "LA_INIT_CNT = 0x380 div 4"
definition LA_ENABLE :: u32 where "LA_ENABLE = 0x100"
definition LA_MASK :: u32 where "LA_MASK = 0x10000"
definition LA_TIMER_PERIODIC :: u32 where "LA_TIMER_PERIODIC = push_bit 17 1"
definition LA_DIVIDE_BY :: u32 where "LA_DIVIDE_BY = 0xb"
definition LA_TIMER_INIT :: u32 where "LA_TIMER_INIT = 10000000"

text \<open>Interrupt numbers of \<^verbatim>\<open>lapic.h\<close> and \<^verbatim>\<open>uart.h\<close>, relative to \<^verbatim>\<open>T_IRQ_BASE\<close>.\<close>

definition T_IRQ :: u32 where "T_IRQ = 0x20"
definition IRQ_TIMER :: u32 where "IRQ_TIMER = 0"
definition IRQ_SERIAL :: u32 where "IRQ_SERIAL = 4"
definition IRQ_SPURIOUS :: u32 where "IRQ_SPURIOUS = 7"
definition IRQ_ERR :: u32 where "IRQ_ERR = 8"

definition write_lapic :: "'z dev_state_scheme \<Rightarrow> u32 \<Rightarrow> u32 \<Rightarrow> 'z dev_state_scheme" where
  "write_lapic s reg value = snd (mmio_read (mmio_write s (LAPIC + 4 * reg) value) (LAPIC + 4 * LA_ID))"

definition eoi :: "'z dev_state_scheme \<Rightarrow> 'z dev_state_scheme" where
  "eoi s = write_lapic s LA_EOI 0"

definition init_lapic :: "'z dev_state_scheme \<Rightarrow> 'z dev_state_scheme" where
  "init_lapic s =
     (let s = write_lapic s LA_ID 0;
          s = write_lapic s LA_SIV ((T_IRQ + IRQ_SPURIOUS) OR LA_ENABLE);
          s = write_lapic s LA_LVT_LINT0 LA_MASK;
          s = write_lapic s LA_LVT_LINT1 LA_MASK;
          s = write_lapic s LA_LVT_PERF_MON_CTR LA_MASK;
          s = write_lapic s LA_LVT_ERR (T_IRQ + IRQ_ERR);
          s = write_lapic s LA_ERR_STAT 0;
          s = write_lapic s LA_ERR_STAT 0;
          s = eoi s;
          s = write_lapic s LA_TASK_PRI 0;
          s = write_lapic s LA_DCR LA_DIVIDE_BY;
          s = write_lapic s LA_LVT_TIMER (LA_TIMER_PERIODIC OR (T_IRQ + IRQ_TIMER))
      in write_lapic s LA_INIT_CNT LA_TIMER_INIT)"

definition disable_pic :: "'z dev_state_scheme \<Rightarrow> 'z dev_state_scheme" where
  "disable_pic s = outb (outb s 0xa1 0xff) 0x21 0xff"

section \<open>ioapic.c\<close>

definition IOAPIC :: u32 where "IOAPIC = 0xfec00000"
definition IA_REDIR_BASE :: u32 where "IA_REDIR_BASE = 0x10"
definition IA_MASK :: u32 where "IA_MASK = push_bit 16 1"

definition read_ioapic :: "'z dev_state_scheme \<Rightarrow> u32 \<Rightarrow> u32 \<times> 'z dev_state_scheme" where
  "read_ioapic s reg = mmio_read (mmio_write s IOAPIC (reg AND 0xff)) (IOAPIC + 4 * 4)"

definition write_ioapic :: "'z dev_state_scheme \<Rightarrow> u32 \<Rightarrow> u32 \<Rightarrow> 'z dev_state_scheme" where
  "write_ioapic s reg data = mmio_write (mmio_write s IOAPIC (reg AND 0xff)) (IOAPIC + 4 * 4) data"

definition disable_ioapic :: "'z dev_state_scheme \<Rightarrow> u32 \<Rightarrow> 'z dev_state_scheme" where
  "disable_ioapic s irq =
     write_ioapic (write_ioapic s (IA_REDIR_BASE + irq * 2) IA_MASK) (IA_REDIR_BASE + irq * 2 + 1) 0"

definition enable_ioapic :: "'z dev_state_scheme \<Rightarrow> u32 \<Rightarrow> 'z dev_state_scheme" where
  "enable_ioapic s irq =
     write_ioapic (write_ioapic s (IA_REDIR_BASE + irq * 2) (T_IRQ + irq))
       (IA_REDIR_BASE + irq * 2 + 1) (T_IRQ + irq)"

definition init_ioapic :: "'z dev_state_scheme \<Rightarrow> 'z dev_state_scheme" where
  "init_ioapic s =
     (let (r, s1) = read_ioapic s 0x01;
          max_redir_entry = drop_bit 16 r AND 0xff
      in fold (\<lambda>i s. disable_ioapic s (of_nat i)) [0..<Suc (unat max_redir_entry)] s1)"

section \<open>What the serial port sends\<close>

text \<open>\<open>sends s bs s'\<close>: between the two states, \<open>bs\<close> went out on the serial line and nothing else changed.\<close>

definition sends :: "'z dev_state_scheme \<Rightarrow> u8 list \<Rightarrow> 'z dev_state_scheme \<Rightarrow> bool" where
  "sends s bs s' \<longleftrightarrow> (\<exists>t. s' = s\<lparr>io_time := t, port_out := port_out s @ map (Pair COM1) bs\<rparr>)"

definition uart_ready :: "'z dev_state_scheme \<Rightarrow> bool" where
  "uart_ready s \<longleftrightarrow>
     (\<forall>t. \<exists>t' \<ge> t. port_in s t' (COM1 + UART_LINE_STAT) AND UART_STAT_REG_EMPTY \<noteq> 0)"

lemma sends_Nil [simp]: "sends s [] s"
  unfolding sends_def by (rule exI [of _ "io_time s"]) simp

lemma sends_append: "sends s xs t \<Longrightarrow> sends t ys u \<Longrightarrow> sends s (xs @ ys) u"
  by (auto simp: sends_def)

lemma sends_fields:
  assumes "sends s bs s'"
  shows "mem s' = mem s" "cr3 s' = cr3 s" "free_pages s' = free_pages s" "port_in s' = port_in s"
    "dev_state.more s' = dev_state.more s" "mmio_out s' = mmio_out s"
    "port_out s' = port_out s @ map (Pair COM1) bs"
  using assms by (auto simp: sends_def)

lemma uart_ready_sends: "sends s bs s' \<Longrightarrow> uart_ready s' = uart_ready s"
  by (auto simp: sends_def uart_ready_def)

lemma uart_wait_from:
  "port_in s (io_time s + k) (COM1 + UART_LINE_STAT) AND UART_STAT_REG_EMPTY \<noteq> 0 \<Longrightarrow>
   \<exists>t. uart_wait s = Some (s\<lparr>io_time := t\<rparr>)"
proof (induction k arbitrary: s)
  case 0
  then show ?case by (subst uart_wait.simps) (auto simp: inb_def)
next
  case (Suc k)
  show ?case
  proof (cases "port_in s (io_time s) (COM1 + UART_LINE_STAT) AND UART_STAT_REG_EMPTY = 0")
    case True
    have "\<exists>t. uart_wait (s\<lparr>io_time := Suc (io_time s)\<rparr>) = Some (s\<lparr>io_time := Suc (io_time s)\<rparr>\<lparr>io_time := t\<rparr>)"
      by (rule Suc.IH) (use Suc.prems in simp)
    then show ?thesis using True by (subst uart_wait.simps) (auto simp: inb_def)
  next
    case False
    then show ?thesis by (subst uart_wait.simps) (auto simp: inb_def)
  qed
qed

lemma uart_write_byte_sends:
  assumes "uart_ready s"
  shows "\<exists>s'. uart_write_byte s ch = Ok s' \<and> sends s [ch] s'"
proof -
  obtain t' where "io_time s \<le> t'" "port_in s t' (COM1 + UART_LINE_STAT) AND UART_STAT_REG_EMPTY \<noteq> 0"
    using assms by (auto simp: uart_ready_def)
  then obtain t where "uart_wait s = Some (s\<lparr>io_time := t\<rparr>)"
    using uart_wait_from [of s "t' - io_time s"] by auto
  then show ?thesis by (auto simp: uart_write_byte_def outb_def sends_def)
qed

text \<open>Sending a list of bytes, one per round of a counted loop.\<close>

lemma send_loop:
  assumes "uart_ready s" and "\<And>i t. i < n \<Longrightarrow> sends s (take i bs) t \<Longrightarrow> f i t = uart_write_byte t (bs ! i)"
    and "length bs = n"
  shows "\<exists>s'. loop_from 0 n f s = Ok s' \<and> sends s bs s'"
proof -
  have "\<exists>s'. loop_from 0 n f s = Ok s' \<and> sends s (take (0 + n) bs) s'"
  proof (rule loop_from_invariant)
    show "sends s (take 0 bs) s" by simp
  next
    fix j t assume j: "j < 0 + n" and t: "sends s (take j bs) t"
    obtain t' where "uart_write_byte t (bs ! j) = Ok t'" "sends t [bs ! j] t'"
      using uart_write_byte_sends [of t "bs ! j"] uart_ready_sends [OF t] assms(1) by auto
    then show "\<exists>t'. f j t = Ok t' \<and> sends s (take (Suc j) bs) t'"
      using sends_append [OF t] assms(2) [OF _ t] j assms(3) by (auto simp: take_Suc_conv_app_nth)
  qed
  then show ?thesis using assms(3) by simp
qed

section \<open>What the I/O APIC holds\<close>

text \<open>
  The I/O APIC's registers, rebuilt from what was written to it: the select register at its base, the
  data window 16 bytes above it.
\<close>

definition ioapic_step :: "u32 \<times> u32 \<Rightarrow> u32 \<times> (u32 \<Rightarrow> u32) \<Rightarrow> u32 \<times> (u32 \<Rightarrow> u32)" where
  "ioapic_step w c =
     (if fst w = IOAPIC then (snd w, snd c)
      else if fst w = IOAPIC + 4 * 4 then (fst c, (snd c)(fst c := snd w)) else c)"

definition ioapic_regs :: "'z dev_state_scheme \<Rightarrow> u32 \<Rightarrow> u32" where
  "ioapic_regs s = snd (fold ioapic_step (mmio_out s) (0, \<lambda>_. 0))"

lemma IOAPIC_window: "IOAPIC + 4 * 4 \<noteq> IOAPIC"
  by (simp add: IOAPIC_def)

lemma ioapic_regs_write:
  "ioapic_regs (write_ioapic s reg data) = (ioapic_regs s)(reg AND 0xff := data)"
  using IOAPIC_window by (simp add: ioapic_regs_def write_ioapic_def mmio_write_def ioapic_step_def)

lemma ioapic_regs_read: "ioapic_regs (snd (read_ioapic s reg)) = ioapic_regs s"
  by (simp add: ioapic_regs_def read_ioapic_def mmio_write_def mmio_read_def ioapic_step_def)

text \<open>Registers of redirection entry \<open>i\<close>.\<close>

definition redir_lo :: "nat \<Rightarrow> u32" where "redir_lo i = of_nat (16 + 2 * i)"
definition redir_hi :: "nat \<Rightarrow> u32" where "redir_hi i = of_nat (17 + 2 * i)"

lemma redir_index:
  assumes "i < 120"
  shows "(IA_REDIR_BASE + of_nat i * 2) AND 0xff = redir_lo i"
    and "(IA_REDIR_BASE + of_nat i * 2 + 1) AND 0xff = redir_hi i"
proof -
  have m: "x AND 0xff = x" if "unat x < 256" for x :: u32
  proof -
    have "x AND 0xff = take_bit 8 x" by (simp add: take_bit_eq_mask mask_eq_exp_minus_1)
    moreover have "unat (take_bit 8 x) = unat x"
      using that by (simp add: take_bit_eq_mod unat_mod)
    ultimately show ?thesis by (simp only: word_unat_eq_iff)
  qed
  have lo: "IA_REDIR_BASE + of_nat i * 2 = redir_lo i" "IA_REDIR_BASE + of_nat i * 2 + 1 = redir_hi i"
    by (simp_all add: IA_REDIR_BASE_def redir_lo_def redir_hi_def)
  have "unat (redir_lo i) = 16 + 2 * i" "unat (redir_hi i) = 17 + 2 * i"
    unfolding redir_lo_def redir_hi_def unat_of_nat using assms by simp_all
  then have "redir_lo i AND 0xff = redir_lo i" "redir_hi i AND 0xff = redir_hi i"
    using assms by (auto intro!: m)
  then show "(IA_REDIR_BASE + of_nat i * 2) AND 0xff = redir_lo i"
    "(IA_REDIR_BASE + of_nat i * 2 + 1) AND 0xff = redir_hi i"
    unfolding lo(2) unfolding lo(1) by simp_all
qed

lemma redir_inject:
  assumes "i < 120" "j < 120"
  shows "redir_lo i = redir_lo j \<longleftrightarrow> i = j" "redir_hi i = redir_hi j \<longleftrightarrow> i = j" "redir_lo i \<noteq> redir_hi j"
proof -
  have u: "unat (redir_lo k) = 16 + 2 * k" "unat (redir_hi k) = 17 + 2 * k" if "k < 120" for k
    unfolding redir_lo_def redir_hi_def unat_of_nat using that by simp_all
  note ui = u [OF assms(1)] and uj = u [OF assms(2)]
  show "redir_lo i = redir_lo j \<longleftrightarrow> i = j" unfolding word_unat_eq_iff ui uj by simp
  show "redir_hi i = redir_hi j \<longleftrightarrow> i = j" unfolding word_unat_eq_iff ui uj by simp
  show "redir_lo i \<noteq> redir_hi j" unfolding word_unat_eq_iff ui uj by presburger
qed

lemma disable_all_regs:
  "n \<le> 120 \<Longrightarrow> i < 120 \<Longrightarrow>
   ioapic_regs (fold (\<lambda>i s. disable_ioapic s (of_nat i)) [0..<n] s) (redir_lo i) =
     (if i < n then IA_MASK else ioapic_regs s (redir_lo i))"
proof (induction n)
  case (Suc n)
  then show ?case
    using redir_index [of n] redir_inject [of i n]
    by (auto simp: disable_ioapic_def ioapic_regs_write)
qed simp

section \<open>Properties\<close>

text \<open>
  After \<^verbatim>\<open>init_ioapic\<close> and \<^verbatim>\<open>enable_ioapic(IRQ_SERIAL)\<close>, as in \<^verbatim>\<open>main\<close>, the I/O APIC
  delivers the serial line as vector 0x24 and masks every other of its inputs, however many the
  version register announces.
\<close>

theorem ioapic_routes_only_serial:
  assumes lst: "n = unat (drop_bit 16 (mmio_in s (io_time s) (IOAPIC + 4 * 4)) AND 0xff)"
    and "4 \<le> n" and "n < 120" and "i \<le> n"
  shows "ioapic_regs (enable_ioapic (init_ioapic s) IRQ_SERIAL) (redir_lo i) =
    (if i = 4 then 0x24 else IA_MASK)"
proof -
  have r: "fst (read_ioapic s 1) = mmio_in s (io_time s) (IOAPIC + 4 * 4)"
    by (simp add: read_ioapic_def mmio_read_def mmio_write_def)
  have d: "ioapic_regs (init_ioapic s) (redir_lo i) = IA_MASK"
    using disable_all_regs [of "Suc n" i "snd (read_ioapic s 1)"] assms
    by (simp add: init_ioapic_def case_prod_beta Let_def r del: upt_Suc)
  have irq: "IRQ_SERIAL = of_nat 4" by (simp add: IRQ_SERIAL_def)
  show ?thesis
    unfolding enable_ioapic_def ioapic_regs_write irq
    using redir_index [of 4] redir_inject [of i 4] d assms
    by (auto simp: T_IRQ_def simp del: of_nat_numeral) (simp add: of_nat_numeral)
qed

definition sample_dev :: dev_state where
  "sample_dev = \<lparr>mem = \<lambda>_. 0, cr3 = 0, free_pages = 0, num_allocated = 0, port_in = \<lambda>_ _. 0x61,
     mmio_in = \<lambda>_ _. 0x170011, io_time = 0, port_out = [], mmio_out = []\<rparr>"

theorem ioapic_routes_only_serial_witness:
  "ioapic_regs (enable_ioapic (init_ioapic sample_dev) IRQ_SERIAL) (redir_lo 4) = 0x24 \<and>
   ioapic_regs (enable_ioapic (init_ioapic sample_dev) IRQ_SERIAL) (redir_lo 23) = IA_MASK"
proof -
  have m: "23 = unat (drop_bit 16 (mmio_in sample_dev (io_time sample_dev) (IOAPIC + 4 * 4)) AND 0xff)"
    by (simp add: sample_dev_def)
  show ?thesis
    using ioapic_routes_only_serial [OF m, of 4] ioapic_routes_only_serial [OF m, of 23] by simp
qed

lemma uart_ready_sample: "uart_ready sample_dev"
  by (auto simp: uart_ready_def sample_dev_def UART_STAT_REG_EMPTY_def)

end
