(* ===== verification/Console.thy ===== *)
theory Console
  imports Devices
begin

text \<open>
  The console of \<^verbatim>\<open>io.c\<close> and the interrupt half of \<^verbatim>\<open>uart.c\<close>: printing, and the circular buffer
  between the serial interrupt (\<^verbatim>\<open>handle_uartintr\<close>, \<^verbatim>\<open>write_circular_buf\<close>) and the readers
  (\<^verbatim>\<open>read_circular_buf\<close>, \<^verbatim>\<open>read_console\<close>). The buffer is related to two lists, the committed lines
  and the line being edited (\<open>committed\<close>, \<open>editing\<close>); the locale \<open>byte_source\<close> is what a reader
  relies on, interpreted on \<^verbatim>\<open>read_circular_buf\<close>. The counters are 32-bit and wrap, which is where
  a deletion after a newline goes wrong.
\<close>

section \<open>Printing\<close>

definition kstr :: "string \<Rightarrow> u8 list" where
  "kstr s = map of_char s"

definition putchar :: "'z dev_state_scheme \<Rightarrow> int \<Rightarrow> 'z dev_state_scheme outcome" where
  "putchar s c = uart_write_byte s (word_of_int c)"

definition printn :: "'z dev_state_scheme \<Rightarrow> reader \<Rightarrow> u32 \<Rightarrow> (u32 \<times> 'z dev_state_scheme) outcome" where
  "printn s r n =
     bnd (loop_from 0 (unat n) (\<lambda>i s. bnd (r i) (\<lambda>c. putchar s (sint c))) s) (\<lambda>s'. Ok (n, s'))"

text \<open>
  The loop condition of \<^verbatim>\<open>print\<close> calls \<^verbatim>\<open>strlen\<close> every round; the string does not change while it
  is printed, so it is the same length each time.
\<close>

definition print :: "'z dev_state_scheme \<Rightarrow> reader \<Rightarrow> (nat \<times> 'z dev_state_scheme) outcome" where
  "print s r =
     bnd (strlen r) (\<lambda>n. bnd (loop_from 0 n (\<lambda>i s. bnd (r i) (\<lambda>c. putchar s (sint c))) s)
       (\<lambda>s'. Ok (n, s')))"

definition puts :: "'z dev_state_scheme \<Rightarrow> reader \<Rightarrow> (nat \<times> 'z dev_state_scheme) outcome" where
  "puts s r = bnd (print s r) (\<lambda>(n, s1). bnd (putchar s1 10) (\<lambda>s2. Ok (n + 1, s2)))"

text \<open>
  The digits of a positive number, least significant first, in an array of eleven characters; a
  number that is not positive has none.
\<close>

function printnum_digits :: "int \<Rightarrow> u8 list \<Rightarrow> u8 list outcome" where
  "printnum_digits x tmp =
     (if x > 0
      then if length tmp < 11 then printnum_digits (x div 10) (tmp @ [48 + word_of_int (x mod 10)])
           else Undef ''write past the end of an array''
      else Ok tmp)"
  by pat_completeness auto
termination
  by (relation "measure (\<lambda>(x, tmp). nat x)") auto

declare printnum_digits.simps [simp del]

definition printnum :: "'z dev_state_scheme \<Rightarrow> int \<Rightarrow> 'z dev_state_scheme outcome" where
  "printnum s x =
     (if x = 0 then putchar s 48
      else bnd (printnum_digits x []) (\<lambda>tmp. for_each (\<lambda>s c. putchar s (sint c)) (rev tmp) s))"

section \<open>The circular buffer\<close>

record con_state = dev_state +
  buf_len :: u32
  edit_len :: u32
  edit_i :: u32
  write_i :: u32
  read_i :: u32
  circular_buf :: "int list"

definition MAX_BUF :: u32 where "MAX_BUF = 4096"

definition write_circular_buf :: "'z con_state_scheme \<Rightarrow> int \<Rightarrow> 'z con_state_scheme outcome" where
  "write_circular_buf s ch =
     (if ch = DEL
      then if edit_len s > 0
           then Ok (s\<lparr>edit_i := (edit_i s - 1) mod MAX_BUF, edit_len := edit_len s - 1\<rparr>)
           else Ok s
      else if edit_len s = MAX_BUF then Panic ''update_input_buf: Circular buffer full''
      else if length (circular_buf s) \<le> unat (edit_i s) then Undef ''write past the end of an array''
      else
        let s = s\<lparr>circular_buf := (circular_buf s)[unat (edit_i s) := ch]\<rparr>;
            s = s\<lparr>edit_i := (edit_i s + 1) mod MAX_BUF\<rparr>;
            s = s\<lparr>edit_len := edit_len s + 1\<rparr>
        in Ok (if ch = 10 then s\<lparr>write_i := edit_i s, buf_len := edit_len s\<rparr> else s))"

definition read_circular_buf :: "'z con_state_scheme \<Rightarrow> (int \<times> 'z con_state_scheme) outcome" where
  "read_circular_buf s =
     (if buf_len s = 0 then Ok (-1, s)
      else if length (circular_buf s) \<le> unat (read_i s) then Undef ''read past the end of an array''
      else let ret = circular_buf s ! unat (read_i s)
      in Ok (ret, s\<lparr>read_i := (read_i s + 1) mod MAX_BUF, buf_len := buf_len s - 1,
                    edit_len := edit_len s - 1\<rparr>))"

text \<open>\<^verbatim>\<open>uart.c\<close> declares \<^verbatim>\<open>edit_len\<close> as a signed \<^verbatim>\<open>int\<close>; the bytes echoed for DEL are BS, space, BS.\<close>

definition handle_uartintr :: "'z con_state_scheme \<Rightarrow> (int \<times> 'z con_state_scheme) outcome" where
  "handle_uartintr s =
     (let (ret, s1) = uart_read_byte s
      in bnd (if ret = DEL
              then if sint (edit_len s1) > 0
                   then bnd (uart_write_byte s1 8) (\<lambda>s. bnd (uart_write_byte s 32) (\<lambda>s. uart_write_byte s 8))
                   else Ok s1
              else uart_write_byte s1 (word_of_int ret))
           (\<lambda>s2. Ok (ret, s2)))"

text \<open>
  The loop of \<^verbatim>\<open>read_console\<close>: \<open>count\<close> rounds left, \<open>i\<close> bytes stored so far. A negative character
  ends it, like an empty buffer.
\<close>

fun read_console_from ::
    "nat \<Rightarrow> 'z con_state_scheme \<Rightarrow> u32 \<Rightarrow> nat \<Rightarrow> (nat \<times> 'z con_state_scheme) outcome" where
  "read_console_from 0 s buf i = Ok (i, s)"
| "read_console_from (Suc count) s buf i =
     bnd (read_circular_buf s) (\<lambda>(ch, s1).
       if ch \<ge> 0
       then bnd (uwrite s1 (buf + of_nat i) (word_of_int ch)) (\<lambda>s2. read_console_from count s2 buf (Suc i))
       else Ok (i, s1))"

definition read_console :: "'z con_state_scheme \<Rightarrow> u32 \<Rightarrow> u32 \<Rightarrow> (nat \<times> 'z con_state_scheme) outcome" where
  "read_console s buf count = read_console_from (unat count) s buf 0"

section \<open>Printing sends the text\<close>

lemma putchar_byte [simp]: "putchar s (sint c) = uart_write_byte s c"
  by (simp add: putchar_def)

lemma print_loop_sends:
  assumes "uart_ready s" and "\<And>i. i < length bs \<Longrightarrow> r i = Ok (bs ! i)"
  shows "\<exists>s'. loop_from 0 (length bs) (\<lambda>i s. bnd (r i) (\<lambda>c. putchar s (sint c))) s = Ok s' \<and> sends s bs s'"
  by (rule send_loop) (use assms in auto)

lemma print_sends:
  assumes "uart_ready s" and "cstring r bs"
  shows "\<exists>s'. print s r = Ok (length bs, s') \<and> sends s bs s'"
  using print_loop_sends [OF assms(1), of bs r] strlen_cstring [OF assms(2)] cstring_nth [OF assms(2)]
  by (auto simp: print_def)

lemma puts_sends:
  assumes "uart_ready s" and "cstring r bs"
  shows "\<exists>s'. puts s r = Ok (length bs + 1, s') \<and> sends s (bs @ [10]) s'"
proof -
  obtain s1 where s1: "print s r = Ok (length bs, s1)" "sends s bs s1"
    using print_sends [OF assms] by blast
  then obtain s2 where "uart_write_byte s1 10 = Ok s2" "sends s1 [10] s2"
    using uart_write_byte_sends [of s1 10] uart_ready_sends assms(1) by blast
  then show ?thesis
    using s1 sends_append by (auto simp: puts_def putchar_def)
qed

lemma printn_sends:
  assumes "uart_ready s" and "\<And>i. i < length bs \<Longrightarrow> r i = Ok (bs ! i)" and "unat n = length bs"
  shows "\<exists>s'. printn s r n = Ok (n, s') \<and> sends s bs s'"
  using print_loop_sends [OF assms(1,2)] assms(3) by (auto simp: printn_def)

lemma for_each_sends:
  "uart_ready s \<Longrightarrow> \<exists>s'. for_each (\<lambda>s c. putchar s (sint c)) bs s = Ok s' \<and> sends s bs s'"
proof (induction bs arbitrary: s)
  case (Cons b bs)
  obtain s1 where s1: "uart_write_byte s b = Ok s1" "sends s [b] s1"
    using uart_write_byte_sends [OF Cons.prems] by blast
  then obtain s2 where "for_each (\<lambda>s c. putchar s (sint c)) bs s1 = Ok s2" "sends s1 bs s2"
    using Cons.IH [of s1] uart_ready_sends [OF s1(2)] Cons.prems by auto
  then show ?case
    using s1 sends_append [OF s1(2)] by auto
qed simp

text \<open>The digits of a number, most significant first.\<close>

fun digits :: "nat \<Rightarrow> nat list" where
  "digits n = (if n < 10 then [n] else digits (n div 10) @ [n mod 10])"

declare digits.simps [simp del]

lemma digits_ne [simp]: "digits n \<noteq> []"
  by (subst digits.simps) simp

lemma digits_lt10: "d \<in> set (digits n) \<Longrightarrow> d < 10"
  by (induction n rule: digits.induct) (subst (asm) digits.simps, auto split: if_splits)

lemma dec_value_digits: "dec_value (digits n) = n"
proof (induction n rule: digits.induct)
  case (1 n)
  then show ?case
    by (subst digits.simps) (simp add: dec_value_snoc, simp add: dec_value_def)
qed

lemma length_digits: "n < 10 ^ Suc k \<Longrightarrow> length (digits n) \<le> Suc k"
proof (induction k arbitrary: n)
  case 0
  then show ?case by (subst digits.simps) simp
next
  case (Suc k)
  then have "n div 10 < 10 ^ Suc k" by (simp add: less_mult_imp_div_less)
  then show ?case using Suc.IH by (subst digits.simps) simp
qed

lemma printnum_digits_spec:
  assumes "0 < n" and "length tmp + length (digits n) \<le> 11"
  shows "printnum_digits (int n) tmp = Ok (tmp @ rev (digit_chars (digits n)))"
  using assms
proof (induction n arbitrary: tmp rule: digits.induct)
  case (1 n)
  have c: "48 + word_of_int (int n mod 10) = (of_nat (48 + n mod 10) :: u8)"
  proof -
    have "int n mod 10 = int (n mod 10)" by (simp add: zmod_int)
    then show ?thesis by (simp only: of_int_of_nat_eq of_nat_add of_nat_numeral)
  qed
  show ?case
  proof (cases "n < 10")
    case True
    then show ?thesis
      using 1(2,3) c
      by (subst printnum_digits.simps) (simp add: printnum_digits.simps digits.simps [of n] digit_chars_def)
  next
    case False
    then have d: "digits n = digits (n div 10) @ [n mod 10]" by (subst digits.simps) simp
    have "printnum_digits (int (n div 10)) (tmp @ [of_nat (48 + n mod 10)]) =
        Ok ((tmp @ [of_nat (48 + n mod 10)]) @ rev (digit_chars (digits (n div 10))))"
      by (rule 1(1)) (use False 1(3) d in auto)
    moreover have "length tmp < 11" using 1(3) d by simp
    ultimately show ?thesis
      using False c d by (subst printnum_digits.simps) (simp add: digit_chars_def zdiv_int)
  qed
qed

lemma printnum_sends:
  assumes "uart_ready s" and "n < 2147483648"
  shows "\<exists>s'. printnum s (int n) = Ok s' \<and> sends s (digit_chars (digits n)) s'"
proof (cases "n = 0")
  case True
  have "digit_chars (digits 0) = [48]" by (subst digits.simps) (simp add: digit_chars_def)
  then show ?thesis
    using uart_write_byte_sends [OF assms(1), of 48] True by (simp add: printnum_def putchar_def)
next
  case False
  have "length (digits n) \<le> 10" using length_digits [of n 9] assms(2) by simp
  then have "printnum_digits (int n) [] = Ok (rev (digit_chars (digits n)))"
    using printnum_digits_spec [of n "[]"] False by simp
  then show ?thesis
    using for_each_sends [OF assms(1), of "digit_chars (digits n)"] False by (simp add: printnum_def)
qed

section \<open>The buffer as two lists\<close>

definition slot :: "nat \<Rightarrow> nat \<Rightarrow> nat" where
  "slot r k = (if r + k < 4096 then r + k else r + k - 4096)"

lemma slot_props:
  assumes "r < 4096"
  shows "k \<le> 4096 \<Longrightarrow> slot r k < 4096" and "slot r 0 = r"
    and "k < 4096 \<Longrightarrow> j < 4096 \<Longrightarrow> slot r k = slot r j \<longleftrightarrow> k = j"
    and "k < 4096 \<Longrightarrow> slot r (Suc k) = (if slot r k = 4095 then 0 else Suc (slot r k))"
    and "k < 4096 \<Longrightarrow> slot (if r = 4095 then 0 else Suc r) k = slot r (Suc k)"
  using assms by (auto simp: slot_def)

definition contents :: "'z con_state_scheme \<Rightarrow> int list" where
  "contents s = map (\<lambda>k. circular_buf s ! slot (unat (read_i s)) k) [0..<unat (edit_len s)]"

definition committed :: "'z con_state_scheme \<Rightarrow> int list" where
  "committed s = take (unat (buf_len s)) (contents s)"

definition editing :: "'z con_state_scheme \<Rightarrow> int list" where
  "editing s = drop (unat (buf_len s)) (contents s)"

definition con_inv :: "'z con_state_scheme \<Rightarrow> bool" where
  "con_inv s \<longleftrightarrow> length (circular_buf s) = 4096 \<and> unat (read_i s) < 4096 \<and>
     unat (edit_len s) \<le> 4096 \<and> unat (buf_len s) \<le> unat (edit_len s) \<and>
     unat (edit_i s) = slot (unat (read_i s)) (unat (edit_len s))"

lemma con_invD:
  assumes "con_inv s"
  shows "length (circular_buf s) = 4096" "unat (read_i s) < 4096" "unat (edit_len s) \<le> 4096"
    "unat (buf_len s) \<le> unat (edit_len s)" "unat (edit_i s) = slot (unat (read_i s)) (unat (edit_len s))"
  using assms by (simp_all add: con_inv_def)

lemma length_contents [simp]: "length (contents s) = unat (edit_len s)"
  by (simp add: contents_def)

lemma contents_split: "contents s = committed s @ editing s"
  by (simp add: committed_def editing_def)

lemma length_committed: "con_inv s \<Longrightarrow> length (committed s) = unat (buf_len s)"
  by (simp add: committed_def con_invD)

lemma unat_MAX_BUF [simp]: "unat MAX_BUF = 4096"
  by (simp add: MAX_BUF_def)

lemma unat_succ_mod: "unat x < 4096 \<Longrightarrow> unat ((x + 1) mod MAX_BUF) = (if unat x = 4095 then 0 else Suc (unat x))"
  using unat_add_lt [of x 1] by (simp add: unat_mod)

lemma unat_pred_mod: "unat x < 4096 \<Longrightarrow> unat ((x - 1) mod MAX_BUF) = (if unat x = 0 then 4095 else unat x - 1)"
proof (cases "x = 0")
  case True
  then show ?thesis by (simp add: MAX_BUF_def)
next
  case False
  then have "1 \<le> x" by (simp add: word_le_nat_alt unat_gt_0 Suc_le_eq)
  moreover assume "unat x < 4096"
  ultimately show ?thesis using False by (simp add: unat_mod unat_sub unat_gt_0)
qed

lemma unat_pred: "x \<noteq> 0 \<Longrightarrow> unat (x - 1 :: u32) = unat x - 1"
  by (simp add: unat_sub word_le_nat_alt unat_gt_0 Suc_le_eq)

text \<open>An ordinary character goes to the end; a newline commits what is there.\<close>

lemma write_char:
  assumes inv: "con_inv s" and ch: "ch \<noteq> DEL" and room: "unat (edit_len s) < 4096"
  shows "\<exists>s'. write_circular_buf s ch = Ok s' \<and> con_inv s' \<and> contents s' = contents s @ [ch] \<and>
    unat (buf_len s') = (if ch = 10 then unat (edit_len s) + 1 else unat (buf_len s)) \<and>
    dev_state.truncate s' = dev_state.truncate s \<and> con_state.more s' = con_state.more s"
proof -
  note I = con_invD [OF inv]
  note S = slot_props [OF I(2)]
  have e: "unat (edit_i s) < 4096" "edit_len s \<noteq> MAX_BUF"
    using I(5) S(1) room by (auto simp: MAX_BUF_def)
  have el: "unat (edit_len s + 1) = unat (edit_len s) + 1"
    using unat_add_lt [of "edit_len s" 1] room by simp
  let ?buf = "(circular_buf s)[unat (edit_i s) := ch]"
  let ?s' = "s\<lparr>circular_buf := ?buf, edit_i := (edit_i s + 1) mod MAX_BUF, edit_len := edit_len s + 1,
    write_i := (if ch = 10 then (edit_i s + 1) mod MAX_BUF else write_i s),
    buf_len := (if ch = 10 then edit_len s + 1 else buf_len s)\<rparr>"
  have run: "write_circular_buf s ch = Ok ?s'"
    using ch e I(1) by (simp add: write_circular_buf_def Let_def)
  have "con_inv ?s'"
    using I S(4) [OF room] room el unat_succ_mod [OF e(1)] by (auto simp: con_inv_def)
  moreover have "contents ?s' = contents s @ [ch]"
  proof -
    have "?buf ! slot (unat (read_i s)) k = (if k = unat (edit_len s) then ch else circular_buf s ! slot (unat (read_i s)) k)"
      if "k \<le> unat (edit_len s)" for k
      using S(1) [of k] S(3) [of k "unat (edit_len s)"] I(1,5) that room by (auto simp: nth_list_update)
    then show ?thesis using el by (simp add: contents_def)
  qed
  ultimately show ?thesis
    using run el by (intro exI [of _ ?s']) (auto simp: dev_state.truncate_def)
qed

text \<open>DEL takes the last character, whether or not it is committed.\<close>

lemma write_del:
  assumes inv: "con_inv s" and ne: "edit_len s \<noteq> 0"
  shows "\<exists>s'. write_circular_buf s DEL = Ok s' \<and> contents s' = butlast (contents s) \<and>
    buf_len s' = buf_len s \<and> (con_inv s' \<longleftrightarrow> unat (buf_len s) < unat (edit_len s)) \<and>
    unat (edit_len s') = unat (edit_len s) - 1 \<and> read_i s' = read_i s \<and> circular_buf s' = circular_buf s \<and>
    dev_state.truncate s' = dev_state.truncate s \<and> con_state.more s' = con_state.more s"
proof -
  note I = con_invD [OF inv]
  note S = slot_props [OF I(2)]
  have gt: "0 < unat (edit_len s)" using ne by (simp add: unat_gt_0)
  define n where "n = unat (edit_len s) - 1"
  have n: "unat (edit_len s) = Suc n" "n < 4096" using gt I(3) by (simp_all add: n_def)
  let ?s' = "s\<lparr>edit_i := (edit_i s - 1) mod MAX_BUF, edit_len := edit_len s - 1\<rparr>"
  have run: "write_circular_buf s DEL = Ok ?s'"
    using ne by (simp add: write_circular_buf_def word_gt_0)
  have el: "unat (edit_len s - 1) = n" using unat_pred [OF ne] n by simp
  have lt: "unat (edit_i s) < 4096" using I(5) S(1) [OF I(3)] by simp
  have "unat ((edit_i s - 1) mod MAX_BUF) = slot (unat (read_i s)) n"
    using unat_pred_mod [OF lt] S(4) [OF n(2)] I(5) n(1) S(1) [of n] n(2) by (auto split: if_splits)
  then have "con_inv ?s' \<longleftrightarrow> unat (buf_len s) < unat (edit_len s)"
    using I el n by (auto simp: con_inv_def)
  moreover have "contents ?s' = butlast (contents s)"
    using el n by (simp add: contents_def butlast_append)
  ultimately show ?thesis
    using run el n by (intro exI [of _ ?s']) (simp add: dev_state.truncate_def)
qed

lemma read_char:
  assumes inv: "con_inv s"
  shows "if committed s = [] then read_circular_buf s = Ok (-1, s)
    else \<exists>s'. read_circular_buf s = Ok (hd (committed s), s') \<and> con_inv s' \<and>
      committed s' = tl (committed s) \<and> editing s' = editing s \<and> dev_state.truncate s' = dev_state.truncate s \<and> con_state.more s' = con_state.more s"
proof (cases "buf_len s = 0")
  case True
  then have "committed s = []" by (simp add: committed_def)
  then show ?thesis using True by (simp add: read_circular_buf_def)
next
  case False
  note I = con_invD [OF inv]
  note S = slot_props [OF I(2)]
  have b: "0 < unat (buf_len s)" using False by (simp add: unat_gt_0)
  then have ene: "edit_len s \<noteq> 0" using I(4) by auto
  obtain n where n: "unat (edit_len s) = Suc n" "n < 4096"
    using b I(3,4) by (metis Suc_le_eq gr0_conv_Suc order_less_le_trans)
  obtain m where m: "unat (buf_len s) = Suc m" using b gr0_conv_Suc by blast
  let ?s' = "s\<lparr>read_i := (read_i s + 1) mod MAX_BUF, buf_len := buf_len s - 1, edit_len := edit_len s - 1\<rparr>"
  have len: "unat (buf_len s - 1) = m" "unat (edit_len s - 1) = n"
    using unat_pred [OF False] unat_pred [OF ene] m n by simp_all
  have r: "unat ((read_i s + 1) mod MAX_BUF) = (if unat (read_i s) = 4095 then 0 else Suc (unat (read_i s)))"
    by (rule unat_succ_mod [OF I(2)])
  have sl: "slot (unat ((read_i s + 1) mod MAX_BUF)) k = slot (unat (read_i s)) (Suc k)" if "k < 4096" for k
    unfolding r by (rule S(5) [OF that])
  have c: "contents s = circular_buf s ! unat (read_i s) # contents ?s'"
  proof -
    have "map (\<lambda>k. circular_buf s ! slot (unat (read_i s)) k) [0..<Suc n] =
        circular_buf s ! slot (unat (read_i s)) 0 #
        map (\<lambda>k. circular_buf s ! slot (unat (read_i s)) (Suc k)) [0..<n]"
      by (simp add: upt_conv_Cons map_Suc_upt [symmetric] del: upt_Suc)
    also have "map (\<lambda>k. circular_buf s ! slot (unat (read_i s)) (Suc k)) [0..<n] = contents ?s'"
      using sl n(2) by (simp add: contents_def len)
    finally show ?thesis using S(2) n(1) by (simp add: contents_def)
  qed
  have "con_inv ?s'"
    using I len m n r sl [OF n(2)] by (auto simp: con_inv_def)
  moreover have "committed s = circular_buf s ! unat (read_i s) # committed ?s'" "editing s = editing ?s'"
    by (simp_all add: committed_def editing_def len m c)
  moreover have "read_circular_buf s = Ok (circular_buf s ! unat (read_i s), ?s')"
    using False I(1,2) by (simp add: read_circular_buf_def Let_def)
  ultimately show ?thesis by (simp add: dev_state.truncate_def)
qed

section \<open>Reading the console\<close>

text \<open>The loop of \<^verbatim>\<open>read_console\<close> for any source of characters and any place to put them.\<close>

fun drain ::
    "('s \<Rightarrow> (int \<times> 's) outcome) \<Rightarrow> ('s \<Rightarrow> nat \<Rightarrow> int \<Rightarrow> 's outcome) \<Rightarrow> nat \<Rightarrow> 's \<Rightarrow> nat \<Rightarrow> (nat \<times> 's) outcome"
  where
  "drain get put 0 s i = Ok (i, s)"
| "drain get put (Suc n) s i =
     bnd (get s) (\<lambda>(ch, s1).
       if ch \<ge> 0 then bnd (put s1 i ch) (\<lambda>s2. drain get put n s2 (Suc i)) else Ok (i, s1))"

lemma read_console_from_drain:
  "read_console_from n s buf i =
    drain read_circular_buf (\<lambda>s i ch. uwrite s (buf + of_nat i) (word_of_int ch)) n s i"
  by (induction n arbitrary: s i) (auto intro!: bnd_cong)

text \<open>
  A source gives its pending characters in order and -1 when there are none; a reader stores them in
  places that neither the source nor later stores disturb.
\<close>

locale byte_source =
  fixes get :: "'s \<Rightarrow> (int \<times> 's) outcome"
    and pending :: "'s \<Rightarrow> int list"
    and ok :: "'s \<Rightarrow> bool"
  assumes get_empty: "ok s \<Longrightarrow> pending s = [] \<Longrightarrow> get s = Ok (-1, s)"
    and get_next: "ok s \<Longrightarrow> pending s = c # cs \<Longrightarrow> \<exists>s'. get s = Ok (c, s') \<and> ok s' \<and> pending s' = cs"
begin

lemma get_returns: "ok s \<Longrightarrow> returns (get s)"
  using get_empty [of s] get_next [of s] by (cases "pending s") (auto simp: returns_iff)

end

locale buffer_reader = byte_source +
  fixes put :: "'a \<Rightarrow> nat \<Rightarrow> int \<Rightarrow> 'a outcome"
    and room :: nat
    and stored :: "'a \<Rightarrow> nat \<Rightarrow> u8 \<Rightarrow> bool"
    and extra :: "'a \<Rightarrow> 'b"
  assumes put_ok: "ok s \<Longrightarrow> i < room \<Longrightarrow> \<exists>s'. put s i c = Ok s' \<and> ok s' \<and> pending s' = pending s \<and>
      extra s' = extra s \<and> stored s' i (word_of_int c) \<and>
      (\<forall>k b. k < room \<longrightarrow> k \<noteq> i \<longrightarrow> stored s k b \<longrightarrow> stored s' k b)"
    and get_keeps: "ok s \<Longrightarrow> get s = Ok (c, s') \<Longrightarrow> stored s k b \<Longrightarrow> stored s' k b"
    and get_extra: "ok s \<Longrightarrow> get s = Ok (c, s') \<Longrightarrow> extra s' = extra s"
begin

lemma drain_spec:
  assumes "ok s" and "i + n \<le> room" and "\<And>c. c \<in> set (pending s) \<Longrightarrow> 0 \<le> c"
    and "\<And>k. k < i \<Longrightarrow> stored s k (word_of_int (xs ! k))" and "length xs = i"
  shows "\<exists>s'. drain get put n s i = Ok (i + min n (length (pending s)), s') \<and> ok s' \<and>
    pending s' = drop n (pending s) \<and> extra s' = extra s \<and>
    (\<forall>k < i + min n (length (pending s)). stored s' k (word_of_int ((xs @ pending s) ! k)))"
  using assms
proof (induction n arbitrary: s i xs)
  case 0
  then show ?case by (auto simp: nth_append)
next
  case (Suc n)
  show ?case
  proof (cases "pending s")
    case Nil
    then show ?thesis
      using Suc.prems get_empty [of s] by (auto simp: nth_append)
  next
    case (Cons c cs)
    then obtain s1 where s1: "get s = Ok (c, s1)" "ok s1" "pending s1 = cs"
      using get_next Suc.prems(1) by blast
    obtain s2 where s2: "put s1 i c = Ok s2" "ok s2" "pending s2 = pending s1" "extra s2 = extra s1"
        "stored s2 i (word_of_int c)" "\<forall>k b. k < room \<longrightarrow> k \<noteq> i \<longrightarrow> stored s1 k b \<longrightarrow> stored s2 k b"
      using put_ok [OF s1(2), of i c] Suc.prems(2) by auto
    have keep: "stored s2 k (word_of_int ((xs @ [c]) ! k))" if "k < Suc i" for k
    proof (cases "k = i")
      case True
      then show ?thesis using s2(5) Suc.prems(5) by (simp add: nth_append)
    next
      case False
      then have "k < i" using that by simp
      then have "stored s1 k (word_of_int (xs ! k))"
        using Suc.prems(4) get_keeps [OF Suc.prems(1) s1(1)] by blast
      then show ?thesis
        using s2(6) \<open>k < i\<close> Suc.prems(2,5) by (simp add: nth_append)
    qed
    have "\<exists>s'. drain get put n s2 (Suc i) = Ok (Suc i + min n (length (pending s2)), s') \<and> ok s' \<and>
        pending s' = drop n (pending s2) \<and> extra s' = extra s2 \<and>
        (\<forall>k < Suc i + min n (length (pending s2)). stored s' k (word_of_int (((xs @ [c]) @ pending s2) ! k)))"
      by (rule Suc.IH) (use Suc.prems s2 s1 keep Cons in auto)
    moreover have "0 \<le> c" using Suc.prems(3) Cons by simp
    ultimately show ?thesis
      using s1 s2 Cons get_extra [OF Suc.prems(1) s1(1)] by simp
  qed
qed

end

interpretation con: byte_source read_circular_buf committed con_inv
proof unfold_locales
  fix s :: "'a con_state_scheme" and c cs
  assume "con_inv s"
  note R = read_char [OF this]
  show "committed s = [] \<Longrightarrow> read_circular_buf s = Ok (-1, s)" using R by simp
  show "committed s = c # cs \<Longrightarrow> \<exists>s'. read_circular_buf s = Ok (c, s') \<and> con_inv s' \<and> committed s' = cs"
    using R by auto
qed

lemma read_circular_buf_mem:
  "read_circular_buf s = Ok (c, s') \<Longrightarrow> mem s' = mem s \<and> cr3 s' = cr3 s"
  by (auto simp: read_circular_buf_def Let_def split: if_splits)

lemma con_inv_mem [simp]:
  "con_inv (s\<lparr>mem := m\<rparr>) = con_inv s" "committed (s\<lparr>mem := m\<rparr>) = committed s"
  "editing (s\<lparr>mem := m\<rparr>) = editing s"
  by (simp_all add: con_inv_def committed_def editing_def contents_def)

lemma con_get_buffer:
  assumes "con_inv s \<and> user_buffer s buf n" and "committed s = c # cs"
  shows "\<exists>s'. read_circular_buf s = Ok (c, s') \<and> (con_inv s' \<and> user_buffer s' buf n) \<and> committed s' = cs"
proof -
  obtain s' where s': "read_circular_buf s = Ok (c, s')" "con_inv s'" "committed s' = cs"
    using con.get_next assms by blast
  then show ?thesis
    using assms user_buffer_cong(1) [of s' s] read_circular_buf_mem [OF s'(1)] by auto
qed

interpretation con_buf: buffer_reader read_circular_buf committed
  "\<lambda>s. con_inv s \<and> user_buffer s buf n" "\<lambda>s i ch. uwrite s (buf + of_nat i) (word_of_int ch)"
  n "\<lambda>s k b. vread s (buf + of_nat k) = Ok b" editing
  for buf n
proof unfold_locales
  fix s s' :: "'a con_state_scheme" and i k c cs b
  show "con_inv s \<and> user_buffer s buf n \<Longrightarrow> committed s = [] \<Longrightarrow> read_circular_buf s = Ok (-1, s)"
    using con.get_empty by blast
  show "con_inv s \<and> user_buffer s buf n \<Longrightarrow> committed s = c # cs \<Longrightarrow>
      \<exists>s'. read_circular_buf s = Ok (c, s') \<and> (con_inv s' \<and> user_buffer s' buf n) \<and> committed s' = cs"
    by (rule con_get_buffer)
  show "con_inv s \<and> user_buffer s buf n \<Longrightarrow> i < n \<Longrightarrow>
      \<exists>s'. uwrite s (buf + of_nat i) (word_of_int c) = Ok s' \<and> (con_inv s' \<and> user_buffer s' buf n) \<and>
        committed s' = committed s \<and> editing s' = editing s \<and>
        vread s' (buf + of_nat i) = Ok (word_of_int c) \<and>
        (\<forall>k b. k < n \<longrightarrow> k \<noteq> i \<longrightarrow> vread s (buf + of_nat k) = Ok b \<longrightarrow> vread s' (buf + of_nat k) = Ok b)"
    using uwrite_user [of s buf n i "word_of_int c"] by auto
  show "con_inv s \<and> user_buffer s buf n \<Longrightarrow> read_circular_buf s = Ok (c, s') \<Longrightarrow>
      vread s (buf + of_nat k) = Ok b \<Longrightarrow> vread s' (buf + of_nat k) = Ok b"
    using read_circular_buf_mem user_buffer_cong(2) [of s' s] by metis
  show "con_inv s \<and> user_buffer s buf n \<Longrightarrow> read_circular_buf s = Ok (c, s') \<Longrightarrow> editing s' = editing s"
    using read_char [of s] by (auto split: if_splits)
qed

section \<open>Properties\<close>

text \<open>
  Property C37: \<^verbatim>\<open>printnum\<close> sends the decimal digits of a non-negative \<^verbatim>\<open>int\<close> and \<^verbatim>\<open>atoi\<close> reads
  that text back to the same number; for a negative number \<^verbatim>\<open>printnum\<close> sends nothing at all.
\<close>

theorem printnum_atoi_roundtrip:
  assumes "uart_ready s" and "x < 2147483648"
  shows "if x < 0 then printnum s x = Ok s
    else \<exists>s' bs. printnum s x = Ok s' \<and> sends s bs s' \<and> atoi (arr (bs @ [0])) = Ok x"
proof (cases "x < 0")
  case True
  then show ?thesis by (simp add: printnum_def printnum_digits.simps)
next
  case False
  then obtain n where n: "x = int n" "n < 2147483648"
    using assms(2) by (metis linorder_not_less of_nat_less_iff of_nat_numeral zero_le_imp_eq_int)
  have d: "\<forall>d \<in> set (digits n). d < 10" using digits_lt10 by blast
  have len: "length (digits n) \<le> 10" using length_digits [of n 9] n(2) by simp
  then have "cstring (arr (digit_chars (digits n) @ 0 # [])) (digit_chars (digits n))"
    using digit_chars_nonzero [OF d] by (intro cstring_arr) (auto simp: NUL_SCAN_def)
  then have "atoi (arr (digit_chars (digits n) @ [0])) = Ok (int (dec_value (digits n)))"
    using atoi_digits [of _ "digits n"] d len n(2) by (simp add: dec_value_digits)
  then show ?thesis
    using False printnum_sends [OF assms(1) n(2)] n(1) by (auto simp: dec_value_digits)
qed

theorem printnum_atoi_roundtrip_witness:
  "\<exists>s' bs. printnum sample_dev 2049 = Ok s' \<and> sends sample_dev bs s' \<and> atoi (arr (bs @ [0])) = Ok 2049"
  using printnum_atoi_roundtrip [OF uart_ready_sample, of 2049] by simp

text \<open>
  The circular buffer with its four 32-bit counters behaves as a line editor on two
  lists. A character goes to the line being edited, a newline commits that line, DEL removes the last
  character of the line, and the buffer panics exactly when 4096 characters are stored. The one case
  left out is DEL on an empty line after a committed one.
\<close>

lemma write_circular_buf_edits:
  assumes inv: "con_inv s" and "ch = DEL \<Longrightarrow> editing s = [] \<Longrightarrow> committed s = []"
  shows "if ch \<noteq> DEL \<and> length (committed s @ editing s) = 4096
    then \<exists>msg. write_circular_buf s ch = Panic msg
    else \<exists>s'. write_circular_buf s ch = Ok s' \<and> con_inv s' \<and>
      (committed s', editing s') =
        (if ch = DEL then (committed s, butlast (editing s))
         else if ch = 10 then (committed s @ editing s @ [ch], [])
         else (committed s, editing s @ [ch]))"
proof -
  note I = con_invD [OF inv]
  have len: "length (committed s @ editing s) = unat (edit_len s)"
    unfolding contents_split [symmetric] by simp
  show ?thesis
  proof (cases "ch = DEL")
    case del: True
    show ?thesis
    proof (cases "edit_len s = 0")
      case True
      then have "contents s = []" by (simp add: contents_def)
      then have "committed s = []" "editing s = []" by (simp_all add: contents_split)
      then show ?thesis using True del inv by (simp add: write_circular_buf_def)
    next
      case False
      then have "contents s \<noteq> []" by (metis length_contents list.size(3) unat_eq_zero)
      then have e: "editing s \<noteq> []" using assms(2) [OF del] by (auto simp: contents_split)
      then have lt: "unat (buf_len s) < unat (edit_len s)"
        using I(4) len length_committed [OF inv] by (cases "editing s") auto
      obtain s' where s': "write_circular_buf s DEL = Ok s'" "contents s' = butlast (contents s)"
          "buf_len s' = buf_len s" "con_inv s'"
        using write_del [OF inv False] lt by blast
      have "contents s' = committed s @ butlast (editing s)"
        using s'(2) by (simp add: contents_split [of s] butlast_append e)
      then have "committed s' = committed s \<and> editing s' = butlast (editing s)"
        using length_committed [OF inv] by (simp add: committed_def [of s'] editing_def [of s'] s'(3))
      then show ?thesis using s' del by auto
    qed
  next
    case ch: False
    show ?thesis
    proof (cases "unat (edit_len s) = 4096")
      case True
      then have "edit_len s = MAX_BUF" by (simp add: word_unat_eq_iff)
      then show ?thesis using ch True len by (simp add: write_circular_buf_def)
    next
      case False
      then have "unat (edit_len s) < 4096" using I(3) by simp
      then obtain s' where s': "write_circular_buf s ch = Ok s'" "con_inv s'" "contents s' = contents s @ [ch]"
          "unat (buf_len s') = (if ch = 10 then unat (edit_len s) + 1 else unat (buf_len s))"
        using write_char [OF inv ch] by blast
      have "committed s' = (if ch = 10 then committed s @ editing s @ [ch] else committed s)"
          "editing s' = (if ch = 10 then [] else editing s @ [ch])"
        using s'(4) I(4) length_committed [OF inv] len
        by (auto simp: committed_def [of s'] editing_def [of s'] s'(3) contents_split [of s])
      then show ?thesis using s' ch False len by auto
    qed
  qed
qed

definition sample_con :: con_state where
  "sample_con = \<lparr>mem = \<lambda>_. 0, cr3 = 0, free_pages = 0, num_allocated = 0, port_in = \<lambda>_ _. 0x20,
     mmio_in = \<lambda>_ _. 0, io_time = 0, port_out = [], mmio_out = [], buf_len = 0, edit_len = 0,
     edit_i = 0, write_i = 0, read_i = 0, circular_buf = replicate 4096 0\<rparr>"

lemma con_inv_sample: "con_inv sample_con" "committed sample_con = []" "editing sample_con = []"
  by (simp_all add: con_inv_def sample_con_def slot_def committed_def editing_def contents_def
      length_replicate)

text \<open>Reading \<open>n\<close> characters with \<^verbatim>\<open>read_circular_buf\<close>.\<close>

fun read_chars :: "nat \<Rightarrow> 'z con_state_scheme \<Rightarrow> (int list \<times> 'z con_state_scheme) outcome" where
  "read_chars 0 s = Ok ([], s)"
| "read_chars (Suc n) s =
     bnd (read_circular_buf s) (\<lambda>(c, s1). bnd (read_chars n s1) (\<lambda>(cs, s2). Ok (c # cs, s2)))"

lemma read_chars_committed:
  "con_inv s \<Longrightarrow> \<exists>s'. read_chars (length (committed s)) s = Ok (committed s, s')"
proof (induction "committed s" arbitrary: s)
  case Nil
  then show ?case by (metis list.size(3) read_chars.simps(1))
next
  case (Cons c cs)
  then obtain s1 where "read_circular_buf s = Ok (c, s1)" "con_inv s1" "committed s1 = cs"
    using con.get_next [of s c cs] by metis
  then show ?case using Cons.hyps(1) [of s1] by (auto simp: Cons.hyps(2) [symmetric])
qed

text \<open>What is read depends on neither \<open>edit_len\<close> nor \<open>edit_i\<close>; the former counts down.\<close>

lemma read_circular_buf_edit:
  "read_circular_buf s = Ok (c, t) \<Longrightarrow> buf_len s \<noteq> 0 \<Longrightarrow>
   read_circular_buf (s\<lparr>edit_i := i, edit_len := e\<rparr>) = Ok (c, t\<lparr>edit_i := i, edit_len := e - 1\<rparr>)"
  by (auto simp: read_circular_buf_def Let_def split: if_splits)

lemma read_chars_edit:
  "con_inv s \<Longrightarrow> n \<le> length (committed s) \<Longrightarrow> read_chars n s = Ok (cs, t) \<Longrightarrow>
   read_chars n (s\<lparr>edit_i := i, edit_len := e\<rparr>) = Ok (cs, t\<lparr>edit_i := i, edit_len := e - of_nat n\<rparr>)"
proof (induction n arbitrary: s cs e)
  case (Suc n)
  then obtain d ds where ds: "committed s = d # ds" by (cases "committed s") auto
  then have ne: "buf_len s \<noteq> 0" by (auto simp: committed_def)
  obtain s1 where s1: "read_circular_buf s = Ok (d, s1)" "con_inv s1" "committed s1 = ds"
    using con.get_next [OF Suc.prems(1) ds] by blast
  then obtain cs' where cs': "read_chars n s1 = Ok (cs', t)" "cs = d # cs'"
    using Suc.prems(3) by (auto simp: bnd_eq_Ok)
  have "read_chars n (s1\<lparr>edit_i := i, edit_len := e - 1\<rparr>) =
      Ok (cs', t\<lparr>edit_i := i, edit_len := e - 1 - of_nat n\<rparr>)"
    by (rule Suc.IH) (use s1 cs' ds Suc.prems(2) in auto)
  then show ?case
    using read_circular_buf_edit [OF s1(1) ne] cs'(2) by (simp add: algebra_simps)
qed auto

text \<open>
  Property C39: DEL on an empty line after a committed one is not ignored, as the comment on
  \<^verbatim>\<open>edit_len\<close> promises. The character erased on the screen is still delivered to the reader, and once
  the line is read \<^verbatim>\<open>edit_len\<close> has wrapped around to 2^32 - 1.
\<close>

theorem del_after_newline_corrupts_console:
  assumes inv: "con_inv s" and "editing s = []" and "committed s \<noteq> []"
  shows "\<exists>s' s''. write_circular_buf s DEL = Ok s' \<and> \<not> con_inv s' \<and>
    read_chars (length (committed s)) s' = Ok (committed s, s'') \<and> edit_len s'' = 0xffffffff"
proof -
  note I = con_invD [OF inv]
  have eq: "unat (buf_len s) = unat (edit_len s)"
    using assms(2) I(4) by (simp add: editing_def)
  then have bl: "buf_len s = edit_len s" by (simp only: word_unat_eq_iff)
  have "contents s \<noteq> []" using assms(3) by (simp add: contents_split)
  then have ne: "edit_len s \<noteq> 0" by (metis length_contents length_0_conv unat_0)
  let ?s' = "s\<lparr>edit_i := (edit_i s - 1) mod MAX_BUF, edit_len := edit_len s - 1\<rparr>"
  have run: "write_circular_buf s DEL = Ok ?s'"
    using ne by (simp add: write_circular_buf_def word_gt_0)
  have "\<not> con_inv ?s'"
    using write_del [OF inv ne] run eq by auto
  moreover obtain t where t: "read_chars (length (committed s)) s = Ok (committed s, t)"
    using read_chars_committed [OF inv] by blast
  have "of_nat (length (committed s)) = edit_len s"
    using length_committed [OF inv] eq by simp
  then have "read_chars (length (committed s)) ?s' =
      Ok (committed s, t\<lparr>edit_i := (edit_i s - 1) mod MAX_BUF, edit_len := edit_len s - 1 - edit_len s\<rparr>)"
    using read_chars_edit [OF inv order_refl t] by simp
  ultimately show ?thesis using run by auto
qed

lemma console_after_newline:
  "\<exists>s :: con_state. con_inv s \<and> editing s = [] \<and> committed s = [10]"
  using write_circular_buf_edits [OF con_inv_sample(1), of 10] con_inv_sample(2,3)
  by (auto simp: DEL_def)

theorem del_after_newline_corrupts_console_witness:
  "\<exists>(s :: con_state) s' s''. write_circular_buf s DEL = Ok s' \<and> read_chars 1 s' = Ok ([10], s'') \<and>
    edit_len s'' = 0xffffffff"
proof -
  obtain s :: con_state where s: "con_inv s" "editing s = []" "committed s = [10]"
    using console_after_newline by blast
  then show ?thesis using del_after_newline_corrupts_console [of s] by auto
qed

text \<open>
  Property C30: \<^verbatim>\<open>read_console\<close> gives the reader the committed characters in the order they were
  typed, as many as it asked for or as there are, in its buffer; it takes them off the console, leaves
  the line being edited alone and always returns.
\<close>

theorem read_console_delivers:
  assumes "con_inv s" and "user_buffer s buf (unat count)" and "\<And>c. c \<in> set (committed s) \<Longrightarrow> 0 \<le> c"
  shows "\<exists>s'. read_console s buf count = Ok (min (unat count) (length (committed s)), s') \<and>
    con_inv s' \<and> committed s' = drop (unat count) (committed s) \<and> editing s' = editing s \<and>
    (\<forall>k < min (unat count) (length (committed s)).
      vread s' (buf + of_nat k) = Ok (word_of_int (committed s ! k)))"
  using con_buf.drain_spec [of s buf "unat count" 0 "unat count" "[]"] assms
  by (auto simp: read_console_def read_console_from_drain)

text \<open>A console whose user page 5 is mapped, after \<^verbatim>\<open>hi\<close> and a newline were typed.\<close>

lemma type_char:
  assumes "con_inv s" and "ch \<noteq> DEL" and "length (committed s @ editing s) < 4096"
  shows "\<exists>s'. write_circular_buf s ch = Ok s' \<and> con_inv s' \<and> mem s' = mem s \<and> cr3 s' = cr3 s \<and>
    committed s' = (if ch = 10 then committed s @ editing s @ [ch] else committed s) \<and>
    editing s' = (if ch = 10 then [] else editing s @ [ch])"
proof -
  have len: "length (committed s @ editing s) = unat (edit_len s)"
    unfolding contents_split [symmetric] by simp
  then obtain s' where s': "write_circular_buf s ch = Ok s'" "con_inv s'" "contents s' = contents s @ [ch]"
      "unat (buf_len s') = (if ch = 10 then unat (edit_len s) + 1 else unat (buf_len s))"
      "dev_state.truncate s' = dev_state.truncate s"
    using write_char [OF assms(1,2)] assms(3) by auto
  have "committed s' = (if ch = 10 then committed s @ editing s @ [ch] else committed s)"
      "editing s' = (if ch = 10 then [] else editing s @ [ch])"
    using s'(4) con_invD(4) [OF assms(1)] length_committed [OF assms(1)] len
    by (auto simp: committed_def [of s'] editing_def [of s'] s'(3) contents_split [of s])
  then show ?thesis using s' by (auto simp: dev_state.truncate_def)
qed

lemma typed_sample:
  "\<exists>s :: con_state. con_inv s \<and> committed s = [104, 105, 10] \<and> user_buffer s 0x5100 4"
proof -
  obtain m :: mstate where m: "aspace_ok m 0xc0001000 []"
      "tables (mem m) 0xc0001000 = {0xc0001000, 0xc0002000}"
      "page_entry (mem m) 0xc0001000 5 = Some (0x9000 OR PTE_P OR (PTE_RW OR PTE_US))"
    using mapped_sample by blast
  let ?s0 = "sample_con\<lparr>mem := mem m, cr3 := VIRT_TO_PHYS 0xc0001000\<rparr>"
  have i0: "con_inv ?s0" "committed ?s0 = []" "editing ?s0 = []"
    using con_inv_sample by (simp_all add: con_inv_def committed_def editing_def contents_def)
  have ub: "user_buffer ?s0 0x5100 4"
  proof (rule user_buffer_page)
    show "pgdir_ok (mem ?s0) (curr_pgdir ?s0)" using aspace_okD(2) [OF m(1)] by (simp add: curr_pgdir_def)
    show "page_entry (mem ?s0) (curr_pgdir ?s0) (pgno 0x5100) = Some (0x9000 OR PTE_P OR (PTE_RW OR PTE_US))"
      using m(3) by (simp add: curr_pgdir_def pgno_def)
    show "(0x9000 OR PTE_P OR (PTE_RW OR PTE_US)) AND PTE_RW \<noteq> 0" "(0x9000 OR PTE_P OR (PTE_RW OR PTE_US)) AND PTE_US \<noteq> 0"
      by (simp_all add: entry_bits)
    show "PHYS_TO_VIRT (frame (0x9000 OR PTE_P OR (PTE_RW OR PTE_US))) \<notin> tables (mem ?s0) (curr_pgdir ?s0)"
      using m(2) sample_frames(1) by (simp add: curr_pgdir_def)
    show "page_off 0x5100 + 4 \<le> 4096" by (simp add: page_off_def)
    show "pgno 0x5100 < 786432" by (simp add: pgno_def)
  qed
  obtain s1 :: con_state where s1: "con_inv s1" "mem s1 = mem ?s0" "cr3 s1 = cr3 ?s0" "committed s1 = []" "editing s1 = [104]"
    using type_char [OF i0(1), of 104] i0 by (auto simp: DEL_def)
  obtain s2 :: con_state where s2: "con_inv s2" "mem s2 = mem s1" "cr3 s2 = cr3 s1" "committed s2 = []" "editing s2 = [104, 105]"
    using type_char [OF s1(1), of 105] s1 by (auto simp: DEL_def)
  obtain s3 :: con_state where s3: "con_inv s3" "mem s3 = mem s2" "cr3 s3 = cr3 s2" "committed s3 = [104, 105, 10]"
    using type_char [OF s2(1), of 10] s2 by (auto simp: DEL_def)
  have "user_buffer s3 0x5100 4"
    using ub user_buffer_cong(1) [of s3 ?s0] s1(2,3) s2(2,3) s3(2,3) by simp
  then show ?thesis using s3 by blast
qed

theorem read_console_delivers_witness:
  "\<exists>(s :: con_state) s'. read_console s 0x5100 4 = Ok (3, s') \<and> vread s' (0x5100 + of_nat 1) = Ok 105"
proof -
  obtain s :: con_state where s: "con_inv s" "committed s = [104, 105, 10]" "user_buffer s 0x5100 4"
    using typed_sample by blast
  have ub: "user_buffer s 0x5100 (unat (4 :: u32))" using s(3) by simp
  have nn: "0 \<le> c" if "c \<in> set (committed s)" for c using that s(2) by auto
  obtain s' where s': "read_console s 0x5100 4 = Ok (min (unat (4 :: u32)) (length (committed s)), s')"
      "\<And>k. k < min (unat (4 :: u32)) (length (committed s)) \<Longrightarrow>
        vread s' (0x5100 + of_nat k) = Ok (word_of_int (committed s ! k))"
    using read_console_delivers [OF s(1) ub nn] by blast
  then show ?thesis using s'(2) [of 1] s(2) by (intro exI [of _ s] exI [of _ s']) simp
qed

end
