(* ===== verification/Simulation.thy ===== *)
theory Simulation
  imports Prelude
begin

text \<open>
  Runs of step relations labelled with events, and the two contracts the proofs about whole runs use: an
  invariant that every step keeps, and a simulation of a concrete system by an abstract one. The
  scheduler with \<^verbatim>\<open>ProcSpec\<close> and the console with its line editor are instances.
\<close>

inductive steps :: "('s \<Rightarrow> 'e \<Rightarrow> 's \<Rightarrow> bool) \<Rightarrow> 's \<Rightarrow> 'e list \<Rightarrow> 's \<Rightarrow> bool" for step where
  steps_nil: "steps step x [] x"
| steps_snoc: "steps step x es y \<Longrightarrow> step y e z \<Longrightarrow> steps step x (es @ [e]) z"

inductive_simps steps_nil_iff [simp]: "steps step x [] y"
inductive_cases steps_snocE: "steps step x (es @ [e]) z"

lemma steps_one: "step x e y \<Longrightarrow> steps step x [e] y"
  using steps_snoc [OF steps_nil] by fastforce

lemma steps_append: "steps step y fs z \<Longrightarrow> steps step x es y \<Longrightarrow> steps step x (es @ fs) z"
  by (induction rule: steps.induct) (auto simp flip: append_assoc intro: steps_snoc)

locale invariant_system =
  fixes step :: "'s \<Rightarrow> 'e \<Rightarrow> 's \<Rightarrow> bool" and inv :: "'s \<Rightarrow> bool"
  assumes inv_step: "inv x \<Longrightarrow> step x e y \<Longrightarrow> inv y"
begin

lemma steps_inv: "steps step x es y \<Longrightarrow> inv x \<Longrightarrow> inv y"
  by (induction rule: steps.induct) (auto intro: inv_step)

end

locale simulation = invariant_system astep ainv
  for astep :: "'a \<Rightarrow> 'e \<Rightarrow> 'a \<Rightarrow> bool" and ainv :: "'a \<Rightarrow> bool" +
  fixes cstep :: "'c \<Rightarrow> 'e \<Rightarrow> 'c \<Rightarrow> bool" and view :: "'c \<Rightarrow> 'a" and cok :: "'c \<Rightarrow> bool"
  assumes sim_step: "cstep x e y \<Longrightarrow> cok x \<Longrightarrow> ainv (view x) \<Longrightarrow> astep (view x) e (view y) \<and> cok y"
begin

lemma steps_refine:
  "steps cstep x es y \<Longrightarrow> cok x \<Longrightarrow> ainv (view x) \<Longrightarrow> steps astep (view x) es (view y) \<and> cok y \<and> ainv (view y)"
proof (induction rule: steps.induct)
  case (steps_snoc x es y e z)
  then have "steps astep (view x) es (view y)" "cok y" "ainv (view y)" by simp_all
  moreover from this have "astep (view y) e (view z)" "cok z" using sim_step [OF steps_snoc.hyps(2)] by simp_all
  ultimately show ?case by (metis inv_step steps.steps_snoc)
qed (simp add: steps_nil)

end

sublocale simulation \<subseteq> concrete: invariant_system cstep "\<lambda>x. cok x \<and> ainv (view x)"
  by unfold_locales (use sim_step inv_step in blast)

end
