(* ===== verification/ConSession.thy ===== *)
theory ConSession
  imports Console Simulation
begin

text \<open>
  The console over a whole session: serial interrupts that type characters, \<^verbatim>\<open>read\<close> calls, and everything
  else the kernel does in between, in any order. The editor on two lists is the specification.
\<close>

datatype con_event = Typed int | Delivered "u8 list" | Elsewhere

text \<open>
  A \<^verbatim>\<open>read\<close> finds a writable buffer of its task in whatever memory and address space there is by then. A DEL on
  an empty line while a committed line is waiting is left out; what it does to the
  buffer is shown in \<open>Console\<close>.
\<close>

inductive con_step :: "'z con_state_scheme \<Rightarrow> con_event \<Rightarrow> 'z con_state_scheme \<Rightarrow> bool" where
  typed:
    "0 \<le> c \<Longrightarrow> (c = DEL \<longrightarrow> editing s = [] \<longrightarrow> committed s = []) \<Longrightarrow> write_circular_buf s c = Ok s' \<Longrightarrow>
     con_step s (Typed c) s'"
| delivered:
    "user_buffer s buf (unat count) \<Longrightarrow> read_console s buf count = Ok (n, s') \<Longrightarrow> length bs = n \<Longrightarrow>
     (\<forall>k < n. vread s' (buf + of_nat k) = Ok (bs ! k)) \<Longrightarrow> con_step s (Delivered bs) s'"
| elsewhere: "con_step s Elsewhere (s\<lparr>mem := m, cr3 := pd\<rparr>)"

section \<open>The line editor\<close>

fun edit_key :: "int \<Rightarrow> int list \<times> int list \<Rightarrow> int list \<times> int list" where
  "edit_key c (cm, ed) =
     (if c = DEL then (cm, butlast ed) else if c = 10 then (cm @ ed @ [c], []) else (cm, ed @ [c]))"

inductive ed_step :: "int list \<times> int list \<Rightarrow> con_event \<Rightarrow> int list \<times> int list \<Rightarrow> bool" where
  "0 \<le> c \<Longrightarrow> ed_step x (Typed c) (edit_key c x)"
| "bs = map word_of_int (take n cm) \<Longrightarrow> ed_step (cm, ed) (Delivered bs) (drop n cm, ed)"
| "ed_step x Elsewhere x"

inductive_cases ed_stepE: "ed_step x e y"

abbreviation chars_ok :: "int list \<times> int list \<Rightarrow> bool" where
  "chars_ok x \<equiv> (\<forall>c \<in> set (fst x) \<union> set (snd x). 0 \<le> c)"

lemma ed_step_chars: "chars_ok x \<Longrightarrow> ed_step x e y \<Longrightarrow> chars_ok y"
  by (erule ed_stepE; cases x) (auto dest: in_set_butlastD in_set_dropD)

text \<open>What is typed and what is delivered in a session.\<close>

fun keys :: "con_event list \<Rightarrow> int list" where
  "keys [] = []"
| "keys (Typed c # es) = c # keys es"
| "keys (Delivered bs # es) = keys es"
| "keys (Elsewhere # es) = keys es"

fun reads :: "con_event list \<Rightarrow> u8 list" where
  "reads [] = []"
| "reads (Typed c # es) = reads es"
| "reads (Delivered bs # es) = bs @ reads es"
| "reads (Elsewhere # es) = reads es"

lemma keys_append [simp]: "keys (es @ fs) = keys es @ keys fs"
  by (induction es rule: keys.induct) auto

lemma reads_append [simp]: "reads (es @ fs) = reads es @ reads fs"
  by (induction es rule: reads.induct) auto

lemma edit_key_prefix: "edit_key c (out @ cm, ed) = (out @ fst (edit_key c (cm, ed)), snd (edit_key c (cm, ed)))"
  by simp

lemma editor_session:
  "steps ed_step x es y \<Longrightarrow> \<exists>out. fold edit_key (keys es) x = (out @ fst y, snd y) \<and> map word_of_int out = reads es"
proof (induction rule: steps.induct)
  case (steps_snoc x es y e z)
  then obtain out where out: "fold edit_key (keys es) x = (out @ fst y, snd y)" "map word_of_int out = reads es" by blast
  obtain cm ed where y: "y = (cm, ed)" by (cases y)
  from steps_snoc.hyps(2) show ?case
  proof cases
    case (1 c)
    then show ?thesis using out edit_key_prefix [of c out cm ed] by (intro exI [of _ out]) (simp add: y del: edit_key.simps)
  next
    case (2 bs n cm' ed')
    then show ?thesis using out by (intro exI [of _ "out @ take n cm"]) (simp add: y)
  next
    case 3
    then show ?thesis using out by (intro exI [of _ out]) simp
  qed
qed simp

section \<open>The buffer simulates the editor\<close>

lemma con_step_edits:
  assumes "con_step s e t" and inv: "con_inv s" and ok: "chars_ok (committed s, editing s)"
  shows "ed_step (committed s, editing s) e (committed t, editing t) \<and> con_inv t"
  using assms(1)
proof cases
  case (typed c)
  then have del: "c = DEL \<Longrightarrow> editing s = [] \<Longrightarrow> committed s = []" by blast
  have "\<not> (c \<noteq> DEL \<and> length (committed s @ editing s) = 4096)"
    using write_circular_buf_edits [OF inv del, of c] typed(4) by (auto split: if_splits)
  then have "con_inv t" "(committed t, editing t) = edit_key c (committed s, editing s)"
    using write_circular_buf_edits [OF inv del, of c] typed(4) by (auto split: if_splits)
  then show ?thesis using ed_step.intros(1) [OF typed(2), of "(committed s, editing s)"] typed(1) by simp
next
  case (delivered buf count n bs)
  have nn: "0 \<le> c" if "c \<in> set (committed s)" for c using ok that by simp
  let ?n = "min (unat count) (length (committed s))"
  have R: "n = ?n" "con_inv t" "committed t = drop (unat count) (committed s)" "editing t = editing s"
      "\<forall>k < ?n. vread t (buf + of_nat k) = Ok (word_of_int (committed s ! k))"
    using con_buf.drain_spec [of s buf "unat count" 0 "unat count" "[]"] inv delivered(2,3) nn
    by (auto simp: read_console_def read_console_from_drain)
  have "bs = map word_of_int (take (unat count) (committed s))"
    by (rule nth_equalityI) (use delivered(4,5) R(1,5) in auto)
  then show ?thesis using ed_step.intros(2) [of bs "unat count" "committed s" "editing s"] R(2-4) delivered(1) by simp
next
  case (elsewhere m pd)
  then have "con_inv t" "committed t = committed s" "editing t = editing s"
    using inv by (simp_all add: con_inv_def committed_def editing_def contents_def)
  then show ?thesis using ed_step.intros(3) elsewhere(1) by simp
qed

interpretation session: simulation ed_step chars_ok con_step "\<lambda>s. (committed s, editing s)" con_inv
  by unfold_locales (use ed_step_chars con_step_edits in blast)+

text \<open>
  Property C12: in every session, however keystrokes, \<^verbatim>\<open>read\<close> calls and changes of the memory and the
  address space follow each other, what the calls delivered is, in order and without a loss, the
  beginning of what a line editor commits from the keys that were typed; the rest of it is waiting
  in the buffer, together with the line being edited, and the buffer's invariant holds. The next key is
  taken, or the buffer is full with 4096 characters and the kernel panics. The sessions are those in which
  no DEL is typed on an empty line while a committed line is waiting.
\<close>

theorem console_session_edits_lines:
  assumes "steps con_step s es t" and "con_inv s" and "\<forall>c \<in> set (committed s @ editing s). 0 \<le> c"
  shows "(\<exists>out. fold edit_key (keys es) (committed s, editing s) = (out @ committed t, editing t) \<and>
      map word_of_int out = reads es) \<and> con_inv t \<and>
    (\<forall>c. 0 \<le> c \<and> (c = DEL \<longrightarrow> editing t \<noteq> []) \<longrightarrow> (if c \<noteq> DEL \<and> length (committed t @ editing t) = 4096
      then \<exists>msg. write_circular_buf t c = Panic msg else \<exists>t'. con_step t (Typed c) t'))"
proof -
  have R: "steps ed_step (committed s, editing s) es (committed t, editing t)" "con_inv t"
    using session.steps_refine [OF assms(1,2)] assms(3) by auto
  have "if c \<noteq> DEL \<and> length (committed t @ editing t) = 4096 then \<exists>msg. write_circular_buf t c = Panic msg
      else \<exists>t'. con_step t (Typed c) t'" if c: "0 \<le> c" "c = DEL \<longrightarrow> editing t \<noteq> []" for c
    using write_circular_buf_edits [OF R(2), of c] c con_step.typed [OF c(1), of t] by (auto split: if_splits)
  then show ?thesis using editor_session [OF R(1)] R(2) by auto
qed

text \<open>The keys \<^verbatim>\<open>h\<close>, \<^verbatim>\<open>x\<close>, DEL, newline on an empty console.\<close>

theorem console_session_edits_lines_witness:
  "\<exists>t :: con_state. steps con_step sample_con [Typed 104, Typed 120, Typed DEL, Typed 10] t \<and>
    committed t = [104, 10] \<and> editing t = []"
proof -
  note C = console_session_edits_lines [OF _ con_inv_sample(1), unfolded con_inv_sample(2,3)]
  have key: "\<exists>t'. steps con_step sample_con (es @ [Typed c]) t' \<and> edit_key c (committed t, editing t) = (committed t', editing t')"
    if s: "steps con_step sample_con es t" "reads es = []" and c: "0 \<le> c" "c = DEL \<longrightarrow> editing t \<noteq> []"
      "length (committed t @ editing t) < 4096" for es c and t :: con_state
  proof -
    have "\<exists>t'. con_step t (Typed c) t'" using C [OF s(1)] c by (auto split: if_splits)
    then obtain t' where t': "steps con_step sample_con (es @ [Typed c]) t'" using steps_snoc [OF s(1)] by blast
    then show ?thesis using C [OF s(1)] C [OF t'] s(2) by auto
  qed
  obtain t1 :: con_state where t1: "steps con_step sample_con [Typed 104] t1" "committed t1 = []" "editing t1 = [104]"
    using key [OF steps_nil, of 104] con_inv_sample(2,3) by (auto simp: DEL_def)
  obtain t2 :: con_state where t2: "steps con_step sample_con [Typed 104, Typed 120] t2" "committed t2 = []" "editing t2 = [104, 120]"
    using key [OF t1(1), of 120] t1(2,3) by (auto simp: DEL_def)
  obtain t3 :: con_state where t3: "steps con_step sample_con [Typed 104, Typed 120, Typed DEL] t3" "committed t3 = []" "editing t3 = [104]"
    using key [OF t2(1), of DEL] t2(2,3) by (auto simp: DEL_def)
  show ?thesis using key [OF t3(1), of 10] t3(2,3) by (auto simp: DEL_def)
qed

end
