(* ===== verification/FileSys.thy ===== *)
theory FileSys
  imports Console
begin

text \<open>
  The file system of \<^verbatim>\<open>fs.c\<close>: 32 files in memory, read at boot from the \<^verbatim>\<open>ar\<close> archive linked into
  the kernel (\<^verbatim>\<open>init_fs\<close>), looked up by name (\<^verbatim>\<open>get_file\<close>), created (\<^verbatim>\<open>alloc_file\<close>), listed
  (\<^verbatim>\<open>list_rootdir\<close>), read and written. A \<^verbatim>\<open>struct file *\<close> is a \<open>file_ref\<close>, an index into
  \<^verbatim>\<open>filesystem\<close> or the console's entry, and NULL is \<open>None\<close>. The data of a file is a page of kernel
  memory. Reading a name without a NUL from its 16 bytes, or writing past them, is undefined.
\<close>

datatype file_type = FT_REGULAR | FT_DEV | FT_DIR

text \<open>\<^verbatim>\<open>struct file\<close>.\<close>

record kfile =
  f_id :: u32
  f_size :: u32
  f_pos :: u32
  f_type :: file_type
  f_in_use :: bool
  f_name :: "u8 list"
  f_data :: u32

datatype file_ref = Fs nat | Console_file

record fs_state = con_state +
  filesystem :: "kfile list"
  console_file :: kfile
  file_id :: u32

definition MAX_FILES :: nat where "MAX_FILES = 32"
definition MAX_NAME :: nat where "MAX_NAME = 15"
definition MAX_FILE_SIZE :: nat where "MAX_FILE_SIZE = 4096"

definition zero_file :: kfile where
  "zero_file = \<lparr>f_id = 0, f_size = 0, f_pos = 0, f_type = FT_REGULAR, f_in_use = False,
     f_name = replicate (MAX_NAME + 1) 0, f_data = NULL\<rparr>"

definition upd_file :: "'z fs_state_scheme \<Rightarrow> nat \<Rightarrow> (kfile \<Rightarrow> kfile) \<Rightarrow> 'z fs_state_scheme" where
  "upd_file s i g = s\<lparr>filesystem := (filesystem s)[i := g (filesystem s ! i)]\<rparr>"

section \<open>Reading the archive\<close>

text \<open>A member header, \<^verbatim>\<open>struct ar_hdr\<close>: 60 bytes, the name at offset 0 and the size at 48.\<close>

definition sizeof_ar_hdr :: nat where "sizeof_ar_hdr = 60"
definition ar_size_offset :: nat where "ar_size_offset = 48"

definition mem_bytes :: "mem \<Rightarrow> u32 \<Rightarrow> nat \<Rightarrow> u8 list" where
  "mem_bytes m a n = map (\<lambda>i. m (a + of_nat i)) [0..<n]"

definition null_out_space :: "u8 list \<Rightarrow> nat \<Rightarrow> u8 list" where
  "null_out_space str n = map (\<lambda>c. if c = 32 then 0 else c) (take n str) @ drop n str"

definition null_out_slash :: "u8 list \<Rightarrow> u8 list" where
  "null_out_slash tmp = map (\<lambda>c. if c = 47 then 0 else c) tmp"

text \<open>
  One member of the archive at \<open>arp\<close>, into slot \<open>file_cnt\<close>; the result carries the member's size. The
  array \<open>tmp\<close> keeps the tail of the name when the size is parsed, as in the code. A negative size is
  a copy out of bounds.
\<close>

definition load_member :: "'z fs_state_scheme \<Rightarrow> u32 \<Rightarrow> nat \<Rightarrow> (int \<times> 'z fs_state_scheme) outcome" where
  "load_member s arp file_cnt =
     (let tmp = null_out_slash (null_out_space (mem_bytes (mem s) arp 16) 16)
      in bnd (strcpy (f_name (filesystem s ! file_cnt)) (arr tmp)) (\<lambda>name.
      let s = upd_file s file_cnt (\<lambda>f. f\<lparr>f_name := name\<rparr>);
          tmp = null_out_space (mem_bytes (mem s) (arp + of_nat ar_size_offset) 10 @ drop 10 tmp) 10
      in bnd (atoi (arr tmp)) (\<lambda>size.
      let s = upd_file s file_cnt (\<lambda>f. f\<lparr>f_size := word_of_int size\<rparr>)
      in if size > 4096 then Panic ''init_fs: file larger than 4K is unsupported''
         else bnd (kmalloc s) (\<lambda>(p, s).
         if size < 0 then Undef ''copy of a negative size''
         else
           let s = upd_file s file_cnt (\<lambda>f. f\<lparr>f_data := p\<rparr>);
               s = s\<lparr>mem := memset (mem s) p 0 PGSIZE\<rparr>;
               s = s\<lparr>mem := memcpy (mem s) p (arp + of_nat sizeof_ar_hdr) (word_of_int size)\<rparr>;
               s = upd_file s file_cnt (\<lambda>f. f\<lparr>f_id := file_id s\<rparr>);
               s = s\<lparr>file_id := file_id s + 1\<rparr>;
               s = upd_file s file_cnt (\<lambda>f. f\<lparr>f_type := FT_REGULAR\<rparr>);
               s = upd_file s file_cnt (\<lambda>f. f\<lparr>f_in_use := True\<rparr>)
           in Ok (size, s)))))"

text \<open>
  The loop over the members. Every round fills a slot and the kernel panics when the last one is
  filled, so \<open>MAX_FILES\<close> rounds are enough.
\<close>

fun init_fs_from ::
    "nat \<Rightarrow> 'z fs_state_scheme \<Rightarrow> u32 \<Rightarrow> u32 \<Rightarrow> nat \<Rightarrow> 'z fs_state_scheme outcome" where
  "init_fs_from 0 s arp fsar_end file_cnt = Diverge"
| "init_fs_from (Suc fuel) s arp fsar_end file_cnt =
     (if arp < fsar_end
      then bnd (load_member s arp file_cnt) (\<lambda>(size, s).
        if file_cnt + 1 \<ge> MAX_FILES then Panic ''Too many files''
        else
          let arp = arp + of_nat sizeof_ar_hdr + word_of_int size;
              arp = (if size mod 2 = 1 then arp + 1 else arp)
          in init_fs_from fuel s arp fsar_end (file_cnt + 1))
      else Ok s)"

text \<open>The magic of eight characters is skipped, not checked; the linker places the archive.\<close>

definition init_fs :: "'z fs_state_scheme \<Rightarrow> u32 \<Rightarrow> u32 \<Rightarrow> 'z fs_state_scheme outcome" where
  "init_fs s fsar_start fsar_end =
     init_fs_from (MAX_FILES + 1) (s\<lparr>filesystem := replicate MAX_FILES zero_file\<rparr>)
       (fsar_start + 8) fsar_end 0"

definition init_dev_file :: "'z fs_state_scheme \<Rightarrow> 'z fs_state_scheme outcome" where
  "init_dev_file s =
     (let s = s\<lparr>console_file := (console_file s)\<lparr>f_id := file_id s\<rparr>, file_id := file_id s + 1\<rparr>;
          s = s\<lparr>console_file := (console_file s)\<lparr>f_type := FT_DEV\<rparr>\<rparr>
      in bnd (strcpy (f_name (console_file s)) (arr (kstr ''console'' @ [0]))) (\<lambda>name.
           Ok (s\<lparr>console_file := (console_file s)\<lparr>f_name := name\<rparr>\<rparr>)))"

section \<open>Lookup and creation\<close>

fun get_file_from :: "reader \<Rightarrow> kfile list \<Rightarrow> nat \<Rightarrow> file_ref option outcome" where
  "get_file_from path [] i = Ok None"
| "get_file_from path (f # fs) i =
     bnd (strcmp path (arr (f_name f))) (\<lambda>r.
       if r = 0 then Ok (Some (Fs i)) else get_file_from path fs (Suc i))"

definition get_file :: "'z fs_state_scheme \<Rightarrow> reader \<Rightarrow> file_ref option outcome" where
  "get_file s path =
     bnd (path 0) (\<lambda>c. if c = 0 then Ok None else get_file_from path (filesystem s) 0)"

fun unused_slot :: "kfile list \<Rightarrow> nat \<Rightarrow> nat option" where
  "unused_slot [] i = None"
| "unused_slot (f # fs) i = (if \<not> f_in_use f then Some i else unused_slot fs (Suc i))"

definition alloc_file ::
    "'z fs_state_scheme \<Rightarrow> reader \<Rightarrow> (file_ref option \<times> 'z fs_state_scheme) outcome" where
  "alloc_file s path =
     (case unused_slot (filesystem s) 0 of
        None \<Rightarrow> Ok (None, s)
      | Some i \<Rightarrow>
          bnd (strlen path) (\<lambda>n.
          if MAX_NAME + 1 - 1 < n then Ok (None, s)
          else bnd (strcpy (f_name (filesystem s ! i)) path) (\<lambda>name.
            let s = upd_file s i (\<lambda>f. f\<lparr>f_name := name\<rparr>)
            in bnd (kmalloc s) (\<lambda>(p, s).
              let s = upd_file s i (\<lambda>f. f\<lparr>f_data := p\<rparr>);
                  s = upd_file s i (\<lambda>f. f\<lparr>f_in_use := True\<rparr>);
                  s = upd_file s i (\<lambda>f. f\<lparr>f_size := 0\<rparr>)
              in Ok (Some (Fs i), s)))))"

text \<open>
  \<^verbatim>\<open>release_file\<close>, which nothing calls, compares addresses: \<open>base\<close> and \<open>con\<close> are where the linker
  puts \<^verbatim>\<open>filesystem\<close> and \<^verbatim>\<open>console_file\<close>, a \<^verbatim>\<open>struct file\<close> has 40 bytes, and
  \<^verbatim>\<open>filesystem + sizeof(filesystem)\<close> advances by 1280 entries.
\<close>

definition sizeof_file :: u32 where "sizeof_file = 40"

definition file_addr :: "u32 \<Rightarrow> u32 \<Rightarrow> file_ref \<Rightarrow> u32" where
  "file_addr base con fp = (case fp of Fs i \<Rightarrow> base + of_nat i * sizeof_file | Console_file \<Rightarrow> con)"

definition get_fp :: "'z fs_state_scheme \<Rightarrow> file_ref \<Rightarrow> kfile" where
  "get_fp s fp = (case fp of Fs i \<Rightarrow> filesystem s ! i | Console_file \<Rightarrow> console_file s)"

definition set_fp :: "'z fs_state_scheme \<Rightarrow> file_ref \<Rightarrow> (kfile \<Rightarrow> kfile) \<Rightarrow> 'z fs_state_scheme" where
  "set_fp s fp g = (case fp of Fs i \<Rightarrow> upd_file s i g
     | Console_file \<Rightarrow> s\<lparr>console_file := g (console_file s)\<rparr>)"

definition release_file ::
    "'z fs_state_scheme \<Rightarrow> u32 \<Rightarrow> u32 \<Rightarrow> file_ref \<Rightarrow> 'z fs_state_scheme outcome" where
  "release_file s base con fp =
     (if \<not> (base \<le> file_addr base con fp \<and>
            base + (of_nat MAX_FILES * sizeof_file) * sizeof_file < file_addr base con fp)
      then Panic ''release_file: realeasing file out of filesystem''
      else
        let s = set_fp s fp (\<lambda>f. f\<lparr>f_name := replicate (MAX_NAME + 1) 0\<rparr>)
        in bnd (if f_data (get_fp s fp) \<noteq> NULL then kfree s (f_data (get_fp s fp)) else Ok s)
             (\<lambda>s. Ok (set_fp s fp (\<lambda>f. f\<lparr>f_in_use := False\<rparr>))))"

section \<open>Listing, reading and writing\<close>

text \<open>The loop of \<^verbatim>\<open>list_rootdir\<close>: \<open>off\<close> is \<^verbatim>\<open>p - buf\<close>.\<close>

fun list_from :: "kfile list \<Rightarrow> mem \<Rightarrow> u32 \<Rightarrow> nat \<Rightarrow> (int \<times> mem) outcome" where
  "list_from [] m buf off = Ok (int off, m)"
| "list_from (f # fs) m buf off =
     (if \<not> (f_in_use f \<and> f_type f = FT_REGULAR) then list_from fs m buf off
      else bnd (strlen (arr (f_name f))) (\<lambda>len.
        if len = 0 then list_from fs m buf off
        else if off + len + 1 > MAX_FILE_SIZE then Ok (-1, m)
        else bnd (strcpy_mem m (buf + of_nat off) (f_name f)) (\<lambda>m.
          list_from fs (m(buf + of_nat (off + len) := 10)) buf (off + len + 1))))"

definition list_rootdir :: "'z fs_state_scheme \<Rightarrow> u32 \<Rightarrow> (int \<times> 'z fs_state_scheme) outcome" where
  "list_rootdir s buf =
     bnd (list_from (filesystem s) (mem s) buf 0) (\<lambda>(r, m). Ok (r, s\<lparr>mem := m\<rparr>))"

definition read_file ::
    "'z fs_state_scheme \<Rightarrow> file_ref \<Rightarrow> u32 \<Rightarrow> u32 \<Rightarrow> (u32 \<times> 'z fs_state_scheme) outcome" where
  "read_file s fp buf count =
     (let f = get_fp s fp; left = f_size f - f_pos f
      in if left < count
         then bnd (umemcpy s buf (f_data f) left) (\<lambda>s.
           Ok (left, set_fp s fp (\<lambda>f. f\<lparr>f_pos := f_pos f + left\<rparr>)))
         else bnd (umemcpy s buf (f_data f) count) (\<lambda>s.
           Ok (count, set_fp s fp (\<lambda>f. f\<lparr>f_pos := f_pos f + count\<rparr>))))"

definition write_file ::
    "'z fs_state_scheme \<Rightarrow> file_ref \<Rightarrow> u32 \<Rightarrow> u32 \<Rightarrow> 'z fs_state_scheme outcome" where
  "write_file s fp buf count =
     (let f = get_fp s fp
      in if f_pos f + count > PGSIZE then Panic ''File larger than PGSIZE is unsupported''
         else bnd (vmemcpy s (f_data f + f_pos f) buf count) (\<lambda>s.
           Ok (set_fp s fp (\<lambda>f. f\<lparr>f_pos := f_pos f + count\<rparr>))))"

section \<open>Names\<close>

definition fname :: "kfile \<Rightarrow> u8 list" where
  "fname f = takeWhile (\<lambda>c. c \<noteq> 0) (f_name f)"

definition name_ok :: "kfile \<Rightarrow> bool" where
  "name_ok f \<longleftrightarrow> length (f_name f) = 16 \<and> 0 \<in> set (f_name f)"

definition fs_ok :: "'z fs_state_scheme \<Rightarrow> bool" where
  "fs_ok s \<longleftrightarrow> length (filesystem s) = MAX_FILES \<and> (\<forall>f \<in> set (filesystem s). name_ok f)"

lemma name_ok_cstring:
  assumes "name_ok f"
  shows "cstring (arr (f_name f)) (fname f)" and "length (fname f) < 16"
    and "\<exists>ys. f_name f = fname f @ 0 # ys"
proof -
  have d: "dropWhile (\<lambda>c. c \<noteq> 0) (f_name f) \<noteq> []"
    using assms by (auto simp: name_ok_def)
  then obtain c ys where c: "dropWhile (\<lambda>c. c \<noteq> 0) (f_name f) = c # ys"
    by (meson neq_Nil_conv)
  then have "c = 0" using hd_dropWhile [OF d] by simp
  then show split: "\<exists>ys. f_name f = fname f @ 0 # ys"
    using c takeWhile_dropWhile_id [of "\<lambda>c. c \<noteq> 0" "f_name f"] unfolding fname_def by metis
  then obtain zs where zs: "f_name f = fname f @ 0 # zs" ..
  then have "length (f_name f) = length (fname f) + Suc (length zs)"
    by (metis length_Cons length_append)
  then show lt: "length (fname f) < 16" using assms by (simp add: name_ok_def)
  have "0 \<notin> set (fname f)" by (auto simp: fname_def dest: set_takeWhileD)
  then show "cstring (arr (f_name f)) (fname f)"
    using lt zs cstring_arr [of "fname f" zs] by (simp add: NUL_SCAN_def)
qed

lemma fname_app [simp]: "0 \<notin> set n \<Longrightarrow> f_name f = n @ 0 # ys \<Longrightarrow> fname f = n"
  by (simp add: fname_def takeWhile_append2 takeWhile_append)

lemma zero_file_ok [simp]: "name_ok zero_file" "fname zero_file = []"
  by (simp_all add: name_ok_def zero_file_def MAX_NAME_def fname_def)

text \<open>Copying a C string into a name field.\<close>

lemma strcpy_name:
  assumes "cstring src p" and "length p \<le> 15" and "length old = 16"
  shows "\<exists>name. strcpy old src = Ok name \<and> length name = 16 \<and> 0 \<in> set name \<and>
    takeWhile (\<lambda>c. c \<noteq> 0) name = p"
proof -
  have "0 \<notin> set p" using assms(1) by (simp add: cstring_def)
  then have "takeWhile (\<lambda>c. c \<noteq> 0) (p @ 0 # drop (Suc (length p)) old) = p"
    by (subst takeWhile_append2) auto
  then show ?thesis
    using strcpy_cstring [OF assms(1), of old] assms(2,3) by simp
qed

section \<open>Lookup\<close>

lemma get_file_from_find:
  assumes "cstring path p" and "\<And>f. f \<in> set fs \<Longrightarrow> name_ok f"
  shows "get_file_from path fs k =
    Ok (map_option (\<lambda>i. Fs (k + i)) (List.find (\<lambda>i. fname (fs ! i) = p) [0..<length fs]))"
  using assms(2)
proof (induction fs arbitrary: k)
  case (Cons f fs)
  have "strcmp path (arr (f_name f)) = Ok (str_order p (fname f))"
    using assms(1) name_ok_cstring(1) Cons.prems by (intro strcmp_cstring) auto
  moreover have "[0..<length (f # fs)] = 0 # map Suc [0..<length fs]"
    by (simp add: upt_conv_Cons map_Suc_upt del: upt_Suc)
  moreover have "List.find P (map Suc xs) = map_option Suc (List.find (\<lambda>i. P (Suc i)) xs)" for P xs
    by (induction xs) auto
  ultimately show ?case
    using Cons by (auto simp: str_order_eq_0 option.map_comp comp_def simp del: upt_Suc)
qed simp

lemma get_file_find:
  assumes "cstring path p" and "fs_ok s"
  shows "get_file s path = Ok (if p = [] then None
    else map_option Fs (List.find (\<lambda>i. fname (filesystem s ! i) = p) [0..<MAX_FILES]))"
proof (cases "p = []")
  case True
  then show ?thesis using cstring_end [OF assms(1)] by (simp add: get_file_def)
next
  case False
  then obtain c where "path 0 = Ok c" "c \<noteq> 0"
    using cstring_nth [OF assms(1), of 0] by auto
  then show ?thesis
    using False get_file_from_find [OF assms(1), of "filesystem s" 0] assms(2)
    by (simp add: get_file_def fs_ok_def)
qed

lemma find_None_iff: "List.find P xs = None \<longleftrightarrow> (\<forall>x \<in> set xs. \<not> P x)"
  by (induction xs) auto

lemma find_first:
  "i < n \<Longrightarrow> P i \<Longrightarrow> (\<And>j. j < i \<Longrightarrow> \<not> P j) \<Longrightarrow> List.find P [0..<n] = Some i"
proof -
  assume i: "i < n" "P i" "\<And>j. j < i \<Longrightarrow> \<not> P j"
  have "[0..<n] = [0..<i] @ [i..<n]"
    using upt_add_eq_append [of 0 i "n - i"] i(1) by simp
  then have "[0..<n] = [0..<i] @ i # [Suc i..<n]"
    using i(1) by (simp only: upt_conv_Cons)
  moreover have "List.find P ([0..<i] @ i # xs) = Some i" for xs
  proof -
    have "List.find P (ys @ i # xs) = Some i" if "\<forall>y \<in> set ys. \<not> P y" for ys
      using that i(2) by (induction ys) auto
    then show ?thesis using i(3) by simp
  qed
  ultimately show ?thesis by simp
qed

section \<open>Creation\<close>

lemma unused_slot_spec:
  "unused_slot fs k = Some i \<Longrightarrow> k \<le> i \<and> i - k < length fs \<and> \<not> f_in_use (fs ! (i - k)) \<and>
    (\<forall>j < i - k. f_in_use (fs ! j))"
proof (induction fs arbitrary: k)
  case (Cons f fs)
  show ?case
  proof (cases "f_in_use f")
    case True
    then have IH: "Suc k \<le> i \<and> i - Suc k < length fs \<and> \<not> f_in_use (fs ! (i - Suc k)) \<and>
        (\<forall>j < i - Suc k. f_in_use (fs ! j))"
      using Cons by simp
    then have e: "i - k = Suc (i - Suc k)" by (elim conjE) linarith
    show ?thesis
      unfolding e using IH True by (auto simp: nth_Cons split: nat.splits)
  next
    case False
    then show ?thesis using Cons.prems by simp
  qed
qed simp

lemma upd_file_simps [simp]:
  "filesystem (upd_file s i g) = (filesystem s)[i := g (filesystem s ! i)]"
  "mem (upd_file s i g) = mem s" "free_pages (upd_file s i g) = free_pages s"
  "num_allocated (upd_file s i g) = num_allocated s"
  "cr3 (upd_file s i g) = cr3 s" "console_file (upd_file s i g) = console_file s"
  "file_id (upd_file s i g) = file_id s" "fs_state.more (upd_file s i g) = fs_state.more s"
  "con_state.truncate (upd_file s i g) = con_state.truncate s"
  "kheap (upd_file s i g) ps = kheap s ps"
  by (simp_all add: upd_file_def kheap_def con_state.truncate_def)

lemma kmalloc_fields:
  assumes "kmalloc s = Ok (p, s')"
  shows "mem s' = mem s" "cr3 s' = cr3 s" "mstate.more s' = mstate.more s"
  using assms by (auto simp: kmalloc_def Let_def split: if_splits)

lemma kmalloc_fs:
  assumes "kmalloc s = Ok (p, s')"
  shows "filesystem s' = filesystem s" "console_file s' = console_file s" "file_id s' = file_id s"
    "fs_state.more s' = fs_state.more s" "port_in s' = port_in s"
  using assms by (auto simp: kmalloc_def Let_def split: if_splits)

lemma alloc_file_spec:
  assumes ok: "fs_ok s" and h: "kheap s (pg # ps)" and p: "cstring path p" "length p \<le> 15"
    and i: "unused_slot (filesystem s) 0 = Some i"
  shows "\<exists>s' name. alloc_file s path = Ok (Some (Fs i), s') \<and> kheap s' ps \<and> mem s' = mem s \<and>
    filesystem s' = (filesystem s)[i := (filesystem s ! i)\<lparr>f_name := name, f_data := pg,
      f_in_use := True, f_size := 0\<rparr>] \<and>
    length name = 16 \<and> 0 \<in> set name \<and> takeWhile (\<lambda>c. c \<noteq> 0) name = p \<and> i < MAX_FILES \<and>
    console_file s' = console_file s \<and> cr3 s' = cr3 s \<and> fs_state.more s' = fs_state.more s"
proof -
  have lt: "i < length (filesystem s)" using unused_slot_spec [OF i] by simp
  then have "length (f_name (filesystem s ! i)) = 16"
    using ok by (auto simp: fs_ok_def name_ok_def)
  then obtain name where name: "strcpy (f_name (filesystem s ! i)) path = Ok name" "length name = 16"
      "0 \<in> set name" "takeWhile (\<lambda>c. c \<noteq> 0) name = p"
    using strcpy_name [OF p] by blast
  let ?s1 = "upd_file s i (\<lambda>f. f\<lparr>f_name := name\<rparr>)"
  obtain s2 where s2: "kmalloc ?s1 = Ok (pg, s2)" "kheap s2 ps"
    using kmalloc_heap [of ?s1 pg ps] h by auto
  note K = kmalloc_fields [OF s2(1)] kmalloc_fs [OF s2(1)]
  show ?thesis
    using i strlen_cstring [OF p(1)] p(2) name s2 K lt ok
    by (auto simp: alloc_file_def MAX_NAME_def Let_def fs_ok_def)
qed

section \<open>Archives\<close>

text \<open>
  The \<^verbatim>\<open>ar\<close> format as the tools write it: the name ends with a slash and is padded with spaces to 16
  bytes, the size is decimal and padded to 10, the time, owner, group and mode fields (32 bytes) may
  hold anything, and members start at even offsets.
\<close>

definition pad :: "nat \<Rightarrow> u8 list \<Rightarrow> u8 list" where
  "pad n xs = xs @ replicate (n - length xs) 32"

record member =
  mb_name :: "u8 list"
  mb_info :: "u8 list"
  mb_data :: "u8 list"

definition member_ok :: "member \<Rightarrow> bool" where
  "member_ok mb \<longleftrightarrow> length (mb_name mb) \<le> 15 \<and> 0 \<notin> set (mb_name mb) \<and> 32 \<notin> set (mb_name mb) \<and>
     47 \<notin> set (mb_name mb) \<and> length (mb_info mb) = 32 \<and> length (mb_data mb) \<le> 4096"

definition ar_header :: "member \<Rightarrow> u8 list" where
  "ar_header mb = pad 16 (mb_name mb @ [47]) @ mb_info mb @
     pad 10 (digit_chars (digits (length (mb_data mb)))) @ [0x60, 0x0a]"

definition ar_member :: "member \<Rightarrow> u8 list" where
  "ar_member mb = ar_header mb @ mb_data mb @ (if odd (length (mb_data mb)) then [0x0a] else [])"

definition ar_archive :: "u8 list \<Rightarrow> member list \<Rightarrow> u8 list" where
  "ar_archive magic mbs = magic @ concat (map ar_member mbs)"

lemma digits_4096: "n \<le> 4096 \<Longrightarrow> length (digits n) \<le> 4"
  using length_digits [of n 3] by simp

lemma length_pad: "length xs \<le> n \<Longrightarrow> length (pad n xs) = n"
  by (simp add: pad_def)

lemma length_ar_header: "member_ok mb \<Longrightarrow> length (ar_header mb) = 60"
  using digits_4096 [of "length (mb_data mb)"]
  by (simp add: ar_header_def member_ok_def length_pad)

lemma length_ar_member:
  "member_ok mb \<Longrightarrow> length (ar_member mb) = 60 + length (mb_data mb) + length (mb_data mb) mod 2"
  by (simp add: ar_member_def length_ar_header odd_iff_mod_2_eq_one even_iff_mod_2_eq_zero)

text \<open>Pieces of a range of memory.\<close>

lemma length_mem_bytes [simp]: "length (mem_bytes m a n) = n"
  by (simp add: mem_bytes_def)

lemma mem_bytes_nth: "i < n \<Longrightarrow> mem_bytes m a n ! i = m (a + of_nat i)"
  by (simp add: mem_bytes_def)

lemma mem_bytes_slice:
  "mem_bytes m a n = xs \<Longrightarrow> i + k \<le> n \<Longrightarrow> mem_bytes m (a + of_nat i) k = take k (drop i xs)"
  by (rule nth_equalityI) (auto simp: mem_bytes_nth add.assoc [symmetric])

lemma mem_bytes_cong:
  "(\<And>i. i < n \<Longrightarrow> m' (a + of_nat i) = m (a + of_nat i)) \<Longrightarrow> mem_bytes m' a n = mem_bytes m a n"
  by (simp add: mem_bytes_def)

text \<open>A copy into a page from a range that does not touch it.\<close>

lemma memcpy_into_page:
  assumes p: "page_aligned p" and n: "unat n \<le> 4096" and src: "unat src + unat n \<le> 4294967296"
    and apart: "\<And>i. i < unat n \<Longrightarrow> pgno (src + of_nat i) \<noteq> pgno p"
  shows "mem_bytes (memcpy m p src n) p (unat n) = mem_bytes m src (unat n)"
    and "changes_only {pgno p} m (memcpy m p src n)"
proof -
  note up = page_aligned_le [OF p]
  have disj: "unat p + unat n \<le> unat src \<or> unat src + unat n \<le> unat p"
  proof (rule ccontr)
    assume over: "\<not> (unat p + unat n \<le> unat src \<or> unat src + unat n \<le> unat p)"
    show False
    proof (cases "unat p \<le> unat src")
      case True
      then have "pgno src = pgno p"
        using over n p by (intro pgno_eqI) (auto simp: page_aligned_unat)
      then show False using apart [of 0] over True by simp
    next
      case False
      define k where "k = unat p - unat src"
      have k: "k < unat n" "unat src + k = unat p" using False over by (auto simp: k_def)
      then have "unat (src + of_nat k) = unat p"
        using unat_add_lt [of src k] unat_lt_2p32 [of p] by simp
      then have "src + of_nat k = p" by (simp only: word_unat_eq_iff)
      then show False using apart [OF k(1)] by simp
    qed
  qed
  have pn: "unat p + unat n \<le> 4294967296" using up n by linarith
  note M = memcpy_apply [OF pn src disj]
  show "mem_bytes (memcpy m p src n) p (unat n) = mem_bytes m src (unat n)"
  proof (rule nth_equalityI)
    fix i assume "i < length (mem_bytes (memcpy m p src n) p (unat n))"
    then have i: "i < unat n" by simp
    have "unat (p + of_nat i) = unat p + i"
      using i n by (intro unat_page_offset [OF p]) simp
    then show "mem_bytes (memcpy m p src n) p (unat n) ! i = mem_bytes m src (unat n) ! i"
      using i by (simp add: mem_bytes_nth M)
  qed simp
  show "changes_only {pgno p} m (memcpy m p src n)"
    unfolding changes_only_def
  proof (intro allI impI)
    fix x assume x: "pgno x \<notin> {pgno p}"
    have "\<not> (unat p \<le> unat x \<and> unat x < unat p + unat n)"
    proof
      assume "unat p \<le> unat x \<and> unat x < unat p + unat n"
      then have "pgno x = pgno p" using p n by (intro pgno_eqI) (auto simp: page_aligned_unat)
      then show False using x by simp
    qed
    then show "memcpy m p src n x = m x" unfolding M by (rule if_not_P)
  qed
qed

text \<open>Parsing a header.\<close>

lemma null_out_prefix:
  "length xs = n \<Longrightarrow> null_out_space (xs @ ys) n = map (\<lambda>c. if c = 32 then 0 else c) xs @ ys"
  by (simp add: null_out_space_def)

definition parsed_name :: "member \<Rightarrow> u8 list" where
  "parsed_name mb = null_out_slash (null_out_space (pad 16 (mb_name mb @ [47])) 16)"

lemma parsed_name:
  assumes "member_ok mb"
  shows "parsed_name mb = mb_name mb @ 0 # replicate (15 - length (mb_name mb)) 0"
proof -
  have "map (\<lambda>c. if c = 47 then 0 else c) (map (\<lambda>c. if c = 32 then 0 else c) (mb_name mb)) = mb_name mb"
    using assms by (auto simp: member_ok_def comp_def intro: map_idI)
  moreover have "length (pad 16 (mb_name mb @ [47])) = 16"
    using assms by (simp add: member_ok_def length_pad)
  ultimately show ?thesis
    using null_out_prefix [of "pad 16 (mb_name mb @ [47])" 16 "[]"]
    by (simp add: parsed_name_def null_out_slash_def pad_def)
qed

lemma parsed_size:
  assumes "member_ok mb" and "length rest = 6"
  shows "atoi (arr (null_out_space (pad 10 (digit_chars (digits (length (mb_data mb)))) @ rest) 10)) =
    Ok (int (length (mb_data mb)))"
proof -
  let ?n = "length (mb_data mb)" and ?ds = "digit_chars (digits (length (mb_data mb)))"
  have d: "\<forall>d \<in> set (digits ?n). d < 10" using digits_lt10 by blast
  have n: "?n \<le> 4096" "length (digits ?n) \<le> 4"
    using assms(1) digits_4096 by (auto simp: member_ok_def)
  have "(if c = 32 then 0 else c) = c" if c: "c \<in> set ?ds" for c
  proof -
    obtain k where "c = of_nat (48 + k)" "k \<in> set (digits ?n)"
      using c by (auto simp: digit_chars_def simp del: of_nat_add)
    then have k: "c = of_nat (48 + k)" "k < 10" using d by auto
    have "(of_nat (48 + k) :: u8) \<noteq> 32"
    proof
      assume "(of_nat (48 + k) :: u8) = 32"
      then have "sint (32 :: u8) = int (48 + k)" using sint_digit [OF k(2)] by (simp only:)
      then show False by simp
    qed
    then show ?thesis using k(1) by simp
  qed
  then have "map (\<lambda>c. if c = 32 then 0 else c) ?ds = ?ds" by (intro map_idI)
  moreover have "length (pad 10 ?ds) = 10" using n by (simp add: length_pad)
  moreover have "replicate (10 - length ?ds) (0 :: u8) = 0 # replicate (9 - length ?ds) 0"
    using n by (simp add: replicate_Suc [symmetric] Suc_diff_le del: replicate_Suc)
  ultimately have "null_out_space (pad 10 ?ds @ rest) 10 = ?ds @ 0 # (replicate (9 - length ?ds) 0 @ rest)"
    using null_out_prefix [of "pad 10 ?ds" 10 rest] by (simp add: pad_def)
  moreover have "cstring (arr (?ds @ 0 # (replicate (9 - length ?ds) 0 @ rest))) ?ds"
    using digit_chars_nonzero [OF d] n(2) by (intro cstring_arr) (auto simp: NUL_SCAN_def)
  ultimately show ?thesis
    using atoi_digits [of _ "digits ?n"] d n by (simp add: dec_value_digits)
qed

section \<open>Loading an archive\<close>

definition holds :: "mem \<Rightarrow> kfile \<Rightarrow> member \<Rightarrow> bool" where
  "holds m f mb \<longleftrightarrow> name_ok f \<and> fname f = mb_name mb \<and> f_size f = of_nat (length (mb_data mb)) \<and>
     f_pos f = 0 \<and> f_type f = FT_REGULAR \<and> f_in_use f \<and> page_aligned (f_data f) \<and>
     mem_bytes m (f_data f) (length (mb_data mb)) = mb_data mb"

lemma holds_frame:
  assumes "holds m f mb" and "changes_only P m m'" and "pgno (f_data f) \<notin> P" and "member_ok mb"
  shows "holds m' f mb"
proof -
  have "m' (f_data f + of_nat i) = m (f_data f + of_nat i)" if "i < length (mb_data mb)" for i
    by (rule changes_onlyD [OF assms(2)])
      (use assms that in \<open>auto simp: holds_def member_ok_def pgno_page_offset\<close>)
  then show ?thesis
    using assms(1) mem_bytes_cong [of "length (mb_data mb)" m' "f_data f" m] by (simp add: holds_def)
qed

lemma load_member_spec:
  assumes m: "mem_bytes (mem s) arp (length (ar_member mb)) = ar_member mb" and ok: "member_ok mb"
    and top: "unat arp + length (ar_member mb) \<le> 4294967296" and h: "kheap s (p # ps)"
    and apart: "\<And>i. i < length (ar_member mb) \<Longrightarrow> pgno (arp + of_nat i) \<noteq> pgno p"
    and slot: "cnt < length (filesystem s)" "filesystem s ! cnt = zero_file"
  shows "\<exists>s' f. load_member s arp cnt = Ok (int (length (mb_data mb)), s') \<and> kheap s' ps \<and>
    filesystem s' = (filesystem s)[cnt := f] \<and> holds (mem s') f mb \<and> f_data f = p \<and>
    changes_only {pgno p} (mem s) (mem s') \<and> cr3 s' = cr3 s \<and> fs_state.more s' = fs_state.more s \<and>
    console_file s' = console_file s \<and> port_in s' = port_in s"
proof -
  let ?n = "length (mb_data mb)"
  have n: "?n \<le> 4096" "length (digits ?n) \<le> 4" "length (mb_info mb) = 32" "length (mb_name mb) \<le> 15"
    using ok digits_4096 [of ?n] by (auto simp: member_ok_def)
  note len = length_ar_member [OF ok] length_ar_header [OF ok]
  \<comment> \<open>the three fields\<close>
  have name: "mem_bytes (mem s) arp 16 = pad 16 (mb_name mb @ [47])"
    using mem_bytes_slice [OF m, of 0 16] n by (simp add: len ar_member_def ar_header_def length_pad)
  have size: "mem_bytes (mem s) (arp + of_nat 48) 10 = pad 10 (digit_chars (digits ?n))"
    using mem_bytes_slice [OF m, of 48 10] n by (simp add: len ar_member_def ar_header_def length_pad)
  have data: "mem_bytes (mem s) (arp + of_nat 60) ?n = mb_data mb"
    using mem_bytes_slice [OF m, of 60 ?n] by (simp add: len ar_member_def)
  \<comment> \<open>name and size\<close>
  have pn: "cstring (arr (parsed_name mb)) (mb_name mb)"
    unfolding parsed_name [OF ok] using ok n by (intro cstring_arr) (auto simp: member_ok_def NUL_SCAN_def)
  obtain nm where nm: "strcpy (f_name zero_file) (arr (parsed_name mb)) = Ok nm" "length nm = 16"
      "0 \<in> set nm" "takeWhile (\<lambda>c. c \<noteq> 0) nm = mb_name mb"
    using strcpy_name [OF pn n(4), of "f_name zero_file"] by (auto simp: zero_file_def MAX_NAME_def)
  have pl: "length (parsed_name mb) = 16" unfolding parsed_name [OF ok] using n by simp
  then have at: "atoi (arr (null_out_space (mem_bytes (mem s) (arp + of_nat 48) 10 @ drop 10 (parsed_name mb)) 10))
      = Ok (int ?n)"
    unfolding size by (intro parsed_size [OF ok]) simp
  \<comment> \<open>the page\<close>
  let ?s1 = "upd_file (upd_file s cnt (\<lambda>f. f\<lparr>f_name := nm\<rparr>)) cnt (\<lambda>f. f\<lparr>f_size := word_of_int (int ?n)\<rparr>)"
  obtain s2 where s2: "kmalloc ?s1 = Ok (p, s2)" "kheap s2 ps"
    using kmalloc_heap [of ?s1 p ps] h by auto
  note K = kmalloc_fields [OF s2(1)] kmalloc_fs [OF s2(1)]
  have al: "page_aligned p" using kheap_page [OF h, of p] by simp
  let ?m1 = "memset (mem s) p 0 PGSIZE"
  let ?m2 = "memcpy ?m1 p (arp + of_nat 60) (word_of_int (int ?n))"
  have un: "unat (word_of_int (int ?n) :: u32) = ?n" using n(1) by (simp add: unat_of_nat)
  have c1: "changes_only {pgno p} (mem s) ?m1" by (rule memset_page_changes [OF al])
  have src: "unat (arp + of_nat 60) = unat arp + 60" if "0 < ?n"
    by (rule unat_add_lt) (use top len that in linarith)
  have ap: "pgno (arp + of_nat 60 + of_nat i) \<noteq> pgno p" if "i < ?n" for i
    using apart [of "60 + i"] that by (simp add: len add.assoc)
  have copied: "mem_bytes ?m2 p ?n = mb_data mb" and c2: "changes_only {pgno p} ?m1 ?m2"
  proof -
    have "mem_bytes ?m2 p ?n = mem_bytes ?m1 (arp + of_nat 60) ?n \<and> changes_only {pgno p} ?m1 ?m2"
    proof (cases "?n = 0")
      case True
      then show ?thesis by (simp add: memcpy_def mem_bytes_def)
    next
      case False
      then have "unat (arp + of_nat 60) + unat (word_of_int (int ?n) :: u32) \<le> 4294967296"
        using src top unfolding un len by simp
      moreover have "unat (word_of_int (int ?n) :: u32) \<le> 4096" using un n(1) by simp
      ultimately show ?thesis
        using memcpy_into_page [OF al, of "word_of_int (int ?n)" "arp + of_nat 60" ?m1] ap unfolding un by blast
    qed
    moreover have "mem_bytes ?m1 (arp + of_nat 60) ?n = mem_bytes (mem s) (arp + of_nat 60) ?n"
      using ap by (intro mem_bytes_cong changes_onlyD [OF c1]) auto
    ultimately show "mem_bytes ?m2 p ?n = mb_data mb" "changes_only {pgno p} ?m1 ?m2"
      using data by auto
  qed
  have ch: "changes_only {pgno p} (mem s) ?m2" by (rule changes_only_trans [OF c1 c2]) simp
  have "p \<notin> set ps" "\<And>q. q \<in> set ps \<Longrightarrow> page_aligned q"
    using kheap_distinct [OF h] kheap_page [OF h] by auto
  then have off: "{pgno p} \<inter> pgno ` set ps = {}" using al by (auto simp: pgno_inject)
  have kh: "kheap (s2\<lparr>mem := ?m2\<rparr>) ps"
    by (rule kheap_frame [OF s2(2) _ off]) (use ch K(1) in simp)
  let ?f = "zero_file\<lparr>f_name := nm, f_size := word_of_int (int ?n), f_data := p, f_id := file_id s,
    f_type := FT_REGULAR, f_in_use := True\<rparr>"
  have "holds ?m2 ?f mb"
    using nm al copied by (simp add: holds_def name_ok_def fname_def zero_file_def)
  moreover have "kheap t ps" if "mem t = ?m2" "free_pages t = free_pages s2" for t :: "'a fs_state_scheme"
    using kh that by (simp add: kheap_def)
  ultimately show ?thesis
    using slot nm(1) at s2(1) K ch n(1)
    by (simp add: load_member_def Let_def name parsed_name_def [symmetric] ar_size_offset_def
        sizeof_ar_hdr_def) (auto simp: upd_file_def)
qed

lemma even_step:
  "(if int n mod 2 = 1 then arp + of_nat 60 + word_of_int (int n) + 1 else arp + of_nat 60 + word_of_int (int n)) =
   (arp + of_nat (60 + n + n mod 2) :: u32)"
proof -
  have "int n mod 2 = 1 \<longleftrightarrow> n mod 2 = 1" by presburger
  then show ?thesis by (auto simp: mod2_eq_if)
qed

text \<open>
  What holds of the file table while the archive is read: the first slots hold the members read so
  far, in pages that are no longer free, and the rest are empty.
\<close>

definition loaded :: "'z fs_state_scheme \<Rightarrow> u32 list \<Rightarrow> member list \<Rightarrow> bool" where
  "loaded s ps mbs \<longleftrightarrow> kheap s ps \<and> length (filesystem s) = MAX_FILES \<and> length mbs \<le> MAX_FILES \<and>
     (\<forall>mb \<in> set mbs. member_ok mb) \<and>
     (\<forall>i < length mbs. holds (mem s) (filesystem s ! i) (mbs ! i) \<and>
       pgno (f_data (filesystem s ! i)) \<notin> pgno ` set ps) \<and>
     (\<forall>i < MAX_FILES. length mbs \<le> i \<longrightarrow> filesystem s ! i = zero_file)"

lemma loaded_step:
  assumes l: "loaded s (p # ps) mbs" and ok: "member_ok mb" and room: "length mbs < MAX_FILES"
    and f: "filesystem s' = (filesystem s)[length mbs := f]" "holds (mem s') f mb" "f_data f = p"
    and h: "kheap s' ps" and ch: "changes_only {pgno p} (mem s) (mem s')"
  shows "loaded s' ps (mbs @ [mb])"
proof -
  have pg: "page_aligned p" "p \<notin> set ps" "\<And>q. q \<in> set ps \<Longrightarrow> page_aligned q"
    using l kheap_distinct [of s "p # ps"] kheap_page [of s "p # ps"] by (auto simp: loaded_def)
  then have np: "pgno p \<notin> pgno ` set ps" by (auto simp: pgno_inject)
  have "holds (mem s') (filesystem s' ! i) ((mbs @ [mb]) ! i) \<and> pgno (f_data (filesystem s' ! i)) \<notin> pgno ` set ps"
    if i: "i < Suc (length mbs)" for i
  proof (cases "i = length mbs")
    case True
    then show ?thesis using f np l room by (simp add: loaded_def)
  next
    case False
    then have lt: "i < length mbs" using i by simp
    then have b: "holds (mem s) (filesystem s ! i) (mbs ! i)" "pgno (f_data (filesystem s ! i)) \<notin> pgno ` set (p # ps)"
        "member_ok (mbs ! i)"
      using l by (auto simp: loaded_def)
    then show ?thesis
      using holds_frame [OF b(1) ch] lt f(1) by (simp add: nth_append)
  qed
  then show ?thesis
    using l ok room f(1) h by (auto simp: loaded_def nth_list_update)
qed

lemma init_fs_from_spec:
  assumes "loaded s ps dn" and "mem_bytes (mem s) arp (length (concat (map ar_member mbs))) = concat (map ar_member mbs)"
    and "unat arp + length (concat (map ar_member mbs)) < 4294967296"
    and "\<And>mb. mb \<in> set mbs \<Longrightarrow> member_ok mb" and "length mbs \<le> length ps" and "length dn + length mbs < MAX_FILES"
    and "\<And>i. i < length (concat (map ar_member mbs)) \<Longrightarrow> pgno (arp + of_nat i) \<notin> pgno ` set ps"
    and "length mbs < fuel"
  shows "\<exists>s'. init_fs_from fuel s arp (arp + of_nat (length (concat (map ar_member mbs)))) (length dn) = Ok s' \<and>
    loaded s' (drop (length mbs) ps) (dn @ mbs) \<and> cr3 s' = cr3 s \<and> fs_state.more s' = fs_state.more s \<and>
    console_file s' = console_file s \<and> port_in s' = port_in s \<and>
    (\<forall>i < length dn. filesystem s' ! i = filesystem s ! i) \<and>
    (\<forall>i < length mbs. f_data (filesystem s' ! (length dn + i)) \<in> set ps)"
  using assms
proof (induction mbs arbitrary: s ps dn arp fuel)
  case Nil
  then show ?case by (cases fuel) auto
next
  case (Cons mb mbs)
  let ?L = "concat (map ar_member mbs)" and ?a = "length (ar_member mb)"
  obtain fu where fu: "fuel = Suc fu" using Cons.prems(8) by (cases fuel) auto
  obtain p qs where ps: "ps = p # qs" using Cons.prems(5) by (cases ps) auto
  have ok: "member_ok mb" using Cons.prems(4) by simp
  note len = length_ar_member [OF ok]
  have lsp: "kheap s (p # qs)" "length (filesystem s) = MAX_FILES"
    using Cons.prems(1) by (simp_all add: loaded_def ps)
  have slot: "length dn < length (filesystem s)" "filesystem s ! length dn = zero_file"
    using Cons.prems(1,6) by (auto simp: loaded_def)
  have m: "mem_bytes (mem s) arp ?a = ar_member mb"
    using mem_bytes_slice [OF Cons.prems(2), of 0 ?a] by simp
  have tail: "mem_bytes (mem s) (arp + of_nat ?a) (length ?L) = ?L"
    using mem_bytes_slice [OF Cons.prems(2), of ?a "length ?L"] by simp
  have top: "unat arp + ?a \<le> 4294967296" using Cons.prems(3) by simp
  have apart: "pgno (arp + of_nat i) \<noteq> pgno p" if "i < ?a" for i
    using Cons.prems(7) [of i] that by (simp add: ps)
  obtain s1 f where s1: "load_member s arp (length dn) = Ok (int (length (mb_data mb)), s1)" "kheap s1 qs"
      "filesystem s1 = (filesystem s)[length dn := f]" "holds (mem s1) f mb" "f_data f = p"
      "changes_only {pgno p} (mem s) (mem s1)" "cr3 s1 = cr3 s" "fs_state.more s1 = fs_state.more s"
      "console_file s1 = console_file s" "port_in s1 = port_in s"
    using load_member_spec [OF m ok top lsp(1) apart slot] by blast
  have l1: "loaded s1 qs (dn @ [mb])"
    using loaded_step [OF Cons.prems(1) [unfolded ps] ok _ s1(3,4,5,2,6)] slot(1) lsp(2) by simp
  have un: "unat (arp + of_nat ?a) = unat arp + ?a"
    by (rule unat_add_lt) (use Cons.prems(3) in simp)
  have "mem_bytes (mem s1) (arp + of_nat ?a) (length ?L) = mem_bytes (mem s) (arp + of_nat ?a) (length ?L)"
  proof (rule mem_bytes_cong, rule changes_onlyD [OF s1(6)])
    fix i assume "i < length ?L"
    then show "pgno (arp + of_nat ?a + of_nat i) \<notin> {pgno p}"
      using Cons.prems(7) [of "?a + i"] by (simp add: ps add.assoc)
  qed
  then have t1: "mem_bytes (mem s1) (arp + of_nat ?a) (length ?L) = ?L" using tail by simp
  have "\<exists>s'. init_fs_from fu s1 (arp + of_nat ?a) ((arp + of_nat ?a) + of_nat (length ?L)) (length (dn @ [mb])) = Ok s' \<and>
      loaded s' (drop (length mbs) qs) ((dn @ [mb]) @ mbs) \<and> cr3 s' = cr3 s1 \<and> fs_state.more s' = fs_state.more s1 \<and>
      console_file s' = console_file s1 \<and> port_in s' = port_in s1 \<and>
      (\<forall>i < length (dn @ [mb]). filesystem s' ! i = filesystem s1 ! i) \<and>
      (\<forall>i < length mbs. f_data (filesystem s' ! (length (dn @ [mb]) + i)) \<in> set qs)"
  proof (rule Cons.IH [OF l1 t1])
    show "unat (arp + of_nat ?a) + length ?L < 4294967296" using un Cons.prems(3) by simp
    show "pgno (arp + of_nat ?a + of_nat i) \<notin> pgno ` set qs" if "i < length ?L" for i
      using Cons.prems(7) [of "?a + i"] that by (simp add: ps add.assoc)
  qed (use Cons.prems ps fu in auto)
  then obtain s' where s': "init_fs_from fu s1 (arp + of_nat ?a)
        ((arp + of_nat ?a) + of_nat (length ?L)) (Suc (length dn)) = Ok s'"
      "loaded s' (drop (length mbs) qs) (dn @ mb # mbs)" "cr3 s' = cr3 s" "fs_state.more s' = fs_state.more s"
      "console_file s' = console_file s" "port_in s' = port_in s"
      "\<forall>i < Suc (length dn). filesystem s' ! i = filesystem s1 ! i"
      "\<forall>i < length mbs. f_data (filesystem s' ! (Suc (length dn) + i)) \<in> set qs"
    using s1(7-10) by auto
  have old: "\<forall>i < length dn. filesystem s' ! i = filesystem s ! i" using s'(7) s1(3) by simp
  have "f_data (filesystem s' ! length dn) = p" using s'(7) s1(3,5) slot(1) by simp
  then have pages: "f_data (filesystem s' ! (length dn + i)) \<in> set ps" if "i < length (mb # mbs)" for i
    using s'(8) that ps by (cases i) auto
  have step: "(if int (length (mb_data mb)) mod 2 = 1
      then arp + of_nat sizeof_ar_hdr + word_of_int (int (length (mb_data mb))) + 1
      else arp + of_nat sizeof_ar_hdr + word_of_int (int (length (mb_data mb)))) = arp + of_nat ?a"
    unfolding len sizeof_ar_hdr_def by (rule even_step)
  have tot: "unat (arp + of_nat (?a + length ?L)) = unat arp + (?a + length ?L)"
    by (rule unat_add_lt) (use Cons.prems(3) in simp)
  have "0 < ?a" using len by simp
  then have lt: "arp < arp + of_nat (?a + length ?L)"
    unfolding word_less_nat_alt tot by simp
  have e: "arp + of_nat (?a + length ?L) = (arp + of_nat ?a) + of_nat (length ?L)"
    by simp
  have "init_fs_from fuel s arp (arp + of_nat (length (concat (map ar_member (mb # mbs))))) (length dn) = Ok s'"
    using lt s1(1) s'(1) Cons.prems(6) step unfolding fu e [symmetric]
    by (simp add: Let_def MAX_FILES_def del: of_nat_add)
  then show ?case using s'(2-6) ps old pages by auto
qed

lemma loaded_fs_ok: "loaded s ps mbs \<Longrightarrow> fs_ok s"
proof -
  assume l: "loaded s ps mbs"
  then have "name_ok (filesystem s ! i)" if "i < MAX_FILES" for i
    using that by (cases "i < length mbs") (auto simp: loaded_def holds_def)
  then show "fs_ok s" using l by (auto simp: fs_ok_def loaded_def in_set_conv_nth)
qed

lemma init_fs_loaded:
  assumes "kheap s ps" and "length mbs \<le> length ps" and "length mbs < MAX_FILES"
    and "\<And>mb. mb \<in> set mbs \<Longrightarrow> member_ok mb" and "length magic = 8"
    and "mem_bytes (mem s) fsar_start (length (ar_archive magic mbs)) = ar_archive magic mbs"
    and "unat fsar_start + length (ar_archive magic mbs) < 4294967296"
    and "\<And>i. i < length (ar_archive magic mbs) \<Longrightarrow> pgno (fsar_start + of_nat i) \<notin> pgno ` set ps"
  shows "\<exists>s'. init_fs s fsar_start (fsar_start + of_nat (length (ar_archive magic mbs))) = Ok s' \<and>
    loaded s' (drop (length mbs) ps) mbs \<and> cr3 s' = cr3 s \<and> fs_state.more s' = fs_state.more s \<and>
    console_file s' = console_file s \<and> port_in s' = port_in s \<and> (\<forall>i < length mbs. f_data (filesystem s' ! i) \<in> set ps)"
proof -
  let ?s = "s\<lparr>filesystem := replicate MAX_FILES zero_file\<rparr>" and ?L = "concat (map ar_member mbs)"
  have len: "length (ar_archive magic mbs) = 8 + length ?L" by (simp add: ar_archive_def assms(5))
  have l0: "loaded ?s ps []"
    using assms(1) by (simp add: loaded_def kheap_def)
  have u8: "unat (fsar_start + of_nat 8) = unat fsar_start + 8"
    by (rule unat_add_lt) (use assms(7) len in linarith)
  have m: "mem_bytes (mem ?s) (fsar_start + of_nat 8) (length ?L) = ?L"
    using mem_bytes_slice [OF assms(6), of 8 "length ?L"] len assms(5) by (simp add: ar_archive_def)
  have "\<exists>s'. init_fs_from (MAX_FILES + 1) ?s (fsar_start + of_nat 8)
      ((fsar_start + of_nat 8) + of_nat (length ?L)) (length ([] :: member list)) = Ok s' \<and>
      loaded s' (drop (length mbs) ps) ([] @ mbs) \<and> cr3 s' = cr3 ?s \<and> fs_state.more s' = fs_state.more ?s \<and>
      console_file s' = console_file ?s \<and> port_in s' = port_in ?s \<and>
      (\<forall>i < length ([] :: member list). filesystem s' ! i = filesystem ?s ! i) \<and>
      (\<forall>i < length mbs. f_data (filesystem s' ! (length ([] :: member list) + i)) \<in> set ps)"
  proof (rule init_fs_from_spec [OF l0 m])
    show "unat (fsar_start + of_nat 8) + length ?L < 4294967296" using u8 assms(7) len by simp
    show "pgno (fsar_start + of_nat 8 + of_nat i) \<notin> pgno ` set ps" if "i < length ?L" for i
      using assms(8) [of "8 + i"] that len by (simp add: add.assoc)
  qed (use assms in auto)
  then obtain s' where a: "init_fs_from (MAX_FILES + 1) ?s (fsar_start + of_nat 8)
      ((fsar_start + of_nat 8) + of_nat (length ?L)) (length ([] :: member list)) = Ok s'"
      "loaded s' (drop (length mbs) ps) mbs" "cr3 s' = cr3 s" "fs_state.more s' = fs_state.more s"
      "console_file s' = console_file s" "port_in s' = port_in s" "\<forall>i < length mbs. f_data (filesystem s' ! i) \<in> set ps"
    by auto
  have e: "(fsar_start + of_nat 8) + of_nat (length ?L) = fsar_start + of_nat (length (ar_archive magic mbs))"
    unfolding len by simp
  have "init_fs s fsar_start (fsar_start + of_nat (length (ar_archive magic mbs))) = Ok s'"
    using a(1) unfolding e by (simp only: init_fs_def of_nat_numeral list.size)
  then show ?thesis using a(2-7) by blast
qed

text \<open>
  Property C11: \<^verbatim>\<open>init_fs\<close> reads back any archive of at most 31 well-formed members of at most 4096
  bytes that \<^verbatim>\<open>ar\<close> writes. The files have the members' names, sizes and contents in order, the other
  slots are empty, and one page per file is taken from the free list.
\<close>

theorem init_fs_reads_archive:
  assumes "kheap s ps" and "length mbs \<le> length ps" and "length mbs < MAX_FILES"
    and "\<And>mb. mb \<in> set mbs \<Longrightarrow> member_ok mb" and "length magic = 8"
    and "mem_bytes (mem s) fsar_start (length (ar_archive magic mbs)) = ar_archive magic mbs"
    and "unat fsar_start + length (ar_archive magic mbs) < 4294967296"
    and "\<And>i. i < length (ar_archive magic mbs) \<Longrightarrow> pgno (fsar_start + of_nat i) \<notin> pgno ` set ps"
  shows "\<exists>s'. init_fs s fsar_start (fsar_start + of_nat (length (ar_archive magic mbs))) = Ok s' \<and>
    fs_ok s' \<and> kheap s' (drop (length mbs) ps) \<and>
    (\<forall>i < length mbs. holds (mem s') (filesystem s' ! i) (mbs ! i)) \<and>
    (\<forall>i < MAX_FILES. length mbs \<le> i \<longrightarrow> filesystem s' ! i = zero_file)"
proof -
  obtain s' where s': "init_fs s fsar_start (fsar_start + of_nat (length (ar_archive magic mbs))) = Ok s'"
      "loaded s' (drop (length mbs) ps) mbs"
    using init_fs_loaded [OF assms] by blast
  then show ?thesis using loaded_fs_ok [OF s'(2)] by (auto simp: loaded_def)
qed

text \<open>A boot image with one file in its archive, and two free pages.\<close>

definition sample_member :: member where
  "sample_member = \<lparr>mb_name = kstr ''hi.txt'', mb_info = replicate 32 48, mb_data = kstr ''abc''\<rparr>"

lemma sample_member_ok: "member_ok sample_member"
  by (simp add: member_ok_def sample_member_def kstr_def of_char_def)

definition sample_magic :: "u8 list" where
  "sample_magic = kstr ''!<arch>'' @ [10]"

definition sample_fs :: fs_state where
  "sample_fs = \<lparr>mem = put_bytes (mem sample_heap) 0xc0010000 (ar_archive sample_magic [sample_member]), cr3 = 0,
     free_pages = 0xc0001000, num_allocated = 0, port_in = \<lambda>_ _. 0x20, mmio_in = \<lambda>_ _. 0, io_time = 0,
     port_out = [], mmio_out = [], buf_len = 0, edit_len = 0, edit_i = 0, write_i = 0, read_i = 0,
     circular_buf = replicate 4096 0, filesystem = [], console_file = zero_file, file_id = 0\<rparr>"

lemma length_sample_archive: "length (ar_archive sample_magic [sample_member]) = 72"
  using length_ar_member [OF sample_member_ok]
  by (simp add: ar_archive_def sample_magic_def sample_member_def kstr_def)

lemma mem_bytes_put:
  "unat a + length bs \<le> 4294967296 \<Longrightarrow> mem_bytes (put_bytes m a bs) a (length bs) = bs"
  by (rule nth_equalityI) (auto simp: mem_bytes_nth put_bytes_inside)

lemma sample_fs_ready:
  "kheap sample_fs [0xc0001000, 0xc0002000]"
  "mem_bytes (mem sample_fs) 0xc0010000 72 = ar_archive sample_magic [sample_member]"
  "i < 72 \<Longrightarrow> pgno (0xc0010000 + of_nat i) \<notin> pgno ` set [0xc0001000, 0xc0002000]"
proof -
  have al: "page_aligned (0xc0010000 :: u32)" by (simp add: page_aligned_def)
  have pg: "pgno (0xc0010000 + of_nat i) = 0xc0010" if "i < 4096" for i
    using pgno_page_offset [OF al that] by (simp add: pgno_def)
  show "i < 72 \<Longrightarrow> pgno (0xc0010000 + of_nat i) \<notin> pgno ` set [0xc0001000, 0xc0002000]"
    using pg by (simp add: pgno_def [of "0xc0001000"] pgno_def [of "0xc0002000"])
  have "changes_only {pgno 0xc0010000} (mem sample_heap) (mem sample_fs)"
    using put_bytes_page [OF al, of 0 "ar_archive sample_magic [sample_member]" "mem sample_heap"]
      length_sample_archive by (simp add: sample_fs_def page_off_def)
  then have "kheap (sample_heap\<lparr>mem := mem sample_fs\<rparr>) [0xc0001000, 0xc0002000]"
    by (rule kheap_frame [OF kheap_sample]) (simp add: pgno_def)
  then show "kheap sample_fs [0xc0001000, 0xc0002000]"
    by (simp add: kheap_def sample_fs_def sample_heap_def)
  show "mem_bytes (mem sample_fs) 0xc0010000 72 = ar_archive sample_magic [sample_member]"
    using mem_bytes_put [of "0xc0010000" "ar_archive sample_magic [sample_member]"] length_sample_archive
    by (simp add: sample_fs_def)
qed

theorem init_fs_reads_archive_witness:
  "\<exists>s'. init_fs sample_fs 0xc0010000 (0xc0010000 + of_nat 72) = Ok s' \<and>
    fname (filesystem s' ! 0) = kstr ''hi.txt'' \<and>
    mem_bytes (mem s') (f_data (filesystem s' ! 0)) 3 = kstr ''abc''"
proof -
  have pre: "length [sample_member] \<le> length [0xc0001000 :: u32, 0xc0002000]" "length [sample_member] < MAX_FILES"
      "length sample_magic = 8" "unat (0xc0010000 :: u32) + length (ar_archive sample_magic [sample_member]) < 4294967296"
    using length_sample_archive by (simp_all add: MAX_FILES_def sample_magic_def kstr_def)
  have ok: "member_ok mb" if "mb \<in> set [sample_member]" for mb
    using that sample_member_ok by simp
  note S = sample_fs_ready [folded length_sample_archive]
  obtain s' where s': "init_fs sample_fs 0xc0010000 (0xc0010000 + of_nat 72) = Ok s'"
      "holds (mem s') (filesystem s' ! 0) sample_member"
    using init_fs_reads_archive [OF S(1) pre(1,2) ok pre(3) S(2) pre(4) S(3)]
    unfolding length_sample_archive by auto
  then show ?thesis
    by (intro exI [of _ s']) (simp add: holds_def sample_member_def kstr_def numeral_3_eq_3)
qed

text \<open>
  Property C29: \<^verbatim>\<open>get_file\<close> finds the first file with exactly the name asked for, and NULL when there
  is none or the name is empty; it always returns and never reads past a name.
\<close>

theorem get_file_first_match:
  assumes "fs_ok s" and "cstring path p"
  shows "\<exists>r. get_file s path = Ok r \<and>
    (case r of None \<Rightarrow> p = [] \<or> (\<forall>i < MAX_FILES. fname (filesystem s ! i) \<noteq> p)
     | Some fp \<Rightarrow> \<exists>i < MAX_FILES. fp = Fs i \<and> p \<noteq> [] \<and> fname (filesystem s ! i) = p \<and>
         (\<forall>j < i. fname (filesystem s ! j) \<noteq> p))"
proof (cases "p = [] \<or> (\<forall>i < MAX_FILES. fname (filesystem s ! i) \<noteq> p)")
  case True
  then have "get_file s path = Ok None"
    using get_file_find [OF assms(2,1)] by (auto simp: find_None_iff)
  then show ?thesis using True by auto
next
  case False
  then have ex: "\<exists>i. i < MAX_FILES \<and> fname (filesystem s ! i) = p" by blast
  define i where "i = (LEAST i. i < MAX_FILES \<and> fname (filesystem s ! i) = p)"
  have i: "i < MAX_FILES" "fname (filesystem s ! i) = p"
    using LeastI_ex [OF ex] by (simp_all add: i_def)
  have less: "fname (filesystem s ! j) \<noteq> p" if "j < i" for j
    using not_less_Least [OF that [unfolded i_def]] that i(1) by auto
  have "List.find (\<lambda>i. fname (filesystem s ! i) = p) [0..<MAX_FILES] = Some i"
    by (rule find_first) (use i less in auto)
  then show ?thesis
    using get_file_find [OF assms(2,1)] False i less by auto
qed

lemma sample_fs_loaded:
  "\<exists>s :: fs_state. fs_ok s \<and> kheap s [0xc0002000] \<and> holds (mem s) (filesystem s ! 0) sample_member \<and>
    (\<forall>i < MAX_FILES. 1 \<le> i \<longrightarrow> filesystem s ! i = zero_file)"
proof -
  have pre: "length [sample_member] \<le> length [0xc0001000 :: u32, 0xc0002000]" "length [sample_member] < MAX_FILES"
      "length sample_magic = 8" "unat (0xc0010000 :: u32) + length (ar_archive sample_magic [sample_member]) < 4294967296"
    using length_sample_archive by (simp_all add: MAX_FILES_def sample_magic_def kstr_def)
  have ok: "member_ok mb" if "mb \<in> set [sample_member]" for mb
    using that sample_member_ok by simp
  note S = sample_fs_ready [folded length_sample_archive]
  have l0: "loaded (sample_fs\<lparr>filesystem := replicate MAX_FILES zero_file\<rparr>) [0xc0001000, 0xc0002000] []"
    using sample_fs_ready(1) by (simp add: loaded_def kheap_def)
  have u8: "unat ((0xc0010000 :: u32) + of_nat 8) = unat (0xc0010000 :: u32) + 8" by simp
  have len: "length (concat (map ar_member [sample_member])) = 64"
    using length_ar_member [OF sample_member_ok] by (simp add: sample_member_def kstr_def)
  have "mem_bytes (mem sample_fs) (0xc0010000 + of_nat 8) 64 = concat (map ar_member [sample_member])"
    using mem_bytes_slice [OF sample_fs_ready(2), of 8 64] len pre(3) by (simp add: ar_archive_def)
  then have m: "mem_bytes (mem (sample_fs\<lparr>filesystem := replicate MAX_FILES zero_file\<rparr>)) (0xc0010000 + of_nat 8)
      (length (concat (map ar_member [sample_member]))) = concat (map ar_member [sample_member])"
    using len by simp
  have ap: "pgno (0xc0010000 + of_nat 8 + of_nat i) \<notin> pgno ` set [0xc0001000, 0xc0002000]"
    if "i < length (concat (map ar_member [sample_member]))" for i
    using sample_fs_ready(3) [of "8 + i"] that len by (simp add: add.assoc)
  obtain s :: fs_state where "loaded s (drop (length [sample_member]) [0xc0001000, 0xc0002000]) ([] @ [sample_member])"
    using init_fs_from_spec [OF l0 m _ ok, of 2] ap pre len by (auto simp: MAX_FILES_def)
  then have l: "loaded s [0xc0002000] [sample_member]" by simp
  then have "name_ok (filesystem s ! i)" if "i < MAX_FILES" for i
    using that by (cases "i = 0") (auto simp: loaded_def holds_def)
  then have "fs_ok s" using l by (auto simp: fs_ok_def loaded_def in_set_conv_nth)
  then show ?thesis using l by (intro exI [of _ s]) (auto simp: loaded_def)
qed

theorem get_file_first_match_witness:
  "\<exists>s :: fs_state. get_file s (arr (kstr ''hi.txt'' @ [0])) = Ok (Some (Fs 0)) \<and>
    get_file s (arr (kstr ''ho'' @ [0])) = Ok None"
proof -
  obtain s :: fs_state where s: "fs_ok s" "holds (mem s) (filesystem s ! 0) sample_member"
      "\<And>i. i < MAX_FILES \<Longrightarrow> 1 \<le> i \<Longrightarrow> filesystem s ! i = zero_file"
    using sample_fs_loaded by blast
  have f0: "fname (filesystem s ! 0) = kstr ''hi.txt''" using s(2) by (simp add: holds_def sample_member_def)
  have c: "cstring (arr (kstr ''hi.txt'' @ 0 # [])) (kstr ''hi.txt'')" "cstring (arr (kstr ''ho'' @ 0 # [])) (kstr ''ho'')"
    by (intro cstring_arr; simp add: kstr_def of_char_def NUL_SCAN_def)+
  have ne: "kstr ''hi.txt'' \<noteq> []" "kstr ''ho'' \<noteq> []" "kstr ''ho'' \<noteq> kstr ''hi.txt''" by (simp_all add: kstr_def)
  have no: "fname (filesystem s ! i) \<noteq> kstr ''ho''" if "i < MAX_FILES" for i
    using s(3) [OF that] f0 ne by (cases "i = 0") auto
  obtain r where r: "get_file s (arr (kstr ''hi.txt'' @ 0 # [])) = Ok r"
      "case r of None \<Rightarrow> kstr ''hi.txt'' = [] \<or> (\<forall>i < MAX_FILES. fname (filesystem s ! i) \<noteq> kstr ''hi.txt'')
       | Some fp \<Rightarrow> \<exists>i < MAX_FILES. fp = Fs i \<and> kstr ''hi.txt'' \<noteq> [] \<and> fname (filesystem s ! i) = kstr ''hi.txt'' \<and>
           (\<forall>j < i. fname (filesystem s ! j) \<noteq> kstr ''hi.txt'')"
    using get_file_first_match [OF s(1) c(1)] by blast
  then have "r = Some (Fs 0)"
    using f0 ne by (cases r) (auto simp: MAX_FILES_def)
  moreover obtain r' where r': "get_file s (arr (kstr ''ho'' @ 0 # [])) = Ok r'"
      "case r' of None \<Rightarrow> kstr ''ho'' = [] \<or> (\<forall>i < MAX_FILES. fname (filesystem s ! i) \<noteq> kstr ''ho'')
       | Some fp \<Rightarrow> \<exists>i < MAX_FILES. fp = Fs i \<and> kstr ''ho'' \<noteq> [] \<and> fname (filesystem s ! i) = kstr ''ho'' \<and>
           (\<forall>j < i. fname (filesystem s ! j) \<noteq> kstr ''ho'')"
    using get_file_first_match [OF s(1) c(2)] by blast
  then have "r' = None" using no by (cases r') auto
  ultimately show ?thesis using r(1) r'(1) by auto
qed

end
