(* ===== verification/FileIO.thy ===== *)
theory FileIO
  imports FileSys
begin

text \<open>
  What the operations of \<^verbatim>\<open>fs.c\<close> do with the files once they are loaded: a created file is found
  again, the root directory is listed as text, a read delivers bytes to a user buffer, a write goes to
  the file's page. The properties also pin down two behaviours a caller has to know: a read starts at
  the beginning of the data whatever the position is, and a write does not grow the file.
\<close>

section \<open>Copying to a user buffer\<close>

text \<open>Where the byte at a user address is, seen from the kernel.\<close>

definition user_byte :: "'z mstate_scheme \<Rightarrow> u32 \<Rightarrow> u32" where
  "user_byte s a = PHYS_TO_VIRT (xl_paddr (the (translate (mem s) (curr_pgdir s) a)))"

lemma vwrite_user_byte:
  assumes "user_buffer s a n" and "i < n"
  shows "vwrite s (a + of_nat i) b = Ok (s\<lparr>mem := (mem s)(user_byte s (a + of_nat i) := b)\<rparr>)"
    and "vread s (a + of_nat i) = Ok (mem s (user_byte s (a + of_nat i)))"
proof -
  obtain x where "translate (mem s) (curr_pgdir s) (a + of_nat i) = Some x" "xl_write x"
      "a + of_nat i < KERN_BASE"
    using assms by (auto simp: user_buffer_def)
  then show "vwrite s (a + of_nat i) b = Ok (s\<lparr>mem := (mem s)(user_byte s (a + of_nat i) := b)\<rparr>)"
      "vread s (a + of_nat i) = Ok (mem s (user_byte s (a + of_nat i)))"
    by (simp_all add: vwrite_def vread_def user_byte_def linorder_not_le [symmetric])
qed

lemma user_byte_inj:
  "user_buffer s a n \<Longrightarrow> i < n \<Longrightarrow> j < n \<Longrightarrow> i \<noteq> j \<Longrightarrow>
   user_byte s (a + of_nat i) \<noteq> user_byte s (a + of_nat j)"
  unfolding user_buffer_def inj_on_def user_byte_def PHYS_TO_VIRT_def by auto

lemma user_byte_frame:
  assumes ub: "user_buffer s a n" and ch: "changes_only P (mem s) m'"
    and P: "P \<inter> pgno ` tables (mem s) (curr_pgdir s) = {}"
  shows "user_buffer (s\<lparr>mem := m'\<rparr>) a n" and "user_byte (s\<lparr>mem := m'\<rparr>) va = user_byte s va"
    and "tables m' (curr_pgdir s) = tables (mem s) (curr_pgdir s)"
proof -
  have ok: "pgdir_ok (mem s) (curr_pgdir s)" using ub by (simp add: user_buffer_def)
  have tr: "translate m' (curr_pgdir s) va = translate (mem s) (curr_pgdir s) va" for va
    by (rule translate_frame [OF ok ch P])
  have cp: "curr_pgdir (s\<lparr>mem := m'\<rparr>) = curr_pgdir s" by (simp add: curr_pgdir_def)
  show "user_buffer (s\<lparr>mem := m'\<rparr>) a n" "user_byte (s\<lparr>mem := m'\<rparr>) va = user_byte s va"
      "tables m' (curr_pgdir s) = tables (mem s) (curr_pgdir s)"
    using ub pgdir_frame_ok [OF ok ch P] pgdir_frame_tables [OF ok ch P]
    by (simp_all add: user_buffer_def user_byte_def tr cp)
qed

lemma user_byte_table:
  "user_buffer s a n \<Longrightarrow> i < n \<Longrightarrow> pgno (user_byte s (a + of_nat i)) \<notin> pgno ` tables (mem s) (curr_pgdir s)"
  unfolding user_buffer_def user_byte_def by auto

lemma user_byte_page:
  assumes "pgdir_ok (mem s) (curr_pgdir s)" and "page_entry (mem s) (curr_pgdir s) (pgno a) = Some e"
    and "page_off a + i < 4096"
  shows "user_byte s (a + of_nat i) = PHYS_TO_VIRT (frame e) + of_nat (page_off a + i)"
  using same_page_offset [OF assms(3)] assms(2)
  by (simp add: user_byte_def translate_page_entry [OF assms(1)] and_0xfff_page_off PHYS_TO_VIRT_def)

text \<open>A copy from kernel memory that shares no page with the buffer.\<close>

lemma umemcpy_to_user:
  assumes ub: "user_buffer s a (unat n)" and src: "KERN_BASE \<le> src" "unat src + unat n \<le> 4294967296"
    and apart: "\<And>i j. i < unat n \<Longrightarrow> j < unat n \<Longrightarrow> user_byte s (a + of_nat i) \<noteq> src + of_nat j"
  shows "\<exists>m'. umemcpy s a src n = Ok (s\<lparr>mem := m'\<rparr>) \<and>
    (\<forall>k < unat n. m' (user_byte s (a + of_nat k)) = mem s (src + of_nat k)) \<and>
    (\<forall>x. (\<forall>k < unat n. x \<noteq> user_byte s (a + of_nat k)) \<longrightarrow> m' x = mem s x) \<and>
    user_buffer (s\<lparr>mem := m'\<rparr>) a (unat n)"
proof -
  let ?ub = "\<lambda>k. user_byte s (a + of_nat k)"
  let ?body = "\<lambda>i s. bnd (vread s (src + of_nat i)) (\<lambda>b. uwrite s (a + of_nat i) b)"
  let ?I = "\<lambda>j t. \<exists>m. t = s\<lparr>mem := m\<rparr> \<and> changes_only (pgno ` ?ub ` {..<unat n}) (mem s) m \<and>
    (\<forall>k < j. m (?ub k) = mem s (src + of_nat k)) \<and> (\<forall>x. (\<forall>k < unat n. x \<noteq> ?ub k) \<longrightarrow> m x = mem s x)"
  have off: "pgno ` ?ub ` {..<unat n} \<inter> pgno ` tables (mem s) (curr_pgdir s) = {}"
    using user_byte_table [OF ub] by fastforce
  have "\<exists>s'. loop_from 0 (unat n) ?body s = Ok s' \<and> ?I (0 + unat n) s'"
  proof (rule loop_from_invariant)
    show "?I 0 s" by (intro exI [of _ "mem s"]) simp
  next
    fix j t assume j: "j < 0 + unat n" and "?I j t"
    then obtain m where t: "t = s\<lparr>mem := m\<rparr>" and ch: "changes_only (pgno ` ?ub ` {..<unat n}) (mem s) m"
      and done_: "\<And>k. k < j \<Longrightarrow> m (?ub k) = mem s (src + of_nat k)"
      and rest: "\<And>x. (\<forall>k < unat n. x \<noteq> ?ub k) \<Longrightarrow> m x = mem s x"
      by blast
    note F = user_byte_frame [OF ub ch off]
    have "m (src + of_nat j) = mem s (src + of_nat j)"
      using apart [of _ j] j by (intro rest) (metis add_0)
    moreover have "KERN_BASE \<le> src + of_nat j" using src j by (intro KERN_BASE_offset) auto
    ultimately have rd: "vread t (src + of_nat j) = Ok (mem s (src + of_nat j))"
      by (simp add: vread_def t)
    have wr: "uwrite t (a + of_nat j) b = Ok (s\<lparr>mem := m(?ub j := b)\<rparr>)" for b
      using vwrite_user_byte(1) [OF F(1), of j] uwrite_user_buffer [OF F(1), of j] j by (simp add: t F(2))
    have ne: "?ub k \<noteq> ?ub j" if "k < j" for k
      using user_byte_inj [OF ub, of k j] that j by simp
    have "?I (Suc j) (s\<lparr>mem := m(?ub j := mem s (src + of_nat j))\<rparr>)"
    proof (intro exI conjI allI impI)
      show "changes_only (pgno ` ?ub ` {..<unat n}) (mem s) (m(?ub j := mem s (src + of_nat j)))"
        using ch j by (auto simp: changes_only_def)
    next
      fix k assume "k < Suc j"
      then show "(m(?ub j := mem s (src + of_nat j))) (?ub k) = mem s (src + of_nat k)"
        using done_ [of k] ne [of k] by (cases "k = j") auto
    next
      fix x assume "\<forall>k < unat n. x \<noteq> ?ub k"
      then show "(m(?ub j := mem s (src + of_nat j))) x = mem s x"
        using rest [of x] j by auto
    qed simp
    then show "\<exists>t'. ?body j t = Ok t' \<and> ?I (Suc j) t'" using rd wr by simp
  qed
  then obtain m where m: "umemcpy s a src n = Ok (s\<lparr>mem := m\<rparr>)"
      "changes_only (pgno ` ?ub ` {..<unat n}) (mem s) m"
      "\<forall>k < unat n. m (?ub k) = mem s (src + of_nat k)" "\<forall>x. (\<forall>k < unat n. x \<noteq> ?ub k) \<longrightarrow> m x = mem s x"
    by (auto simp: umemcpy_def)
  then show ?thesis using user_byte_frame(1) [OF ub m(2) off] by blast
qed

section \<open>Listing the root directory\<close>

lemma put_bytes_append:
  assumes "unat a + length xs < 4294967296"
  shows "put_bytes (put_bytes m a xs) (a + of_nat (length xs)) ys = put_bytes m a (xs @ ys)"
  using unat_add_lt [OF assms] by (auto simp: put_bytes_def nth_append fun_eq_iff)

lemma put_bytes_last:
  "unat a + length xs < 4294967296 \<Longrightarrow>
   (put_bytes m a (xs @ [b]))(a + of_nat (length xs) := c) = put_bytes m a (xs @ [c])"
  by (simp flip: put_bytes_snoc)

lemma strcpy_mem_put:
  assumes "0 \<notin> set name" and "unat d + length name < 4294967296"
  shows "strcpy_mem m d (name @ 0 # ys) = Ok (put_bytes m d (name @ [0]))"
proof -
  have "strcpy_mem_from (put_bytes m d (take i name)) d (name @ 0 # ys) i = Ok (put_bytes m d (name @ [0]))"
    if "i \<le> length name" for i
    using that
  proof (induction "length name - i" arbitrary: i)
    case 0
    then show ?case
      using put_bytes_snoc [of d name m 0] assms(2)
      by (simp add: strcpy_mem_from.simps [of _ _ _ i] nth_append)
  next
    case (Suc k)
    then have i: "i < length name" by simp
    then have "name ! i \<noteq> 0" using assms(1) by (metis nth_mem)
    moreover have "(put_bytes m d (take i name))(d + of_nat i := name ! i) = put_bytes m d (take (Suc i) name)"
      using put_bytes_snoc [of d "take i name" m "name ! i"] assms(2) i
      by (simp add: take_Suc_conv_app_nth min_def)
    ultimately show ?case
      using Suc.hyps(1) [of "Suc i"] Suc.hyps(2) i
      by (simp add: strcpy_mem_from.simps [of _ _ _ i] nth_append)
  qed
  from this [of 0] show ?thesis by (simp add: strcpy_mem_def)
qed

text \<open>The text of the listing: the nonempty names of the regular files in use, one per line.\<close>

definition listing :: "kfile list \<Rightarrow> u8 list" where
  "listing fs = concat (map (\<lambda>f. if f_in_use f \<and> f_type f = FT_REGULAR \<and> fname f \<noteq> []
     then fname f @ [10] else []) fs)"

lemma length_listing: "(\<And>f. f \<in> set fs \<Longrightarrow> name_ok f) \<Longrightarrow> length (listing fs) \<le> 16 * length fs"
proof (induction fs)
  case (Cons f fs)
  then have "length (listing fs) \<le> 16 * length fs" by simp
  then show ?case using name_ok_cstring(2) [of f] Cons.prems by (simp add: listing_def)
qed (simp add: listing_def)

lemma list_from_spec:
  assumes "\<And>f. f \<in> set fs \<Longrightarrow> name_ok f" and "off + 16 * length fs \<le> 4096"
    and "unat buf + 4096 < 4294967296"
  shows "list_from fs m buf off =
    Ok (int (off + length (listing fs)), put_bytes m (buf + of_nat off) (listing fs))"
  using assms(1,2)
proof (induction fs arbitrary: m off)
  case Nil
  then show ?case by (simp add: listing_def)
next
  case (Cons f fs)
  obtain ys where ys: "f_name f = fname f @ 0 # ys" and c: "cstring (arr (f_name f)) (fname f)"
      and lt: "length (fname f) < 16"
    using name_ok_cstring [of f] Cons.prems(1) by auto
  have nz: "0 \<notin> set (fname f)" using c by (simp add: cstring_def)
  show ?case
  proof (cases "f_in_use f \<and> f_type f = FT_REGULAR \<and> fname f \<noteq> []")
    case False
    then have "list_from (f # fs) m buf off = list_from fs m buf off"
      using strlen_cstring [OF c] by auto
    moreover have "listing (f # fs) = listing fs"
      using False by (simp add: listing_def del: de_Morgan_conj)
    ultimately show ?thesis using Cons by simp
  next
    case True
    let ?n = "length (fname f)"
    let ?a = "buf + of_nat off"
    have ua: "unat ?a = unat buf + off" using Cons.prems(2) assms(3) by (intro unat_add_lt) simp
    have a: "unat ?a + ?n < 4294967296" using ua lt Cons.prems(2) assms(3) by simp
    have cp: "strcpy_mem m ?a (f_name f) = Ok (put_bytes m ?a (fname f @ [0]))"
      unfolding ys by (rule strcpy_mem_put [OF nz a])
    have nl: "(put_bytes m ?a (fname f @ [0]))(?a + of_nat ?n := 10) = put_bytes m ?a (fname f @ [10])"
      by (rule put_bytes_last [OF a])
    have IH: "list_from fs m' buf (off + ?n + 1) = Ok (int (off + ?n + 1 + length (listing fs)),
        put_bytes m' (buf + of_nat (off + ?n + 1)) (listing fs))" for m'
      using Cons.prems lt by (intro Cons.IH) auto
    have "buf + of_nat (off + ?n + 1) = ?a + of_nat (length (fname f @ [10 :: u8]))" by simp
    moreover have "unat ?a + length (fname f @ [10 :: u8]) < 4294967296"
      using ua lt Cons.prems(2) assms(3) by simp
    ultimately have "put_bytes (put_bytes m ?a (fname f @ [10])) (buf + of_nat (off + ?n + 1)) (listing fs) =
        put_bytes m ?a (listing (f # fs))"
      using put_bytes_append [of ?a "fname f @ [10]" m "listing fs"] True by (simp add: listing_def add_ac)
    moreover have "length (listing (f # fs)) = ?n + 1 + length (listing fs)"
      using True by (simp add: listing_def)
    moreover have "\<not> off + ?n + 1 > MAX_FILE_SIZE"
      using lt Cons.prems(2) by (simp add: MAX_FILE_SIZE_def)
    moreover have "?a + of_nat ?n = buf + of_nat (off + ?n)" by simp
    ultimately show ?thesis
      using True strlen_cstring [OF c] cp nl IH by (simp add: add_ac)
  qed
qed

section \<open>Properties\<close>

text \<open>
  Property C24: a file created with \<^verbatim>\<open>alloc_file\<close> is the one \<^verbatim>\<open>get_file\<close> finds under its name: it is
  empty, has the page taken from the free list for its data, takes the first slot not in use, and
  every other file stays as it was. With no slot left, or a name longer than 15 characters, the
  result is NULL and nothing changes.
\<close>

theorem alloc_file_get_file_roundtrip:
  assumes ok: "fs_ok s" and h: "kheap s (pg # ps)" and p: "cstring path p" "p \<noteq> []"
    and new: "\<And>j. j < MAX_FILES \<Longrightarrow> fname (filesystem s ! j) \<noteq> p"
  shows "if length p \<le> 15 \<and> (\<exists>f \<in> set (filesystem s). \<not> f_in_use f)
    then \<exists>i s'. alloc_file s path = Ok (Some (Fs i), s') \<and> get_file s' path = Ok (Some (Fs i)) \<and>
      i < MAX_FILES \<and> \<not> f_in_use (filesystem s ! i) \<and> (\<forall>j < i. f_in_use (filesystem s ! j)) \<and>
      f_in_use (filesystem s' ! i) \<and> f_size (filesystem s' ! i) = 0 \<and> f_data (filesystem s' ! i) = pg \<and>
      (\<forall>j < MAX_FILES. j \<noteq> i \<longrightarrow> filesystem s' ! j = filesystem s ! j) \<and> fs_ok s' \<and> kheap s' ps
    else alloc_file s path = Ok (None, s)"
proof (cases "unused_slot (filesystem s) 0")
  case None
  have "unused_slot fs k = None \<Longrightarrow> \<forall>f \<in> set fs. f_in_use f" for fs k
    by (induction fs k rule: unused_slot.induct) (auto split: if_splits)
  then show ?thesis using None by (auto simp: alloc_file_def)
next
  case (Some i)
  note I = unused_slot_spec [OF Some]
  then have i: "i < length (filesystem s)" "\<not> f_in_use (filesystem s ! i)" "\<forall>j < i. f_in_use (filesystem s ! j)"
    by simp_all
  show ?thesis
  proof (cases "length p \<le> 15")
    case False
    then show ?thesis
      using Some strlen_cstring [OF p(1)] by (simp add: alloc_file_def MAX_NAME_def)
  next
    case True
    obtain s' name where s': "alloc_file s path = Ok (Some (Fs i), s')" "kheap s' ps"
        "filesystem s' = (filesystem s)[i := (filesystem s ! i)\<lparr>f_name := name, f_data := pg,
          f_in_use := True, f_size := 0\<rparr>]"
        "length name = 16" "0 \<in> set name" "takeWhile (\<lambda>c. c \<noteq> 0) name = p" "i < MAX_FILES"
      using alloc_file_spec [OF ok h p(1) True Some] by blast
    have len: "length (filesystem s) = MAX_FILES" using ok by (simp add: fs_ok_def)
    have ok': "fs_ok s'"
      using ok s'(3,4,5) by (auto simp: fs_ok_def name_ok_def dest!: set_update_subset_insert [THEN subsetD])
    have nm: "fname (filesystem s' ! i) = p" using s'(3,6) i(1) by (simp add: fname_def)
    have oth: "filesystem s' ! j = filesystem s ! j" if "j \<noteq> i" for j
      using that s'(3) by simp
    have "List.find (\<lambda>i. fname (filesystem s' ! i) = p) [0..<MAX_FILES] = Some i"
      by (rule find_first) (use s'(7) nm oth new in auto)
    then have "get_file s' path = Ok (Some (Fs i))"
      using get_file_find [OF p(1) ok'] p(2) by simp
    moreover have "\<exists>f \<in> set (filesystem s). \<not> f_in_use f" using i by (meson nth_mem)
    ultimately show ?thesis
      using s' i oth ok' True by auto
  qed
qed

text \<open>
  The root directory's listing is the names of the regular files in use, one per line,
  in the order of the table; it fits into the page always (at most 512 bytes), so the error branch is
  never taken, and nothing outside the page is written.
\<close>

theorem list_rootdir_lists:
  assumes "fs_ok s" and "page_aligned buf" and "pgno buf < 1048575"
  shows "\<exists>m'. list_rootdir s buf = Ok (int (length (listing (filesystem s))), s\<lparr>mem := m'\<rparr>) \<and>
    length (listing (filesystem s)) \<le> 512 \<and>
    mem_bytes m' buf (length (listing (filesystem s))) = listing (filesystem s) \<and>
    changes_only {pgno buf} (mem s) m'"
proof -
  have len: "length (filesystem s) = 32" and nm: "name_ok f" if "f \<in> set (filesystem s)" for f
    using assms(1) by (simp_all add: fs_ok_def MAX_FILES_def that)
  have "length (filesystem s) = 32" using assms(1) by (simp add: fs_ok_def MAX_FILES_def)
  moreover have "unat buf + 4096 < 4294967296" using assms(2,3) by (simp add: page_aligned_unat)
  moreover have le: "length (listing (filesystem s)) \<le> 512"
    using length_listing [of "filesystem s"] nm calculation(1) by simp
  moreover have "changes_only {pgno buf} (mem s) (put_bytes (mem s) buf (listing (filesystem s)))"
    using put_bytes_page [OF assms(2), of 0 "listing (filesystem s)" "mem s"] le by (simp add: page_off_def)
  ultimately show ?thesis
    using list_from_spec [of "filesystem s" 0 buf "mem s"] nm mem_bytes_put [of buf "listing (filesystem s)" "mem s"]
    by (intro exI [of _ "put_bytes (mem s) buf (listing (filesystem s))"]) (simp add: list_rootdir_def)
qed

text \<open>A user buffer none of whose bytes lies on the given page.\<close>

definition buffer_apart :: "'z mstate_scheme \<Rightarrow> u32 \<Rightarrow> nat \<Rightarrow> u32 \<Rightarrow> bool" where
  "buffer_apart s a n p \<longleftrightarrow> user_buffer s a n \<and> page_aligned p \<and> KERN_BASE \<le> p \<and>
     (\<forall>i < n. pgno (user_byte s (a + of_nat i)) \<noteq> pgno p)"

lemma buffer_apart_le: "buffer_apart s a n p \<Longrightarrow> k \<le> n \<Longrightarrow> buffer_apart s a k p"
  using user_buffer_le [of s a n k] by (auto simp: buffer_apart_def)

lemma read_file_spec:
  assumes f_def: "f = filesystem s ! i" and i: "i < length (filesystem s)"
    and pos: "f_pos f \<le> f_size f" "unat (f_size f) \<le> 4096"
    and n: "n = min (unat count) (unat (f_size f) - unat (f_pos f))"
    and ba: "buffer_apart s buf (unat count) (f_data f)"
  shows "\<exists>s'. read_file s (Fs i) buf count = Ok (of_nat n, s') \<and>
    (\<forall>k < n. vread s' (buf + of_nat k) = Ok (mem s (f_data f + of_nat k))) \<and>
    filesystem s' = (filesystem s)[i := f\<lparr>f_pos := f_pos f + of_nat n\<rparr>] \<and> cr3 s' = cr3 s \<and>
    (\<forall>k < 4096. mem s' (f_data f + of_nat k) = mem s (f_data f + of_nat k)) \<and>
    buffer_apart s' buf (unat count) (f_data f)"
proof -
  have left: "unat (f_size f - f_pos f) = unat (f_size f) - unat (f_pos f)"
    using pos(1) by (rule unat_sub)
  define c where "c = (if f_size f - f_pos f < count then f_size f - f_pos f else count)"
  have c: "unat c = n" using left n by (auto simp: c_def word_less_nat_alt)
  then have c': "c = of_nat n" by (metis of_nat_unat ucast_id)
  have ap: "pgno (user_byte s (buf + of_nat k)) \<noteq> pgno (f_data f)" if "k < unat count" for k
    using ba that by (simp_all add: buffer_apart_def)
  have ub: "user_buffer s buf (unat count)" and al: "page_aligned (f_data f)" and kb: "KERN_BASE \<le> f_data f"
    using ba by (simp_all add: buffer_apart_def)
  have nc: "n \<le> unat count" "n \<le> 4096" using n pos by auto
  have fit: "unat (f_data f) + unat c \<le> 4294967296" using page_aligned_le [OF al] nc c by linarith
  have data: "pgno (f_data f + of_nat j) = pgno (f_data f)" if "j < 4096" for j
    by (rule pgno_page_offset [OF al that])
  have off: "user_byte s (buf + of_nat k) \<noteq> f_data f + of_nat j" if "k < unat count" "j < 4096" for k j
    using ap [OF that(1)] data [OF that(2)] by metis
  obtain m' where m': "umemcpy s buf (f_data f) c = Ok (s\<lparr>mem := m'\<rparr>)"
      "\<And>k. k < n \<Longrightarrow> m' (user_byte s (buf + of_nat k)) = mem s (f_data f + of_nat k)"
      "\<And>x. (\<forall>k < n. x \<noteq> user_byte s (buf + of_nat k)) \<Longrightarrow> m' x = mem s x"
    using umemcpy_to_user [OF user_buffer_le [OF ub, of "unat c"] kb fit] off nc c by auto
  let ?P = "pgno ` (\<lambda>k. user_byte s (buf + of_nat k)) ` {..<unat count}"
  have ch: "changes_only ?P (mem s) m'"
    unfolding changes_only_def
  proof (intro allI impI m'(3))
    fix x k assume "pgno x \<notin> ?P" "k < n"
    moreover from \<open>k < n\<close> have "pgno (user_byte s (buf + of_nat k)) \<in> ?P" using nc(1) by simp
    ultimately show "x \<noteq> user_byte s (buf + of_nat k)" by metis
  qed
  have offP: "?P \<inter> pgno ` tables (mem s) (curr_pgdir s) = {}"
    using user_byte_table [OF ub] by fastforce
  let ?t = "s\<lparr>mem := m'\<rparr>"
  note F = user_byte_frame [OF ub ch offP]
  let ?s' = "set_fp ?t (Fs i) (\<lambda>f. f\<lparr>f_pos := f_pos f + of_nat n\<rparr>)"
  have st: "mem ?s' = m'" "cr3 ?s' = cr3 s" "curr_pgdir ?s' = curr_pgdir s"
    by (simp_all add: set_fp_def curr_pgdir_def)
  have ub': "user_buffer ?s' buf k = user_buffer ?t buf k" "user_byte ?s' va = user_byte ?t va"
      "vread ?s' va = vread ?t va" for k va
    using st by (simp_all add: user_buffer_def user_byte_def vread_def curr_pgdir_def split: option.splits)
  have "read_file s (Fs i) buf count = Ok (of_nat n, ?s')"
    using m'(1) c' by (cases "f_size f - f_pos f < count") (simp_all add: read_file_def get_fp_def Let_def f_def [symmetric] c_def)
  moreover have "vread ?s' (buf + of_nat k) = Ok (mem s (f_data f + of_nat k))" if "k < n" for k
    using vwrite_user_byte(2) [OF F(1), of k] that nc(1) m'(2) by (simp add: ub' F(2))
  moreover have "filesystem ?s' = (filesystem s)[i := f\<lparr>f_pos := f_pos f + of_nat n\<rparr>]"
    by (simp add: set_fp_def f_def)
  moreover have "m' (f_data f + of_nat k) = mem s (f_data f + of_nat k)" if "k < 4096" for k
    using off [OF _ that] nc(1) by (intro m'(3)) (metis order_less_le_trans)
  moreover have "buffer_apart ?s' buf (unat count) (f_data f)"
    using F(1) al kb ap by (simp add: buffer_apart_def ub' F(2))
  ultimately show ?thesis using st by (intro exI [of _ ?s']) simp
qed


text \<open>
  A client that reads until it gets 0 bytes: the counts it was given. More reads
  than the fuel allows count as not returning.
\<close>

fun read_to_end :: "nat \<Rightarrow> 'z fs_state_scheme \<Rightarrow> file_ref \<Rightarrow> u32 \<Rightarrow> u32 \<Rightarrow> nat list outcome" where
  "read_to_end 0 s fp buf count = Diverge"
| "read_to_end (Suc fuel) s fp buf count =
     bnd (read_file s fp buf count) (\<lambda>(n, s).
       if n = 0 then Ok [] else bnd (read_to_end fuel s fp buf count) (\<lambda>ns. Ok (unat n # ns)))"


text \<open>The bytes of a buffer of the program, as the source of a copy to another page.\<close>

definition buffer_bytes :: "'z mstate_scheme \<Rightarrow> u32 \<Rightarrow> nat \<Rightarrow> u8 list" where
  "buffer_bytes s buf n = map (\<lambda>k. mem s (user_byte s (buf + of_nat k))) [0..<n]"

lemma length_buffer_bytes [simp]: "length (buffer_bytes s buf n) = n"
  by (simp add: buffer_bytes_def)

lemma buffer_bytes_read:
  "buffer_apart s buf n p \<Longrightarrow> k < n \<Longrightarrow> vread s (buf + of_nat k) = Ok (buffer_bytes s buf n ! k)"
  using vwrite_user_byte(2) [of s buf n k] by (simp add: buffer_apart_def buffer_bytes_def)

lemma buffer_bytes_source:
  assumes ba: "buffer_apart s buf n p" and pt: "pgno p \<notin> pgno ` tables (mem s) (curr_pgdir s)" and fit: "page_off a + n \<le> 4096"
  shows "source_bytes s (p + of_nat (page_off a)) buf (buffer_bytes s buf n)"
proof (rule source_bytes_user [OF _ _ _ pt])
  show "pgdir_ok (mem s) (curr_pgdir s)" "page_aligned p" using ba by (simp_all add: buffer_apart_def user_buffer_def)
  show "page_off a + length (buffer_bytes s buf n) \<le> 4096" using fit by simp
  fix k assume "k < length (buffer_bytes s buf n)"
  then show "buf + of_nat k < KERN_BASE \<and> (\<exists>x. translate (mem s) (curr_pgdir s) (buf + of_nat k) = Some x \<and>
      mem s (PHYS_TO_VIRT (xl_paddr x)) = buffer_bytes s buf n ! k \<and> pgno (PHYS_TO_VIRT (xl_paddr x)) \<noteq> pgno p)"
    using ba by (fastforce simp: user_buffer_def buffer_apart_def buffer_bytes_def user_byte_def)
qed

text \<open>
  Property C33: a write of at least one byte within the file's page puts the bytes of the buffer at the position and
  advances it, and does not change the size: a file created by the write, opened again, reads as
  empty. The kernel panics when \<^verbatim>\<open>pos + count\<close>, as the 32-bit sum that the code forms, exceeds the page.
  (A sum that wraps around is the subject of the next theorem.)
\<close>

theorem write_file_keeps_size:
  fixes s :: "'z fs_state_scheme" and i :: nat
  defines "f \<equiv> filesystem s ! i"
  assumes i: "i < length (filesystem s)" and c: "0 < count"
  shows "(f_pos f + count > PGSIZE \<longrightarrow> write_file s (Fs i) buf count = Panic ''File larger than PGSIZE is unsupported'') \<and>
    (unat (f_pos f) + unat count \<le> 4096 \<and> buffer_apart s buf (unat count) (f_data f) \<and>
      pgno (f_data f) \<notin> pgno ` tables (mem s) (curr_pgdir s) \<longrightarrow>
      (\<exists>s'. write_file s (Fs i) buf count = Ok s' \<and>
        (\<forall>k < unat count. vread s (buf + of_nat k) = Ok (mem s' (f_data f + f_pos f + of_nat k))) \<and>
        changes_only {pgno (f_data f)} (mem s) (mem s') \<and>
        filesystem s' = (filesystem s)[i := f\<lparr>f_pos := f_pos f + count\<rparr>] \<and>
        (f_size f = 0 \<longrightarrow> (\<forall>b n. \<exists>s''. read_file (set_fp s' (Fs i) (\<lambda>f. f\<lparr>f_pos := 0\<rparr>)) (Fs i) b n = Ok (0, s'')))))"
proof -
  have "\<exists>s'. write_file s (Fs i) buf count = Ok s' \<and>
      (\<forall>k < unat count. vread s (buf + of_nat k) = Ok (mem s' (f_data f + f_pos f + of_nat k))) \<and>
      changes_only {pgno (f_data f)} (mem s) (mem s') \<and>
      filesystem s' = (filesystem s)[i := f\<lparr>f_pos := f_pos f + count\<rparr>] \<and>
      (f_size f = 0 \<longrightarrow> (\<forall>b n. \<exists>s''. read_file (set_fp s' (Fs i) (\<lambda>f. f\<lparr>f_pos := 0\<rparr>)) (Fs i) b n = Ok (0, s'')))"
    if fits: "unat (f_pos f) + unat count \<le> 4096" and ba: "buffer_apart s buf (unat count) (f_data f)"
      and pt: "pgno (f_data f) \<notin> pgno ` tables (mem s) (curr_pgdir s)"
  proof -
    have up: "unat (f_pos f + count) = unat (f_pos f) + unat count"
      using fits unat_add_lt [of "f_pos f" "unat count"] by simp
    have al: "page_aligned (f_data f)" and kb: "KERN_BASE \<le> f_data f" using ba by (simp_all add: buffer_apart_def)
    define bs where "bs = buffer_bytes s buf (unat count)"
    have len: "length bs = unat count" by (simp add: bs_def)
    have pos: "page_off (f_pos f) = unat (f_pos f)"
      using fits c by (simp add: page_off_def word_less_nat_alt)
    have dest: "f_data f + of_nat (page_off (f_pos f)) = f_data f + f_pos f" using pos by simp
    have ud: "unat (f_data f + f_pos f) = unat (f_data f) + unat (f_pos f)"
      using unat_in_page [OF al, of "f_pos f"] dest pos by simp
    have sb: "source_bytes s (f_data f + f_pos f) buf bs"
      unfolding dest [symmetric] bs_def by (rule buffer_bytes_source [OF ba pt]) (use fits pos in simp)
    have kb': "KERN_BASE \<le> f_data f + f_pos f"
      using KERN_BASE_offset [OF kb, of "unat (f_pos f)"] ud unat_lt_2p32 [of "f_data f + f_pos f"] by simp
    have fit: "unat (f_data f + f_pos f) + length bs \<le> 4294967296"
      using ud page_aligned_le [OF al] fits len by linarith
    let ?m = "put_bytes (mem s) (f_data f + f_pos f) bs"
    let ?s' = "set_fp (s\<lparr>mem := ?m\<rparr>) (Fs i) (\<lambda>f. f\<lparr>f_pos := f_pos f + count\<rparr>)"
    have "\<not> f_pos f + count > PGSIZE" using fits up by (simp add: word_less_nat_alt)
    then have w: "write_file s (Fs i) buf count = Ok ?s'"
      using vmemcpy_spec [OF sb kb' fit] len by (simp add: write_file_def get_fp_def f_def [symmetric])
    have "vread s (buf + of_nat k) = Ok (?m (f_data f + f_pos f + of_nat k))" if "k < unat count" for k
      using buffer_bytes_read [OF ba that] put_bytes_inside [of k bs "f_data f + f_pos f" "mem s"] fit that by (simp add: bs_def)
    moreover have "changes_only {pgno (f_data f)} (mem s) ?m"
      using put_bytes_page [OF al, of "f_pos f" bs "mem s"] fits pos len dest by simp
    moreover have "filesystem ?s' = (filesystem s)[i := f\<lparr>f_pos := f_pos f + count\<rparr>]"
      by (simp add: set_fp_def f_def)
    moreover have "\<exists>s''. read_file (set_fp ?s' (Fs i) (\<lambda>f. f\<lparr>f_pos := 0\<rparr>)) (Fs i) b n = Ok (0, s'')"
      if "f_size f = 0" for b n
      using that i by (cases "n = 0") (simp_all add: read_file_def set_fp_def get_fp_def f_def umemcpy_def word_gt_0)
    moreover have "mem ?s' = ?m" by (simp add: set_fp_def)
    ultimately show ?thesis using w by (intro exI [of _ ?s']) simp
  qed
  then show ?thesis by (auto simp: write_file_def get_fp_def f_def)
qed


section \<open>Witnesses\<close>

theorem alloc_file_get_file_roundtrip_witness:
  "\<exists>(s :: fs_state) s'. alloc_file s (arr (kstr ''ho'' @ [0])) = Ok (Some (Fs 1), s') \<and>
    get_file s' (arr (kstr ''ho'' @ [0])) = Ok (Some (Fs 1)) \<and> f_data (filesystem s' ! 1) = 0xc0002000"
proof -
  obtain s :: fs_state where s: "fs_ok s" "kheap s [0xc0002000]" "holds (mem s) (filesystem s ! 0) sample_member"
      "\<And>i. i < MAX_FILES \<Longrightarrow> 1 \<le> i \<Longrightarrow> filesystem s ! i = zero_file"
    using sample_fs_loaded by blast
  have f0: "fname (filesystem s ! 0) = kstr ''hi.txt''" "f_in_use (filesystem s ! 0)"
    using s(3) by (simp_all add: holds_def sample_member_def)
  have f1: "filesystem s ! 1 = zero_file" using s(4) [of 1] by (simp add: MAX_FILES_def)
  have c: "cstring (arr (kstr ''ho'' @ 0 # [])) (kstr ''ho'')"
    by (intro cstring_arr; simp add: kstr_def of_char_def NUL_SCAN_def)
  have ne: "kstr ''ho'' \<noteq> []" "kstr ''ho'' \<noteq> kstr ''hi.txt''" "length (kstr ''ho'') \<le> 15"
    by (simp_all add: kstr_def)
  have no: "fname (filesystem s ! i) \<noteq> kstr ''ho''" if "i < MAX_FILES" for i
    using s(4) [OF that] f0 ne by (cases "i = 0") auto
  have unused: "\<not> f_in_use (filesystem s ! 1)" using f1 by (simp add: zero_file_def)
  have "1 < length (filesystem s)" using s(1) by (simp add: fs_ok_def MAX_FILES_def)
  then have ex: "\<exists>f \<in> set (filesystem s). \<not> f_in_use f" using unused by (meson nth_mem)
  obtain i s' where r: "alloc_file s (arr (kstr ''ho'' @ 0 # [])) = Ok (Some (Fs i), s')"
      "get_file s' (arr (kstr ''ho'' @ 0 # [])) = Ok (Some (Fs i))" "\<not> f_in_use (filesystem s ! i)"
      "\<forall>j < i. f_in_use (filesystem s ! j)" "f_data (filesystem s' ! i) = 0xc0002000"
    using alloc_file_get_file_roundtrip [OF s(1,2) c ne(1) no] ne(3) ex by auto
  have "i \<noteq> 0"
  proof
    assume "i = 0"
    then show False using r(3) f0(2) by simp
  qed
  moreover have "\<not> 1 < i" using r(4) unused by blast
  ultimately have "i = 1" by simp
  then show ?thesis using r by auto
qed

theorem list_rootdir_lists_witness:
  "\<exists>(s :: fs_state) s'. list_rootdir s 0xc0003000 = Ok (7, s') \<and>
    mem_bytes (mem s') 0xc0003000 7 = kstr ''hi.txt'' @ [10]"
proof -
  obtain s :: fs_state where s: "fs_ok s" "holds (mem s) (filesystem s ! 0) sample_member"
      "\<And>i. i < MAX_FILES \<Longrightarrow> 1 \<le> i \<Longrightarrow> filesystem s ! i = zero_file"
    using sample_fs_loaded by blast
  have len: "length (filesystem s) = Suc 31" using s(1) by (simp add: fs_ok_def MAX_FILES_def)
  have "tl (filesystem s) = replicate 31 zero_file"
    using s(3) len by (intro nth_equalityI) (auto simp: nth_tl MAX_FILES_def)
  moreover have "filesystem s = (filesystem s ! 0) # tl (filesystem s)" using len by (cases "filesystem s") auto
  ultimately have fs: "filesystem s = (filesystem s ! 0) # replicate 31 zero_file" by simp
  have z: "listing (replicate n zero_file) = []" for n by (induction n) (simp_all add: listing_def)
  have "listing ((filesystem s ! 0) # replicate 31 zero_file) = kstr ''hi.txt'' @ [10]"
    using s(2) z [of 31, unfolded listing_def]
    by (simp add: listing_def holds_def sample_member_def kstr_def del: replicate.simps)
  then have l: "listing (filesystem s) = kstr ''hi.txt'' @ [10]" using fs by simp
  obtain m' where "list_rootdir s 0xc0003000 = Ok (int (length (listing (filesystem s))), s\<lparr>mem := m'\<rparr>)"
      "mem_bytes m' 0xc0003000 (length (listing (filesystem s))) = listing (filesystem s)"
    using list_rootdir_lists [OF s(1), of "0xc0003000"] by (auto simp: page_aligned_def pgno_def)
  then show ?thesis
    by - (rule exI [of _ s], rule exI [of _ "s\<lparr>mem := m'\<rparr>"], simp add: l kstr_def eval_nat_numeral)
qed

text \<open>A task with its page 5 mapped to 0xc0009000, and a table with one file, whose data is at 0xc000a000.\<close>

lemma sample_open_file_at:
  assumes "p \<in> {0xc000a000, 0xc000b000}"
  shows "\<exists>s :: fs_state. filesystem s = [f] \<and> buffer_apart s 0x5100 4 p \<and>
    pgno p \<notin> pgno ` tables (mem s) (curr_pgdir s)"
proof -
  obtain m :: mstate where m: "aspace_ok m 0xc0001000 []"
      "tables (mem m) 0xc0001000 = {0xc0001000, 0xc0002000}"
      "page_entry (mem m) 0xc0001000 5 = Some (0x9000 OR PTE_P OR (PTE_RW OR PTE_US))"
    using mapped_sample by blast
  let ?s = "sample_fs\<lparr>mem := mem m, cr3 := VIRT_TO_PHYS 0xc0001000, filesystem := [f]\<rparr>"
  have cp: "curr_pgdir ?s = 0xc0001000" by (simp add: curr_pgdir_def)
  have ok: "pgdir_ok (mem ?s) (curr_pgdir ?s)" using aspace_okD(2) [OF m(1)] cp by simp
  have e: "page_entry (mem ?s) (curr_pgdir ?s) (pgno 0x5100) = Some (0x9000 OR PTE_P OR (PTE_RW OR PTE_US))"
    using m(3) cp by (simp add: pgno_def)
  have tb: "tables (mem ?s) (curr_pgdir ?s) = {0xc0001000, 0xc0002000}" using m(2) cp by simp
  have "user_buffer ?s 0x5100 4"
    by (rule user_buffer_page [OF ok e]) (use tb sample_frames(1) in \<open>auto simp: entry_bits page_off_def pgno_def\<close>)
  moreover have "pgno (user_byte ?s (0x5100 + of_nat i)) \<noteq> pgno p" if "i < 4" for i
  proof -
    have off: "page_off 0x5100 + i < 4096" using that by (simp add: page_off_def)
    have "user_byte ?s (0x5100 + of_nat i) =
        PHYS_TO_VIRT (frame (0x9000 OR PTE_P OR (PTE_RW OR PTE_US))) + of_nat (page_off 0x5100 + i)"
      by (rule user_byte_page [OF ok e off])
    then have "pgno (user_byte ?s (0x5100 + of_nat i)) = pgno 0xc0009000"
      unfolding sample_frames(1) using pgno_page_offset [OF _ off, of "0xc0009000"] by (simp add: page_aligned_def)
    then show ?thesis using assms by (auto simp: pgno_def)
  qed
  ultimately have "buffer_apart ?s 0x5100 4 p"
    using assms by (auto simp: buffer_apart_def page_aligned_def KERN_BASE_def)
  moreover have "pgno p \<notin> pgno ` tables (mem ?s) (curr_pgdir ?s)" using assms unfolding tb by (auto simp: pgno_def)
  ultimately show ?thesis by (intro exI [of _ ?s]) simp
qed

lemmas sample_open_file = sample_open_file_at [of "0xc000a000", simplified]

definition sample_file :: kfile where
  "sample_file = zero_file\<lparr>f_size := 10, f_pos := 8, f_in_use := True, f_data := 0xc000a000\<rparr>"



theorem write_file_keeps_size_witness:
  "\<exists>(s :: fs_state) s'. write_file s (Fs 0) 0x5100 4 = Ok s' \<and>
    filesystem s' = [sample_file\<lparr>f_size := 0, f_pos := 12\<rparr>]"
proof -
  obtain s :: fs_state where s: "filesystem s = [sample_file\<lparr>f_size := 0\<rparr>]" "buffer_apart s 0x5100 4 0xc000a000"
      "pgno 0xc000a000 \<notin> pgno ` tables (mem s) (curr_pgdir s)"
    using sample_open_file by blast
  have f: "filesystem s ! 0 = sample_file\<lparr>f_size := 0\<rparr>" using s(1) by simp
  have sz: "unat (f_pos sample_file) = 8" "f_pos sample_file = 8" "f_data sample_file = 0xc000a000"
    by (simp_all add: sample_file_def)
  show ?thesis
    using write_file_keeps_size [of 0 s 4 "0x5100", unfolded f kfile.simps sz] s by (auto simp: sample_file_def)
qed


end
