(* ===== verification/Descriptors.thy ===== *)
theory Descriptors
  imports AddrSpace
begin

text \<open>
  The processor's descriptor tables: the segment descriptors of \<^verbatim>\<open>memory.c\<close> (\<^verbatim>\<open>set_segment_desc\<close>,
  \<^verbatim>\<open>set_ts_segment_desc\<close>, \<^verbatim>\<open>init_segmentation\<close>) and the interrupt gates of \<^verbatim>\<open>interrupt.c\<close>
  (\<^verbatim>\<open>set_interrupt_gate\<close>, \<^verbatim>\<open>set_trap_gate\<close>, \<^verbatim>\<open>init_idt\<close>). The bit fields of the packed structures are
  words of their widths, so an assignment truncates as in C. \<open>seg_base\<close>, \<open>seg_top\<close> and \<open>gate_entry\<close>
  are what the processor reads out of them. Addresses the linker chooses are parameters.
\<close>

section \<open>Segments\<close>

record segment_desc =
  sd_limit0 :: u16
  sd_base0 :: u16
  sd_base1 :: u8
  sd_type :: "4 word"
  sd_s :: "1 word"
  sd_dpl :: "2 word"
  sd_p :: "1 word"
  sd_limit :: "4 word"
  sd_avl :: "1 word"
  sd_l :: "1 word"
  sd_d :: "1 word"
  sd_g :: "1 word"
  sd_base2 :: u8

definition zero_desc :: segment_desc where
  "zero_desc = \<lparr>sd_limit0 = 0, sd_base0 = 0, sd_base1 = 0, sd_type = 0, sd_s = 0, sd_dpl = 0,
     sd_p = 0, sd_limit = 0, sd_avl = 0, sd_l = 0, sd_d = 0, sd_g = 0, sd_base2 = 0\<rparr>"

definition SEG_TYPE_RW :: u8 where "SEG_TYPE_RW = 2"
definition SEG_TYPE_EX :: u8 where "SEG_TYPE_EX = 8"
definition SEG_TYPE_T32A :: u8 where "SEG_TYPE_T32A = 9"
definition KERN_DATA_SEG :: nat where "KERN_DATA_SEG = 1"
definition KERN_CODE_SEG :: nat where "KERN_CODE_SEG = 2"
definition USER_DATA_SEG :: nat where "USER_DATA_SEG = 3"
definition USER_CODE_SEG :: nat where "USER_CODE_SEG = 4"
definition TSS_SEG :: nat where "TSS_SEG = 5"
definition DPL_KERN :: u32 where "DPL_KERN = 0"
definition DPL_USER :: u32 where "DPL_USER = 3"

definition set_segment_desc ::
    "segment_desc \<Rightarrow> u32 \<Rightarrow> u32 \<Rightarrow> u8 \<Rightarrow> u32 \<Rightarrow> segment_desc" where
  "set_segment_desc desc base limit type dpl = desc\<lparr>
     sd_limit0 := ucast (drop_bit 12 limit AND 0xffff),
     sd_base0 := ucast (base AND 0xffff),
     sd_base1 := ucast (drop_bit 16 base AND 0xff),
     sd_type := ucast type,
     sd_s := 1,
     sd_dpl := ucast (dpl AND 0x3),
     sd_p := 1,
     sd_limit := ucast (drop_bit 28 limit AND 0xff),
     sd_avl := 0,
     sd_l := 0,
     sd_d := 1,
     sd_g := 1\<rparr>"

definition set_ts_segment_desc ::
    "segment_desc \<Rightarrow> u32 \<Rightarrow> u32 \<Rightarrow> u8 \<Rightarrow> u32 \<Rightarrow> segment_desc" where
  "set_ts_segment_desc desc base limit type dpl = desc\<lparr>
     sd_limit0 := ucast (limit AND 0xffff),
     sd_base0 := ucast (base AND 0xffff),
     sd_base1 := ucast (drop_bit 16 base AND 0xff),
     sd_type := ucast type,
     sd_s := 0,
     sd_dpl := ucast (dpl AND 0x3),
     sd_p := 1,
     sd_limit := ucast (drop_bit 16 limit AND 0xff),
     sd_avl := 0,
     sd_l := 0,
     sd_d := 1,
     sd_g := 0\<rparr>"

text \<open>\<^verbatim>\<open>struct gdt_desc\<close> and \<^verbatim>\<open>struct idt_desc\<close>, the operands of \<^verbatim>\<open>lgdt\<close> and \<^verbatim>\<open>lidt\<close>.\<close>

record table_desc =
  td_size :: u16
  td_offset0 :: u16
  td_offset1 :: u16

definition sizeof_taskstate :: u32 where "sizeof_taskstate = 104"

text \<open>
  \<^verbatim>\<open>init_segmentation\<close> fills the array \<^verbatim>\<open>gdt\<close> at address \<open>gdt_addr\<close> and returns it with the operand
  of \<^verbatim>\<open>lgdt\<close>; \<open>ts_addr\<close> is the address of \<^verbatim>\<open>task_state\<close>.
\<close>

definition init_segmentation ::
    "segment_desc list \<Rightarrow> u32 \<Rightarrow> u32 \<Rightarrow> segment_desc list \<times> table_desc" where
  "init_segmentation gdt gdt_addr ts_addr =
     (let gdt = gdt[0 := zero_desc];
          gdt = gdt[KERN_DATA_SEG := set_segment_desc (gdt ! KERN_DATA_SEG) 0x0 0xffffffff SEG_TYPE_RW DPL_KERN];
          gdt = gdt[KERN_CODE_SEG :=
            set_segment_desc (gdt ! KERN_CODE_SEG) 0x0 0xffffffff (SEG_TYPE_RW OR SEG_TYPE_EX) DPL_KERN];
          gdt = gdt[USER_DATA_SEG := set_segment_desc (gdt ! USER_DATA_SEG) 0x0 0xffffffff SEG_TYPE_RW DPL_USER];
          gdt = gdt[USER_CODE_SEG :=
            set_segment_desc (gdt ! USER_CODE_SEG) 0x0 0xffffffff (SEG_TYPE_RW OR SEG_TYPE_EX) DPL_USER];
          gdt = gdt[TSS_SEG := set_ts_segment_desc (gdt ! TSS_SEG) ts_addr sizeof_taskstate SEG_TYPE_T32A 0]
      in (gdt, \<lparr>td_size = 6 * 8 - 1, td_offset0 = ucast (gdt_addr AND 0xffff),
                td_offset1 = ucast (drop_bit 16 gdt_addr AND 0xffff)\<rparr>))"

text \<open>How the processor puts the pieces together.\<close>

definition seg_base :: "segment_desc \<Rightarrow> u32" where
  "seg_base d = ucast (sd_base0 d) OR push_bit 16 (ucast (sd_base1 d)) OR push_bit 24 (ucast (sd_base2 d))"

definition seg_limit :: "segment_desc \<Rightarrow> u32" where
  "seg_limit d = ucast (sd_limit0 d) OR push_bit 16 (ucast (sd_limit d))"

text \<open>The offset of the last byte of the segment.\<close>

definition seg_top :: "segment_desc \<Rightarrow> u32" where
  "seg_top d = (if sd_g d = 1 then push_bit 12 (seg_limit d) OR 0xfff else seg_limit d)"

definition table_base :: "table_desc \<Rightarrow> u32" where
  "table_base t = ucast (td_offset0 t) OR push_bit 16 (ucast (td_offset1 t))"

section \<open>Gates\<close>

record gate =
  g_offset0 :: u16
  g_selector :: u16
  g_unused :: u8
  g_type :: "4 word"
  g_s :: "1 word"
  g_dpl :: "2 word"
  g_p :: "1 word"
  g_offset1 :: u16

definition NUM_GATES :: nat where "NUM_GATES = 256"
definition GATE_TYPE_INTERRUPT :: "4 word" where "GATE_TYPE_INTERRUPT = 0xe"
definition GATE_TYPE_TRAP :: "4 word" where "GATE_TYPE_TRAP = 0xf"
definition T_IRQ_BASE :: nat where "T_IRQ_BASE = 0x20"
definition IRQ_SYSCALL :: nat where "IRQ_SYSCALL = 0x60"

definition set_interrupt_gate :: "gate \<Rightarrow> u32 \<Rightarrow> u8 \<Rightarrow> gate" where
  "set_interrupt_gate g offset dpl = g\<lparr>
     g_offset0 := ucast (offset AND 0xffff),
     g_selector := of_nat (8 * KERN_CODE_SEG),
     g_unused := 0,
     g_type := GATE_TYPE_INTERRUPT,
     g_s := 0,
     g_dpl := ucast dpl,
     g_p := 1,
     g_offset1 := ucast (drop_bit 16 offset AND 0xffff)\<rparr>"

definition set_trap_gate :: "gate \<Rightarrow> u32 \<Rightarrow> u8 \<Rightarrow> gate" where
  "set_trap_gate g offset dpl = g\<lparr>
     g_offset0 := ucast (offset AND 0xffff),
     g_selector := of_nat (8 * KERN_CODE_SEG),
     g_unused := 0,
     g_type := GATE_TYPE_TRAP,
     g_s := 0,
     g_dpl := ucast dpl,
     g_p := 1,
     g_offset1 := ucast (drop_bit 16 offset AND 0xffff)\<rparr>"

text \<open>
  \<open>vector_table\<close> is the table of entry points that \<^verbatim>\<open>gen_vectors.py\<close> generates; \<open>idt_addr\<close> is where
  the linker puts \<^verbatim>\<open>idt\<close>.
\<close>

definition init_idt :: "gate list \<Rightarrow> u32 \<Rightarrow> (nat \<Rightarrow> u32) \<Rightarrow> gate list \<times> table_desc" where
  "init_idt idt idt_addr vector_table =
     (let idt = fold (\<lambda>i idt. idt[i := set_interrupt_gate (idt ! i) (vector_table i) (ucast DPL_KERN)])
            [0..<NUM_GATES] idt;
          sys = T_IRQ_BASE + IRQ_SYSCALL;
          idt = idt[sys := set_interrupt_gate (idt ! sys) (vector_table sys) (ucast DPL_USER)]
      in (idt, \<lparr>td_size = 256 * 8 - 1, td_offset0 = ucast (idt_addr AND 0xffff),
                td_offset1 = ucast (drop_bit 16 idt_addr AND 0xffff)\<rparr>))"

definition gate_entry :: "gate \<Rightarrow> u32" where
  "gate_entry g = ucast (g_offset0 g) OR push_bit 16 (ucast (g_offset1 g))"

text \<open>
  An \<^verbatim>\<open>int n\<close> instruction at privilege level \<open>cpl\<close> may use a gate that is present and whose DPL is
  not more privileged; hardware interrupts ignore the DPL.
\<close>

definition int_allowed :: "nat \<Rightarrow> gate \<Rightarrow> bool" where
  "int_allowed cpl g \<longleftrightarrow> g_p g = 1 \<and> cpl \<le> unat (g_dpl g)"

section \<open>Lemmas\<close>

lemma ucast_low: "(ucast ((x :: u32) AND 0xffff) :: u16) = ucast x" "(ucast (x AND 0xff) :: u8) = ucast x"
proof -
  have m: "(0xffff :: u32) = mask 16" "(0xff :: u32) = mask 8" by (simp_all add: mask_eq_exp_minus_1)
  show "(ucast (x AND 0xffff) :: u16) = ucast x" "(ucast (x AND 0xff) :: u8) = ucast x"
    unfolding m by (rule bit_word_eqI; auto simp: bit_simps)+
qed

lemma halves: "(ucast (ucast x :: u16) :: u32) OR push_bit 16 (ucast (ucast (drop_bit 16 x) :: u16)) = x"
proof (rule bit_word_eqI)
  fix n assume "n < LENGTH(32)"
  then consider "n < 16" | "16 \<le> n" "n < 32" by fastforce
  then show "bit ((ucast (ucast x :: u16) :: u32) OR
      push_bit 16 (ucast (ucast (drop_bit 16 x) :: u16))) n \<longleftrightarrow> bit x n"
    by cases (auto simp: bit_simps)
qed

lemma gate_entry_set: "gate_entry (set_interrupt_gate g offset dpl) = offset"
    "gate_entry (set_trap_gate g offset dpl) = offset"
  by (simp_all add: gate_entry_def set_interrupt_gate_def set_trap_gate_def ucast_low halves)

lemma fold_update_each:
  assumes "\<And>i idt. length (f i idt :: 'a list) = length idt" and "n \<le> length xs"
    and "\<And>i idt j. i < length idt \<Longrightarrow> f i idt ! j = (if j = i then h i (idt ! i) else idt ! j)"
  shows "length (fold f [0..<n] xs) = length xs \<and>
    (\<forall>j < length xs. fold f [0..<n] xs ! j = (if j < n then h j (xs ! j) else xs ! j))"
  using assms(2)
proof (induction n)
  case (Suc n)
  then show ?case using assms(1,3) by (auto simp: less_Suc_eq)
qed simp

lemma init_idt_nth:
  assumes "length idt = NUM_GATES" and "i < NUM_GATES"
  shows "length (fst (init_idt idt a vt)) = NUM_GATES"
    and "fst (init_idt idt a vt) ! i =
      (if i = T_IRQ_BASE + IRQ_SYSCALL
       then set_interrupt_gate (set_interrupt_gate (idt ! i) (vt i) (ucast DPL_KERN)) (vt i) (ucast DPL_USER)
       else set_interrupt_gate (idt ! i) (vt i) (ucast DPL_KERN))"
proof -
  let ?f = "\<lambda>i idt. idt[i := set_interrupt_gate (idt ! i) (vt i) (ucast DPL_KERN)]"
  have F: "length (fold ?f [0..<NUM_GATES] idt) = length idt \<and>
      (\<forall>j < length idt. fold ?f [0..<NUM_GATES] idt ! j =
        (if j < NUM_GATES then set_interrupt_gate (idt ! j) (vt j) (ucast DPL_KERN) else idt ! j))"
    by (rule fold_update_each) (auto simp: assms(1))
  have sys: "T_IRQ_BASE + IRQ_SYSCALL < NUM_GATES"
    by (simp add: T_IRQ_BASE_def IRQ_SYSCALL_def NUM_GATES_def)
  show "length (fst (init_idt idt a vt)) = NUM_GATES"
    using F assms by (simp add: init_idt_def Let_def)
  show "fst (init_idt idt a vt) ! i =
      (if i = T_IRQ_BASE + IRQ_SYSCALL
       then set_interrupt_gate (set_interrupt_gate (idt ! i) (vt i) (ucast DPL_KERN)) (vt i) (ucast DPL_USER)
       else set_interrupt_gate (idt ! i) (vt i) (ucast DPL_KERN))"
    using F assms sys by (simp add: init_idt_def Let_def nth_list_update)
qed

section \<open>Properties\<close>

text \<open>
  Property C23: whatever the generated entry points are, \<^verbatim>\<open>init_idt\<close> installs all 256 of them as
  interrupt gates into the kernel's code segment, and 0x80 is the only vector a program in user mode
  may raise with \<^verbatim>\<open>int\<close>.
\<close>

theorem idt_only_syscall_from_user:
  assumes "length idt = NUM_GATES" and "i < NUM_GATES"
  shows "(let g = fst (init_idt idt a vt) ! i in
      gate_entry g = vt i \<and> g_selector g = 0x10 \<and> g_type g = GATE_TYPE_INTERRUPT \<and>
      (int_allowed 3 g \<longleftrightarrow> i = 0x80)) \<and>
    length (fst (init_idt idt a vt)) = 256 \<and> table_base (snd (init_idt idt a vt)) = a \<and>
    unat (td_size (snd (init_idt idt a vt))) = 256 * 8 - 1"
proof -
  note I = init_idt_nth [OF assms, of a vt]
  have "table_base (snd (init_idt idt a vt)) = a" "td_size (snd (init_idt idt a vt)) = 2047"
    by (simp_all add: init_idt_def table_base_def Let_def ucast_low halves)
  moreover have "g_type (fst (init_idt idt a vt) ! i) = GATE_TYPE_INTERRUPT"
      "g_selector (fst (init_idt idt a vt) ! i) = 0x10"
      "gate_entry (fst (init_idt idt a vt) ! i) = vt i"
    unfolding I(2)
    by (simp_all add: gate_entry_set) (simp_all add: set_interrupt_gate_def KERN_CODE_SEG_def)
  moreover have "int_allowed 3 (fst (init_idt idt a vt) ! i) \<longleftrightarrow> i = 0x80"
    unfolding I(2)
    by (simp add: int_allowed_def set_interrupt_gate_def DPL_USER_def DPL_KERN_def T_IRQ_BASE_def
        IRQ_SYSCALL_def)
  ultimately show ?thesis using I(1) by (simp add: Let_def NUM_GATES_def)
qed

theorem idt_only_syscall_from_user_witness:
  "\<exists>idt :: gate list. int_allowed 3 (fst (init_idt idt 0xc0105000 (\<lambda>i. of_nat i)) ! 0x80) \<and>
    \<not> int_allowed 3 (fst (init_idt idt 0xc0105000 (\<lambda>i. of_nat i)) ! 0x20)"
proof -
  let ?g = "\<lparr>g_offset0 = 0, g_selector = 0, g_unused = 0, g_type = 0, g_s = 0, g_dpl = 0, g_p = 0,
    g_offset1 = 0\<rparr> :: gate"
  have l: "length (replicate NUM_GATES ?g) = NUM_GATES" "0x80 < NUM_GATES" "0x20 < NUM_GATES"
    by (simp_all add: NUM_GATES_def)
  show ?thesis
    using idt_only_syscall_from_user [OF l(1,2), of "0xc0105000" "\<lambda>i. of_nat i"]
      idt_only_syscall_from_user [OF l(1,3), of "0xc0105000" "\<lambda>i. of_nat i"]
    by (intro exI [of _ "replicate NUM_GATES ?g"]) (simp add: Let_def)
qed

text \<open>
  On the zero-filled table of the boot image, \<^verbatim>\<open>init_segmentation\<close> makes the four code
  and data segments flat (base 0, every offset up to 0xffffffff), present, the kernel's for
  privilege 0 and the user's for privilege 3, with the execute bit on the code segments only, and
  loads a descriptor that covers the six entries.
\<close>

theorem gdt_flat:
  "let (gdt, gdtr) = init_segmentation (replicate 6 zero_desc) gdt_addr ts_addr in
    map (\<lambda>i. (seg_base (gdt ! i), seg_top (gdt ! i), sd_p (gdt ! i), sd_s (gdt ! i)))
      [KERN_DATA_SEG, KERN_CODE_SEG, USER_DATA_SEG, USER_CODE_SEG] =
      [(0, 0xffffffff, 1, 1), (0, 0xffffffff, 1, 1), (0, 0xffffffff, 1, 1), (0, 0xffffffff, 1, 1)] \<and>
    map (\<lambda>i. unat (sd_dpl (gdt ! i))) [KERN_DATA_SEG, KERN_CODE_SEG, USER_DATA_SEG, USER_CODE_SEG] =
      [0, 0, 3, 3] \<and>
    map (\<lambda>i. sd_type (gdt ! i)) [KERN_DATA_SEG, KERN_CODE_SEG, USER_DATA_SEG, USER_CODE_SEG] =
      [2, 10, 2, 10] \<and>
    gdt ! 0 = zero_desc \<and> length gdt = 6 \<and> table_base gdtr = gdt_addr \<and> unat (td_size gdtr) = 6 * 8 - 1"
proof -
  have r: "replicate 6 zero_desc = [zero_desc, zero_desc, zero_desc, zero_desc, zero_desc, zero_desc]"
    by (simp add: eval_nat_numeral)
  have t: "table_base \<lparr>td_size = 47, td_offset0 = ucast gdt_addr, td_offset1 = ucast (drop_bit 16 gdt_addr)\<rparr>
      = gdt_addr"
    by (simp add: table_base_def halves)
  show ?thesis
    unfolding r init_segmentation_def Let_def
    by (simp add: KERN_DATA_SEG_def KERN_CODE_SEG_def USER_DATA_SEG_def USER_CODE_SEG_def TSS_SEG_def
        ucast_low t)
      (simp add: set_segment_desc_def zero_desc_def seg_base_def seg_top_def seg_limit_def DPL_KERN_def
        DPL_USER_def SEG_TYPE_RW_def SEG_TYPE_EX_def)
qed

text \<open>
  The descriptor of the task state segment loses the top byte of the address, because
  \<^verbatim>\<open>base2\<close> is never assigned. The processor therefore looks for the stack pointer of an interrupt at
  the physical instead of the virtual address of \<^verbatim>\<open>task_state\<close>, and finds it there only as long as
  the kernel's data lies below 4 MB, through the identity map.
\<close>

theorem tss_base_loses_top_byte:
  assumes "KERN_BASE \<le> ts_addr" and "ts_addr < KERN_BASE + 0x1000000"
  shows "seg_base (fst (init_segmentation (replicate 6 zero_desc) gdt_addr ts_addr) ! TSS_SEG) =
      VIRT_TO_PHYS ts_addr \<and>
    (kernel_xlation (VIRT_TO_PHYS ts_addr) \<noteq> None \<longleftrightarrow> ts_addr < KERN_BASE + 0x400000) \<and>
    seg_top (fst (init_segmentation (replicate 6 zero_desc) gdt_addr ts_addr) ! TSS_SEG) = sizeof_taskstate"
proof -
  let ?d = "set_ts_segment_desc zero_desc ts_addr sizeof_taskstate SEG_TYPE_T32A 0"
  have d: "fst (init_segmentation (replicate 6 zero_desc) gdt_addr ts_addr) ! TSS_SEG = ?d"
    by (simp add: init_segmentation_def Let_def TSS_SEG_def KERN_DATA_SEG_def KERN_CODE_SEG_def
        USER_DATA_SEG_def USER_CODE_SEG_def nth_list_update)
  have b: "unat KERN_BASE \<le> unat ts_addr" "unat ts_addr < unat KERN_BASE + 0x1000000"
    using assms by (simp_all add: word_le_nat_alt word_less_nat_alt KERN_BASE_def)
  then have v: "unat (VIRT_TO_PHYS ts_addr) = unat ts_addr - unat KERN_BASE"
    using assms(1) by (simp add: VIRT_TO_PHYS_def unat_sub)
  have sb: "seg_base ?d = take_bit 24 ts_addr"
  proof (rule bit_word_eqI)
    fix n assume "n < LENGTH(32)"
    then consider "n < 16" | "16 \<le> n" "n < 24" | "24 \<le> n" "n < 32" by fastforce
    then show "bit (seg_base ?d) n \<longleftrightarrow> bit (take_bit 24 ts_addr) n"
      by cases (auto simp: seg_base_def set_ts_segment_desc_def zero_desc_def ucast_low bit_simps)
  qed
  have "unat (take_bit 24 ts_addr) = unat ts_addr mod 2 ^ 24"
    by (simp add: take_bit_eq_mod unat_mod)
  also have "\<dots> = unat ts_addr - unat KERN_BASE"
  proof -
    obtain k where k: "unat ts_addr = unat KERN_BASE + k" "k < 2 ^ 24"
      using b le_Suc_ex [OF b(1)] by auto
    have "unat KERN_BASE = 192 * 2 ^ 24" by (simp add: KERN_BASE_def)
    then have "unat ts_addr mod 2 ^ 24 = k mod 2 ^ 24"
      unfolding k(1) by (simp only: mod_mult_self3)
    then show ?thesis using k by simp
  qed
  finally have "seg_base ?d = VIRT_TO_PHYS ts_addr"
    unfolding sb by (simp only: word_unat_eq_iff v)
  moreover have "kernel_xlation (VIRT_TO_PHYS ts_addr) \<noteq> None \<longleftrightarrow> ts_addr < KERN_BASE + 0x400000"
    using b unfolding kernel_xlation_def word_less_nat_alt v
    by (auto simp: KERN_BASE_def MMDEV_BASE_def)
  moreover have "seg_top ?d = sizeof_taskstate"
    by (simp add: seg_top_def seg_limit_def set_ts_segment_desc_def sizeof_taskstate_def)
  ultimately show ?thesis by (simp add: d)
qed

theorem tss_base_loses_top_byte_witness:
  "seg_base (fst (init_segmentation (replicate 6 zero_desc) 0xc0105000 0xc0106abc) ! TSS_SEG) = 0x106abc"
  using tss_base_loses_top_byte [of "0xc0106abc" "0xc0105000"]
  by (simp add: KERN_BASE_def VIRT_TO_PHYS_def)

end
