(* ===== verification/Teardown.thy ===== *)
theory Teardown
  imports AddrSpace "HOL-Library.Multiset"
begin

text \<open>
  Destroying an address space: \<^verbatim>\<open>destroy_address_space\<close> pushes the user page, every page table and
  the directory onto the free list. The loop is verified on list segments, so that its effect is
  known even when what follows the segment is no longer a list; the properties say that building and
  destroying an address space gives every page back, and what happens when the space has no user
  page of its own, as in the error paths of \<^verbatim>\<open>sys_execv\<close>.
\<close>

section \<open>Segments of the free list\<close>

fun free_seg :: "mem \<Rightarrow> u32 \<Rightarrow> u32 list \<Rightarrow> u32 \<Rightarrow> bool" where
  "free_seg m p [] q \<longleftrightarrow> p = q"
| "free_seg m p (x # xs) q \<longleftrightarrow>
     p = x \<and> x \<noteq> NULL \<and> page_aligned x \<and> free_seg m (load32 m x) xs q"

lemma free_seg_append:
  "free_list m p (xs @ ys) \<longleftrightarrow> (\<exists>q. free_seg m p xs q \<and> free_list m q ys)"
  by (induction xs arbitrary: p) auto

lemma free_seg_frame:
  "free_seg m p xs q \<Longrightarrow> changes_only P m m' \<Longrightarrow> P \<inter> pgno ` set xs = {} \<Longrightarrow> free_seg m' p xs q"
proof (induction xs arbitrary: p)
  case (Cons x xs)
  then have "load32 m' x = load32 m x"
    by (intro changes_only_load32) (auto intro: page_aligned_word_aligned)
  with Cons show ?case by auto
qed simp

text \<open>A page whose link points to itself ends no list.\<close>

lemma self_link_no_list: "load32 m q = q \<Longrightarrow> free_seg m p xs q \<Longrightarrow> q \<noteq> NULL \<Longrightarrow> \<not> free_list m p ys"
proof
  assume a: "load32 m q = q" "free_seg m p xs q" "q \<noteq> NULL" "free_list m p ys"
  have "\<exists>zs. free_list m q zs"
    using a(2,4)
  proof (induction xs arbitrary: p ys)
    case (Cons x xs)
    then show ?case by (cases ys) auto
  qed auto
  then obtain zs where "free_list m q zs" ..
  moreover from this obtain zs' where "zs = q # zs'" using a(3) by (cases zs) auto
  ultimately show False
    using a(1) free_list_unique [of m q zs "zs'"] by auto
qed

section \<open>The loop over the tables\<close>

definition slot_tables :: "mem \<Rightarrow> u32 \<Rightarrow> nat \<Rightarrow> u32 list" where
  "slot_tables m pd n = List.map_filter (ptab m pd) [0..<n]"

lemma slot_tables_0 [simp]: "slot_tables m pd 0 = []"
  by (simp add: slot_tables_def map_filter_simps)

lemma slot_tables_Suc:
  "slot_tables m pd (Suc n) =
    slot_tables m pd n @ (case ptab m pd n of None \<Rightarrow> [] | Some t \<Rightarrow> [t])"
  by (auto simp: slot_tables_def map_filter_def split: option.splits)

lemma set_slot_tables: "set (slot_tables m pd n) = {t. \<exists>d < n. ptab m pd d = Some t}"
  by (induction n) (auto simp: slot_tables_Suc less_Suc_eq split: option.splits)

lemma slot_tables_distinct:
  "pgdir_ok m pd \<Longrightarrow> n \<le> 1024 \<Longrightarrow> distinct (slot_tables m pd n)"
proof (induction n)
  case (Suc n)
  have "t \<notin> set (slot_tables m pd n)" if "ptab m pd n = Some t" for t
  proof
    assume "t \<in> set (slot_tables m pd n)"
    then obtain d where d: "d < n" "ptab m pd d = Some t" by (auto simp: set_slot_tables)
    then have "d = n" using pgdir_okD(4) [OF Suc.prems(1) _ _ d(2) that] Suc.prems(2) by simp
    then show False using d(1) by simp
  qed
  then show ?case
    using Suc by (auto simp: slot_tables_Suc split: option.splits)
qed simp

lemma pgno_notin:
  "page_aligned x \<Longrightarrow> (\<And>y. y \<in> A \<Longrightarrow> page_aligned y) \<Longrightarrow> x \<notin> A \<Longrightarrow> pgno x \<notin> pgno ` A"
  by (auto simp: pgno_inject)

lemma tables_slot_tables:
  "pgdir_ok m pd \<Longrightarrow> tables m pd = insert pd (set (slot_tables m pd 1024)) \<and>
    pd \<notin> set (slot_tables m pd 1024)"
  by (auto simp: tables_def set_slot_tables dest: pgdir_okD(2))

definition free_table :: "u32 \<Rightarrow> nat \<Rightarrow> 'z mstate_scheme \<Rightarrow> 'z mstate_scheme outcome" where
  "free_table pd i s =
     (let pde = load32 (mem s) (pd + of_nat (4 * i))
      in if pde AND PDE_P = 0 then Ok s else kfree s (PHYS_TO_VIRT (frame pde)))"

lemma free_table_conv:
  "free_table pd i s = (case ptab (mem s) pd i of None \<Rightarrow> Ok s | Some t \<Rightarrow> kfree s t)"
  by (simp add: free_table_def ptab_def entry_def Let_def)

definition freed_tables :: "'z mstate_scheme \<Rightarrow> u32 \<Rightarrow> nat \<Rightarrow> 'z mstate_scheme \<Rightarrow> bool" where
  "freed_tables s pd n t \<longleftrightarrow>
     free_seg (mem t) (free_pages t) (rev (slot_tables (mem s) pd n)) (free_pages s) \<and>
     changes_only (pgno ` set (slot_tables (mem s) pd n)) (mem s) (mem t) \<and>
     cr3 t = cr3 s \<and> mstate.more t = mstate.more s"

lemma freed_tables_step:
  assumes ok: "pgdir_ok (mem s) pd" and nn: "NULL \<notin> tables (mem s) pd" and n: "n < 1024"
    and t: "freed_tables s pd n t"
  shows "\<exists>t'. free_table pd n t = Ok t' \<and> freed_tables s pd (Suc n) t'"
proof -
  let ?xs = "slot_tables (mem s) pd n"
  have al: "page_aligned y" if "y \<in> set ?xs" for y
    using that by (auto simp: set_slot_tables intro: ptab_aligned)
  have "pd \<noteq> y" if y: "y \<in> set ?xs" for y
  proof -
    obtain d where "d < n" "ptab (mem s) pd d = Some y" using y by (auto simp: set_slot_tables)
    then show ?thesis using pgdir_okD(2) [OF ok, of d y] n by auto
  qed
  then have "pgno pd \<notin> pgno ` set ?xs"
    using pgdir_okD(1) [OF ok] al by (intro pgno_notin) auto
  then have "entry (mem t) pd n = entry (mem s) pd n"
    using t n pgdir_okD(1) [OF ok] by (auto simp: freed_tables_def intro: entry_changes_only)
  then have pt: "ptab (mem t) pd n = ptab (mem s) pd n"
    by (rule ptab_cong)
  show ?thesis
  proof (cases "ptab (mem s) pd n")
    case None
    then show ?thesis
      using t pt by (simp add: free_table_conv freed_tables_def slot_tables_Suc)
  next
    case (Some x)
    have x: "page_aligned x" "x \<noteq> NULL" "x \<notin> set ?xs"
      using ptab_aligned [OF Some] ptab_in_tables [OF n Some] nn
        slot_tables_distinct [OF ok, of "Suc n"] n Some by (auto simp: slot_tables_Suc)
    have pg: "pgno x \<notin> pgno ` set ?xs"
      by (rule pgno_notin [OF x(1) al x(3)])
    let ?t' = "t\<lparr>mem := store32 (mem t) x (free_pages t), free_pages := x\<rparr>"
    have ch: "changes_only {pgno x} (mem t) (mem ?t')"
      using changes_only_store32 [OF page_aligned_word_aligned [OF x(1)]] by simp
    have "free_seg (mem ?t') (free_pages t) (rev ?xs) (free_pages s)"
      using t pg by (intro free_seg_frame [OF _ ch]) (auto simp: freed_tables_def)
    moreover have "changes_only (pgno ` set (slot_tables (mem s) pd (Suc n))) (mem s) (mem ?t')"
      using t by (intro changes_only_trans [OF _ ch]) (auto simp: freed_tables_def slot_tables_Suc Some)
    ultimately have "freed_tables s pd (Suc n) ?t'"
      using x t by (simp add: freed_tables_def slot_tables_Suc Some)
    then show ?thesis
      using pt Some x(1) by (simp add: free_table_conv kfree_aligned)
  qed
qed

lemma free_tables:
  assumes "pgdir_ok (mem s) pd" and "NULL \<notin> tables (mem s) pd"
  shows "\<exists>t. loop_from 0 1024 (free_table pd) s = Ok t \<and> freed_tables s pd 1024 t"
  using loop_from_invariant [of "\<lambda>n. freed_tables s pd n" 0 s 1024 "free_table pd"]
    freed_tables_step [OF assms] by (auto simp: freed_tables_def)

lemma destroy_address_space_conv:
  "destroy_address_space s pd =
    bnd (unmap_page s pd 0) (\<lambda>s1. bnd (loop_from 0 1024 (free_table pd) s1) (\<lambda>s2. kfree s2 pd))"
proof -
  have "PG_ROUNDUP PGSIZE div PGSIZE = 1"
    unfolding PG_ROUNDUP_id [OF page_aligned_PGSIZE] by (simp add: PGSIZE_def)
  then have "unat (PG_ROUNDUP PGSIZE div PGSIZE) = Suc 0"
    by simp
  moreover have "PGSIZE \<noteq> 0" by (simp add: PGSIZE_def)
  moreover have "bnd r (loop_from i 0 f) = r" for r :: "'a mstate_scheme outcome" and i f
    by (cases r) auto
  ultimately show ?thesis
    by (simp add: destroy_address_space_def destroy_user_address_space_def unmap_memory_def
        free_table_def [abs_def] Let_def)
qed

text \<open>The last step, for both kinds of tails.\<close>

lemma destroy_tail:
  assumes ok: "pgdir_ok (mem s) pd" and nn: "NULL \<notin> tables (mem s) pd"
  shows "\<exists>t. bnd (loop_from 0 1024 (free_table pd) s) (\<lambda>s2. kfree s2 pd) = Ok t \<and>
    free_seg (mem t) (free_pages t) (pd # rev (slot_tables (mem s) pd 1024)) (free_pages s) \<and>
    changes_only (pgno ` tables (mem s) pd) (mem s) (mem t) \<and>
    cr3 t = cr3 s \<and> mstate.more t = mstate.more s"
proof -
  obtain t where t: "loop_from 0 1024 (free_table pd) s = Ok t" "freed_tables s pd 1024 t"
    using free_tables [OF assms] by blast
  let ?t' = "t\<lparr>mem := store32 (mem t) pd (free_pages t), free_pages := pd\<rparr>"
  note T = tables_slot_tables [OF ok]
  have al: "page_aligned pd" "pd \<noteq> NULL"
    using pgdir_okD(1) [OF ok] nn by (auto simp: tables_def)
  have ch: "changes_only {pgno pd} (mem t) (mem ?t')"
    using changes_only_store32 [OF page_aligned_word_aligned [OF al(1)]] by simp
  have "pgno pd \<notin> pgno ` set (slot_tables (mem s) pd 1024)"
    using T tables_aligned [OF ok] al(1) by (intro pgno_notin) auto
  then have "free_seg (mem ?t') (free_pages t) (rev (slot_tables (mem s) pd 1024)) (free_pages s)"
    using t(2) by (intro free_seg_frame [OF _ ch]) (auto simp: freed_tables_def)
  moreover have "changes_only (pgno ` tables (mem s) pd) (mem s) (mem ?t')"
    using t(2) T by (intro changes_only_trans [OF _ ch]) (auto simp: freed_tables_def)
  ultimately show ?thesis
    using t al by (simp add: kfree_aligned freed_tables_def)
qed

section \<open>Destroying an intact address space\<close>

lemma slot_tables_cong:
  "(\<And>d. d < 1024 \<Longrightarrow> entry m' pd d = entry m pd d) \<Longrightarrow> n \<le> 1024 \<Longrightarrow>
   slot_tables m' pd n = slot_tables m pd n"
proof (induction n)
  case (Suc n)
  have "ptab m' pd n = ptab m pd n"
    by (rule ptab_cong) (use Suc.prems in simp)
  with Suc show ?case by (simp add: slot_tables_Suc)
qed simp

lemma destroy_address_space_spec:
  assumes ok: "aspace_ok s pd ps" and nn: "NULL \<notin> tables (mem s) pd"
    and e: "page_entry (mem s) pd 0 = Some e"
    and u: "u = PHYS_TO_VIRT (frame e)" "u \<noteq> NULL" "u \<notin> set ps" "u \<notin> tables (mem s) pd"
  shows "\<exists>s'. destroy_address_space s pd = Ok s' \<and>
    kheap s' (pd # rev (slot_tables (mem s) pd 1024) @ u # ps) \<and>
    changes_only (insert (pgno u) (pgno ` tables (mem s) pd)) (mem s) (mem s') \<and>
    cr3 s' = cr3 s \<and> mstate.more s' = mstate.more s"
proof -
  have e0: "page_entry (mem s) pd (pgno 0) = Some e" using e by (simp add: pgno_def)
  obtain s1 where s1: "unmap_page s pd 0 = Ok s1" "aspace_ok s1 pd (u # ps)"
      "tables (mem s1) pd = tables (mem s) pd" "\<forall>d < 1024. entry (mem s1) pd d = entry (mem s) pd d"
      "changes_only (insert (pgno u) (pgno ` tables (mem s) pd)) (mem s) (mem s1)"
      "cr3 s1 = cr3 s" "mstate.more s1 = mstate.more s"
    using unmap_page_spec [OF ok e0 u] by blast
  note D = aspace_okD [OF s1(2)]
  have st: "slot_tables (mem s1) pd 1024 = slot_tables (mem s) pd 1024"
    by (rule slot_tables_cong) (use s1(4) in auto)
  obtain t where t: "bnd (loop_from 0 1024 (free_table pd) s1) (\<lambda>s2. kfree s2 pd) = Ok t"
      "free_seg (mem t) (free_pages t) (pd # rev (slot_tables (mem s) pd 1024)) (free_pages s1)"
      "changes_only (pgno ` tables (mem s) pd) (mem s1) (mem t)"
      "cr3 t = cr3 s1" "mstate.more t = mstate.more s1"
    using destroy_tail [OF D(2)] nn unfolding s1(3) st by blast
  have "free_list (mem t) (free_pages s1) (u # ps)"
    using D(1) unfolding kheap_def
    by (rule free_list_frame [OF _ t(3)]) (use D(4) s1(3) in auto)
  then have "kheap t ((pd # rev (slot_tables (mem s) pd 1024)) @ u # ps)"
    unfolding kheap_def free_seg_append using t(2) by blast
  moreover have "changes_only (insert (pgno u) (pgno ` tables (mem s) pd)) (mem s) (mem t)"
    by (rule changes_only_trans [OF s1(5) t(3)]) auto
  ultimately show ?thesis
    using s1 t by (simp add: destroy_address_space_conv)
qed

text \<open>
  Unmapping when nothing is known about the free list: the frame becomes the head of the list and
  its link is the old head, whatever that was.
\<close>

lemma unmap_page_raw:
  assumes ok: "pgdir_ok (mem s) pd" and e: "page_entry (mem s) pd (pgno va) = Some e"
    and u: "u = PHYS_TO_VIRT (frame e)" "u \<notin> tables (mem s) pd"
  shows "\<exists>s'. unmap_page s pd va = Ok s' \<and> pgdir_ok (mem s') pd \<and> free_pages s' = u \<and>
    load32 (mem s') u = free_pages s \<and> (\<forall>d < 1024. entry (mem s') pd d = entry (mem s) pd d)"
proof -
  have al: "page_aligned u" by (simp add: u(1) page_aligned_PHYS_TO_VIRT)
  obtain t where t: "ptab (mem s) pd (pgno va div 1024) = Some t"
      and et: "entry (mem s) t (pgno va mod 1024) = e" "e AND PTE_P \<noteq> 0"
    using e by (auto simp: page_entry_def Let_def split: option.splits if_splits)
  define s1 where "s1 = s\<lparr>mem := store32 (mem s) u (free_pages s), free_pages := u\<rparr>"
  have k: "kfree s u = Ok s1" by (simp add: s1_def kfree_aligned [OF al])
  have ch: "changes_only {pgno u} (mem s) (mem s1)"
    unfolding s1_def using changes_only_store32 [OF page_aligned_word_aligned [OF al]] by simp
  have off: "{pgno u} \<inter> pgno ` tables (mem s) pd = {}"
    using u(2) al tables_aligned [OF ok] by (auto simp: pgno_inject)
  have e1: "entry (mem s1) pd d = entry (mem s) pd d" if "d < 1024" for d
    by (rule pgdir_frame_pd [OF ok ch off that])
  have ok1: "pgdir_ok (mem s1) pd" by (rule pgdir_frame_ok [OF ok ch off])
  have dx: "pgno va div 1024 < 1024" using pdx_lt [of va] by (simp add: pdx_def)
  have t1: "ptab (mem s1) pd (pgno va div 1024) = Some t"
    using ptab_cong [OF e1 [OF dx]] t by simp
  define s' where "s' = s1\<lparr>mem := store32 (mem s1) (t + of_nat (4 * (pgno va mod 1024))) 0\<rparr>"
  have m': "mem s' = store32 (mem s1) (t + of_nat (4 * (pgno va mod 1024))) 0"
    by (simp add: s'_def)
  note E = set_entry_pd [OF ok1 pgno_lt t1, of _ 0, folded m']
  have "pgdir_ok (mem s') pd" by (rule pgdir_ok_cong [OF ok1 E])
  moreover have "load32 (mem s') u = free_pages s"
  proof -
    have "pgno u \<notin> {pgno t}"
      using off ptab_in_tables [OF dx t] by auto
    then have "load32 (mem s') u = load32 (mem s1) u"
      using set_entry_changes [OF ok1 pgno_lt t1, of 0, folded m']
      by (intro changes_only_load32) (auto intro: page_aligned_word_aligned [OF al])
    then show ?thesis by (simp add: s1_def)
  qed
  moreover have "unmap_page s pd va = Ok s'"
  proof -
    have pde: "load32 (mem s) (pde_ptr pd va) AND PDE_P \<noteq> 0"
        "PHYS_TO_VIRT (frame (load32 (mem s) (pde_ptr pd va))) = t"
      using t by (auto simp: load32_pde ptab_def pdx_def Let_def split: if_splits)
    have pte: "load32 (mem s) (pte_ptr t va) = e"
      using et by (simp add: load32_pte ptx_def)
    show ?thesis
      using pde pte et(2) k
      by (simp add: unmap_page_def Let_def flip: u(1))
        (simp add: s'_def pte_ptr_conv ptx_def)
  qed
  ultimately show ?thesis
    using E e1 by (intro exI [of _ s']) (auto simp: s'_def s1_def)
qed

section \<open>Properties\<close>

lemma user_page_entry:
  assumes "page_aligned p"
  shows "PHYS_TO_VIRT (frame (VIRT_TO_PHYS p OR PTE_P OR (PTE_RW OR PTE_US))) = p"
  using entry_fields(1) [OF page_aligned_VIRT_TO_PHYS [OF assms], of "PTE_RW OR PTE_US" PTE_RW]
  by (simp add: frame_or)

lemma npages_PGSIZE: "npages PGSIZE = 1"
  unfolding npages_def PG_ROUNDUP_id [OF page_aligned_PGSIZE] by (simp add: PGSIZE_def)

lemma map_kernel_tables:
  assumes "kheap s (pd # ps)" and "tables m pd = insert pd (set (take n ps))" and "pgdir_ok m pd"
  shows "set (slot_tables m pd 1024) = set (take n ps)"
    and "mset (slot_tables m pd 1024) = mset (take n ps)" and "NULL \<notin> tables m pd"
proof -
  have d: "distinct (pd # ps)" by (rule kheap_distinct [OF assms(1)])
  then have "pd \<notin> set (take n ps)" using in_set_takeD by fastforce
  then show st: "set (slot_tables m pd 1024) = set (take n ps)"
    using tables_slot_tables [OF assms(3)] assms(2) by (metis insert_ident)
  then show "mset (slot_tables m pd 1024) = mset (take n ps)"
    using slot_tables_distinct [OF assms(3)] d
    by (subst set_eq_iff_mset_eq_distinct [symmetric]) auto
  show "NULL \<notin> tables m pd"
    using kheap_page [OF assms(1)] assms(2) by (auto dest: in_set_takeD)
qed

text \<open>A user page at address 0 on top of the kernel's ranges, the way \<^verbatim>\<open>sys_fork\<close> maps one.\<close>

lemma alloc_user_page:
  assumes ok: "aspace_ok s pd (u # us)" and fs: "0 \<notin> free_slots pd s"
  shows "\<exists>s'. alloc_map_memory s pd 0 PGSIZE (PTE_RW OR PTE_US) = Ok s' \<and> aspace_ok s' pd us \<and>
    free_slots pd s' = free_slots pd s \<and> tables (mem s') pd = tables (mem s) pd \<and>
    page_entry (mem s') pd 0 = Some (VIRT_TO_PHYS u OR PTE_P OR (PTE_RW OR PTE_US)) \<and>
    (\<forall>w < 1048576. 0 < w \<longrightarrow> page_entry (mem s') pd w = page_entry (mem s) pd w) \<and> grows pd s s'"
proof -
  have sl: "free_slots pd s \<inter> slots (pgno 0) (npages PGSIZE) = {}"
    using fs by (auto simp: slots_def pgno_def npages_PGSIZE)
  have nz: "PGSIZE \<noteq> 0" and al0: "page_aligned 0" and p0: "pgno 0 = 0"
    by (simp_all add: PGSIZE_def page_aligned_def pgno_def)
  have "\<exists>s'. alloc_map_memory s pd 0 PGSIZE (PTE_RW OR PTE_US) = Ok s' \<and>
      aspace_ok s' pd (drop 1 (u # us)) \<and> free_slots pd s' = free_slots pd s \<and>
      tables (mem s') pd = tables (mem s) pd \<and>
      (\<forall>w < 1048576. page_entry (mem s') pd w =
        (if 0 \<le> w \<and> w < 0 + 1 then Some (VIRT_TO_PHYS ((u # us) ! (w - 0)) OR PTE_P OR (PTE_RW OR PTE_US))
         else page_entry (mem s) pd w)) \<and> grows pd s s'"
    by (rule alloc_map_memory_spec [OF ok nz al0, unfolded npages_PGSIZE p0, OF _ _ sl [unfolded npages_PGSIZE p0]])
      simp_all
  then show ?thesis by auto
qed

text \<open>
  Property C20: an address space built the way \<^verbatim>\<open>sys_fork\<close> and \<^verbatim>\<open>load_elf\<close> build it (the kernel's
  ranges and one user page) and then destroyed gives back every page it took: the free list is a
  permutation of the one before, and the processor's directory register is as before.
\<close>

theorem build_destroy_returns_all_pages:
  assumes "kheap s ps" and "kernel_tables + 2 \<le> length ps"
  shows "\<exists>pd s1 s2 s3 qs. map_kernel s = Ok (pd, s1) \<and>
    alloc_map_memory s1 pd 0 PGSIZE (PTE_RW OR PTE_US) = Ok s2 \<and>
    destroy_address_space s2 pd = Ok s3 \<and> kheap s3 qs \<and> mset qs = mset ps \<and> cr3 s3 = cr3 s"
proof -
  obtain pd qs where ps: "ps = pd # qs" using assms(2) by (cases ps) auto
  note h = assms(1) [unfolded ps]
  have len: "kernel_tables \<le> length qs" using assms(2) ps by simp
  obtain s1 where s1: "map_kernel s = Ok (pd, s1)" "aspace_ok s1 pd (drop kernel_tables qs)"
      "tables (mem s1) pd = insert pd (set (take kernel_tables qs))"
      "free_slots pd s1 = {..<1024} - ({0} \<union> {768..<1024})" "cr3 s1 = cr3 s"
    using map_kernel_spec [OF h len] by blast
  obtain u us where u: "drop kernel_tables qs = u # us"
    using assms(2) ps by (cases "drop kernel_tables qs") auto
  obtain s2 where s2: "alloc_map_memory s1 pd 0 PGSIZE (PTE_RW OR PTE_US) = Ok s2"
      "aspace_ok s2 pd us" "tables (mem s2) pd = tables (mem s1) pd"
      "page_entry (mem s2) pd 0 = Some (VIRT_TO_PHYS u OR PTE_P OR (PTE_RW OR PTE_US))" "cr3 s2 = cr3 s1"
    using alloc_user_page [of s1 pd u us] s1(2,4) u by (auto simp: grows_def)
  have "distinct (pd # take kernel_tables qs @ u # us)"
    using kheap_distinct [OF h] u append_take_drop_id [of kernel_tables qs] by simp
  then have us: "u \<notin> set us" "u \<notin> set (take kernel_tables qs)" "u \<noteq> pd" by auto
  have uq: "u \<in> set qs" using u by (metis in_set_dropD list.set_intros(1))
  note T = map_kernel_tables [OF h _ aspace_okD(2) [OF s2(2)], of kernel_tables, unfolded s2(3), OF s1(3)]
  have ual: "page_aligned u" "u \<noteq> NULL" using kheap_page [OF h, of u] uq by auto
  have unt: "u \<notin> tables (mem s2) pd" using us s1(3) s2(3) by simp
  obtain s3 where s3: "destroy_address_space s2 pd = Ok s3"
      "kheap s3 (pd # rev (slot_tables (mem s2) pd 1024) @ u # us)" "cr3 s3 = cr3 s2"
    using destroy_address_space_spec [OF s2(2) _ s2(4) user_page_entry [OF ual(1), symmetric] ual(2) us(1) unt]
      T(3) s2(3) by auto
  have "mset ps = mset (pd # rev (slot_tables (mem s2) pd 1024) @ u # us)"
    using T(2) ps u append_take_drop_id [of kernel_tables qs]
    by (metis mset.simps(2) mset_append mset_rev)
  then show ?thesis
    using s1(1,5) s2(1,5) s3 by metis
qed

theorem build_destroy_returns_all_pages_witness:
  "\<exists>(s :: mstate) pd s1 s2 s3 qs. map_kernel s = Ok (pd, s1) \<and>
    alloc_map_memory s1 pd 0 PGSIZE (PTE_RW OR PTE_US) = Ok s2 \<and>
    destroy_address_space s2 pd = Ok s3 \<and> kheap s3 qs \<and> length qs = 767"
proof -
  obtain s :: mstate and ps where s: "kheap s ps" "length ps = 767" using boot_heap by blast
  then show ?thesis
    using build_destroy_returns_all_pages [of s ps] by (simp add: kernel_tables_def) (metis size_mset)
qed

text \<open>
  The page that page number 0 of a fresh kernel directory names is the first page of the direct map,
  which no part of the kernel ever registered as free.
\<close>

lemma kernel_entry_0: "kernel_entry 0 = Some (0 OR PTE_P OR PTE_RW)"
    "PHYS_TO_VIRT (frame (0 OR PTE_P OR PTE_RW)) = KERN_BASE"
  by (simp_all add: kernel_entry_def vpage_def frame_or PHYS_TO_VIRT_def)

lemma KERN_BASE_page: "page_aligned KERN_BASE" "KERN_BASE \<noteq> NULL"
  by (simp_all add: KERN_BASE_def NULL_def page_aligned_def)

lemma destroy_kernel_only:
  assumes h: "kheap s (pd # ps)" and len: "kernel_tables \<le> length ps"
    and new: "KERN_BASE \<notin> set (pd # ps)"
  shows "\<exists>s1 s2 ts. map_kernel s = Ok (pd, s1) \<and> destroy_address_space s1 pd = Ok s2 \<and>
    kheap s2 (pd # ts @ KERN_BASE # drop kernel_tables ps) \<and> mset ts = mset (take kernel_tables ps)"
proof -
  obtain s1 where s1: "map_kernel s = Ok (pd, s1)" "aspace_ok s1 pd (drop kernel_tables ps)"
      "tables (mem s1) pd = insert pd (set (take kernel_tables ps))"
      "\<forall>w < 1048576. page_entry (mem s1) pd w = kernel_entry w"
    using map_kernel_spec [OF h len] by blast
  note T = map_kernel_tables [OF h s1(3) aspace_okD(2) [OF s1(2)]]
  have e: "page_entry (mem s1) pd 0 = Some (0 OR PTE_P OR PTE_RW)"
    using s1(4) kernel_entry_0(1) by simp
  have "KERN_BASE \<notin> set (drop kernel_tables ps)" "KERN_BASE \<notin> tables (mem s1) pd"
    using new s1(3) by (auto dest: in_set_takeD in_set_dropD)
  then obtain s2 where "destroy_address_space s1 pd = Ok s2"
      "kheap s2 (pd # rev (slot_tables (mem s1) pd 1024) @ KERN_BASE # drop kernel_tables ps)"
    using destroy_address_space_spec [OF s1(2) T(3) e kernel_entry_0(2) [symmetric] KERN_BASE_page(2)]
    by blast
  then show ?thesis using s1(1) T(2) by (metis mset_rev)
qed

text \<open>
  Destroying an address space that has no user page yet, as \<^verbatim>\<open>sys_execv\<close> does when the
  file does not exist, puts KERN_BASE on the free list: physical page 0, which was never registered
  as free memory and which a later \<^verbatim>\<open>kmalloc\<close> will hand out.
\<close>

theorem destroy_without_user_page_frees_page_0:
  assumes "kheap s ps" and "kernel_tables + 1 \<le> length ps" and "KERN_BASE \<notin> set ps"
  shows "\<exists>pd s1 s2 qs. map_kernel s = Ok (pd, s1) \<and> destroy_address_space s1 pd = Ok s2 \<and>
    kheap s2 qs \<and> mset qs = add_mset KERN_BASE (mset ps)"
proof -
  obtain pd rs where ps: "ps = pd # rs" using assms(2) by (cases ps) auto
  obtain s1 s2 ts where s: "map_kernel s = Ok (pd, s1)" "destroy_address_space s1 pd = Ok s2"
      "kheap s2 (pd # ts @ KERN_BASE # drop kernel_tables rs)" "mset ts = mset (take kernel_tables rs)"
    using destroy_kernel_only [of s pd rs] assms ps by auto
  have "mset rs = mset ts + mset (drop kernel_tables rs)"
    using s(4) by (metis append_take_drop_id mset_append)
  then have "mset (pd # ts @ KERN_BASE # drop kernel_tables rs) = add_mset KERN_BASE (mset ps)"
    by (simp add: ps)
  then show ?thesis using s(1-3) by blast
qed

theorem destroy_without_user_page_frees_page_0_witness:
  "\<exists>(s :: mstate) ps pd s1 s2 qs. kheap s ps \<and> KERN_BASE \<notin> set ps \<and>
    map_kernel s = Ok (pd, s1) \<and> destroy_address_space s1 pd = Ok s2 \<and>
    kheap s2 qs \<and> KERN_BASE \<in> set qs"
proof -
  obtain s :: mstate and ps where s: "kheap s ps" "length ps = 767" "KERN_BASE \<notin> set ps"
    using boot_heap by blast
  then obtain pd s1 s2 qs where q: "map_kernel s = Ok (pd, s1)" "destroy_address_space s1 pd = Ok s2"
      "kheap s2 qs" "mset qs = add_mset KERN_BASE (mset ps)"
    using destroy_without_user_page_frees_page_0 [of s ps] by (auto simp: kernel_tables_def)
  then have "KERN_BASE \<in> set qs" by (metis set_mset_mset union_single_eq_member)
  then show ?thesis using s(1,3) q(1-3) by blast
qed

text \<open>
  Doing that twice in a row ties the free list into a loop. The second destruction frees
  KERN_BASE while it is the head of the list, its link then points to itself, and no finite list of
  pages describes the free list any more; \<^verbatim>\<open>kmalloc\<close> reaches KERN_BASE after 258 pages and hands it
  out for ever after.
\<close>

theorem destroy_without_user_page_twice_loops:
  assumes "kheap s ps" and "kernel_tables + 1 \<le> length ps" and "KERN_BASE \<notin> set ps"
  shows "\<exists>pd s1 s2 pd' s3 s4 qs. map_kernel s = Ok (pd, s1) \<and> destroy_address_space s1 pd = Ok s2 \<and>
    map_kernel s2 = Ok (pd', s3) \<and> destroy_address_space s3 pd' = Ok s4 \<and>
    length qs = kernel_tables + 1 \<and> free_seg (mem s4) (free_pages s4) qs KERN_BASE \<and>
    load32 (mem s4) KERN_BASE = KERN_BASE \<and> (\<forall>xs. \<not> kheap s4 xs)"
proof -
  obtain pd rs where ps: "ps = pd # rs" using assms(2) by (cases ps) auto
  obtain s1 s2 ts where s: "map_kernel s = Ok (pd, s1)" "destroy_address_space s1 pd = Ok s2"
      "kheap s2 (pd # ts @ KERN_BASE # drop kernel_tables rs)" "mset ts = mset (take kernel_tables rs)"
    using destroy_kernel_only [of s pd rs] assms ps by auto
  have "length ts = length (take kernel_tables rs)"
    using s(4) by (metis size_mset)
  then have lt: "length ts = kernel_tables"
    using assms(2) ps by simp
  obtain s3 where s3: "map_kernel s2 = Ok (pd, s3)"
      "aspace_ok s3 pd (KERN_BASE # drop kernel_tables rs)" "tables (mem s3) pd = insert pd (set ts)"
      "\<forall>w < 1048576. page_entry (mem s3) pd w = kernel_entry w"
  proof -
    have "kernel_tables \<le> length (ts @ KERN_BASE # drop kernel_tables rs)"
        "drop kernel_tables (ts @ KERN_BASE # drop kernel_tables rs) = KERN_BASE # drop kernel_tables rs"
        "take kernel_tables (ts @ KERN_BASE # drop kernel_tables rs) = ts"
      using lt by simp_all
    then show thesis using map_kernel_spec [OF s(3)] that by metis
  qed
  note D = aspace_okD [OF s3(2)]
  have "tables (mem s3) pd =
      insert pd (set (take kernel_tables (ts @ KERN_BASE # drop kernel_tables rs)))"
    using s3(3) lt by simp
  then have T: "NULL \<notin> tables (mem s3) pd" "mset (slot_tables (mem s3) pd 1024) = mset ts"
    using map_kernel_tables [OF s(3) _ D(2), of kernel_tables] lt by simp_all
  have fp: "free_pages s3 = KERN_BASE"
    using D(1) by (simp add: kheap_def)
  have KB: "KERN_BASE \<notin> tables (mem s3) pd" by (rule D(3)) simp
  have e: "page_entry (mem s3) pd (pgno 0) = Some (0 OR PTE_P OR PTE_RW)"
    using s3(4) kernel_entry_0(1) by (simp add: pgno_def)
  obtain t where t: "unmap_page s3 pd 0 = Ok t" "pgdir_ok (mem t) pd" "free_pages t = KERN_BASE"
      "load32 (mem t) KERN_BASE = KERN_BASE" "\<forall>d < 1024. entry (mem t) pd d = entry (mem s3) pd d"
    using unmap_page_raw [OF D(2) e kernel_entry_0(2) [symmetric] KB] unfolding fp by blast
  have st: "slot_tables (mem t) pd 1024 = slot_tables (mem s3) pd 1024"
    and tb: "tables (mem t) pd = tables (mem s3) pd"
    using t(5) by (auto intro!: slot_tables_cong tables_cong)
  obtain s4 where s4: "bnd (loop_from 0 1024 (free_table pd) t) (\<lambda>s2. kfree s2 pd) = Ok s4"
      "free_seg (mem s4) (free_pages s4) (pd # rev (slot_tables (mem s3) pd 1024)) KERN_BASE"
      "changes_only (pgno ` tables (mem s3) pd) (mem t) (mem s4)"
    using destroy_tail [OF t(2)] T(1) unfolding tb st t(3) by blast
  have "pgno KERN_BASE \<notin> pgno ` tables (mem s3) pd"
    using KB tables_aligned [OF D(2)] by (intro pgno_notin) auto
  then have loop: "load32 (mem s4) KERN_BASE = KERN_BASE"
    using changes_only_load32 [OF s4(3) page_aligned_word_aligned [OF KERN_BASE_page(1)]] t(4) by simp
  then have "\<not> kheap s4 xs" for xs
    unfolding kheap_def by (rule self_link_no_list [OF _ s4(2) KERN_BASE_page(2)])
  moreover have "destroy_address_space s3 pd = Ok s4"
    using t(1) s4(1) by (simp add: destroy_address_space_conv)
  moreover have "length (slot_tables (mem s3) pd 1024) = kernel_tables"
    using T(2) lt by (metis size_mset)
  then have "length (pd # rev (slot_tables (mem s3) pd 1024)) = kernel_tables + 1"
    by simp
  ultimately show ?thesis
    using s(1,2) s3(1) s4(2) loop
    by (intro exI [of _ pd] exI [of _ s1] exI [of _ s2] exI [of _ s3] exI [of _ s4]
        exI [of _ "pd # rev (slot_tables (mem s3) pd 1024)"] conjI allI)
qed

theorem destroy_without_user_page_twice_loops_witness:
  "\<exists>(s :: mstate) ps pd s1 s2 pd' s3 s4. kheap s ps \<and> map_kernel s = Ok (pd, s1) \<and>
    destroy_address_space s1 pd = Ok s2 \<and> map_kernel s2 = Ok (pd', s3) \<and>
    destroy_address_space s3 pd' = Ok s4 \<and> (\<forall>xs. \<not> kheap s4 xs)"
proof -
  obtain s :: mstate and ps where "kheap s ps" "length ps = 767" "KERN_BASE \<notin> set ps"
    using boot_heap by blast
  then show ?thesis
    using destroy_without_user_page_twice_loops [of s ps] by (simp add: kernel_tables_def) blast
qed

end
