(* ===== verification/Tasks.thy ===== *)
theory Tasks
  imports FileIO Descriptors Teardown
begin

text \<open>
  The tasks of \<^verbatim>\<open>proc.c\<close>: the table of 1024 task structures, creation and destruction, the frames
  put on a new kernel stack, the switch to another task, the scheduler's search, sleeping and waking.
  A \<^verbatim>\<open>struct task_struct *\<close> is an index into the table and NULL is \<open>None\<close>. The kernel runs with
  interrupts off (all gates are interrupt gates and no C code executes \<^verbatim>\<open>sti\<close>), so each operation
  runs to its end, or to the switch inside it, without anything in between.
\<close>

datatype procstate = UNUSED | EMBRYO | SLEEPING | RUNNABLE | RUNNING | ZOMBIE

record task_struct =
  t_context :: u32
  t_pid :: int
  t_state :: procstate
  t_pgdir :: u32
  t_kstack :: u32
  t_open_files :: "file_ref option list"
  t_parent :: "nat option"

text \<open>The globals of \<^verbatim>\<open>proc.c\<close> and the ones it uses: \<^verbatim>\<open>kpgdir\<close>, the set fields of \<^verbatim>\<open>task_state\<close>, \<^verbatim>\<open>ticks\<close>.\<close>

record k_state = fs_state +
  tasks :: "task_struct list"
  curr_task :: nat
  scheduler_task :: nat
  zombie_exists :: bool
  kpgdir :: u32
  tss_ss0 :: u32
  tss_esp0 :: u32
  tss_iomb :: u32
  ticks :: u32

definition MAX_TASKS :: nat where "MAX_TASKS = 1024"
definition MAX_OPEN_FILES :: nat where "MAX_OPEN_FILES = 8"
definition FL_IF :: u32 where "FL_IF = 0x200"

definition KSTACK_TOP :: "u32 \<Rightarrow> u32" where
  "KSTACK_TOP kstack = kstack + PGSIZE - 4"

definition zero_task :: task_struct where
  "zero_task = \<lparr>t_context = NULL, t_pid = 0, t_state = UNUSED, t_pgdir = NULL, t_kstack = NULL,
     t_open_files = replicate MAX_OPEN_FILES None, t_parent = None\<rparr>"

definition upd_task :: "'z k_state_scheme \<Rightarrow> nat \<Rightarrow> (task_struct \<Rightarrow> task_struct) \<Rightarrow> 'z k_state_scheme" where
  "upd_task s i g = s\<lparr>tasks := (tasks s)[i := g (tasks s ! i)]\<rparr>"

abbreviation state_of :: "'z k_state_scheme \<Rightarrow> nat \<Rightarrow> procstate" where
  "state_of s i \<equiv> t_state (tasks s ! i)"

section \<open>Initialisation and creation\<close>

definition init_tasks :: "'z k_state_scheme \<Rightarrow> 'z k_state_scheme" where
  "init_tasks s =
     (let s = s\<lparr>tasks := replicate MAX_TASKS zero_task\<rparr>;
          s = s\<lparr>tasks := map (\<lambda>t. t\<lparr>t_state := UNUSED\<rparr>) (tasks s)\<rparr>;
          s = s\<lparr>scheduler_task := 0\<rparr>;
          s = s\<lparr>curr_task := scheduler_task s\<rparr>
      in upd_task s 0 (\<lambda>t. t\<lparr>t_state := RUNNING, t_context := NULL, t_kstack := NULL, t_pgdir := kpgdir s,
           t_pid := 0\<rparr>))"

fun unused_task :: "task_struct list \<Rightarrow> nat \<Rightarrow> nat option" where
  "unused_task [] i = None"
| "unused_task (t # ts) i = (if t_state t = UNUSED then Some i else unused_task ts (Suc i))"

definition alloc_task :: "'z k_state_scheme \<Rightarrow> (nat option \<times> 'z k_state_scheme) outcome" where
  "alloc_task s =
     (case unused_task (tasks s) 0 of
        None \<Rightarrow> bnd (puts s (arr (kstr ''No empty task slot'' @ [0]))) (\<lambda>(_, s). Ok (None, s))
      | Some i \<Rightarrow>
          let s = upd_task s i (\<lambda>t. t\<lparr>t_pid := int i\<rparr>)
          in bnd (kmalloc s) (\<lambda>(p, s).
          let s = upd_task s i (\<lambda>t. t\<lparr>t_kstack := p\<rparr>)
          in if p = NULL
             then bnd (puts s (arr (kstr ''Out of memory for kstack'' @ [0]))) (\<lambda>(_, s). Ok (None, s))
             else bnd (map_kernel s) (\<lambda>(pgdir, s).
               Ok (Some i, upd_task s i (\<lambda>t. t\<lparr>t_pgdir := pgdir\<rparr>)))))"

definition destroy_task :: "'z k_state_scheme \<Rightarrow> nat \<Rightarrow> 'z k_state_scheme outcome" where
  "destroy_task s i =
     (let s = upd_task s i (\<lambda>t. t\<lparr>t_context := NULL\<rparr>);
          s = upd_task s i (\<lambda>t. t\<lparr>t_pid := 0\<rparr>);
          s = upd_task s i (\<lambda>t. t\<lparr>t_state := UNUSED\<rparr>)
      in bnd (destroy_address_space s (t_pgdir (tasks s ! i))) (\<lambda>s.
      let s = upd_task s i (\<lambda>t. t\<lparr>t_pgdir := NULL\<rparr>)
      in bnd (kfree s (t_kstack (tasks s ! i))) (\<lambda>s.
      let s = upd_task s i (\<lambda>t. t\<lparr>t_kstack := NULL\<rparr>);
          s = upd_task s i (\<lambda>t. t\<lparr>t_parent := None\<rparr>)
      in Ok (upd_task s i (\<lambda>t. t\<lparr>t_open_files := replicate MAX_OPEN_FILES None\<rparr>)))))"

definition reap_round :: "nat \<Rightarrow> 'z k_state_scheme \<Rightarrow> 'z k_state_scheme outcome" where
  "reap_round i s =
     (if \<not> (t_parent (tasks s ! i) = Some (curr_task s) \<and> state_of s i = ZOMBIE) then Ok s
      else if state_of s (curr_task s) = SLEEPING then Ok s
      else destroy_task s i)"

definition kill_off_zombies :: "'z k_state_scheme \<Rightarrow> 'z k_state_scheme outcome" where
  "kill_off_zombies s =
     (if \<not> zombie_exists s then Ok s
      else bnd (loop_from 0 MAX_TASKS reap_round s) (\<lambda>s. Ok (s\<lparr>zombie_exists := False\<rparr>)))"

section \<open>The frames of a new task\<close>

text \<open>
  \<^verbatim>\<open>struct int_regs\<close> has 76 bytes: the registers of \<^verbatim>\<open>pushad\<close> (\<^verbatim>\<open>struct regs\<close>, 32 bytes, \<^verbatim>\<open>eax\<close> last),
  then the fields at the offsets below. \<^verbatim>\<open>struct context\<close> is \<^verbatim>\<open>struct regs\<close> and \<^verbatim>\<open>eip\<close>.
\<close>

definition sizeof_regs :: u32 where "sizeof_regs = 32"
definition sizeof_int_regs :: u32 where "sizeof_int_regs = 76"
definition sizeof_context :: u32 where "sizeof_context = 36"

definition eax_offset :: u32 where "eax_offset = 28"
definition es_offset :: u32 where "es_offset = 40"
definition ds_offset :: u32 where "ds_offset = 44"
definition vector_offset :: u32 where "vector_offset = 48"
definition eip_offset :: u32 where "eip_offset = 56"
definition cs_offset :: u32 where "cs_offset = 60"
definition eflags_offset :: u32 where "eflags_offset = 64"
definition esp_offset :: u32 where "esp_offset = 68"
definition ss_offset :: u32 where "ss_offset = 72"

definition user_selector :: "nat \<Rightarrow> u16" where
  "user_selector seg = push_bit 3 (of_nat seg) OR ucast DPL_USER"

definition build_int_frame :: "mem \<Rightarrow> u32 \<Rightarrow> u32 \<Rightarrow> mem" where
  "build_int_frame m p start =
     (let m = memset m p 0 sizeof_int_regs;
          m = store16 m (p + ds_offset) (user_selector USER_DATA_SEG);
          m = store16 m (p + es_offset) (user_selector USER_DATA_SEG);
          m = store32 m (p + eip_offset) start;
          m = store16 m (p + cs_offset) (user_selector USER_CODE_SEG);
          m = store32 m (p + eflags_offset) FL_IF;
          m = store32 m (p + esp_offset) (PGSIZE - 8)
      in store16 m (p + ss_offset) (user_selector USER_DATA_SEG))"

text \<open>\<open>site\<close> is the address of \<^verbatim>\<open>ret_to_int_site\<close> of \<^verbatim>\<open>int_common.asm\<close>.\<close>

definition build_context :: "u32 \<Rightarrow> mem \<Rightarrow> u32 \<Rightarrow> mem" where
  "build_context site m p = store32 (memset m p 0 sizeof_context) (p + sizeof_regs) site"

section \<open>Switching and scheduling\<close>

text \<open>
  \<^verbatim>\<open>context_switch\<close> of \<^verbatim>\<open>context_switch.asm\<close>: reads the next task's context, saves the stack pointer
  \<open>sp\<close> (after \<^verbatim>\<open>pushad\<close>; where the running code's stack is at that moment is the compiler's choice, so
  it is an argument) and makes the next task current. The first component of the result is the context
  the processor pops its registers and \<^verbatim>\<open>eip\<close> from.
\<close>

definition context_switch :: "'z k_state_scheme \<Rightarrow> nat \<Rightarrow> u32 \<Rightarrow> u32 \<times> 'z k_state_scheme" where
  "context_switch s next_task sp =
     (let ctx = t_context (tasks s ! next_task);
          s = upd_task s (curr_task s) (\<lambda>t. t\<lparr>t_context := sp\<rparr>)
      in (ctx, s\<lparr>curr_task := next_task\<rparr>))"

definition switch_to :: "'z k_state_scheme \<Rightarrow> nat \<Rightarrow> u32 \<Rightarrow> u32 \<times> 'z k_state_scheme" where
  "switch_to s next_task sp =
     (let s = s\<lparr>tss_ss0 := of_nat (KERN_DATA_SEG * 8)\<rparr>;
          s = s\<lparr>tss_esp0 := KSTACK_TOP (t_kstack (tasks s ! next_task))\<rparr>;
          s = s\<lparr>tss_iomb := sizeof_taskstate\<rparr>;
          s = lcr3 s (t_pgdir (tasks s ! next_task));
          s = (if state_of s (curr_task s) = RUNNING
               then upd_task s (curr_task s) (\<lambda>t. t\<lparr>t_state := RUNNABLE\<rparr>) else s);
          s = upd_task s next_task (\<lambda>t. t\<lparr>t_state := RUNNING\<rparr>)
      in context_switch s next_task sp)"

text \<open>
  The search of \<^verbatim>\<open>schedule\<close> from index \<open>i\<close>. Nothing changes while it searches, so a full round of the
  table without a RUNNABLE task means that the loop never ends. When the scheduler is resumed, its
  loop goes on at the next index.
\<close>

fun next_runnable :: "nat \<Rightarrow> task_struct list \<Rightarrow> nat \<Rightarrow> nat option" where
  "next_runnable 0 ts i = None"
| "next_runnable (Suc fuel) ts i =
     (if t_state (ts ! i) = RUNNABLE then Some i else next_runnable fuel ts ((i + 1) mod MAX_TASKS))"

definition schedule_from :: "'z k_state_scheme \<Rightarrow> nat \<Rightarrow> u32 \<Rightarrow> (nat \<times> u32 \<times> 'z k_state_scheme) outcome" where
  "schedule_from s i sp =
     (case next_runnable MAX_TASKS (tasks s) i of None \<Rightarrow> Diverge | Some j \<Rightarrow> Ok (j, switch_to s j sp))"

definition sleep :: "'z k_state_scheme \<Rightarrow> u32 \<Rightarrow> (u32 \<times> 'z k_state_scheme) outcome" where
  "sleep s sp =
     (if curr_task s = scheduler_task s then Panic ''sleep: Sleep scheduler''
      else let s = upd_task s (curr_task s) (\<lambda>t. t\<lparr>t_state := SLEEPING\<rparr>)
      in Ok (switch_to s (scheduler_task s) sp))"

definition wakeup_parent :: "'z k_state_scheme \<Rightarrow> 'z k_state_scheme outcome" where
  "wakeup_parent s =
     (case t_parent (tasks s ! curr_task s) of
        None \<Rightarrow> Panic ''wakeup_parent: No parent to wakeup''
      | Some p \<Rightarrow> if state_of s p = SLEEPING then Ok (upd_task s p (\<lambda>t. t\<lparr>t_state := RUNNABLE\<rparr>)) else Ok s)"

section \<open>The search of the scheduler\<close>

lemma next_runnable_Some:
  "next_runnable n ts i = Some j \<Longrightarrow> i < MAX_TASKS \<Longrightarrow>
   \<exists>k < n. j = (i + k) mod MAX_TASKS \<and> t_state (ts ! j) = RUNNABLE \<and>
     (\<forall>l < k. t_state (ts ! ((i + l) mod MAX_TASKS)) \<noteq> RUNNABLE)"
proof (induction n arbitrary: i)
  case (Suc n)
  show ?case
  proof (cases "t_state (ts ! i) = RUNNABLE")
    case True
    then show ?thesis using Suc.prems by (intro exI [of _ 0]) simp
  next
    case False
    have "(i + 1) mod MAX_TASKS < MAX_TASKS" by (simp add: MAX_TASKS_def)
    then obtain k where k: "k < n" "j = ((i + 1) mod MAX_TASKS + k) mod MAX_TASKS"
        "t_state (ts ! j) = RUNNABLE"
        "\<forall>l < k. t_state (ts ! (((i + 1) mod MAX_TASKS + l) mod MAX_TASKS)) \<noteq> RUNNABLE"
      using Suc.IH [of "(i + 1) mod MAX_TASKS"] Suc.prems False by auto
    have sh: "((i + 1) mod MAX_TASKS + l) mod MAX_TASKS = (i + Suc l) mod MAX_TASKS" for l
      by (simp add: mod_add_left_eq)
    have "t_state (ts ! ((i + l) mod MAX_TASKS)) \<noteq> RUNNABLE" if "l < Suc k" for l
      using that False k(4) Suc.prems(2) sh by (cases l) auto
    then show ?thesis using k sh by (intro exI [of _ "Suc k"]) auto
  qed
qed simp

lemma next_runnable_None:
  "next_runnable n ts i = None \<Longrightarrow> i < MAX_TASKS \<Longrightarrow> k < n \<Longrightarrow>
   t_state (ts ! ((i + k) mod MAX_TASKS)) \<noteq> RUNNABLE"
proof (induction n arbitrary: i k)
  case (Suc n)
  have "((i + 1) mod MAX_TASKS + l) mod MAX_TASKS = (i + Suc l) mod MAX_TASKS" for l
    by (simp add: mod_add_left_eq)
  moreover have "(i + 1) mod MAX_TASKS < MAX_TASKS" by (simp add: MAX_TASKS_def)
  ultimately show ?case
    using Suc.IH [of "(i + 1) mod MAX_TASKS" "k - 1"] Suc.prems by (cases k) (auto split: if_splits)
qed simp

text \<open>Every index is reached within one round.\<close>

definition ahead :: "nat \<Rightarrow> nat \<Rightarrow> nat" where
  "ahead i j = (j + MAX_TASKS - i) mod MAX_TASKS"

lemma ahead_reaches: "i < MAX_TASKS \<Longrightarrow> j < MAX_TASKS \<Longrightarrow> (i + ahead i j) mod MAX_TASKS = j"
  by (simp add: ahead_def mod_add_right_eq)

lemma ahead_lt: "ahead i j < MAX_TASKS"
  by (simp add: ahead_def MAX_TASKS_def)

lemma next_runnable_ex:
  assumes "i < MAX_TASKS" and "j < MAX_TASKS" and "t_state (ts ! j) = RUNNABLE"
  shows "\<exists>j'. next_runnable MAX_TASKS ts i = Some j'"
proof (cases "next_runnable MAX_TASKS ts i")
  case None
  then show ?thesis
    using next_runnable_None [OF None assms(1) ahead_lt] assms ahead_reaches by metis
qed simp

section \<open>Frames\<close>

lemma store32_zero_apply:
  assumes "unat a + 4 \<le> 4294967296"
  shows "store32 m a 0 x = (if unat a \<le> unat x \<and> unat x < unat a + 4 then 0 else m x)"
proof -
  have eq: "x = a + of_nat n \<longleftrightarrow> unat x = unat a + n" if "n < 4" for n
    using unat_add_lt [of a n] assms that by (auto simp: word_unat_eq_iff)
  have "store32 m a 0 x = (if x = a \<or> x = a + 1 \<or> x = a + 2 \<or> x = a + 3 then 0 else m x)"
    by (simp add: store32_def)
  moreover have "x = a \<or> x = a + 1 \<or> x = a + 2 \<or> x = a + 3 \<longleftrightarrow>
      unat x = unat a \<or> unat x = unat a + 1 \<or> unat x = unat a + 2 \<or> unat x = unat a + 3"
    using eq [of 0] eq [of 1] eq [of 2] eq [of 3] by simp
  moreover have "\<dots> \<longleftrightarrow> unat a \<le> unat x \<and> unat x < unat a + 4" by auto
  ultimately show ?thesis by simp
qed

lemma memset_zero_words:
  fixes p :: u32
  assumes "unat p + 4 * k \<le> 4294967296"
  shows "fold (\<lambda>i m. store32 m (p + of_nat (4 * i)) 0) [0..<k] m x =
    (if unat p \<le> unat x \<and> unat x < unat p + 4 * k then 0 else m x)"
  using assms
proof (induction k)
  case (Suc k)
  have un: "unat (p + of_nat (4 * k)) = unat p + 4 * k"
    by (rule unat_add_lt) (use Suc.prems in simp)
  show ?case
    using Suc unfolding fold_upt_Suc by (subst store32_zero_apply) (auto simp: un simp del: of_nat_mult)
qed auto

lemma memset_zero_apply:
  "unat p + unat n \<le> 4294967296 \<Longrightarrow> unat n mod 4 = 0 \<Longrightarrow>
   memset m p 0 n x = (if unat p \<le> unat x \<and> unat x < unat p + unat n then 0 else m x)"
proof -
  assume a: "unat p + unat n \<le> 4294967296" "unat n mod 4 = 0"
  then have "4 * (unat n div 4) = unat n" using mult_div_mod_eq [of 4 "unat n"] by simp
  then show ?thesis
    using memset_zero_words [of p "unat n div 4" m x] a(1) by (simp add: memset_def del: of_nat_mult)
qed

text \<open>Accesses at different offsets of one structure do not interfere.\<close>

definition apart :: "u32 \<Rightarrow> nat \<Rightarrow> u32 \<Rightarrow> nat \<Rightarrow> bool" where
  "apart a n b k \<longleftrightarrow> (\<forall>i < n. \<forall>j < k. a + of_nat i \<noteq> b + of_nat j)"

lemma apart_offsets:
  assumes "x + n \<le> y \<or> y + k \<le> x" and "x + n \<le> 4294967296" and "y + k \<le> 4294967296"
  shows "apart (p + of_nat x) n (p + of_nat y) k"
  unfolding apart_def
proof (intro allI impI notI)
  fix i j assume ij: "i < n" "j < k" "p + of_nat x + of_nat i = p + of_nat y + of_nat j"
  then have "(of_nat (x + i) :: u32) = of_nat (y + j)" by (simp add: add.assoc)
  then have "unat (0 + of_nat (x + i) :: u32) = unat (0 + of_nat (y + j) :: u32)" by simp
  then have "x + i = y + j"
    using unat_add_lt [of 0 "x + i"] unat_add_lt [of 0 "y + j"] ij assms by simp
  then show False using assms(1) ij by linarith
qed

lemma all_less_4: "(\<forall>i < 4. P (i :: nat)) \<longleftrightarrow> P 0 \<and> P 1 \<and> P 2 \<and> P 3"
  by (auto simp: numeral_2_eq_2 numeral_3_eq_3 less_Suc_eq eval_nat_numeral)

lemma all_less_2: "(\<forall>i < 2. P (i :: nat)) \<longleftrightarrow> P 0 \<and> P 1"
  by (auto simp: numeral_2_eq_2 less_Suc_eq)

lemma load_store_apart:
  "apart a 4 b 4 \<Longrightarrow> load32 (store32 m b v) a = load32 m a"
  "apart a 4 b 2 \<Longrightarrow> load32 (store16 m b w) a = load32 m a"
  "apart a 2 b 4 \<Longrightarrow> load16 (store32 m b v) a = load16 m a"
  "apart a 2 b 2 \<Longrightarrow> load16 (store16 m b w) a = load16 m a"
  by (simp_all add: apart_def all_less_4 all_less_2 load32_def load16_def store32_def store16_def)

lemma store_apart:
  "apart x 1 b 4 \<Longrightarrow> store32 m b v x = m x"
  "apart x 1 b 2 \<Longrightarrow> store16 m b w x = m x"
  by (simp_all add: apart_def all_less_4 all_less_2 store32_def store16_def)

lemmas frame_offsets = eip_offset_def cs_offset_def eflags_offset_def esp_offset_def ss_offset_def
  ds_offset_def es_offset_def eax_offset_def vector_offset_def

lemma apart_frame_offsets:
  "x \<noteq> y \<Longrightarrow> x \<in> {28, 40, 44, 48, 56, 60, 64, 68, 72} \<Longrightarrow> y \<in> {28, 40, 44, 48, 56, 60, 64, 68, 72} \<Longrightarrow>
   n \<le> 4 \<Longrightarrow> k \<le> 4 \<Longrightarrow> apart (p + of_nat x) n (p + of_nat y) k"
  by (rule apart_offsets) auto

text \<open>The fields of the frame that are not zero.\<close>

lemma frame_zero:
  assumes "unat p + 76 \<le> 4294967296"
  shows "memset m p 0 sizeof_int_regs x = (if unat p \<le> unat x \<and> unat x < unat p + 76 then 0 else m x)"
  using memset_zero_apply [of p sizeof_int_regs m x] assms by (simp add: sizeof_int_regs_def)

lemma selector_values: "user_selector USER_DATA_SEG = 0x1b" "user_selector USER_CODE_SEG = 0x23"
  by (simp_all add: user_selector_def USER_DATA_SEG_def USER_CODE_SEG_def DPL_USER_def)

lemma build_int_frame_fields:
  "load32 (build_int_frame m p start) (p + eip_offset) = start"
  "load16 (build_int_frame m p start) (p + cs_offset) = 0x23"
  "load32 (build_int_frame m p start) (p + eflags_offset) = FL_IF"
  "load32 (build_int_frame m p start) (p + esp_offset) = PGSIZE - 8"
  "load16 (build_int_frame m p start) (p + ss_offset) = 0x1b"
  "load16 (build_int_frame m p start) (p + ds_offset) = 0x1b"
  "load16 (build_int_frame m p start) (p + es_offset) = 0x1b"
proof -
  note A = apart_frame_offsets [of 56 _ _ _ p] apart_frame_offsets [of 60 _ _ _ p] apart_frame_offsets [of 64 _ _ _ p]
    apart_frame_offsets [of 68 _ _ _ p] apart_frame_offsets [of 72 _ _ _ p] apart_frame_offsets [of 44 _ _ _ p]
    apart_frame_offsets [of 40 _ _ _ p]
  note B = A [of 56] A [of 60] A [of 64] A [of 68] A [of 72] A [of 44] A [of 40]
  show "load32 (build_int_frame m p start) (p + eip_offset) = start"
    "load16 (build_int_frame m p start) (p + cs_offset) = 0x23"
    "load32 (build_int_frame m p start) (p + eflags_offset) = FL_IF"
    "load32 (build_int_frame m p start) (p + esp_offset) = PGSIZE - 8"
    "load16 (build_int_frame m p start) (p + ss_offset) = 0x1b"
    "load16 (build_int_frame m p start) (p + ds_offset) = 0x1b"
    "load16 (build_int_frame m p start) (p + es_offset) = 0x1b"
    unfolding build_int_frame_def Let_def selector_values frame_offsets
    by (simp_all add: load_store_apart B [simplified])
qed

lemma apart_byte: "k + 1 \<le> y \<or> y + n \<le> k \<Longrightarrow> k < 76 \<Longrightarrow> y + n \<le> 76 \<Longrightarrow> apart (p + of_nat k) 1 (p + of_nat y) n"
  by (rule apart_offsets) auto

lemma apart_outside:
  assumes "unat p + 76 \<le> 4294967296" and "unat x < unat p \<or> unat p + 76 \<le> unat x" and "y + n \<le> 76"
  shows "apart x 1 (p + of_nat y) n"
  unfolding apart_def
proof (intro allI impI)
  fix i j :: nat assume "i < 1" "j < n"
  then have "unat (p + of_nat (y + j)) = unat p + (y + j)" using assms(1,3) by (intro unat_add_lt) simp
  then show "x + of_nat i \<noteq> p + of_nat y + of_nat j"
    using assms(2,3) \<open>i < 1\<close> \<open>j < n\<close> by (auto simp: add.assoc)
qed

text \<open>The fields \<^verbatim>\<open>build_int_frame\<close> sets after clearing the frame, as offset and size.\<close>

definition frame_fields :: "(nat \<times> nat) list" where
  "frame_fields = [(44, 2), (40, 2), (56, 4), (60, 2), (64, 4), (68, 4), (72, 2)]"

definition frame_field_bytes :: "nat list" where
  "frame_field_bytes = concat (map (\<lambda>(y, n). [y..<y + n]) frame_fields)"

lemma field_apart:
  assumes yn: "(y, n) \<in> set frame_fields" and k: "k < 76" "k \<notin> set frame_field_bytes"
  shows "apart (p + of_nat k) 1 (p + of_nat y) n"
proof (rule apart_byte)
  have "k \<notin> {y..<y + n}" using yn k(2) by (force simp: frame_field_bytes_def)
  then show "k + 1 \<le> y \<or> y + n \<le> k" by auto
  show "y + n \<le> 76" using yn by (auto simp: frame_fields_def)
qed (rule k(1))

lemma build_int_frame_bytes:
  assumes p: "unat p + 76 \<le> 4294967296"
  shows "k < 76 \<Longrightarrow> k \<notin> set frame_field_bytes \<Longrightarrow> build_int_frame m p start (p + of_nat k) = 0"
    and "unat x < unat p \<or> unat p + 76 \<le> unat x \<Longrightarrow> build_int_frame m p start x = m x"
proof -
  assume k: "k < 76" "k \<notin> set frame_field_bytes"
  have "unat (p + of_nat k) = unat p + k" using p k(1) by (intro unat_add_lt) simp
  then have z: "memset m p 0 sizeof_int_regs (p + of_nat k) = 0" using k(1) by (simp add: frame_zero [OF p])
  note B [unfolded frame_fields_def] = field_apart [OF _ k, of 44 2 p] field_apart [OF _ k, of 40 2 p] field_apart [OF _ k, of 56 4 p]
    field_apart [OF _ k, of 60 2 p] field_apart [OF _ k, of 64 4 p] field_apart [OF _ k, of 68 4 p]
    field_apart [OF _ k, of 72 2 p]
  show "build_int_frame m p start (p + of_nat k) = 0"
    unfolding build_int_frame_def Let_def frame_offsets
    by (simp add: store_apart B [simplified] z)
next
  assume x: "unat x < unat p \<or> unat p + 76 \<le> unat x"
  note B = apart_outside [OF p x, of 44 2] apart_outside [OF p x, of 40 2] apart_outside [OF p x, of 56 4]
    apart_outside [OF p x, of 60 2] apart_outside [OF p x, of 64 4] apart_outside [OF p x, of 68 4]
    apart_outside [OF p x, of 72 2]
  show "build_int_frame m p start x = m x"
    using x unfolding build_int_frame_def Let_def frame_offsets
    by (auto simp: store_apart B [simplified] frame_zero [OF p])
qed

text \<open>The context below the frame: all registers zero, \<^verbatim>\<open>eip\<close> last.\<close>

lemma build_context_fields:
  assumes p: "unat p + 36 \<le> 4294967296"
  shows "load32 (build_context site m p) (p + sizeof_regs) = site"
    and "k < 32 \<Longrightarrow> build_context site m p (p + of_nat k) = 0"
    and "unat x < unat p \<or> unat p + 36 \<le> unat x \<Longrightarrow> build_context site m p x = m x"
proof -
  have z: "memset m p 0 sizeof_context y = (if unat p \<le> unat y \<and> unat y < unat p + 36 then 0 else m y)" for y
    using memset_zero_apply [of p sizeof_context m y] p by (simp add: sizeof_context_def)
  show "load32 (build_context site m p) (p + sizeof_regs) = site" by (simp add: build_context_def)
  show "build_context site m p (p + of_nat k) = 0" if "k < 32"
  proof -
    have "apart (p + of_nat k) 1 (p + of_nat 32) 4" using that by (intro apart_byte) auto
    moreover have "unat (p + of_nat k) = unat p + k" using p that by (intro unat_add_lt) simp
    ultimately show ?thesis using that by (simp add: build_context_def sizeof_regs_def store_apart z)
  qed
  show "build_context site m p x = m x" if x: "unat x < unat p \<or> unat p + 36 \<le> unat x"
  proof -
    have "apart x 1 (p + of_nat 32) 4"
      unfolding apart_def
    proof (intro allI impI)
      fix i j :: nat assume "i < 1" "j < 4"
      then have "unat (p + of_nat (32 + j)) = unat p + (32 + j)" using p by (intro unat_add_lt) simp
      then show "x + of_nat i \<noteq> p + of_nat 32 + of_nat j"
        using x \<open>i < 1\<close> \<open>j < 4\<close> by (auto simp: add.assoc)
    qed
    then show ?thesis using x by (auto simp: build_context_def sizeof_regs_def store_apart z)
  qed
qed

section \<open>Creating and destroying tasks\<close>

lemma upd_task_simps [simp]:
  "tasks (upd_task s i g) = (tasks s)[i := g (tasks s ! i)]"
  "mem (upd_task s i g) = mem s" "free_pages (upd_task s i g) = free_pages s"
  "cr3 (upd_task s i g) = cr3 s" "curr_task (upd_task s i g) = curr_task s"
  "scheduler_task (upd_task s i g) = scheduler_task s" "zombie_exists (upd_task s i g) = zombie_exists s"
  "filesystem (upd_task s i g) = filesystem s" "console_file (upd_task s i g) = console_file s"
  "kpgdir (upd_task s i g) = kpgdir s" "curr_pgdir (upd_task s i g) = curr_pgdir s"
  "kheap (upd_task s i g) ps = kheap s ps" "aspace_ok (upd_task s i g) pd ps = aspace_ok s pd ps"
  "free_slots pd (upd_task s i g) = free_slots pd s"
  "port_in (upd_task s i g) = port_in s" "port_out (upd_task s i g) = port_out s"
  by (simp_all add: upd_task_def kheap_def aspace_ok_def free_slots_def curr_pgdir_def)

text \<open>The fields of the tasks are left alone by code that works on memory alone.\<close>

lemma k_more:
  fixes s s' :: "'z k_state_scheme"
  assumes "mstate.more s' = mstate.more s"
  shows "tasks s' = tasks s" "curr_task s' = curr_task s" "scheduler_task s' = scheduler_task s"
    "zombie_exists s' = zombie_exists s" "kpgdir s' = kpgdir s" "filesystem s' = filesystem s"
    "console_file s' = console_file s" "k_state.more s' = k_state.more s"
    "port_in s' = port_in s" "port_out s' = port_out s"
  by (use assms in \<open>cases s; cases s'; simp\<close>)+

lemma unused_task_spec:
  "unused_task ts k = Some i \<Longrightarrow> k \<le> i \<and> i - k < length ts \<and> t_state (ts ! (i - k)) = UNUSED \<and>
    (\<forall>j < i - k. t_state (ts ! j) \<noteq> UNUSED)"
proof (induction ts arbitrary: k)
  case (Cons t ts)
  show ?case
  proof (cases "t_state t = UNUSED")
    case False
    then have IH: "Suc k \<le> i \<and> i - Suc k < length ts \<and> t_state (ts ! (i - Suc k)) = UNUSED \<and>
        (\<forall>j < i - Suc k. t_state (ts ! j) \<noteq> UNUSED)"
      using Cons by simp
    then have e: "i - k = Suc (i - Suc k)" by (elim conjE) linarith
    show ?thesis
      unfolding e using IH False by (auto simp: nth_Cons split: nat.splits)
  next
    case True
    then show ?thesis using Cons.prems by simp
  qed
qed simp

lemma unused_task_None: "unused_task ts k = None \<longleftrightarrow> (\<forall>t \<in> set ts. t_state t \<noteq> UNUSED)"
  by (induction ts arbitrary: k) auto

text \<open>
  A successful \<^verbatim>\<open>alloc_task\<close>: the first page of the free list is the kernel stack, the second the
  directory, the next \<open>kernel_tables\<close> the page tables of the kernel's ranges.
\<close>

lemma alloc_task_spec:
  assumes h: "kheap s (stk # pd # ps)" and len: "kernel_tables \<le> length ps"
    and i: "unused_task (tasks s) 0 = Some i"
  shows "\<exists>s'. alloc_task s = Ok (Some i, s') \<and> aspace_ok s' pd (drop kernel_tables ps) \<and>
    tables (mem s') pd = insert pd (set (take kernel_tables ps)) \<and>
    free_slots pd s' = {..<1024} - ({0} \<union> {768..<1024}) \<and>
    (\<forall>w < 1048576. page_entry (mem s') pd w = kernel_entry w) \<and>
    changes_only (pgno ` tables (mem s') pd) (mem s) (mem s') \<and> cr3 s' = cr3 s \<and>
    tasks s' = (tasks s)[i := (tasks s ! i)\<lparr>t_pid := int i, t_kstack := stk, t_pgdir := pd\<rparr>] \<and>
    curr_task s' = curr_task s \<and> scheduler_task s' = scheduler_task s \<and> zombie_exists s' = zombie_exists s \<and>
    filesystem s' = filesystem s \<and> port_in s' = port_in s \<and> port_out s' = port_out s"
proof -
  have lt: "i < length (tasks s)" using unused_task_spec [OF i] by simp
  let ?s1 = "upd_task s i (\<lambda>t. t\<lparr>t_pid := int i\<rparr>)"
  obtain s2 where s2: "kmalloc ?s1 = Ok (stk, s2)" "kheap s2 (pd # ps)"
    using kmalloc_heap [of ?s1 stk "pd # ps"] h by auto
  note F2 = kmalloc_fields [OF s2(1)] k_more [OF kmalloc_fields(3) [OF s2(1)]]
  let ?s3 = "upd_task s2 i (\<lambda>t. t\<lparr>t_kstack := stk\<rparr>)"
  obtain s4 where s4: "map_kernel ?s3 = Ok (pd, s4)" "aspace_ok s4 pd (drop kernel_tables ps)"
      "tables (mem s4) pd = insert pd (set (take kernel_tables ps))"
      "free_slots pd s4 = {..<1024} - ({0} \<union> {768..<1024})"
      "\<forall>w < 1048576. page_entry (mem s4) pd w = kernel_entry w"
      "changes_only (pgno ` tables (mem s4) pd) (mem ?s3) (mem s4)"
      "cr3 s4 = cr3 ?s3" "mstate.more s4 = mstate.more ?s3"
    using map_kernel_spec [of ?s3 pd ps] s2(2) len by auto
  note F4 = k_more [OF s4(8)]
  have nn: "stk \<noteq> NULL" using kheap_page [OF h] by simp
  let ?s' = "upd_task s4 i (\<lambda>t. t\<lparr>t_pgdir := pd\<rparr>)"
  have "alloc_task s = Ok (Some i, ?s')"
    using i s2(1) s4(1) nn by (simp add: alloc_task_def)
  moreover have "tasks ?s' = (tasks s)[i := (tasks s ! i)\<lparr>t_pid := int i, t_kstack := stk, t_pgdir := pd\<rparr>]"
    using lt F2 F4 by simp
  ultimately show ?thesis
    using s4 F2 F4 by (intro exI [of _ ?s']) simp
qed

lemma alloc_task_full:
  assumes "\<forall>t \<in> set (tasks s). t_state t \<noteq> UNUSED"
  shows "alloc_task s = bnd (puts s (arr (kstr ''No empty task slot'' @ [0]))) (\<lambda>(_, s). Ok (None, s))"
  using assms unused_task_None [of "tasks s" 0] by (simp add: alloc_task_def)

lemma kfree_cr3: "kfree s p = Ok s' \<Longrightarrow> cr3 s' = cr3 s"
  by (auto simp: kfree_def Let_def split: if_splits)

lemma cleared_task:
  "(t :: task_struct)\<lparr>t_context := NULL, t_pid := 0, t_state := UNUSED, t_pgdir := NULL, t_kstack := NULL,
     t_parent := None, t_open_files := replicate MAX_OPEN_FILES None\<rparr> = zero_task"
  by (cases t) (simp add: zero_task_def)

text \<open>Destroying a task whose address space is whole.\<close>

lemma destroy_task_spec:
  assumes i: "i < length (tasks s)" and pd: "t_pgdir (tasks s ! i) = pd"
    and ok: "aspace_ok s pd ps" and nn: "NULL \<notin> tables (mem s) pd"
    and e: "page_entry (mem s) pd 0 = Some e"
    and u: "u = PHYS_TO_VIRT (frame e)" "u \<noteq> NULL" "u \<notin> set ps" "u \<notin> tables (mem s) pd"
    and stk: "t_kstack (tasks s ! i) = stk" "page_aligned stk" "stk \<noteq> NULL"
      "stk \<notin> insert u (set ps \<union> tables (mem s) pd)"
  shows "\<exists>s'. destroy_task s i = Ok s' \<and>
    kheap s' (stk # pd # rev (slot_tables (mem s) pd 1024) @ u # ps) \<and>
    changes_only (insert (pgno stk) (insert (pgno u) (pgno ` tables (mem s) pd))) (mem s) (mem s') \<and>
    cr3 s' = cr3 s \<and> tasks s' = (tasks s)[i := zero_task] \<and> curr_task s' = curr_task s \<and>
    scheduler_task s' = scheduler_task s \<and> zombie_exists s' = zombie_exists s \<and> filesystem s' = filesystem s"
proof -
  let ?s1 = "upd_task (upd_task (upd_task s i (\<lambda>t. t\<lparr>t_context := NULL\<rparr>)) i (\<lambda>t. t\<lparr>t_pid := 0\<rparr>)) i
    (\<lambda>t. t\<lparr>t_state := UNUSED\<rparr>)"
  have ok1: "aspace_ok ?s1 pd ps" "mem ?s1 = mem s" using ok by simp_all
  obtain s2 where s2: "destroy_address_space ?s1 pd = Ok s2"
      "kheap s2 (pd # rev (slot_tables (mem s) pd 1024) @ u # ps)"
      "changes_only (insert (pgno u) (pgno ` tables (mem s) pd)) (mem s) (mem s2)"
      "cr3 s2 = cr3 s" "mstate.more s2 = mstate.more ?s1"
    using destroy_address_space_spec [OF ok1(1), unfolded ok1(2), OF nn e u] by auto
  note F2 = k_more [OF s2(5)]
  let ?s3 = "upd_task s2 i (\<lambda>t. t\<lparr>t_pgdir := NULL\<rparr>)"
  have k3: "t_kstack (tasks ?s3 ! i) = stk" using F2 i stk(1) by simp
  have "stk \<notin> set (pd # rev (slot_tables (mem s) pd 1024) @ u # ps)"
    using stk(4) tables_slot_tables [OF aspace_okD(2) [OF ok]] by auto
  then obtain s4 where s4: "kfree ?s3 stk = Ok s4"
      "kheap s4 (stk # pd # rev (slot_tables (mem s) pd 1024) @ u # ps)"
      "changes_only {pgno stk} (mem ?s3) (mem s4)" "mstate.more s4 = mstate.more ?s3"
    using kfree_heap [of ?s3 "pd # rev (slot_tables (mem s) pd 1024) @ u # ps" stk] s2(2) stk(2,3) by auto
  note F4 = k_more [OF s4(4)]
  have "destroy_task s i = Ok (upd_task (upd_task (upd_task s4 i (\<lambda>t. t\<lparr>t_kstack := NULL\<rparr>)) i
      (\<lambda>t. t\<lparr>t_parent := None\<rparr>)) i (\<lambda>t. t\<lparr>t_open_files := replicate MAX_OPEN_FILES None\<rparr>))"
    using s2(1) s4(1) k3 pd i by (simp add: destroy_task_def)
  moreover have "changes_only (insert (pgno stk) (insert (pgno u) (pgno ` tables (mem s) pd))) (mem s) (mem s4)"
    by (rule changes_only_trans [OF s2(3) s4(3) [simplified]]) auto
  ultimately show ?thesis
    using s4 s2(4) F2 F4 i kfree_cr3 [OF s4(1)] by (simp add: cleared_task)
qed

section \<open>The pages of a task\<close>

text \<open>
  What a live task holds: its kernel stack, the page mapped at address 0, its directory and page
  tables. \<open>task_ok\<close> says that these are whole and distinct.
\<close>

definition user_page :: "'z k_state_scheme \<Rightarrow> nat \<Rightarrow> u32" where
  "user_page s i = PHYS_TO_VIRT (frame (the (page_entry (mem s) (t_pgdir (tasks s ! i)) 0)))"

definition owned :: "'z k_state_scheme \<Rightarrow> nat \<Rightarrow> u32 set" where
  "owned s i = insert (t_kstack (tasks s ! i)) (insert (user_page s i)
     (tables (mem s) (t_pgdir (tasks s ! i))))"

definition task_ok :: "'z k_state_scheme \<Rightarrow> nat \<Rightarrow> bool" where
  "task_ok s i \<longleftrightarrow> pgdir_ok (mem s) (t_pgdir (tasks s ! i)) \<and> NULL \<notin> owned s i \<and>
     page_aligned (t_kstack (tasks s ! i)) \<and> page_entry (mem s) (t_pgdir (tasks s ! i)) 0 \<noteq> None \<and>
     t_kstack (tasks s ! i) \<notin> insert (user_page s i) (tables (mem s) (t_pgdir (tasks s ! i))) \<and>
     user_page s i \<notin> tables (mem s) (t_pgdir (tasks s ! i))"

lemma owned_aligned: "task_ok s i \<Longrightarrow> p \<in> owned s i \<Longrightarrow> page_aligned p"
  by (auto simp: task_ok_def owned_def user_page_def page_aligned_PHYS_TO_VIRT tables_aligned)

lemma tables_owned: "tables (mem s) (t_pgdir (tasks s ! i)) \<subseteq> owned s i"
  by (auto simp: owned_def)

text \<open>Changes elsewhere leave a task whole.\<close>

lemma task_ok_frame:
  assumes ok: "task_ok s i" and ch: "changes_only P (mem s) (mem s')" and P: "P \<inter> pgno ` owned s i = {}"
    and t: "tasks s' ! i = tasks s ! i"
  shows "task_ok s' i" and "owned s' i = owned s i"
proof -
  have pok: "pgdir_ok (mem s) (t_pgdir (tasks s ! i))" using ok by (simp add: task_ok_def)
  have off: "P \<inter> pgno ` tables (mem s) (t_pgdir (tasks s ! i)) = {}"
    using P tables_owned [of s i] by blast
  note F = pgdir_frame_ok [OF pok ch off] pgdir_frame_tables [OF pok ch off]
  have "page_entry (mem s') (t_pgdir (tasks s ! i)) 0 = page_entry (mem s) (t_pgdir (tasks s ! i)) 0"
    by (rule pgdir_frame_entry [OF pok ch off]) simp
  then show "task_ok s' i" "owned s' i = owned s i"
    using ok F by (simp_all add: task_ok_def owned_def user_page_def t)
qed

lemma destroy_task_owned:
  assumes i: "i < length (tasks s)" and ok: "task_ok s i" and h: "kheap s ps"
    and dj: "owned s i \<inter> set ps = {}"
  shows "\<exists>s' qs. destroy_task s i = Ok s' \<and> kheap s' qs \<and> mset qs = mset ps + mset_set (owned s i) \<and>
    changes_only (pgno ` owned s i) (mem s) (mem s') \<and> cr3 s' = cr3 s \<and>
    tasks s' = (tasks s)[i := zero_task] \<and> curr_task s' = curr_task s \<and>
    scheduler_task s' = scheduler_task s \<and> zombie_exists s' = zombie_exists s \<and> filesystem s' = filesystem s"
proof -
  let ?pd = "t_pgdir (tasks s ! i)" and ?u = "user_page s i" and ?k = "t_kstack (tasks s ! i)"
  let ?st = "slot_tables (mem s) ?pd 1024"
  have pok: "pgdir_ok (mem s) ?pd" using ok by (simp add: task_ok_def)
  have tb: "tables (mem s) ?pd = insert ?pd (set ?st)" "?pd \<notin> set ?st" "distinct ?st"
    using tables_slot_tables [OF pok] slot_tables_distinct [OF pok] by auto
  have aok: "aspace_ok s ?pd ps"
    using h pok dj tables_owned [of s i] by (auto simp: aspace_ok_def)
  obtain e where e: "page_entry (mem s) ?pd 0 = Some e" "?u = PHYS_TO_VIRT (frame e)"
    using ok by (auto simp: task_ok_def user_page_def)
  have nn: "NULL \<notin> tables (mem s) ?pd" "?u \<noteq> NULL" "?u \<notin> set ps" "?u \<notin> tables (mem s) ?pd"
      "page_aligned ?k" "?k \<noteq> NULL" "?k \<notin> insert ?u (set ps \<union> tables (mem s) ?pd)"
    using ok dj by (auto simp: task_ok_def owned_def)
  let ?qs = "?k # ?pd # rev ?st @ ?u # ps"
  obtain s' where s': "destroy_task s i = Ok s'" "kheap s' ?qs"
      "changes_only (insert (pgno ?k) (insert (pgno ?u) (pgno ` tables (mem s) ?pd))) (mem s) (mem s')"
      "cr3 s' = cr3 s" "tasks s' = (tasks s)[i := zero_task]" "curr_task s' = curr_task s"
      "scheduler_task s' = scheduler_task s" "zombie_exists s' = zombie_exists s" "filesystem s' = filesystem s"
    using destroy_task_spec [OF i refl aok nn(1) e nn(2-4) refl nn(5-7)] by blast
  have os: "owned s i = set (?k # ?pd # ?st @ [?u])" unfolding owned_def tb(1) by auto
  have ds: "distinct (?k # ?pd # ?st @ [?u])" using tb(2,3) nn(4,7) unfolding tb(1) by auto
  have "mset_set (owned s i) = mset (?k # ?pd # ?st @ [?u])"
    unfolding os by (rule mset_set_set [OF ds])
  then have "mset ?qs = mset ps + mset_set (owned s i)" by simp
  moreover have "changes_only (pgno ` owned s i) (mem s) (mem s')" using s'(3) by (simp add: owned_def)
  ultimately show ?thesis using s' by blast
qed

section \<open>Reaping\<close>

definition zombie_children :: "'z k_state_scheme \<Rightarrow> nat set" where
  "zombie_children s = {i. i < MAX_TASKS \<and> t_parent (tasks s ! i) = Some (curr_task s) \<and> state_of s i = ZOMBIE}"

text \<open>The tasks of a set hold pages of their own, apart from the free list.\<close>

definition spaces_ok :: "'z k_state_scheme \<Rightarrow> nat set \<Rightarrow> u32 list \<Rightarrow> bool" where
  "spaces_ok s Z ps \<longleftrightarrow> kheap s ps \<and> (\<forall>i \<in> Z. task_ok s i \<and> owned s i \<inter> set ps = {}) \<and>
     (\<forall>i \<in> Z. \<forall>j \<in> Z. i \<noteq> j \<longrightarrow> owned s i \<inter> owned s j = {})"

definition reaped :: "'z k_state_scheme \<Rightarrow> u32 list \<Rightarrow> nat \<Rightarrow> 'z k_state_scheme \<Rightarrow> bool" where
  "reaped s ps n t \<longleftrightarrow>
     tasks t = map (\<lambda>i. if i < n \<and> i \<in> zombie_children s then zero_task else tasks s ! i) [0..<MAX_TASKS] \<and>
     curr_task t = curr_task s \<and> scheduler_task t = scheduler_task s \<and> cr3 t = cr3 s \<and>
     filesystem t = filesystem s \<and>
     (\<exists>qs. spaces_ok t {i \<in> zombie_children s. n \<le> i} qs \<and>
       mset qs = mset ps + (\<Sum>i \<in> {i \<in> zombie_children s. i < n}. mset_set (owned s i))) \<and>
     (\<forall>i \<in> zombie_children s. n \<le> i \<longrightarrow> owned t i = owned s i)"

lemma zombie_children_finite [simp]: "finite (zombie_children s)"
  by (simp add: zombie_children_def)

lemma owned_finite: "task_ok s i \<Longrightarrow> finite (owned s i)"
  by (simp add: task_ok_def owned_def tables_slot_tables)

lemma reap_round_spec:
  assumes c: "curr_task s < MAX_TASKS" "state_of s (curr_task s) = RUNNING"
    and n: "n < MAX_TASKS" and R: "reaped s ps n t"
  shows "\<exists>t'. reap_round n t = Ok t' \<and> reaped s ps (Suc n) t'"
proof -
  let ?Z = "zombie_children s"
  have tt: "tasks t = map (\<lambda>i. if i < n \<and> i \<in> ?Z then zero_task else tasks s ! i) [0..<MAX_TASKS]"
      "curr_task t = curr_task s"
    using R by (simp_all add: reaped_def)
  have tn: "tasks t ! n = tasks s ! n" using n tt(1) by simp
  have cz: "curr_task s \<notin> ?Z" using c by (simp add: zombie_children_def)
  have ct: "state_of t (curr_task s) = RUNNING" using c tt(1) cz by simp
  obtain qs where qs: "spaces_ok t {i \<in> ?Z. n \<le> i} qs"
      "mset qs = mset ps + (\<Sum>i \<in> {i \<in> ?Z. i < n}. mset_set (owned s i))"
      and own: "\<And>i. i \<in> ?Z \<Longrightarrow> n \<le> i \<Longrightarrow> owned t i = owned s i"
    using R by (auto simp: reaped_def)
  show ?thesis
  proof (cases "n \<in> ?Z")
    case False
    then have "reap_round n t = Ok t"
      using n tn tt(2) by (auto simp: reap_round_def zombie_children_def)
    have e: "(Suc n \<le> i \<longleftrightarrow> n \<le> i) \<and> (i < Suc n \<longleftrightarrow> i < n)" if "i \<in> ?Z" for i
      using that False by (cases "i = n") auto
    have "{i \<in> ?Z. Suc n \<le> i} = {i \<in> ?Z. n \<le> i}" "{i \<in> ?Z. i < Suc n} = {i \<in> ?Z. i < n}"
      using e by blast+
    moreover have "(\<lambda>i. i < Suc n \<and> i \<in> ?Z) = (\<lambda>i. i < n \<and> i \<in> ?Z)" using e by blast
    ultimately have "reaped s ps (Suc n) t" using R e by (simp add: reaped_def fun_eq_iff del: Suc_le_eq)
    with \<open>reap_round n t = Ok t\<close> show ?thesis by blast
  next
    case True
    have ok: "task_ok t n" "owned t n \<inter> set qs = {}" "kheap t qs"
      using qs(1) True by (simp_all add: spaces_ok_def)
    have len: "n < length (tasks t)" using n tt(1) by simp
    obtain t' rs where t': "destroy_task t n = Ok t'" "kheap t' rs" "mset rs = mset qs + mset_set (owned t n)"
        "changes_only (pgno ` owned t n) (mem t) (mem t')" "cr3 t' = cr3 t"
        "tasks t' = (tasks t)[n := zero_task]" "curr_task t' = curr_task t"
        "scheduler_task t' = scheduler_task t" "filesystem t' = filesystem t"
      using destroy_task_owned [OF len ok(1,3,2)] by blast
    have "reap_round n t = Ok t'"
      using True tn ct t'(1) tt(2) by (simp add: reap_round_def zombie_children_def)
    moreover have "reaped s ps (Suc n) t'"
    proof -
      have keep: "task_ok t' i \<and> owned t' i = owned t i" if i: "i \<in> ?Z" "Suc n \<le> i" for i
      proof -
        have oi: "task_ok t i" "owned t i \<inter> owned t n = {}"
          using qs(1) i True by (auto simp: spaces_ok_def)
        have "pgno ` owned t n \<inter> pgno ` owned t i = {}"
          using oi owned_aligned [OF ok(1)] owned_aligned [OF oi(1)] by (auto simp: pgno_inject)
        moreover have "tasks t' ! i = tasks t ! i" using t'(6) i by simp
        ultimately show ?thesis using task_ok_frame [OF oi(1) t'(4)] by blast
      qed
      have "set rs = set qs \<union> owned t n"
        using t'(3) owned_finite [OF ok(1)] by (metis finite_set_mset_mset_set set_mset_mset set_mset_union)
      then have sp: "spaces_ok t' {i \<in> ?Z. Suc n \<le> i} rs"
        using qs(1) t'(2) keep True by (auto simp: spaces_ok_def disjoint_iff)
      have "{i \<in> ?Z. i < Suc n} = insert n {i \<in> ?Z. i < n}" using True by auto
      then have ms: "mset rs = mset ps + (\<Sum>i \<in> {i \<in> ?Z. i < Suc n}. mset_set (owned s i))"
        using t'(3) qs(2) own [OF True] by (simp add: ac_simps)
      have "tasks t' = map (\<lambda>i. if i < Suc n \<and> i \<in> ?Z then zero_task else tasks s ! i) [0..<MAX_TASKS]"
        using t'(6) tt(1) n True by (intro nth_equalityI) (auto simp: nth_list_update less_Suc_eq)
      then show ?thesis
        using R t' sp ms keep own by (auto simp: reaped_def)
    qed
    ultimately show ?thesis by blast
  qed
qed

text \<open>A task made by \<^verbatim>\<open>alloc_task\<close> and given its user page is whole.\<close>

lemma alloc_task_user_page:
  assumes h: "kheap s (stk # pd # ps)" and ps: "drop kernel_tables ps = u # us"
    and i: "unused_task (tasks s) 0 = Some i"
  shows "\<exists>s1 s2. alloc_task s = Ok (Some i, s1) \<and>
    alloc_map_memory s1 pd 0 PGSIZE (PTE_RW OR PTE_US) = Ok s2 \<and> kheap s2 us \<and> task_ok s2 i \<and>
    owned s2 i = set (stk # pd # take kernel_tables ps @ [u]) \<and> user_page s2 i = u \<and>
    changes_only (pgno ` set (pd # take kernel_tables ps)) (mem s) (mem s2) \<and> cr3 s2 = cr3 s \<and>
    tasks s2 = (tasks s)[i := (tasks s ! i)\<lparr>t_pid := int i, t_kstack := stk, t_pgdir := pd\<rparr>] \<and>
    curr_task s2 = curr_task s \<and> scheduler_task s2 = scheduler_task s \<and>
    zombie_exists s2 = zombie_exists s \<and> filesystem s2 = filesystem s \<and> mstate.more s2 = mstate.more s1"
proof -
  have len: "kernel_tables \<le> length ps" using ps by (metis drop_all linear list.distinct(1))
  have lt: "i < length (tasks s)" using unused_task_spec [OF i] by simp
  obtain s1 where s1: "alloc_task s = Ok (Some i, s1)" "aspace_ok s1 pd (u # us)"
      "tables (mem s1) pd = insert pd (set (take kernel_tables ps))"
      "free_slots pd s1 = {..<1024} - ({0} \<union> {768..<1024})"
      "changes_only (pgno ` tables (mem s1) pd) (mem s) (mem s1)" "cr3 s1 = cr3 s"
      "tasks s1 = (tasks s)[i := (tasks s ! i)\<lparr>t_pid := int i, t_kstack := stk, t_pgdir := pd\<rparr>]"
      "curr_task s1 = curr_task s" "scheduler_task s1 = scheduler_task s"
      "zombie_exists s1 = zombie_exists s" "filesystem s1 = filesystem s"
    using alloc_task_spec [OF h len i] unfolding ps by blast
  have "0 \<notin> free_slots pd s1" using s1(4) by simp
  then obtain s2 where s2: "alloc_map_memory s1 pd 0 PGSIZE (PTE_RW OR PTE_US) = Ok s2" "aspace_ok s2 pd us"
      "tables (mem s2) pd = tables (mem s1) pd"
      "page_entry (mem s2) pd 0 = Some (VIRT_TO_PHYS u OR PTE_P OR (PTE_RW OR PTE_US))" "grows pd s1 s2"
    using alloc_user_page [OF s1(2)] by blast
  have g: "changes_only (pgno ` tables (mem s2) pd) (mem s1) (mem s2)" "cr3 s2 = cr3 s1"
      "mstate.more s2 = mstate.more s1"
    using s2(5) by (simp_all add: grows_def)
  note F = k_more [OF g(3)]
  have d: "distinct (stk # pd # take kernel_tables ps @ u # us)"
    using kheap_distinct [OF h] append_take_drop_id [of kernel_tables ps] ps by simp
  have pg: "x \<noteq> NULL \<and> page_aligned x" if "x \<in> set (stk # pd # take kernel_tables ps @ u # us)" for x
  proof -
    have "set (stk # pd # take kernel_tables ps @ u # us) = set (stk # pd # ps)"
      using append_take_drop_id [of kernel_tables ps] ps by (metis list.simps(15) set_append)
    then show ?thesis using kheap_page [OF h, of x] that by simp
  qed
  have t: "t_pgdir (tasks s2 ! i) = pd" "t_kstack (tasks s2 ! i) = stk" using s1(7) F lt by simp_all
  have up: "user_page s2 i = u"
    using s2(4) user_page_entry [of u] pg [of u] by (simp add: user_page_def t)
  have tb: "tables (mem s2) pd = insert pd (set (take kernel_tables ps))" using s2(3) s1(3) by simp
  have ow: "owned s2 i = set (stk # pd # take kernel_tables ps @ [u])"
    by (auto simp: owned_def t up tb)
  have "task_ok s2 i"
    using aspace_okD(2) [OF s2(2)] s2(4) d pg pg [of stk]
    by (auto simp: task_ok_def t up tb ow)
  moreover have "changes_only (pgno ` set (pd # take kernel_tables ps)) (mem s) (mem s2)"
    by (rule changes_only_trans [OF s1(5) g(1)]) (use tb s1(3) in auto)
  ultimately show ?thesis
    using s1 s2(1) aspace_okD(1) [OF s2(2)] ow up g(2,3) F by (intro exI [of _ s1] exI [of _ s2]) simp
qed

section \<open>Properties\<close>

text \<open>
  Property C22: the frame \<^verbatim>\<open>build_int_frame\<close> leaves for \<^verbatim>\<open>iret\<close> enters user mode: both selectors ask for
  privilege 3 in the user segments, the flags have interrupts on and no I/O privilege, the stack is at
  the top of page 0, execution starts at the given address, every other byte of the frame is 0 (no
  kernel data reaches the registers) and no byte outside it changes.
\<close>

theorem build_int_frame_enters_user_mode:
  assumes "unat p + 76 \<le> 4294967296"
  shows "\<exists>m'. build_int_frame m p start = m' \<and> load32 m' (p + eip_offset) = start \<and>
    load16 m' (p + cs_offset) AND 3 = 3 \<and> drop_bit 3 (load16 m' (p + cs_offset)) = of_nat USER_CODE_SEG \<and>
    load16 m' (p + ss_offset) AND 3 = 3 \<and> drop_bit 3 (load16 m' (p + ss_offset)) = of_nat USER_DATA_SEG \<and>
    load16 m' (p + ds_offset) = load16 m' (p + ss_offset) \<and> load16 m' (p + es_offset) = load16 m' (p + ss_offset) \<and>
    load32 m' (p + eflags_offset) AND 0x3200 = 0x200 \<and> load32 m' (p + esp_offset) = 0xff8 \<and>
    (\<forall>k < 76. k \<notin> set frame_field_bytes \<longrightarrow> m' (p + of_nat k) = 0) \<and>
    (\<forall>x. unat x < unat p \<or> unat p + 76 \<le> unat x \<longrightarrow> m' x = m x)"
  using build_int_frame_bytes [OF assms]
  by (simp add: build_int_frame_fields FL_IF_def PGSIZE_def USER_CODE_SEG_def USER_DATA_SEG_def)

text \<open>
  Property C14: \<^verbatim>\<open>schedule\<close> switches if and only if some task is RUNNABLE, and then to the first one at
  or after its index, going round the table; that task is RUNNING afterwards with its directory
  loaded and its kernel stack in the task state segment, the scheduler is RUNNABLE, and nothing else
  of the table changes but the scheduler's saved stack pointer. Without a RUNNABLE task it loops for
  ever with interrupts off.
\<close>

theorem schedule_switches_to_next_runnable:
  assumes i: "i < MAX_TASKS" and len: "length (tasks s) = MAX_TASKS"
    and c: "curr_task s < MAX_TASKS" "state_of s (curr_task s) = RUNNING"
  shows "if \<exists>j < MAX_TASKS. state_of s j = RUNNABLE
    then \<exists>j k s'. schedule_from s i sp = Ok (j, t_context (tasks s ! j), s') \<and>
      k < MAX_TASKS \<and> j = (i + k) mod MAX_TASKS \<and> state_of s j = RUNNABLE \<and>
      (\<forall>l < k. state_of s ((i + l) mod MAX_TASKS) \<noteq> RUNNABLE) \<and>
      curr_task s' = j \<and> cr3 s' = VIRT_TO_PHYS (t_pgdir (tasks s ! j)) \<and>
      tss_esp0 s' = KSTACK_TOP (t_kstack (tasks s ! j)) \<and>
      tasks s' = (tasks s)[curr_task s := (tasks s ! curr_task s)\<lparr>t_state := RUNNABLE, t_context := sp\<rparr>,
        j := (tasks s ! j)\<lparr>t_state := RUNNING\<rparr>]
    else schedule_from s i sp = Diverge"
proof (cases "next_runnable MAX_TASKS (tasks s) i")
  case None
  have "state_of s j \<noteq> RUNNABLE" if "j < MAX_TASKS" for j
    using next_runnable_ex [OF i that, of "tasks s"] None by auto
  then show ?thesis using None by (auto simp: schedule_from_def)
next
  case (Some j)
  then obtain k where k: "k < MAX_TASKS" "j = (i + k) mod MAX_TASKS" "state_of s j = RUNNABLE"
      "\<forall>l < k. state_of s ((i + l) mod MAX_TASKS) \<noteq> RUNNABLE"
    using next_runnable_Some [OF Some i] by blast
  have j: "j < MAX_TASKS" using k(2) by (simp add: MAX_TASKS_def)
  have ne: "j \<noteq> curr_task s" using k(3) c(2) by auto
  obtain ctx s' where sw: "switch_to s j sp = (ctx, s')" by fastforce
  have "ctx = t_context (tasks s ! j)" "curr_task s' = j" "cr3 s' = VIRT_TO_PHYS (t_pgdir (tasks s ! j))"
      "tss_esp0 s' = KSTACK_TOP (t_kstack (tasks s ! j))"
      "tasks s' = (tasks s)[curr_task s := (tasks s ! curr_task s)\<lparr>t_state := RUNNABLE, t_context := sp\<rparr>,
        j := (tasks s ! j)\<lparr>t_state := RUNNING\<rparr>]"
    using sw c(2) ne j c(1) len
    by (auto simp: switch_to_def context_switch_def upd_task_def lcr3_def Let_def list_update_swap)
  moreover have "\<exists>j < MAX_TASKS. state_of s j = RUNNABLE" using j k(3) by blast
  ultimately show ?thesis using k Some sw by (simp add: schedule_from_def) blast
qed

text \<open>
  Property C13: \<^verbatim>\<open>alloc_task\<close> takes the first unused slot; a task made by it, given one user page and
  destroyed again leaves the table entry cleared, the other entries as they were and every page it had
  taken (stack, directory, page tables, user page) back on the free list.
\<close>

theorem alloc_destroy_task_roundtrip:
  assumes h: "kheap s ps" "kernel_tables + 3 \<le> length ps" and i: "unused_task (tasks s) 0 = Some i"
  shows "state_of s i = UNUSED \<and> (\<forall>j < i. state_of s j \<noteq> UNUSED) \<and>
    (\<exists>s1 s2 s3 qs. alloc_task s = Ok (Some i, s1) \<and>
      alloc_map_memory s1 (t_pgdir (tasks s1 ! i)) 0 PGSIZE (PTE_RW OR PTE_US) = Ok s2 \<and>
      destroy_task s2 i = Ok s3 \<and> kheap s3 qs \<and> mset qs = mset ps \<and> tasks s3 = (tasks s)[i := zero_task])"
proof -
  obtain stk pd rs where ps: "ps = stk # pd # rs"
    using h(2) by (cases ps; cases "tl ps") auto
  obtain u us where u: "drop kernel_tables rs = u # us"
    using h(2) ps by (cases "drop kernel_tables rs") auto
  obtain s1 s2 where S: "alloc_task s = Ok (Some i, s1)"
      "alloc_map_memory s1 pd 0 PGSIZE (PTE_RW OR PTE_US) = Ok s2" "kheap s2 us" "task_ok s2 i"
      "owned s2 i = set (stk # pd # take kernel_tables rs @ [u])"
      "tasks s2 = (tasks s)[i := (tasks s ! i)\<lparr>t_pid := int i, t_kstack := stk, t_pgdir := pd\<rparr>]"
      "mstate.more s2 = mstate.more s1"
    using alloc_task_user_page [OF h(1) [unfolded ps] u i] by blast
  have lt: "i < length (tasks s)" using unused_task_spec [OF i] by simp
  have d: "distinct (stk # pd # take kernel_tables rs @ u # us)"
    using kheap_distinct [OF h(1)] ps append_take_drop_id [of kernel_tables rs] u by simp
  then have dj: "owned s2 i \<inter> set us = {}" and d': "distinct (stk # pd # take kernel_tables rs @ [u])"
    unfolding S(5) by auto
  obtain s3 qs where s3: "destroy_task s2 i = Ok s3" "kheap s3 qs" "mset qs = mset us + mset_set (owned s2 i)"
      "tasks s3 = (tasks s2)[i := zero_task]"
    using destroy_task_owned [OF _ S(4,3) dj] S(6) lt by auto
  have "mset qs = mset (stk # pd # take kernel_tables rs @ u # us)"
    unfolding s3(3) S(5) mset_set_set [OF d'] by simp
  also have "take kernel_tables rs @ u # us = rs" using append_take_drop_id [of kernel_tables rs] u by simp
  finally have "mset qs = mset ps" using ps by simp
  moreover have "t_pgdir (tasks s1 ! i) = pd" using S(6) k_more(1) [OF S(7)] lt by simp
  ultimately show ?thesis
    using S s3 unused_task_spec [OF i] by auto
qed

text \<open>
  Property C15: with \<^verbatim>\<open>zombie_exists\<close> set, \<^verbatim>\<open>kill_off_zombies\<close> destroys exactly the zombie children of the current
  task: their entries are cleared, all the pages they held are on the free list, everything else of the
  table is as before, and the flag is off, also when zombies of other parents are left. With the flag off
  it does nothing at all, even if the current task has zombie children.
\<close>

theorem kill_off_zombies_reaps_children:
  assumes "curr_task s < MAX_TASKS" and "state_of s (curr_task s) = RUNNING"
    and "length (tasks s) = MAX_TASKS" and "spaces_ok s (zombie_children s) ps"
  shows "if zombie_exists s then \<exists>s' qs. kill_off_zombies s = Ok s' \<and> kheap s' qs \<and>
    mset qs = mset ps + (\<Sum>i \<in> zombie_children s. mset_set (owned s i)) \<and>
    tasks s' = map (\<lambda>i. if i \<in> zombie_children s then zero_task else tasks s ! i) [0..<MAX_TASKS] \<and>
    curr_task s' = curr_task s \<and> cr3 s' = cr3 s \<and> \<not> zombie_exists s' \<and>
    (\<forall>i < MAX_TASKS. state_of s i = ZOMBIE \<and> t_parent (tasks s ! i) \<noteq> Some (curr_task s) \<longrightarrow> state_of s' i = ZOMBIE)
    else kill_off_zombies s = Ok s"
proof -
  have "reaped s ps 0 s"
    using assms(3,4) map_nth [of "tasks s"] by (auto simp: reaped_def intro!: exI [of _ ps])
  then obtain t where t: "loop_from 0 MAX_TASKS reap_round s = Ok t" "reaped s ps (0 + MAX_TASKS) t"
    using loop_from_invariant [of "reaped s ps" 0 s MAX_TASKS reap_round] reap_round_spec [OF assms(1,2)]
    by auto
  have Z: "i < MAX_TASKS" if "i \<in> zombie_children s" for i using that by (simp add: zombie_children_def)
  then have "{i \<in> zombie_children s. i < MAX_TASKS} = zombie_children s" by blast
  moreover have "map (\<lambda>i. if i < MAX_TASKS \<and> i \<in> zombie_children s then zero_task else tasks s ! i) [0..<MAX_TASKS] =
      map (\<lambda>i. if i \<in> zombie_children s then zero_task else tasks s ! i) [0..<MAX_TASKS]"
    by (rule map_cong) auto
  ultimately obtain qs where "kheap t qs" "mset qs = mset ps + (\<Sum>i \<in> zombie_children s. mset_set (owned s i))"
      "tasks t = map (\<lambda>i. if i \<in> zombie_children s then zero_task else tasks s ! i) [0..<MAX_TASKS]"
      "curr_task t = curr_task s" "cr3 t = cr3 s"
    using t(2) by (auto simp: reaped_def spaces_ok_def)
  moreover have "\<forall>i < MAX_TASKS. state_of s i = ZOMBIE \<and> t_parent (tasks s ! i) \<noteq> Some (curr_task s) \<longrightarrow>
      t_state (map (\<lambda>i. if i \<in> zombie_children s then zero_task else tasks s ! i) [0..<MAX_TASKS] ! i) = ZOMBIE"
    by (auto simp: zombie_children_def)
  ultimately have "\<exists>s' qs. kill_off_zombies s = Ok s' \<and> kheap s' qs \<and>
      mset qs = mset ps + (\<Sum>i \<in> zombie_children s. mset_set (owned s i)) \<and>
      tasks s' = map (\<lambda>i. if i \<in> zombie_children s then zero_task else tasks s ! i) [0..<MAX_TASKS] \<and>
      curr_task s' = curr_task s \<and> cr3 s' = cr3 s \<and> \<not> zombie_exists s' \<and>
      (\<forall>i < MAX_TASKS. state_of s i = ZOMBIE \<and> t_parent (tasks s ! i) \<noteq> Some (curr_task s) \<longrightarrow> state_of s' i = ZOMBIE)"
    if "zombie_exists s"
    using t(1) that by (intro exI [of _ "t\<lparr>zombie_exists := False\<rparr>"] exI [of _ qs])
      (simp add: kill_off_zombies_def kheap_def)
  then show ?thesis by (simp add: kill_off_zombies_def)
qed

text \<open>
  A system call of a task without zombie children turns the flag off all the same, and
  with the flag off no task reaps anything: a zombie whose parent did not get to run first stays,
  whoever asks, until another task exits.
\<close>

theorem zombie_stranded_by_other_task:
  assumes "zombie_children s = {}"
  shows "kill_off_zombies s = Ok (s\<lparr>zombie_exists := False\<rparr>) \<and>
    kill_off_zombies (s\<lparr>zombie_exists := False, curr_task := p\<rparr>) = Ok (s\<lparr>zombie_exists := False, curr_task := p\<rparr>)"
proof -
  have none: "reap_round j s = Ok s" if "j < MAX_TASKS" for j
    using assms that by (auto simp: reap_round_def zombie_children_def)
  have "\<exists>t. loop_from 0 MAX_TASKS reap_round s = Ok t \<and> t = s"
    by (rule loop_from_invariant) (use none in auto)
  then show ?thesis by (cases "zombie_exists s") (simp_all add: kill_off_zombies_def)
qed

section \<open>Witnesses\<close>

theorem build_int_frame_enters_user_mode_witness:
  "\<exists>m'. build_int_frame (\<lambda>_. 7) 0xc0001fb0 0x1000 = m' \<and> load16 m' (0xc0001fb0 + cs_offset) AND 3 = 3 \<and>
    m' (0xc0001fb0 + of_nat 28) = 0 \<and> m' 0xc0001ffc = 7"
proof -
  let ?m' = "build_int_frame (\<lambda>_. 7) 0xc0001fb0 0x1000"
  have p: "unat (0xc0001fb0 :: u32) + 76 \<le> 4294967296" by simp
  note T = build_int_frame_enters_user_mode [OF p, of "\<lambda>_. 7" "0x1000"]
  from T have z: "\<forall>k < 76. k \<notin> set frame_field_bytes \<longrightarrow> ?m' (0xc0001fb0 + of_nat k) = 0" by blast
  have "?m' (0xc0001fb0 + of_nat 28) = 0"
    by (rule z [rule_format]) (simp_all add: frame_field_bytes_def frame_fields_def)
  moreover from T have "load16 ?m' (0xc0001fb0 + cs_offset) AND 3 = 3" by blast
  moreover from T have "?m' 0xc0001ffc = 7" by auto
  ultimately show ?thesis by blast
qed

text \<open>A state with the boot heap and the tasks of \<^verbatim>\<open>init_tasks\<close>.\<close>

definition sample_k :: "mstate \<Rightarrow> task_struct list \<Rightarrow> bool \<Rightarrow> k_state" where
  "sample_k m ts z = \<lparr>mem = mem m, cr3 = cr3 m, free_pages = free_pages m, num_allocated = num_allocated m,
     port_in = \<lambda>_ _. 0x20, mmio_in = \<lambda>_ _. 0, io_time = 0, port_out = [], mmio_out = [], buf_len = 0, edit_len = 0,
     edit_i = 0, write_i = 0, read_i = 0, circular_buf = replicate 4096 0, filesystem = [],
     console_file = zero_file, file_id = 0, tasks = ts, curr_task = 0, scheduler_task = 0,
     zombie_exists = z, kpgdir = NULL, tss_ss0 = 0, tss_esp0 = 0, tss_iomb = 0, ticks = 0\<rparr>"

lemma sample_k_simps [simp]:
  "tasks (sample_k m ts z) = ts" "curr_task (sample_k m ts z) = 0" "scheduler_task (sample_k m ts z) = 0"
  "zombie_exists (sample_k m ts z) = z" "mem (sample_k m ts z) = mem m"
  "kheap (sample_k m ts z) ps = kheap m ps"
  by (simp_all add: sample_k_def kheap_def)

definition boot_tasks :: "task_struct list" where
  "boot_tasks = (replicate MAX_TASKS zero_task)[0 := zero_task\<lparr>t_state := RUNNING\<rparr>]"

lemma boot_tasks_simps [simp]:
  "length boot_tasks = MAX_TASKS" "boot_tasks ! 0 = zero_task\<lparr>t_state := RUNNING\<rparr>"
  "0 < i \<Longrightarrow> i < MAX_TASKS \<Longrightarrow> boot_tasks ! i = zero_task" "unused_task boot_tasks 0 = Some 1"
proof -
  have "unused_task ((replicate (Suc (Suc n)) zero_task)[0 := zero_task\<lparr>t_state := RUNNING\<rparr>]) 0 = Some 1" for n
    by (simp add: zero_task_def)
  from this [of 1022] show "unused_task boot_tasks 0 = Some 1" by (simp add: boot_tasks_def MAX_TASKS_def)
qed (auto simp: boot_tasks_def MAX_TASKS_def)

theorem schedule_switches_to_next_runnable_witness:
  "\<exists>s'. schedule_from (sample_k sample_heap (boot_tasks[3 := zero_task\<lparr>t_state := RUNNABLE\<rparr>]) False) 0 0xc0000100 =
    Ok (3, NULL, s') \<and> curr_task s' = 3"
proof -
  let ?s = "sample_k sample_heap (boot_tasks[3 := zero_task\<lparr>t_state := RUNNABLE\<rparr>]) False"
  have lt: "0 < MAX_TASKS" "3 < MAX_TASKS" by (simp_all add: MAX_TASKS_def)
  have r: "state_of ?s j = RUNNABLE \<longleftrightarrow> j = 3" if "j < MAX_TASKS" for j
    using that lt by (cases "j = 0") (auto simp: zero_task_def nth_list_update)
  have ex: "\<exists>j < MAX_TASKS. state_of ?s j = RUNNABLE" using r [of 3] lt by blast
  have run: "state_of ?s (curr_task ?s) = RUNNING" "length (tasks ?s) = MAX_TASKS" "curr_task ?s < MAX_TASKS"
    using lt by simp_all
  obtain j k s' where j: "schedule_from ?s 0 0xc0000100 = Ok (j, t_context (tasks ?s ! j), s')"
      "j = (0 + k) mod MAX_TASKS" "state_of ?s j = RUNNABLE" "curr_task s' = j"
    using schedule_switches_to_next_runnable [OF lt(1) run(2,3,1), of "0xc0000100"] unfolding if_P [OF ex] by blast
  have "j < MAX_TASKS" using j(2) lt by simp
  then have "j = 3" using r j(3) by blast
  moreover have "t_context (tasks ?s ! 3) = NULL" using lt by (simp add: zero_task_def)
  ultimately show ?thesis using j by auto
qed

theorem alloc_destroy_task_roundtrip_witness:
  "\<exists>m s1 s2 s3 qs. alloc_task (sample_k m boot_tasks False) = Ok (Some 1, s1) \<and>
    alloc_map_memory s1 (t_pgdir (tasks s1 ! 1)) 0 PGSIZE (PTE_RW OR PTE_US) = Ok s2 \<and>
    destroy_task s2 1 = Ok s3 \<and> kheap s3 qs \<and> length qs = 767"
proof -
  obtain m :: mstate and ps where m: "kheap m ps" "length ps = 767" using boot_heap by blast
  let ?s = "sample_k m boot_tasks False"
  have h: "kheap ?s ps" "kernel_tables + 3 \<le> length ps" and u: "unused_task (tasks ?s) 0 = Some 1"
    using m by (simp_all add: kernel_tables_def)
  obtain s1 s2 s3 qs where S: "alloc_task ?s = Ok (Some 1, s1)"
      "alloc_map_memory s1 (t_pgdir (tasks s1 ! 1)) 0 PGSIZE (PTE_RW OR PTE_US) = Ok s2"
      "destroy_task s2 1 = Ok s3" "kheap s3 qs" "mset qs = mset ps"
    using alloc_destroy_task_roundtrip [OF h u] by blast
  then have "length qs = 767" using m(2) by (metis size_mset)
  then show ?thesis using S by blast
qed

lemma sample_zombie:
  "\<exists>m ts us. kheap m us \<and> ts ! 0 = zero_task\<lparr>t_state := RUNNING\<rparr> \<and> length ts = MAX_TASKS \<and>
    (\<forall>i < MAX_TASKS. 2 \<le> i \<longrightarrow> ts ! i = zero_task) \<and> t_state (ts ! 1) = ZOMBIE \<and> t_parent (ts ! 1) = Some 0 \<and>
    task_ok (sample_k m ts True) 1 \<and> owned (sample_k m ts True) 1 \<inter> set us = {}"
proof -
  obtain m :: mstate and ps where m: "kheap m ps" "length ps = 767" using boot_heap by blast
  let ?s = "sample_k m boot_tasks False"
  obtain stk pd rs where ps: "ps = stk # pd # rs" using m(2) by (cases ps; cases "tl ps") auto
  have h: "kheap ?s (stk # pd # rs)" using m(1) ps by simp
  obtain u us where u: "drop kernel_tables rs = u # us"
    using m(2) ps by (cases "drop kernel_tables rs") (auto simp: kernel_tables_def)
  have i1: "unused_task (tasks ?s) 0 = Some 1" by simp
  obtain s2 :: k_state where S: "kheap s2 us" "task_ok s2 1" "owned s2 1 = set (stk # pd # take kernel_tables rs @ [u])"
      "tasks s2 = boot_tasks[1 := (boot_tasks ! 1)\<lparr>t_pid := int 1, t_kstack := stk, t_pgdir := pd\<rparr>]"
    using alloc_task_user_page [OF h u i1] unfolding sample_k_simps(1) by blast
  let ?ts = "(tasks s2)[1 := (tasks s2 ! 1)\<lparr>t_state := ZOMBIE, t_parent := Some 0\<rparr>]"
  let ?m = "mstate.truncate s2"
  have one: "1 < length (tasks s2)" using S(4) by (simp add: MAX_TASKS_def)
  have mm: "mem (sample_k ?m ?ts True) = mem s2" by (simp add: mstate.truncate_def)
  have "t_pgdir (?ts ! 1) = t_pgdir (tasks s2 ! 1)" "t_kstack (?ts ! 1) = t_kstack (tasks s2 ! 1)"
    using one by simp_all
  then have ok: "task_ok (sample_k ?m ?ts True) 1" "owned (sample_k ?m ?ts True) 1 = owned s2 1"
    using S(2) mm by (simp_all add: task_ok_def owned_def user_page_def)
  have "distinct (stk # pd # take kernel_tables rs @ u # us)"
    using kheap_distinct [OF m(1)] ps append_take_drop_id [of kernel_tables rs] u by simp
  then have "owned (sample_k ?m ?ts True) 1 \<inter> set us = {}" using ok(2) S(3) by auto
  moreover have "kheap ?m us" using S(1) by (simp add: kheap_def mstate.truncate_def)
  moreover have "?ts ! 0 = zero_task\<lparr>t_state := RUNNING\<rparr>" "length ?ts = MAX_TASKS"
      "\<forall>i < MAX_TASKS. 2 \<le> i \<longrightarrow> ?ts ! i = zero_task" "t_state (?ts ! 1) = ZOMBIE" "t_parent (?ts ! 1) = Some 0"
    using S(4) one by auto
  ultimately show ?thesis using ok(1) by blast
qed

theorem kill_off_zombies_reaps_children_witness:
  "\<exists>m ts s' qs. kill_off_zombies (sample_k m ts True) = Ok s' \<and> kheap s' qs \<and> tasks s' ! 1 = zero_task"
proof -
  obtain m ts us where m: "kheap m us" "ts ! 0 = zero_task\<lparr>t_state := RUNNING\<rparr>" "length ts = MAX_TASKS"
      "\<And>i. i < MAX_TASKS \<Longrightarrow> 2 \<le> i \<Longrightarrow> ts ! i = zero_task" "t_state (ts ! 1) = ZOMBIE" "t_parent (ts ! 1) = Some 0"
      "task_ok (sample_k m ts True) 1" "owned (sample_k m ts True) 1 \<inter> set us = {}"
    using sample_zombie by blast
  let ?s = "sample_k m ts True"
  have "i = 1" if "i \<in> zombie_children ?s" for i
  proof -
    have i: "i < MAX_TASKS" "t_state (ts ! i) = ZOMBIE" using that by (auto simp: zombie_children_def)
    then show ?thesis using m(2,4) by (cases "i = 0"; cases "2 \<le> i") (auto simp: zero_task_def)
  qed
  moreover have one: "1 \<in> zombie_children ?s"
    using m(5,6) by (simp add: zombie_children_def MAX_TASKS_def)
  ultimately have Z: "zombie_children ?s = {1}" by blast
  have sp: "spaces_ok ?s (zombie_children ?s) us"
    using m(1,7,8) unfolding Z by (simp add: spaces_ok_def)
  have c: "curr_task ?s < MAX_TASKS" "state_of ?s (curr_task ?s) = RUNNING" "length (tasks ?s) = MAX_TASKS" "zombie_exists ?s"
    using m(2,3) by (simp_all add: MAX_TASKS_def)
  obtain s' qs where "kill_off_zombies ?s = Ok s'" "kheap s' qs"
      "tasks s' = map (\<lambda>i. if i \<in> zombie_children ?s then zero_task else tasks ?s ! i) [0..<MAX_TASKS]"
    using kill_off_zombies_reaps_children [OF c(1-3) sp] unfolding if_P [OF c(4)] by blast
  then show ?thesis using Z by (intro exI [of _ m] exI [of _ ts] exI [of _ s'] exI [of _ qs]) (simp add: MAX_TASKS_def)
qed

theorem zombie_stranded_by_other_task_witness:
  "\<exists>(s :: k_state) s'. state_of s 2 = ZOMBIE \<and> t_parent (tasks s ! 2) = Some 1 \<and> zombie_exists s \<and>
    kill_off_zombies s = Ok s' \<and> state_of s' 2 = ZOMBIE \<and>
    kill_off_zombies (s'\<lparr>curr_task := 1\<rparr>) = Ok (s'\<lparr>curr_task := 1\<rparr>)"
proof -
  let ?s = "sample_k sample_heap (boot_tasks[2 := zero_task\<lparr>t_state := ZOMBIE, t_parent := Some 1\<rparr>]) True"
  have two: "2 < MAX_TASKS" by (simp add: MAX_TASKS_def)
  have "zombie_children ?s = {}"
  proof -
    have "\<not> (t_parent (tasks ?s ! i) = Some 0 \<and> state_of ?s i = ZOMBIE)" if "i < MAX_TASKS" for i
      using that two by (cases "i = 0") (auto simp: zero_task_def nth_list_update)
    then show ?thesis by (auto simp: zombie_children_def)
  qed
  from zombie_stranded_by_other_task [OF this, of 1] show ?thesis
    using two by - (rule exI [of _ ?s], rule exI [of _ "?s\<lparr>zombie_exists := False\<rparr>"], simp)
qed

end
