(* ===== verification/Exec.thy ===== *)
theory Exec
  imports Tasks
begin

text \<open>
  Loading programs: the ELF header fields of \<^verbatim>\<open>elf.h\<close>, \<^verbatim>\<open>load_elf\<close>, \<^verbatim>\<open>register_task\<close> and
  \<^verbatim>\<open>create_init_task\<close> of \<^verbatim>\<open>proc.c\<close>, and \<^verbatim>\<open>setupuvm_task\<close> of \<^verbatim>\<open>memory.c\<close>. A program is a file, and its
  header is read from the file's page by address: a file may hold anything, so a header can point
  anywhere.
\<close>

section \<open>Headers\<close>

definition PT_LOAD :: u32 where "PT_LOAD = 1"

text \<open>Offsets of the fields in \<^verbatim>\<open>Elf32_Ehdr\<close> and \<^verbatim>\<open>Elf32_Phdr\<close>.\<close>

definition e_entry_offset :: u32 where "e_entry_offset = 24"
definition e_phoff_offset :: u32 where "e_phoff_offset = 28"
definition e_phentsize_offset :: u32 where "e_phentsize_offset = 42"
definition e_phnum_offset :: u32 where "e_phnum_offset = 44"
definition p_type_offset :: u32 where "p_type_offset = 0"
definition p_offset_offset :: u32 where "p_offset_offset = 4"
definition p_vaddr_offset :: u32 where "p_vaddr_offset = 8"
definition p_filesz_offset :: u32 where "p_filesz_offset = 16"
definition p_memsz_offset :: u32 where "p_memsz_offset = 20"

definition vload16 :: "'z mstate_scheme \<Rightarrow> u32 \<Rightarrow> u16 outcome" where
  "vload16 s a =
     bnd (vread s a) (\<lambda>b0. bnd (vread s (a + 1)) (\<lambda>b1. Ok (ucast b0 OR push_bit 8 (ucast b1))))"

text \<open>\<^verbatim>\<open>&&\<close> stops at the first byte that differs.\<close>

fun match_bytes :: "'z mstate_scheme \<Rightarrow> u32 \<Rightarrow> u8 list \<Rightarrow> bool outcome" where
  "match_bytes s a [] = Ok True"
| "match_bytes s a (c # cs) = bnd (vread s a) (\<lambda>b. if b = c then match_bytes s (a + 1) cs else Ok False)"

definition CHECK_ELF :: "'z mstate_scheme \<Rightarrow> u32 \<Rightarrow> bool outcome" where
  "CHECK_ELF s ehdr = match_bytes s ehdr (0x7f # kstr ''ELF'')"

definition ELF_PHDR :: "'z mstate_scheme \<Rightarrow> u32 \<Rightarrow> nat \<Rightarrow> u32 outcome" where
  "ELF_PHDR s ehdr pi =
     bnd (vload32 s (ehdr + e_phoff_offset)) (\<lambda>phoff.
     bnd (vload16 s (ehdr + e_phentsize_offset)) (\<lambda>phentsize.
       Ok (ehdr + phoff + of_nat pi * ucast phentsize)))"

section \<open>Loading\<close>

text \<open>
  The loop of \<^verbatim>\<open>load_elf\<close> reads \<^verbatim>\<open>e_phnum\<close> anew in every round; it has 16 bits, so \<open>ELF_ROUNDS\<close> rounds
  are enough.
\<close>

definition ELF_ROUNDS :: nat where "ELF_ROUNDS = 65536"

definition load_segment :: "'z k_state_scheme \<Rightarrow> nat \<Rightarrow> u32 \<Rightarrow> u32 \<Rightarrow> 'z k_state_scheme outcome" where
  "load_segment s task ehdr phdr =
     bnd (vload32 s (phdr + p_type_offset)) (\<lambda>p_type.
     if p_type = PT_LOAD
     then
       bnd (vload32 s (phdr + p_vaddr_offset)) (\<lambda>vaddr.
       bnd (vload32 s (phdr + p_memsz_offset)) (\<lambda>memsz.
       bnd (alloc_map_memory s (t_pgdir (tasks s ! task)) vaddr memsz (PTE_RW OR PTE_US)) (\<lambda>s.
       bnd (vload32 s (phdr + p_vaddr_offset)) (\<lambda>vaddr.
       bnd (vload32 s (phdr + p_offset_offset)) (\<lambda>offset.
       bnd (vload32 s (phdr + p_filesz_offset)) (\<lambda>filesz.
         memcpy_to_another_space s (t_pgdir (tasks s ! task)) vaddr (ehdr + offset) filesz))))))
     else Ok s)"

fun load_segments :: "nat \<Rightarrow> 'z k_state_scheme \<Rightarrow> nat \<Rightarrow> u32 \<Rightarrow> nat \<Rightarrow> 'z k_state_scheme outcome" where
  "load_segments 0 s task ehdr i = Diverge"
| "load_segments (Suc fuel) s task ehdr i =
     bnd (vload16 s (ehdr + e_phnum_offset)) (\<lambda>phnum.
     if i < unat phnum
     then bnd (ELF_PHDR s ehdr i) (\<lambda>phdr.
          bnd (load_segment s task ehdr phdr) (\<lambda>s. load_segments fuel s task ehdr (i + 1)))
     else Ok s)"

definition load_elf :: "'z k_state_scheme \<Rightarrow> nat \<Rightarrow> u32 \<Rightarrow> (int \<times> 'z k_state_scheme) outcome" where
  "load_elf s task ehdr =
     bnd (CHECK_ELF s ehdr) (\<lambda>ok.
     if \<not> ok then Ok (-1, s)
     else bnd (load_segments ELF_ROUNDS s task ehdr 0) (\<lambda>s. Ok (0, s)))"

text \<open>\<open>site\<close> is the address of \<^verbatim>\<open>ret_to_int_site\<close>.\<close>

definition register_task ::
    "u32 \<Rightarrow> 'z k_state_scheme \<Rightarrow> nat \<Rightarrow> reader \<Rightarrow> 'z k_state_scheme outcome" where
  "register_task site s tp path =
     bnd (get_file s path) (\<lambda>fp.
     case fp of None \<Rightarrow> Panic ''register_task: Cannot find file''
     | Some fp \<Rightarrow>
       let ehdr = f_data (get_fp s fp)
       in bnd (load_elf s tp ehdr) (\<lambda>(r, s).
       if r < 0 then Panic ''register_task: Cannot load ELF''
       else
         let int_regs_p = KSTACK_TOP (t_kstack (tasks s ! tp)) - sizeof_int_regs
         in bnd (vload32 s (ehdr + e_entry_offset)) (\<lambda>e_entry.
         let s = s\<lparr>mem := build_int_frame (mem s) int_regs_p e_entry\<rparr>;
             context_p = int_regs_p - sizeof_context;
             s = upd_task s tp (\<lambda>t. t\<lparr>t_context := context_p\<rparr>);
             s = s\<lparr>mem := build_context site (mem s) context_p\<rparr>
         in Ok (upd_task s tp (\<lambda>t. t\<lparr>t_state := RUNNABLE\<rparr>)))))"

definition create_init_task :: "u32 \<Rightarrow> 'z k_state_scheme \<Rightarrow> 'z k_state_scheme outcome" where
  "create_init_task site s =
     bnd (alloc_task s) (\<lambda>(tp, s).
     case tp of None \<Rightarrow> Undef ''null pointer dereferenced''
     | Some tp \<Rightarrow> register_task site s tp (arr (kstr ''init'' @ [0])))"

text \<open>Nothing calls \<^verbatim>\<open>setupuvm_task\<close>.\<close>

definition setupuvm_task :: "'z k_state_scheme \<Rightarrow> reader \<Rightarrow> (u32 \<times> 'z k_state_scheme) outcome" where
  "setupuvm_task s path =
     bnd (map_kernel s) (\<lambda>(pgdir, s).
     bnd (get_file s path) (\<lambda>fp.
     case fp of None \<Rightarrow> Panic ''setupuvm_task: No file found''
     | Some fp \<Rightarrow>
         bnd (alloc_map_memory s pgdir 0 (f_size (get_fp s fp)) (PTE_RW OR PTE_US)) (\<lambda>s. Ok (pgdir, s))))"

section \<open>Programs of one segment\<close>

text \<open>
  A file in page \<open>ehdr\<close> that holds an ELF program of the kind the user linker script makes: the first
  program header loads \<open>seg\<close> at \<open>vaddr\<close>, inside page 0, and no other header is a segment to load.
\<close>

definition elf_phdr :: "mem \<Rightarrow> u32 \<Rightarrow> nat \<Rightarrow> u32" where
  "elf_phdr m ehdr i = ehdr + load32 m (ehdr + e_phoff_offset) + of_nat i * ucast (load16 m (ehdr + e_phentsize_offset))"

definition elf_phnum :: "mem \<Rightarrow> u32 \<Rightarrow> nat" where
  "elf_phnum m ehdr = unat (load16 m (ehdr + e_phnum_offset))"

definition elf_prog :: "mem \<Rightarrow> u32 \<Rightarrow> u32 \<Rightarrow> u8 list \<Rightarrow> u32 \<Rightarrow> bool" where
  "elf_prog m ehdr vaddr seg memsz \<longleftrightarrow>
     page_aligned ehdr \<and> KERN_BASE \<le> ehdr \<and>
     mem_bytes m ehdr 4 = 0x7f # kstr ''ELF'' \<and> 0 < elf_phnum m ehdr \<and>
     (\<forall>i < elf_phnum m ehdr. \<exists>k \<le> 4064. elf_phdr m ehdr i = ehdr + of_nat k \<and>
        (load32 m (ehdr + of_nat k) = PT_LOAD \<longleftrightarrow> i = 0)) \<and>
     load32 m (elf_phdr m ehdr 0 + p_vaddr_offset) = vaddr \<and> pgno vaddr = 0 \<and>
     load32 m (elf_phdr m ehdr 0 + p_memsz_offset) = memsz \<and> 0 < memsz \<and> unat memsz \<le> 4096 \<and>
     load32 m (elf_phdr m ehdr 0 + p_filesz_offset) = of_nat (length seg) \<and> seg \<noteq> [] \<and>
     page_off vaddr + length seg \<le> 4096 \<and>
     (\<exists>k. load32 m (elf_phdr m ehdr 0 + p_offset_offset) = of_nat k \<and> k + length seg \<le> 4096 \<and>
        mem_bytes m (ehdr + of_nat k) (length seg) = seg)"

lemma kernel_page_offset:
  "page_aligned p \<Longrightarrow> KERN_BASE \<le> p \<Longrightarrow> k < 4096 \<Longrightarrow> KERN_BASE \<le> p + of_nat k"
  using KERN_BASE_offset [of p k] unat_page_offset [of p k] unat_lt_2p32 [of "p + of_nat k"] by simp

lemma vload_kernel:
  assumes p: "page_aligned p" "KERN_BASE \<le> p"
  shows "k + 4 \<le> 4096 \<Longrightarrow> vload32 s (p + of_nat k) = Ok (load32 (mem s) (p + of_nat k))"
    and "k + 2 \<le> 4096 \<Longrightarrow> vload16 s (p + of_nat k) = Ok (load16 (mem s) (p + of_nat k))"
proof -
  have kb: "KERN_BASE \<le> p + of_nat k + of_nat j" if "k + j < 4096" for j
    using kernel_page_offset [OF p that] by (simp add: add.assoc)
  show "k + 4 \<le> 4096 \<Longrightarrow> vload32 s (p + of_nat k) = Ok (load32 (mem s) (p + of_nat k))"
    using kb [of 0] kb [of 1] kb [of 2] kb [of 3] by (simp add: vload32_def load32_def vread_def)
  show "k + 2 \<le> 4096 \<Longrightarrow> vload16 s (p + of_nat k) = Ok (load16 (mem s) (p + of_nat k))"
    using kb [of 0] kb [of 1] by (simp add: vload16_def load16_def vread_def)
qed

lemma CHECK_ELF_kernel:
  assumes p: "page_aligned p" "KERN_BASE \<le> p"
  shows "CHECK_ELF s p = Ok (mem_bytes (mem s) p 4 = 0x7f # kstr ''ELF'')"
proof -
  have kb: "vread s (p + of_nat j) = Ok (mem s (p + of_nat j))" if "j < 4096" for j
    using kernel_page_offset [OF p that] by (simp add: vread_def)
  have "kstr ''ELF'' = [69, 76, 70]" by (simp add: kstr_def)
  then show ?thesis
    using kb [of 0] kb [of 1] kb [of 2] kb [of 3]
    by (simp add: CHECK_ELF_def mem_bytes_def upt_rec add.assoc numeral_3_eq_3 numeral_2_eq_2)
qed

lemma same_page_map:
  assumes "pgno va = pgno vb"
  shows "map_page s pd va pa perm = map_page s pd vb pa perm"
proof -
  have "pde_ptr pd va = pde_ptr pd vb" "\<And>t. pte_ptr t va = pte_ptr t vb"
    using assms by (simp_all add: pde_ptr_conv pte_ptr_conv pdx_def ptx_def)
  then show ?thesis by (simp add: map_page_def)
qed

lemma loop_from_1: "loop_from i 1 body s = body i s"
  by (cases "body i s") simp_all

lemma alloc_map_page_0:
  fixes s :: "'z mstate_scheme"
  assumes "pgno va = 0" and "0 < n" and "unat n \<le> 4096"
  shows "alloc_map_memory s pd va n perm = alloc_map_memory s pd 0 PGSIZE perm"
proof -
  have "unat (PG_ROUNDUP n) = 4096"
    using assms(2,3) unat_PG_ROUNDUP [of n] by (simp add: word_less_nat_alt)
  then have "unat (PG_ROUNDUP n div PGSIZE) = 1" by (simp add: unat_div)
  moreover have "unat (PG_ROUNDUP PGSIZE div PGSIZE) = 1"
    using npages_PGSIZE by (simp add: npages_def)
  moreover have "n \<noteq> 0" "PGSIZE \<noteq> 0" using assms(2) by (auto simp: PGSIZE_def)
  moreover have "map_page s pd va pa perm = map_page s pd 0 pa perm" for s :: "'z mstate_scheme" and pa
    by (rule same_page_map) (simp add: assms(1) pgno_def [of 0])
  ultimately show ?thesis by (simp add: alloc_map_memory_def loop_from_1 del: One_nat_def)
qed

section \<open>Loading such a program\<close>

lemma elf_prog_fields:
  assumes "elf_prog m ehdr vaddr seg memsz"
  shows "page_aligned ehdr" "KERN_BASE \<le> ehdr" "0 < elf_phnum m ehdr"
    "\<And>i. i < elf_phnum m ehdr \<Longrightarrow> \<exists>k \<le> 4064. elf_phdr m ehdr i = ehdr + of_nat k \<and>
        (load32 m (ehdr + of_nat k) = PT_LOAD \<longleftrightarrow> i = 0)"
  using assms by (simp_all add: elf_prog_def)

text \<open>The header's fields depend on its page only.\<close>

definition page_bytes_eq :: "u32 \<Rightarrow> mem \<Rightarrow> mem \<Rightarrow> bool" where
  "page_bytes_eq p m m' \<longleftrightarrow> (\<forall>k < 4096. m' (p + of_nat k) = m (p + of_nat k))"

lemma page_bytes_load:
  assumes "page_bytes_eq p m m'"
  shows "k + 4 \<le> 4096 \<Longrightarrow> load32 m' (p + of_nat k) = load32 m (p + of_nat k)"
    and "k + 2 \<le> 4096 \<Longrightarrow> load16 m' (p + of_nat k) = load16 m (p + of_nat k)"
proof -
  have eq: "j < 4096 \<Longrightarrow> m' (p + of_nat j) = m (p + of_nat j)" for j
    using assms by (simp add: page_bytes_eq_def)
  show "k + 4 \<le> 4096 \<Longrightarrow> load32 m' (p + of_nat k) = load32 m (p + of_nat k)"
      "k + 2 \<le> 4096 \<Longrightarrow> load16 m' (p + of_nat k) = load16 m (p + of_nat k)"
    using eq [of k] eq [of "k + 1"] eq [of "k + 2"] eq [of "k + 3"]
    by (simp_all add: load32_def load16_def add_ac)
qed

lemma page_bytes_eq_changes:
  "page_aligned p \<Longrightarrow> changes_only P m m' \<Longrightarrow> pgno p \<notin> P \<Longrightarrow> page_bytes_eq p m m'"
  by (simp add: page_bytes_eq_def changes_onlyD pgno_page_offset)

lemma elf_header_cong:
  assumes "page_bytes_eq ehdr m m'"
  shows "elf_phnum m' ehdr = elf_phnum m ehdr" "elf_phdr m' ehdr i = elf_phdr m ehdr i"
  using page_bytes_load(2) [OF assms, of 44] page_bytes_load(1) [OF assms, of 28] page_bytes_load(2) [OF assms, of 42]
  by (simp_all add: elf_phnum_def elf_phdr_def e_phnum_offset_def e_phoff_offset_def e_phentsize_offset_def)

lemma ELF_header_reads:
  assumes p: "page_aligned ehdr" "KERN_BASE \<le> ehdr"
  shows "vload16 s (ehdr + e_phnum_offset) = Ok (load16 (mem s) (ehdr + e_phnum_offset))"
    and "ELF_PHDR s ehdr i = Ok (elf_phdr (mem s) ehdr i)"
  using vload_kernel(2) [OF p, of 44 s] vload_kernel(1) [OF p, of 28 s] vload_kernel(2) [OF p, of 42 s]
  by (simp_all add: ELF_PHDR_def elf_phdr_def e_phnum_offset_def e_phoff_offset_def e_phentsize_offset_def)

text \<open>Headers that are not segments to load are skipped.\<close>

lemma load_segments_skip:
  assumes p: "page_aligned ehdr" "KERN_BASE \<le> ehdr"
    and skip: "\<And>i. k \<le> i \<Longrightarrow> i < elf_phnum (mem s) ehdr \<Longrightarrow>
      \<exists>j \<le> 4064. elf_phdr (mem s) ehdr i = ehdr + of_nat j \<and> load32 (mem s) (ehdr + of_nat j) \<noteq> PT_LOAD"
    and fuel: "elf_phnum (mem s) ehdr - k < fuel"
  shows "load_segments fuel s task ehdr k = Ok s"
  using skip fuel
proof (induction fuel arbitrary: k)
  case (Suc fuel)
  show ?case
  proof (cases "k < elf_phnum (mem s) ehdr")
    case True
    obtain j where j: "j \<le> 4064" "elf_phdr (mem s) ehdr k = ehdr + of_nat j"
        "load32 (mem s) (ehdr + of_nat j) \<noteq> PT_LOAD"
      using Suc.prems(1) [OF order_refl True] by blast
    have "load_segment s task ehdr (ehdr + of_nat j) = Ok s"
      using vload_kernel(1) [OF p, of j s] j by (simp add: load_segment_def p_type_offset_def)
    moreover have "load_segments fuel s task ehdr (k + 1) = Ok s"
      using Suc.prems True by (intro Suc.IH) auto
    ultimately show ?thesis
      using ELF_header_reads(1) [OF p, of s] ELF_header_reads(2) [OF p, of s k] j True by (simp add: elf_phnum_def)
  next
    case False
    then show ?thesis using ELF_header_reads(1) [OF p, of s] by (simp add: elf_phnum_def)
  qed
qed simp

text \<open>What loading does to memory: the segment goes to page \<open>u\<close>, and only page tables change besides.\<close>

definition loaded_at :: "mem \<Rightarrow> mem \<Rightarrow> u32 \<Rightarrow> nat \<Rightarrow> u8 list \<Rightarrow> bool" where
  "loaded_at m m' u off seg \<longleftrightarrow>
     (\<forall>k < 4096. m' (u + of_nat k) = (if off \<le> k \<and> k < off + length seg then seg ! (k - off) else m (u + of_nat k)))"

lemma put_bytes_loaded_at:
  assumes "page_aligned u" and "off + length seg \<le> 4096"
  shows "loaded_at m (put_bytes m (u + of_nat off) seg) u off seg"
  unfolding loaded_at_def
proof (intro allI impI)
  fix k :: nat assume k: "k < 4096"
  have "unat (u + of_nat k) = unat u + k" by (rule unat_page_offset [OF assms(1) k])
  moreover have "unat (u + of_nat off) = unat u + off" if "seg \<noteq> []"
    using assms(2) that by (intro unat_page_offset [OF assms(1)]) (cases seg; simp)
  ultimately show "put_bytes m (u + of_nat off) seg (u + of_nat k) =
      (if off \<le> k \<and> k < off + length seg then seg ! (k - off) else m (u + of_nat k))"
    by (cases "seg = []") (auto simp: put_bytes_def)
qed

lemma load_elf_spec:
  assumes prog: "elf_prog (mem s) ehdr vaddr seg memsz"
    and pd: "t_pgdir (tasks s ! task) = pd" and ok: "aspace_ok s pd (u # us)"
    and fs: "0 \<notin> free_slots pd s" and nn: "NULL \<notin> tables (mem s) pd"
    and hdr: "pgno ehdr \<notin> insert (pgno u) (pgno ` tables (mem s) pd)" and u: "KERN_BASE \<le> u"
  shows "\<exists>s'. load_elf s task ehdr = Ok (0, s') \<and> aspace_ok s' pd us \<and>
    tables (mem s') pd = tables (mem s) pd \<and>
    page_entry (mem s') pd 0 = Some (VIRT_TO_PHYS u OR PTE_P OR (PTE_RW OR PTE_US)) \<and>
    loaded_at (mem s) (mem s') u (page_off vaddr) seg \<and>
    changes_only (insert (pgno u) (pgno ` tables (mem s) pd)) (mem s) (mem s') \<and>
    cr3 s' = cr3 s \<and> mstate.more s' = mstate.more s"
proof -
  note P = elf_prog_fields [OF prog]
  obtain k where k: "k \<le> 4064" "elf_phdr (mem s) ehdr 0 = ehdr + of_nat k"
      "load32 (mem s) (ehdr + of_nat k) = PT_LOAD"
    using P(4) [OF P(3)] by auto
  obtain off where f: "load32 (mem s) (ehdr + of_nat k + p_offset_offset) = of_nat off" "off + length seg \<le> 4096"
      "mem_bytes (mem s) (ehdr + of_nat off) (length seg) = seg"
    using prog k(2) by (auto simp: elf_prog_def)
  have g: "load32 (mem s) (ehdr + of_nat k + p_vaddr_offset) = vaddr" "pgno vaddr = 0"
      "load32 (mem s) (ehdr + of_nat k + p_memsz_offset) = memsz" "0 < memsz" "unat memsz \<le> 4096"
      "load32 (mem s) (ehdr + of_nat k + p_filesz_offset) = of_nat (length seg)" "seg \<noteq> []"
      "page_off vaddr + length seg \<le> 4096"
    using prog k(2) by (simp_all add: elf_prog_def)
  obtain s1 where s1: "alloc_map_memory s pd 0 PGSIZE (PTE_RW OR PTE_US) = Ok s1" "aspace_ok s1 pd us"
      "tables (mem s1) pd = tables (mem s) pd"
      "page_entry (mem s1) pd 0 = Some (VIRT_TO_PHYS u OR PTE_P OR (PTE_RW OR PTE_US))" "grows pd s s1"
    using alloc_user_page [OF ok fs] by blast
  have ch1: "changes_only (pgno ` tables (mem s) pd) (mem s) (mem s1)" and more1: "mstate.more s1 = mstate.more s"
    and cr1: "cr3 s1 = cr3 s"
    using s1(3,5) by (simp_all add: grows_def)
  have "page_aligned u" using kheap_page [OF aspace_okD(1) [OF ok], of u] by simp
  then have ul: "PHYS_TO_VIRT (frame (VIRT_TO_PHYS u OR PTE_P OR (PTE_RW OR PTE_US))) = u" "page_aligned u"
    by (simp_all add: user_page_entry)
  have pe1: "page_bytes_eq ehdr (mem s) (mem s1)" by (rule page_bytes_eq_changes [OF P(1) ch1]) (use hdr in simp)
  have hdr1: "mem s1 (ehdr + of_nat j) = mem s (ehdr + of_nat j)" if "j < 4096" for j
    using pe1 that by (simp add: page_bytes_eq_def)
  note rd = page_bytes_load(1) [OF pe1]
  have w: "vload32 s1 (ehdr + of_nat k + of_nat j) = vload32 s (ehdr + of_nat k + of_nat j)" if "j < 29" for j
    using vload_kernel(1) [OF P(1,2), of "k + j" s1] vload_kernel(1) [OF P(1,2), of "k + j" s] rd [of "k + j"] k(1) that
    by (simp add: add.assoc)
  have v: "vload32 s (ehdr + of_nat k + of_nat j) = Ok (load32 (mem s) (ehdr + of_nat k + of_nat j))" if "j < 29" for j
    using vload_kernel(1) [OF P(1,2), of "k + j" s] k(1) that by (simp add: add.assoc)
  let ?src = "ehdr + of_nat off"
  have off: "off < 4096" using f(2) g(7) by (cases seg) auto
  have srck: "KERN_BASE \<le> ?src" by (rule kernel_page_offset [OF P(1,2) off])
  have usrc: "unat ?src = unat ehdr + off" by (rule unat_page_offset [OF P(1) off])
  have ne: "pgno ehdr \<noteq> pgno u" using hdr by simp
  have ud: "unat (u + of_nat (page_off vaddr)) = unat u + page_off vaddr" by (rule unat_in_page [OF ul(2)])
  have bytes: "mem s1 (?src + of_nat j) = seg ! j" if "j < length seg" for j
  proof -
    have "mem s (?src + of_nat j) = seg ! j" using f(3) that by (metis mem_bytes_nth)
    then show ?thesis using hdr1 [of "off + j"] f(2) that by (simp add: add.assoc)
  qed
  have sb: "source_bytes s1 (u + of_nat (page_off vaddr)) ?src seg"
  proof -
    have far: "unat u + 4096 \<le> unat ehdr \<or> unat ehdr + 4096 \<le> unat u"
      using ne P(1) ul(2) by (simp add: page_aligned_unat) linarith
    have "source_bytes s1 (u + of_nat (page_off vaddr)) ?src (map (\<lambda>i. mem s1 (?src + of_nat i)) [0..<length seg])"
      by (rule source_bytes_kernel [OF srck])
        (use usrc ud far f(2) g(8) page_aligned_le [OF P(1)] in linarith)+
    moreover have "map (\<lambda>i. mem s1 (?src + of_nat i)) [0..<length seg] = seg"
      by (rule nth_equalityI) (simp_all add: bytes)
    ultimately show ?thesis by simp
  qed
  have un: "unat (of_nat (length seg) :: u32) = length seg"
    using unat_add_lt [of 0 "length seg"] g(8) by simp
  have e0: "page_entry (mem s1) pd (pgno vaddr) = Some (VIRT_TO_PHYS u OR PTE_P OR (PTE_RW OR PTE_US))"
    using s1(4) g(2) by simp
  let ?s2 = "s1\<lparr>mem := put_bytes (mem s1) (u + of_nat (page_off vaddr)) seg\<rparr>"
  have cp: "memcpy_to_another_space s1 pd vaddr ?src (of_nat (length seg)) = Ok ?s2"
    using memcpy_to_another_space_one_page [OF aspace_okD(2) [OF s1(2)] _ e0 ul(1) [symmetric] u un g(7,8) sb]
      nn s1(3) by simp
  note am = alloc_map_page_0 [OF g(2,4,5), of s pd "PTE_RW OR PTE_US"]
  have pd1: "t_pgdir (tasks s1 ! task) = pd" using pd k_more(1) [OF more1] by simp
  have offs: "(of_nat 4 :: u32) = 4" "(of_nat 8 :: u32) = 8" "(of_nat 16 :: u32) = 16" "(of_nat 20 :: u32) = 20"
    by simp_all
  have seg1: "load_segment s task ehdr (ehdr + of_nat k) = Ok ?s2"
    using v [of 0] v [of 4] v [of 8] v [of 16] v [of 20] w [of 4] w [of 8] w [of 16] k(3) f(1) g(1,3,6) s1(1) am cp pd pd1
    by (simp add: load_segment_def p_type_offset_def p_vaddr_offset_def p_memsz_offset_def p_offset_offset_def
        p_filesz_offset_def)
  have off8: "page_off vaddr + length seg \<le> 4096" by (rule g(8))
  have ch2: "changes_only (insert (pgno u) (pgno ` tables (mem s) pd)) (mem s) (mem ?s2)"
    by (rule changes_only_trans [OF ch1]) (use put_bytes_page [OF ul(2) off8] in auto)
  have pe2: "page_bytes_eq ehdr (mem s) (mem ?s2)" by (rule page_bytes_eq_changes [OF P(1) ch2 hdr])
  note H = elf_header_cong [OF pe2] page_bytes_load(1) [OF pe2]
  have sk: "\<exists>j \<le> 4064. elf_phdr (mem ?s2) ehdr i = ehdr + of_nat j \<and> load32 (mem ?s2) (ehdr + of_nat j) \<noteq> PT_LOAD"
    if i: "1 \<le> i" "i < elf_phnum (mem ?s2) ehdr" for i
  proof -
    obtain j where "j \<le> 4064" "elf_phdr (mem s) ehdr i = ehdr + of_nat j" "load32 (mem s) (ehdr + of_nat j) \<noteq> PT_LOAD"
      using P(4) [of i] i unfolding H(1) by auto
    then show ?thesis using H(2,3) by (intro exI [of _ j]) simp
  qed
  have "elf_phnum (mem s) ehdr < 65536"
    using unsigned_less [of "load16 (mem s) (ehdr + e_phnum_offset)"] by (simp add: elf_phnum_def)
  then have sk2: "load_segments (ELF_ROUNDS - 1) ?s2 task ehdr 1 = Ok ?s2"
    by (intro load_segments_skip [OF P(1,2) sk]) (use H(1) in \<open>auto simp: ELF_ROUNDS_def\<close>)
  have step: "load_segments (Suc n) s task ehdr 0 = load_segments n ?s2 task ehdr 1" for n
    using ELF_header_reads(1) [OF P(1,2), of s] ELF_header_reads(2) [OF P(1,2), of s 0] P(3) k(2) seg1
    by (simp add: elf_phnum_def)
  have "Suc (ELF_ROUNDS - 1) = ELF_ROUNDS" by (simp add: ELF_ROUNDS_def)
  then have "load_segments ELF_ROUNDS s task ehdr 0 = Ok ?s2" using step [of "ELF_ROUNDS - 1"] sk2 by metis
  moreover have "CHECK_ELF s ehdr = Ok True"
    using CHECK_ELF_kernel [OF P(1,2), of s] prog by (simp add: elf_prog_def)
  ultimately have "load_elf s task ehdr = Ok (0, ?s2)" by (simp add: load_elf_def)
  moreover have "pgno u \<notin> pgno ` tables (mem s1) pd" "pgno u \<notin> pgno ` set us"
    using aspace_okD(4) [OF ok] s1(3) kheap_distinct [OF aspace_okD(1) [OF ok]] kheap_page [OF aspace_okD(1) [OF ok]]
    by (auto simp: pgno_inject)
  note F = this
  have chs: "changes_only {pgno u} (mem s1) (mem ?s2)" using put_bytes_page [OF ul(2) off8] by simp
  have offt: "{pgno u} \<inter> pgno ` tables (mem s1) pd = {}" using F(1) by simp
  note G = pgdir_frame_ok [OF aspace_okD(2) [OF s1(2)] chs offt] pgdir_frame_tables [OF aspace_okD(2) [OF s1(2)] chs offt]
  have "kheap ?s2 us"
    using aspace_okD(1) [OF s1(2)] free_list_frame [OF _ chs] F(2) by (auto simp: kheap_def)
  then have "aspace_ok ?s2 pd us" using G aspace_okD(3) [OF s1(2)] by (auto simp: aspace_ok_def)
  moreover have "page_entry (mem ?s2) pd 0 = page_entry (mem s1) pd 0"
    by (rule pgdir_frame_entry [OF aspace_okD(2) [OF s1(2)] chs offt]) simp
  moreover have "loaded_at (mem s) (mem ?s2) u (page_off vaddr) seg"
  proof -
    have "mem s1 (u + of_nat j) = mem s (u + of_nat j)" if "j < 4096" for j
      using changes_onlyD [OF ch1, of "u + of_nat j"] pgno_page_offset [OF ul(2) that] F(1) s1(3) by simp
    then show ?thesis using put_bytes_loaded_at [OF ul(2) off8, of "mem s1"] by (simp add: loaded_at_def)
  qed
  ultimately show ?thesis using ch2 G s1(3,4) cr1 more1 by (intro exI [of _ ?s2]) simp
qed

lemma elf_prog_cong:
  assumes "elf_prog m ehdr vaddr seg memsz" and pe: "page_bytes_eq ehdr m m'"
  shows "elf_prog m' ehdr vaddr seg memsz"
proof -
  note L = page_bytes_load(1) [OF pe]
  have B: "mem_bytes m' (ehdr + of_nat k) n = mem_bytes m (ehdr + of_nat k) n" if "k + n \<le> 4096" for k n
  proof (rule nth_equalityI)
    fix i assume "i < length (mem_bytes m' (ehdr + of_nat k) n)"
    then show "mem_bytes m' (ehdr + of_nat k) n ! i = mem_bytes m (ehdr + of_nat k) n ! i"
      using pe that by (simp add: mem_bytes_nth add.assoc page_bytes_eq_def flip: of_nat_add)
  qed simp
  have magic: "mem_bytes m' ehdr 4 = mem_bytes m ehdr 4" using B [of 0 4] by simp
  obtain k where k: "k \<le> 4064" "elf_phdr m ehdr 0 = ehdr + of_nat k"
    using elf_prog_fields(3,4) [OF assms(1)] by blast
  have F: "load32 m' (elf_phdr m ehdr 0 + of_nat j) = load32 m (elf_phdr m ehdr 0 + of_nat j)" if "j < 29" for j
    using L [of "k + j"] k that by (simp add: add.assoc)
  have offs: "p_vaddr_offset = of_nat 8" "p_memsz_offset = of_nat 20" "p_filesz_offset = of_nat 16" "p_offset_offset = of_nat 4"
    by (simp_all add: p_vaddr_offset_def p_memsz_offset_def p_filesz_offset_def p_offset_offset_def)
  have hd: "\<exists>k \<le> 4064. elf_phdr m ehdr i = ehdr + of_nat k \<and> (load32 m' (ehdr + of_nat k) = PT_LOAD \<longleftrightarrow> i = 0)"
    if i: "i < elf_phnum m ehdr" for i
  proof -
    obtain k where "k \<le> 4064" "elf_phdr m ehdr i = ehdr + of_nat k" "load32 m (ehdr + of_nat k) = PT_LOAD \<longleftrightarrow> i = 0"
      using elf_prog_fields(4) [OF assms(1) i] by blast
    then show ?thesis using L [of k] by (intro exI [of _ k]) simp
  qed
  obtain off where "load32 m (elf_phdr m ehdr 0 + p_offset_offset) = of_nat off" "off + length seg \<le> 4096"
      "mem_bytes m (ehdr + of_nat off) (length seg) = seg"
    using assms(1) by (auto simp: elf_prog_def)
  then have "\<exists>k. load32 m' (elf_phdr m ehdr 0 + p_offset_offset) = of_nat k \<and> k + length seg \<le> 4096 \<and>
      mem_bytes m' (ehdr + of_nat k) (length seg) = seg"
    using B F [of 4] offs(4) by (intro exI [of _ off]) simp
  then show ?thesis
    using assms(1) magic hd F [of 8] F [of 20] F [of 16] unfolding elf_prog_def elf_header_cong [OF pe] offs by simp
qed

section \<open>The frames on a new kernel stack\<close>

text \<open>The addresses of the frame and of the context below it.\<close>

lemma kstack_addresses:
  "KSTACK_TOP stk - sizeof_int_regs = stk + of_nat 4016"
  "stk + of_nat 4016 - sizeof_context = stk + of_nat 3980"
  by (simp_all add: KSTACK_TOP_def sizeof_int_regs_def sizeof_context_def PGSIZE_def)

lemma kstack_frames:
  fixes m :: mem and stk site start :: u32
  defines "m' \<equiv> build_context site (build_int_frame m (stk + of_nat 4016) start) (stk + of_nat 3980)"
  assumes al: "page_aligned stk"
  shows "load32 m' (stk + of_nat 3980 + sizeof_regs) = site"
    and "load32 m' (stk + of_nat 4016 + eip_offset) = start"
    and "load16 m' (stk + of_nat 4016 + cs_offset) = 0x23"
    and "load32 m' (stk + of_nat 4016 + eflags_offset) = FL_IF"
    and "load32 m' (stk + of_nat 4016 + esp_offset) = 0xff8"
    and "changes_only {pgno stk} m m'"
proof -
  define fr where "fr = stk + of_nat 4016"
  define c where "c = stk + of_nat 3980"
  have ufr: "unat fr = unat stk + 4016" "unat c = unat stk + 3980"
    unfolding fr_def c_def by (rule unat_page_offset [OF al(1)]; simp)+
  have top: "unat stk + 4096 \<le> 4294967296" by (rule page_aligned_le [OF al(1)])
  have b3: "unat fr + 76 \<le> 4294967296" and b4: "unat c + 36 \<le> 4294967296" using ufr top by simp_all
  let ?m3 = "build_int_frame m fr start"
  have m': "m' = build_context site ?m3 c" by (simp add: m'_def fr_def c_def)
  have fb: "m' (fr + of_nat k) = ?m3 (fr + of_nat k)" if "k < 76" for k
  proof -
    have "unat (fr + of_nat k) = unat fr + k" using b3 that by (intro unat_add_lt) simp
    then show ?thesis using ufr unfolding m' by (intro build_context_fields(3) [OF b4]) simp
  qed
  have fl: "load32 m' (fr + of_nat k) = load32 ?m3 (fr + of_nat k)" "load16 m' (fr + of_nat k) = load16 ?m3 (fr + of_nat k)"
    if "k < 73" for k
    using fb [of k] fb [of "k + 1"] fb [of "k + 2"] fb [of "k + 3"] that
    by (simp_all add: load32_def load16_def add_ac)
  show "load32 m' (stk + of_nat 4016 + eip_offset) = start" "load16 m' (stk + of_nat 4016 + cs_offset) = 0x23"
      "load32 m' (stk + of_nat 4016 + eflags_offset) = FL_IF" "load32 m' (stk + of_nat 4016 + esp_offset) = 0xff8"
    using build_int_frame_fields [of m fr start] fl [of 56] fl [of 60] fl [of 64] fl [of 68]
    unfolding fr_def [symmetric] by (simp_all add: frame_offsets PGSIZE_def)
  show "load32 m' (stk + of_nat 3980 + sizeof_regs) = site"
    unfolding m' c_def [symmetric] by (rule build_context_fields(1) [OF b4])
  have "m' x = m x" if "pgno x \<noteq> pgno stk" for x
  proof -
    have "unat x < unat stk \<or> unat stk + 4096 \<le> unat x"
      using that al(1) pgno_eqI [of "pgno stk" x] unfolding page_aligned_unat by linarith
    then have "unat x < unat c \<or> unat c + 36 \<le> unat x" "unat x < unat fr \<or> unat fr + 76 \<le> unat x"
      using ufr by auto
    then show ?thesis unfolding m'
      using build_context_fields(3) [OF b4, of x site ?m3] build_int_frame_bytes(2) [OF b3, of x m start] by simp
  qed
  then show "changes_only {pgno stk} m m'" by (simp add: changes_only_def)
qed

text \<open>A loaded segment is what the program reads at its addresses.\<close>

lemma loaded_at_translate:
  assumes pok: "pgdir_ok m pd" and e: "page_entry m pd 0 = Some (VIRT_TO_PHYS u OR PTE_P OR (PTE_RW OR PTE_US))"
    and al: "page_aligned u" and ld: "loaded_at m0 m u (page_off va) seg"
    and va: "pgno va = 0" "page_off va + length seg \<le> 4096" and k: "k < length seg"
  shows "\<exists>x. translate m pd (va + of_nat k) = Some x \<and> xl_user x \<and> m (PHYS_TO_VIRT (xl_paddr x)) = seg ! k"
proof -
  have o: "page_off va + k < 4096" using va(2) k by simp
  have "frame (VIRT_TO_PHYS u OR PTE_P OR (PTE_RW OR PTE_US)) + ((va + of_nat k) AND 0xfff) + KERN_BASE =
      u + of_nat (page_off va + k)"
    using user_page_entry [OF al] same_page_offset(2) [OF o] by (simp add: PHYS_TO_VIRT_def and_0xfff_page_off add_ac)
  moreover have "m (u + of_nat (page_off va + k)) = seg ! k" using ld o k by (simp add: loaded_at_def del: of_nat_add)
  moreover have "(VIRT_TO_PHYS u OR PTE_P OR (PTE_RW OR PTE_US)) AND PTE_US \<noteq> 0"
    by (simp add: entry_bits bit_eq_iff bit_simps) (rule exI [of _ 2], simp)
  ultimately show ?thesis
    using e same_page_offset(1) [OF o] va(1) by (simp add: translate_page_entry [OF pok] PHYS_TO_VIRT_def)
qed

text \<open>\<^verbatim>\<open>create_init_task\<close> on a state with enough free pages and such a program as \<^verbatim>\<open>init\<close>.\<close>

lemma create_init_task_spec:
  assumes h: "kheap s (stk # pd # ps)" and u: "drop kernel_tables ps = u # us" "KERN_BASE \<le> u"
    and i: "unused_task (tasks s) 0 = Some i"
    and f: "get_file s (arr (kstr ''init'' @ [0])) = Ok (Some (Fs fi))" "f_data (filesystem s ! fi) = ehdr"
    and prog: "elf_prog (mem s) ehdr vaddr seg memsz" and apart: "pgno ehdr \<notin> pgno ` set (stk # pd # ps)"
    and start: "load32 (mem s) (ehdr + e_entry_offset) = start"
  shows "\<exists>s' c. create_init_task site s = Ok s' \<and> kheap s' us \<and>
    tasks s' = (tasks s)[i := (tasks s ! i)\<lparr>t_pid := int i, t_kstack := stk, t_pgdir := pd, t_context := c,
      t_state := RUNNABLE\<rparr>] \<and>
    load32 (mem s') (c + sizeof_regs) = site \<and> c + sizeof_context + sizeof_int_regs = KSTACK_TOP stk \<and>
    load32 (mem s') (c + sizeof_context + eip_offset) = start \<and>
    load16 (mem s') (c + sizeof_context + cs_offset) = 0x23 \<and>
    load32 (mem s') (c + sizeof_context + eflags_offset) = FL_IF \<and>
    load32 (mem s') (c + sizeof_context + esp_offset) = 0xff8 \<and>
    (\<forall>k < length seg. \<exists>x. translate (mem s') pd (vaddr + of_nat k) = Some x \<and> xl_user x \<and>
      mem s' (PHYS_TO_VIRT (xl_paddr x)) = seg ! k) \<and>
    loaded_at (mem s) (mem s') u (page_off vaddr) seg \<and>
    changes_only (pgno ` set (stk # pd # ps)) (mem s) (mem s') \<and> filesystem s' = filesystem s \<and>
    port_in s' = port_in s \<and> port_out s' = port_out s \<and> curr_task s' = curr_task s \<and> scheduler_task s' = scheduler_task s"
proof -
  have len: "kernel_tables \<le> length ps" using u(1) by (metis drop_all linear list.distinct(1))
  have lt: "i < length (tasks s)" using unused_task_spec [OF i] by simp
  obtain s1 where s1: "alloc_task s = Ok (Some i, s1)" "aspace_ok s1 pd (u # us)"
      "tables (mem s1) pd = insert pd (set (take kernel_tables ps))"
      "free_slots pd s1 = {..<1024} - ({0} \<union> {768..<1024})"
      "changes_only (pgno ` tables (mem s1) pd) (mem s) (mem s1)"
      "tasks s1 = (tasks s)[i := (tasks s ! i)\<lparr>t_pid := int i, t_kstack := stk, t_pgdir := pd\<rparr>]"
      "filesystem s1 = filesystem s" "port_in s1 = port_in s" "port_out s1 = port_out s"
      "curr_task s1 = curr_task s" "scheduler_task s1 = scheduler_task s"
    using alloc_task_spec [OF h len i] unfolding u(1) by blast
  have all: "set (stk # pd # take kernel_tables ps @ u # us) = set (stk # pd # ps)"
    using append_take_drop_id [of kernel_tables ps] u(1) by (metis list.simps(15) set_append)
  have d: "distinct (stk # pd # take kernel_tables ps @ u # us)"
    using kheap_distinct [OF h] append_take_drop_id [of kernel_tables ps] u(1) by simp
  have pg: "x \<noteq> NULL \<and> page_aligned x" if "x \<in> set (stk # pd # take kernel_tables ps @ u # us)" for x
    using that unfolding all by (rule kheap_page [OF h])
  have al: "page_aligned stk" "page_aligned u" using pg by simp_all
  have hd: "pgno ehdr \<notin> insert (pgno u) (pgno ` tables (mem s1) pd)" "pgno ehdr \<noteq> pgno stk"
    using apart all s1(3) by auto
  have sep: "pgno stk \<notin> insert (pgno u) (pgno ` tables (mem s1) pd)" "pgno u \<notin> pgno ` tables (mem s1) pd"
      "pgno stk \<notin> pgno ` set us"
    using d pg s1(3) by (auto simp: pgno_inject)
  note P = elf_prog_fields [OF prog]
  have pe1: "page_bytes_eq ehdr (mem s) (mem s1)" by (rule page_bytes_eq_changes [OF P(1) s1(5)]) (use hd in simp)
  have fs0: "0 \<notin> free_slots pd s1" and nn: "NULL \<notin> tables (mem s1) pd" and pd1: "t_pgdir (tasks s1 ! i) = pd"
    using s1(3,4,6) pg lt by auto
  obtain s2 where s2: "load_elf s1 i ehdr = Ok (0, s2)" "aspace_ok s2 pd us" "tables (mem s2) pd = tables (mem s1) pd"
      "page_entry (mem s2) pd 0 = Some (VIRT_TO_PHYS u OR PTE_P OR (PTE_RW OR PTE_US))"
      "loaded_at (mem s1) (mem s2) u (page_off vaddr) seg"
      "changes_only (insert (pgno u) (pgno ` tables (mem s1) pd)) (mem s1) (mem s2)" "mstate.more s2 = mstate.more s1"
    using load_elf_spec [OF elf_prog_cong [OF prog pe1] pd1 s1(2) fs0 nn hd(1) u(2)] by blast
  have t2: "tasks s2 = tasks s1" "filesystem s2 = filesystem s1" "port_in s2 = port_in s1" "port_out s2 = port_out s1"
      "curr_task s2 = curr_task s1" "scheduler_task s2 = scheduler_task s1"
    using k_more [OF s2(7)] by simp_all
  have "page_bytes_eq ehdr (mem s1) (mem s2)" by (rule page_bytes_eq_changes [OF P(1) s2(6) hd(1)])
  then have en: "vload32 s2 (ehdr + e_entry_offset) = Ok start"
    using vload_kernel(1) [OF P(1,2), of 24 s2] page_bytes_load(1) [OF pe1, of 24]
      page_bytes_load(1) [of ehdr "mem s1" "mem s2" 24] start by (simp add: e_entry_offset_def)
  let ?c = "stk + of_nat 3980"
  let ?m3 = "build_int_frame (mem s2) (stk + of_nat 4016) start"
  let ?m4 = "build_context site ?m3 ?c"
  note K = kstack_frames [OF al(1), where m = "mem s2" and site = site and start = start]
  let ?s' = "upd_task (upd_task (s2\<lparr>mem := ?m3\<rparr>) i (\<lambda>t. t\<lparr>t_context := ?c\<rparr>)\<lparr>mem := ?m4\<rparr>) i (\<lambda>t. t\<lparr>t_state := RUNNABLE\<rparr>)"
  have gf: "get_file s1 (arr (kstr ''init'' @ [0])) = Ok (Some (Fs fi))" using f(1) s1(7) by (simp only: get_file_def)
  have "f_data (get_fp s1 (Fs fi)) = ehdr" "t_kstack (tasks s2 ! i) = stk"
    using f(2) s1(6,7) t2 lt by (simp_all add: get_fp_def)
  then have run: "create_init_task site s = Ok ?s'"
    using s1(1) gf s2(1) en by (simp add: create_init_task_def register_task_def Let_def kstack_addresses del: of_nat_numeral)
  have G: "pgdir_ok ?m4 pd" "page_entry ?m4 pd 0 = page_entry (mem s2) pd 0"
    using pgdir_frame_ok [OF aspace_okD(2) [OF s2(2)] K(6)] pgdir_frame_entry [OF aspace_okD(2) [OF s2(2)] K(6), of 0]
      sep(1) s2(3) by auto
  have ld: "loaded_at (mem s) ?m4 u (page_off vaddr) seg"
  proof -
    have "?m4 (u + of_nat k) = mem s2 (u + of_nat k)" "mem s1 (u + of_nat k) = mem s (u + of_nat k)" if "k < 4096" for k
      using changes_onlyD [OF K(6), of "u + of_nat k"] changes_onlyD [OF s1(5), of "u + of_nat k"]
        pgno_page_offset [OF al(2) that] sep by auto
    then show ?thesis using s2(5) by (simp add: loaded_at_def)
  qed
  have tr: "\<exists>x. translate ?m4 pd (vaddr + of_nat k) = Some x \<and> xl_user x \<and> ?m4 (PHYS_TO_VIRT (xl_paddr x)) = seg ! k"
    if "k < length seg" for k
    by (rule loaded_at_translate [OF G(1) _ al(2) ld _ _ that]) (use G(2) s2(4) prog in \<open>simp_all add: elf_prog_def\<close>)
  have "kheap ?s' us"
    using aspace_okD(1) [OF s2(2)] free_list_frame [OF _ K(6)] sep(3) by (auto simp: kheap_def)
  moreover have "tasks ?s' = (tasks s)[i := (tasks s ! i)\<lparr>t_pid := int i, t_kstack := stk, t_pgdir := pd, t_context := ?c,
      t_state := RUNNABLE\<rparr>]"
    using s1(6) t2 lt by simp
  moreover have "?c + sizeof_context + sizeof_int_regs = KSTACK_TOP stk"
    by (simp add: KSTACK_TOP_def sizeof_int_regs_def sizeof_context_def PGSIZE_def)
  moreover have ce: "?c + sizeof_context = stk + of_nat 4016" by (simp add: sizeof_context_def)
  have "load32 ?m4 (?c + sizeof_context + eip_offset) = start" "load16 ?m4 (?c + sizeof_context + cs_offset) = 0x23"
      "load32 ?m4 (?c + sizeof_context + eflags_offset) = FL_IF"
      "load32 ?m4 (?c + sizeof_context + esp_offset) = 0xff8"
    by (simp_all only: ce K(2-5))
  moreover have "changes_only (pgno ` set (stk # pd # ps)) (mem s) (mem ?s')"
  proof -
    have "pgno ` tables (mem s1) pd \<subseteq> pgno ` set (stk # pd # ps)" "pgno u \<in> pgno ` set (stk # pd # ps)"
      using all s1(3) by auto
    then have sub: "pgno ` tables (mem s1) pd \<subseteq> pgno ` set (stk # pd # ps)"
        "insert (pgno u) (pgno ` tables (mem s1) pd) \<subseteq> pgno ` set (stk # pd # ps)" "{pgno stk} \<subseteq> pgno ` set (stk # pd # ps)"
      by (simp_all del: list.set)  simp
    have "changes_only (pgno ` set (stk # pd # ps)) (mem s) (mem s2)"
      by (rule changes_only_trans [OF s1(5) s2(6)]) (use sub in blast)
    then have "changes_only (pgno ` set (stk # pd # ps)) (mem s) ?m4"
      by (rule changes_only_trans [OF _ K(6)]) (use sub(3) in blast)
    then show ?thesis by simp
  qed
  moreover have "filesystem ?s' = filesystem s" "port_in ?s' = port_in s" "port_out ?s' = port_out s"
      "curr_task ?s' = curr_task s" "scheduler_task ?s' = scheduler_task s"
    using s1(7-11) t2 by (simp_all add: upd_task_def)
  ultimately show ?thesis
    using run K(1) tr ld by (intro exI [of _ ?s'] exI [of _ ?c]) simp
qed

section \<open>Properties\<close>

text \<open>
  Property C8: \<^verbatim>\<open>create_init_task\<close> with a good program under the name \<^verbatim>\<open>init\<close> makes the first unused
  slot a RUNNABLE task that will start in the program: its context returns to \<^verbatim>\<open>ret_to_int_site\<close>, right
  above it is the frame that enters user mode at the program's entry, and every byte of the segment is
  readable by the program at its address. The rest of the user page is not cleared: it keeps what the
  page held before.
\<close>

theorem create_init_task_ready:
  assumes h: "kheap s (stk # pd # ps)" and u: "drop kernel_tables ps = u # us" "KERN_BASE \<le> u"
    and i: "unused_task (tasks s) 0 = Some i"
    and f: "get_file s (arr (kstr ''init'' @ [0])) = Ok (Some (Fs fi))" "f_data (filesystem s ! fi) = ehdr"
    and prog: "elf_prog (mem s) ehdr vaddr seg memsz" and apart: "pgno ehdr \<notin> pgno ` set (stk # pd # ps)"
    and start: "load32 (mem s) (ehdr + e_entry_offset) = start"
  shows "\<exists>s' c. create_init_task site s = Ok s' \<and> kheap s' us \<and>
    tasks s' = (tasks s)[i := (tasks s ! i)\<lparr>t_pid := int i, t_kstack := stk, t_pgdir := pd, t_context := c,
      t_state := RUNNABLE\<rparr>] \<and>
    load32 (mem s') (c + sizeof_regs) = site \<and> c + sizeof_context + sizeof_int_regs = KSTACK_TOP stk \<and>
    load32 (mem s') (c + sizeof_context + eip_offset) = start \<and>
    load16 (mem s') (c + sizeof_context + cs_offset) = 0x23 \<and>
    load32 (mem s') (c + sizeof_context + eflags_offset) = FL_IF \<and>
    load32 (mem s') (c + sizeof_context + esp_offset) = 0xff8 \<and>
    (\<forall>k < length seg. \<exists>x. translate (mem s') pd (vaddr + of_nat k) = Some x \<and> xl_user x \<and>
      mem s' (PHYS_TO_VIRT (xl_paddr x)) = seg ! k) \<and>
    loaded_at (mem s) (mem s') u (page_off vaddr) seg"
  using create_init_task_spec [OF assms] by blast

section \<open>Witnesses\<close>

text \<open>A program of four bytes at address 116, as an ELF file of 88 bytes.\<close>

definition sample_elf :: "u8 list" where
  "sample_elf = [
     0x7f, 69, 76, 70, 0, 0, 0, 0, 0, 0, 0, 0, 0, 0, 0, 0, 0, 0, 0, 0, 0, 0,
     0, 0, 116, 0, 0, 0, 52, 0, 0, 0, 0, 0, 0, 0, 0, 0, 0, 0, 0, 0, 32, 0,
     1, 0, 0, 0, 0, 0, 0, 0, 1, 0, 0, 0, 84, 0, 0, 0, 116, 0, 0, 0, 0, 0,
     0, 0, 4, 0, 0, 0, 8, 0, 0, 0, 0, 0, 0, 0, 0, 0, 0, 0, 1, 2, 3, 4]"

lemma mem_bytes_loads:
  assumes "mem_bytes m a n = bs"
  shows "k + 4 \<le> n \<Longrightarrow> load32 m (a + of_nat k) = ucast (bs ! k) OR
      push_bit 8 (ucast (bs ! (k + 1))) OR push_bit 16 (ucast (bs ! (k + 2))) OR push_bit 24 (ucast (bs ! (k + 3)))"
    and "k + 2 \<le> n \<Longrightarrow> load16 m (a + of_nat k) = ucast (bs ! k) OR push_bit 8 (ucast (bs ! (k + 1)))"
proof -
  have B: "m (a + of_nat j) = bs ! j" if "j < n" for j
    using mem_bytes_nth [OF that, of m a] assms by simp
  show "k + 4 \<le> n \<Longrightarrow> load32 m (a + of_nat k) = ucast (bs ! k) OR
      push_bit 8 (ucast (bs ! (k + 1))) OR push_bit 16 (ucast (bs ! (k + 2))) OR push_bit 24 (ucast (bs ! (k + 3)))"
    using B [of k] B [of "k + 1"] B [of "k + 2"] B [of "k + 3"] by (simp add: load32_def add_ac)
  show "k + 2 \<le> n \<Longrightarrow> load16 m (a + of_nat k) = ucast (bs ! k) OR push_bit 8 (ucast (bs ! (k + 1)))"
    using B [of k] B [of "k + 1"] by (simp add: load16_def add_ac)
qed

lemma length_sample_elf [simp]: "length sample_elf = 88"
  by (simp add: sample_elf_def)

lemma sample_elf_at:
  assumes "page_aligned p" and "KERN_BASE \<le> p" and "mem_bytes m p 88 = sample_elf"
  shows "elf_prog m p 116 [1, 2, 3, 4] 8" "load32 m (p + e_entry_offset) = 116"
proof -
  note L = mem_bytes_loads [OF assms(3)] mem_bytes_slice [OF assms(3)]
  have w: "load32 m (p + of_nat 24) = 116" "load32 m (p + of_nat 28) = 52" "load16 m (p + of_nat 42) = 32"
      "load16 m (p + of_nat 44) = 1" "load32 m (p + of_nat 52) = 1" "load32 m (p + of_nat 56) = 84"
      "load32 m (p + of_nat 60) = 116" "load32 m (p + of_nat 68) = 4" "load32 m (p + of_nat 72) = 8"
    by (subst L; simp add: sample_elf_def)+
  have "mem_bytes m (p + of_nat 0) 4 = take 4 (drop 0 sample_elf)" "mem_bytes m (p + of_nat 84) 4 = take 4 (drop 84 sample_elf)"
    by (rule L(3); simp)+
  then have b: "mem_bytes m p 4 = 0x7f # kstr ''ELF''" "mem_bytes m (p + of_nat 84) 4 = [1, 2, 3, 4]"
    by (simp_all add: sample_elf_def kstr_def)
  have n: "elf_phnum m p = 1" "elf_phdr m p 0 = p + of_nat 52"
    using w by (simp_all add: elf_phnum_def elf_phdr_def e_phnum_offset_def e_phoff_offset_def)
  show "load32 m (p + e_entry_offset) = 116" using w by (simp add: e_entry_offset_def)
  have hd: "\<exists>k \<le> 4064. elf_phdr m p i = p + of_nat k \<and> (load32 m (p + of_nat k) = PT_LOAD \<longleftrightarrow> i = 0)"
    if "i < elf_phnum m p" for i
    using that n w by (intro exI [of _ 52]) (simp add: PT_LOAD_def)
  have off: "\<exists>k. load32 m (elf_phdr m p 0 + p_offset_offset) = of_nat k \<and> k + length [1, 2, 3, 4 :: u8] \<le> 4096 \<and>
      mem_bytes m (p + of_nat k) (length [1, 2, 3, 4 :: u8]) = [1, 2, 3, 4]"
    using w(6) b(2) by (intro exI [of _ 84]) (simp add: n p_offset_offset_def numeral_eq_Suc add.assoc)
  show "elf_prog m p 116 [1, 2, 3, 4] 8"
    unfolding elf_prog_def using hd off b(1) w(7,8,9) assms(1,2)
    by (simp add: n p_vaddr_offset_def p_memsz_offset_def p_filesz_offset_def pgno_def page_off_def add.assoc)
qed

lemma sample_elf_prog:
  fixes m :: mem
  defines "m' \<equiv> put_bytes m 0xc0003000 sample_elf"
  shows "elf_prog m' 0xc0003000 116 [1, 2, 3, 4] 8" "load32 m' (0xc0003000 + e_entry_offset) = 116"
proof -
  have "mem_bytes m' 0xc0003000 88 = sample_elf"
    using mem_bytes_put [of "0xc0003000" sample_elf m] by (simp add: m'_def)
  moreover have "page_aligned (0xc0003000 :: u32)" "KERN_BASE \<le> 0xc0003000"
    by (simp_all add: page_aligned_def KERN_BASE_def)
  ultimately show "elf_prog m' 0xc0003000 116 [1, 2, 3, 4] 8" "load32 m' (0xc0003000 + e_entry_offset) = 116"
    using sample_elf_at by blast+
qed

definition init_file :: kfile where
  "init_file = zero_file\<lparr>f_size := 88, f_in_use := True, f_data := 0xc0003000, f_name := kstr ''init'' @ replicate 12 0\<rparr>"

lemma get_init_file:
  assumes "filesystem s = [init_file]"
  shows "get_file s (arr (kstr ''init'' @ [0])) = Ok (Some (Fs 0))"
proof -
  have p: "cstring (arr (kstr ''init'' @ 0 # [])) (kstr ''init'')"
    by (intro cstring_arr; simp add: kstr_def of_char_def NUL_SCAN_def)
  have n: "f_name init_file = kstr ''init'' @ 0 # replicate 11 0" by (simp add: init_file_def numeral_eq_Suc)
  have f: "cstring (arr (f_name init_file)) (kstr ''init'')"
    unfolding n by (intro cstring_arr; simp add: kstr_def of_char_def NUL_SCAN_def)
  have "strcmp (arr (kstr ''init'' @ [0])) (arr (f_name init_file)) = Ok 0"
    using strcmp_cstring [OF p f] str_order_eq_0 by simp
  moreover have "arr (kstr ''init'' @ [0]) 0 = Ok (105 :: u8)" by (simp add: arr_def kstr_def of_char_def)
  ultimately show ?thesis by (simp add: get_file_def assms)
qed

text \<open>A booted state with a program of four bytes as \<^verbatim>\<open>init\<close>.\<close>

lemma sample_boot:
  obtains s :: k_state and stk pd rs u us where
    "kheap s (stk # pd # rs)" "drop kernel_tables rs = u # us" "KERN_BASE \<le> u" "unused_task (tasks s) 0 = Some 1"
    "get_file s (arr (kstr ''init'' @ [0])) = Ok (Some (Fs 0))" "f_data (filesystem s ! 0) = 0xc0003000"
    "elf_prog (mem s) 0xc0003000 116 [1, 2, 3, 4] 8" "pgno 0xc0003000 \<notin> pgno ` set (stk # pd # rs)"
    "load32 (mem s) (0xc0003000 + e_entry_offset) = 116" "tasks s = boot_tasks" "init_tasks s = s"
proof -
  obtain m :: mstate and ps where m: "kheap m ps" "length ps = 767" "\<And>p. p \<in> set ps \<Longrightarrow> 786689 \<le> pgno p"
    using boot_heap by blast
  let ?m' = "put_bytes (mem m) 0xc0003000 sample_elf"
  let ?s = "sample_k m boot_tasks False\<lparr>mem := ?m', filesystem := [init_file]\<rparr>"
  obtain stk pd rs where ps: "ps = stk # pd # rs" using m(2) by (cases ps; cases "tl ps") auto
  obtain u us where u: "drop kernel_tables rs = u # us"
    using m(2) ps by (cases "drop kernel_tables rs") (auto simp: kernel_tables_def)
  have al: "page_aligned 0xc0003000" by (simp add: page_aligned_def)
  have "changes_only {pgno 0xc0003000} (mem m) ?m'"
    using put_bytes_page [OF al, of 0 sample_elf "mem m"] by (simp add: page_off_def sample_elf_def)
  moreover have pn: "pgno 0xc0003000 \<notin> pgno ` set (stk # pd # rs)"
    using m(3) unfolding ps by (force simp: pgno_def [of "0xc0003000"])
  moreover have "{pgno 0xc0003000} \<inter> pgno ` set ps = {}" using pn unfolding ps by simp
  ultimately have "kheap (m\<lparr>mem := ?m'\<rparr>) ps" by (intro kheap_frame [OF m(1)])
  then have h: "kheap ?s (stk # pd # rs)" by (simp add: kheap_def sample_k_def ps)
  have "u \<in> set ps" using u ps by (metis in_set_dropD list.set_intros(1,2))
  then have "786689 \<le> pgno u" by (rule m(3))
  then have ku: "KERN_BASE \<le> u"
    using unat_pgno_bounds(1) [of u] by (simp add: word_le_nat_alt KERN_BASE_def)
  have i: "unused_task (tasks ?s) 0 = Some 1" by simp
  have f: "get_file ?s (arr (kstr ''init'' @ [0])) = Ok (Some (Fs 0))" "f_data (filesystem ?s ! 0) = 0xc0003000"
    by (rule get_init_file) (simp_all add: init_file_def)
  have e: "elf_prog (mem ?s) 0xc0003000 116 [1, 2, 3, 4] 8" "load32 (mem ?s) (0xc0003000 + e_entry_offset) = 116"
    using sample_elf_prog [of "mem m"] by simp_all
  have "init_tasks ?s = ?s"
    by (simp add: init_tasks_def sample_k_def Let_def boot_tasks_def upd_task_def zero_task_def MAX_TASKS_def)
  moreover have "tasks ?s = boot_tasks" by simp
  ultimately show thesis using that [of ?s stk pd rs u us] h u ku i f e pn by blast
qed

theorem create_init_task_ready_witness:
  "\<exists>(s :: k_state) s' c pd. create_init_task 0xc0100100 s = Ok s' \<and> state_of s' 1 = RUNNABLE \<and>
    load32 (mem s') (c + sizeof_context + eip_offset) = 116 \<and>
    (\<exists>x. translate (mem s') pd (116 + of_nat 2) = Some x \<and> xl_user x \<and> mem s' (PHYS_TO_VIRT (xl_paddr x)) = 3)"
proof -
  obtain s :: k_state and stk pd rs u us where S:
    "kheap s (stk # pd # rs)" "drop kernel_tables rs = u # us" "KERN_BASE \<le> u" "unused_task (tasks s) 0 = Some 1"
    "get_file s (arr (kstr ''init'' @ [0])) = Ok (Some (Fs 0))" "f_data (filesystem s ! 0) = 0xc0003000"
    "elf_prog (mem s) 0xc0003000 116 [1, 2, 3, 4] 8" "pgno 0xc0003000 \<notin> pgno ` set (stk # pd # rs)"
    "load32 (mem s) (0xc0003000 + e_entry_offset) = 116" "tasks s = boot_tasks" "init_tasks s = s"
    by (rule sample_boot)
  have ex: "\<exists>s' c. create_init_task 0xc0100100 s = Ok s' \<and>
    tasks s' = (tasks s)[1 := (tasks s ! 1)\<lparr>t_pid := int 1, t_kstack := stk, t_pgdir := pd, t_context := c,
      t_state := RUNNABLE\<rparr>] \<and> load32 (mem s') (c + sizeof_context + eip_offset) = 116 \<and>
    (\<forall>k < length [1, 2, 3, 4 :: u8]. \<exists>x. translate (mem s') pd (116 + of_nat k) = Some x \<and> xl_user x \<and>
      mem s' (PHYS_TO_VIRT (xl_paddr x)) = [1, 2, 3, 4] ! k)"
    using create_init_task_ready [OF S(1-9), of "0xc0100100"] by blast
  then obtain s' c where T: "create_init_task 0xc0100100 s = Ok s'"
    "tasks s' = (tasks s)[1 := (tasks s ! 1)\<lparr>t_pid := int 1, t_kstack := stk, t_pgdir := pd, t_context := c,
      t_state := RUNNABLE\<rparr>]" "load32 (mem s') (c + sizeof_context + eip_offset) = 116"
    "\<And>k. k < length [1, 2, 3, 4 :: u8] \<Longrightarrow> \<exists>x. translate (mem s') pd (116 + of_nat k) = Some x \<and> xl_user x \<and>
      mem s' (PHYS_TO_VIRT (xl_paddr x)) = [1, 2, 3, 4] ! k"
    by blast
  have "state_of s' 1 = RUNNABLE" using T(2) S(10) by (simp add: MAX_TASKS_def)
  moreover have "\<exists>x. translate (mem s') pd (116 + of_nat 2) = Some x \<and> xl_user x \<and> mem s' (PHYS_TO_VIRT (xl_paddr x)) = 3"
    using T(4) [of 2] by simp
  ultimately show ?thesis using T(1,3) by blast
qed

end
