(* ===== verification/Ending.thy ===== *)
theory Ending
  imports Exec
begin

text \<open>
  Why the fuel of the loop over program headers does not show: outcomes are ordered by how much is known,
  \<open>Diverge\<close> being the least, the loop is monotone in its fuel, and with the fuel of \<open>load_elf\<close> it never runs
  out, whatever bytes the file has.
\<close>

section \<open>The order of outcomes\<close>

instantiation outcome :: (type) order_bot
begin

definition less_eq_outcome :: "'a outcome \<Rightarrow> 'a outcome \<Rightarrow> bool" where
  "r \<le> r' \<longleftrightarrow> r = Diverge \<or> r = r'"

definition less_outcome :: "'a outcome \<Rightarrow> 'a outcome \<Rightarrow> bool" where
  "r < r' \<longleftrightarrow> r = Diverge \<and> r' \<noteq> (Diverge :: 'a outcome)"

definition bot_outcome :: "'a outcome" where
  "bot_outcome = Diverge"

instance
  by standard (auto simp: less_eq_outcome_def less_outcome_def bot_outcome_def)

end

lemma bnd_mono: "r \<le> r' \<Longrightarrow> (\<And>x. f x \<le> g x) \<Longrightarrow> bnd r f \<le> bnd r' g"
proof (cases r)
  case (Ok x)
  moreover assume "r \<le> r'" and "\<And>x. f x \<le> g x"
  ultimately have "r' = Ok x" "f x \<le> g x" by (simp_all add: less_eq_outcome_def)
  then show ?thesis using Ok by simp
qed (auto simp: less_eq_outcome_def)

section \<open>Operations that end\<close>

named_theorems ends \<open>operations that end\<close>

definition ending :: "'a outcome \<Rightarrow> bool" where
  "ending r \<longleftrightarrow> r \<noteq> Diverge"

lemma ending_simps [simp]:
  "ending (Ok x)" "ending (Panic m)" "ending (Undef w)" "\<not> ending Diverge" "ending page_fault"
  by (simp_all add: ending_def page_fault_def)

lemma ending_le: "ending r \<Longrightarrow> r \<le> r' \<Longrightarrow> r' = r"
  by (auto simp: ending_def less_eq_outcome_def)

lemma ending_bnd [ends]: "ending r \<Longrightarrow> (\<And>x. ending (f x)) \<Longrightarrow> ending (bnd r f)"
  by (cases r) auto

lemma ending_if [ends]: "ending a \<Longrightarrow> ending b \<Longrightarrow> ending (if c then a else b)"
  by simp

lemma ending_option [ends]: "ending a \<Longrightarrow> (\<And>x. ending (f x)) \<Longrightarrow> ending (case o' of None \<Rightarrow> a | Some x \<Rightarrow> f x)"
  by (cases o') auto

lemma ending_prod [ends]: "(\<And>x y. ending (f x y)) \<Longrightarrow> ending (case p of (x, y) \<Rightarrow> f x y)"
  by (cases p) auto

lemma ending_loop [ends]: "(\<And>i s. ending (body i s)) \<Longrightarrow> ending (loop_from i n body s)"
  by (induction n arbitrary: i s) (auto intro: ending_bnd)

lemma ending_for_each [ends]: "(\<And>x s. ending (f s x)) \<Longrightarrow> ending (for_each f xs s)"
  by (induction xs arbitrary: s) (auto intro: ending_bnd)

lemma page_allocator_ends [ends]: "ending (kmalloc s)" "ending (kfree s p)"
  unfolding kmalloc_def kfree_def Let_def by (intro ends; simp)+

lemma paging_ends [ends]:
  "ending (map_page s pd va pa perm)"
  unfolding map_page_def Let_def by (intro ends; simp)

lemma ranges_end [ends]:
  "ending (alloc_map_memory s pd va n perm)"
  unfolding alloc_map_memory_def Let_def by (intro ends; simp)

lemma virtual_memory_ends [ends]:
  "ending (vread s a)" "ending (vwrite s a b)" "ending (vload32 s a)" "ending (vload16 s a)" "ending (vmemcpy s d src n)"
proof -
  show r: "ending (vread s a)" "ending (vwrite s a b)" for s :: "'a mstate_scheme" and a b
    unfolding vread_def vwrite_def by (intro ends; simp)+
  show "ending (vload32 s a)" "ending (vload16 s a)" "ending (vmemcpy s d src n)"
    unfolding vload32_def vload16_def vmemcpy_def by (intro ends r; simp)+
qed

lemma copies_end [ends]: "ending (memcpy_to_another_space s pd dest src n)"
  unfolding memcpy_to_another_space_def copy_round_def Let_def by (intro ends; simp)

section \<open>Loading a program\<close>

lemma match_bytes_ends [ends]: "ending (match_bytes s p bs)"
  by (induction bs arbitrary: p) (auto intro: ends)

lemma load_segment_ends [ends]: "ending (load_segment s task ehdr phdr)" "ending (ELF_PHDR s ehdr i)" "ending (CHECK_ELF s ehdr)"
  unfolding load_segment_def ELF_PHDR_def CHECK_ELF_def Let_def by (intro ends; simp)+

lemma load_segments_fuel: "load_segments n s task ehdr i \<le> load_segments (n + k) s task ehdr i"
proof (induction n arbitrary: s i)
  case 0
  then show ?case by (simp add: less_eq_outcome_def)
next
  case (Suc n)
  then show ?case by (auto intro!: bnd_mono)
qed

text \<open>The number of program headers is read anew in every round, but always a 16-bit value.\<close>

lemma load_segments_ends: "65536 \<le> i + n \<Longrightarrow> 0 < n \<Longrightarrow> ending (load_segments n s task ehdr i)"
proof (induction n arbitrary: s i)
  case (Suc n)
  have "ending (if i < unat phnum then bnd (ELF_PHDR s ehdr i) (\<lambda>phdr.
      bnd (load_segment s task ehdr phdr) (\<lambda>s. load_segments n s task ehdr (i + 1))) else Ok s)" for phnum :: u16
  proof (cases "i < unat phnum")
    case True
    have "unat phnum < 65536" using unsigned_less [of phnum] by simp
    then have "ending (load_segments n t task ehdr (i + 1))" for t :: "'a k_state_scheme" using Suc.IH [of "i + 1" t] Suc.prems True by auto
    then show ?thesis by (intro ends; simp)
  qed simp
  then show ?case unfolding load_segments.simps by (rule ending_bnd [OF virtual_memory_ends(4)])
qed simp

lemma load_elf_ends [ends]: "ending (load_elf s task ehdr)"
  unfolding load_elf_def by (intro ends load_segments_ends) (simp_all add: ELF_ROUNDS_def)

text \<open>More rounds give the same result.\<close>

lemma load_segments_fuel_irrelevant:
  "load_segments (ELF_ROUNDS + k) s task ehdr 0 = load_segments ELF_ROUNDS s task ehdr 0"
  by (rule ending_le [OF load_segments_ends load_segments_fuel]) (simp_all add: ELF_ROUNDS_def)

end
