(* ===== verification/SysFile.thy ===== *)
theory SysFile
  imports Exec
begin

text \<open>
  The file system calls of \<^verbatim>\<open>sys_file.c\<close>. A handler takes the address of the caller's interrupt frame
  on its kernel stack, reads the user's stack pointer from it and the arguments from the user's stack,
  and returns an \<^verbatim>\<open>int\<close>, here a 32-bit value. The file descriptors of a task are its \<^verbatim>\<open>open_files\<close>.
  A descriptor comes from the user unchecked; an index outside the array is undefined.
\<close>

definition O_RDONLY :: u32 where "O_RDONLY = 0"
definition O_WRONLY :: u32 where "O_WRONLY = 1"
definition O_RDWR :: u32 where "O_RDWR = 2"

definition user_esp :: "'z mstate_scheme \<Rightarrow> u32 \<Rightarrow> u32" where
  "user_esp s regs = load32 (mem s) (regs + esp_offset)"

abbreviation open_files :: "'z k_state_scheme \<Rightarrow> file_ref option list" where
  "open_files s \<equiv> t_open_files (tasks s ! curr_task s)"

definition set_fd :: "'z k_state_scheme \<Rightarrow> nat \<Rightarrow> file_ref option \<Rightarrow> 'z k_state_scheme outcome" where
  "set_fd s fd fp =
     (if length (open_files s) \<le> fd then Undef ''write past the end of an array''
      else Ok (upd_task s (curr_task s) (\<lambda>t. t\<lparr>t_open_files := (t_open_files t)[fd := fp]\<rparr>)))"

definition get_fd :: "'z k_state_scheme \<Rightarrow> u32 \<Rightarrow> file_ref option outcome" where
  "get_fd s fd =
     (if length (open_files s) \<le> unat fd then Undef ''read past the end of an array''
      else Ok (open_files s ! unat fd))"

text \<open>An argument or the return value -1.\<close>

definition with_arg ::
    "'z k_state_scheme \<Rightarrow> u32 \<Rightarrow> nat \<Rightarrow> (u32 \<Rightarrow> (u32 \<times> 'z k_state_scheme) outcome) \<Rightarrow>
     (u32 \<times> 'z k_state_scheme) outcome" where
  "with_arg s esp n f =
     bnd (read_syscall_arg s esp n) (\<lambda>a. case a of None \<Rightarrow> Ok (-1, s) | Some v \<Rightarrow> f v)"

text \<open>The first slot not in use, or 8 when there is none; \<^verbatim>\<open>sys_open\<close> goes on with it either way.\<close>

fun free_fd :: "file_ref option list \<Rightarrow> nat \<Rightarrow> nat" where
  "free_fd [] fd = fd"
| "free_fd (f # fs) fd = (if f = None then fd else free_fd fs (Suc fd))"

text \<open>The last part of \<^verbatim>\<open>sys_open\<close>.\<close>

definition finish_open ::
    "'z k_state_scheme \<Rightarrow> nat \<Rightarrow> file_ref option \<Rightarrow> (u32 \<times> 'z k_state_scheme) outcome" where
  "finish_open s fd fp =
     (case fp of None \<Rightarrow> Ok (of_nat fd, s)
      | Some f \<Rightarrow> bnd (set_fd s fd (Some f)) (\<lambda>s. Ok (of_nat fd, set_fp s f (\<lambda>f. f\<lparr>f_pos := 0\<rparr>))))"

text \<open>
  The branches after the descriptor is chosen. \<^verbatim>\<open>memset(fp->data, 0, sizeof(MAX_FILE_SIZE))\<close> clears the
  four bytes of an \<^verbatim>\<open>int\<close>; \<^verbatim>\<open>size\<close> is unsigned, so \<^verbatim>\<open>(fp->size = list_rootdir(..)) < 0\<close> is false.
\<close>

definition open_path ::
    "'z k_state_scheme \<Rightarrow> nat \<Rightarrow> u32 \<Rightarrow> u32 \<Rightarrow> (u32 \<times> 'z k_state_scheme) outcome" where
  "open_path s fd path flags =
     bnd (strcmp (arr (kstr ''console'' @ [0])) (vptr s path)) (\<lambda>c.
     if c = 0 then bnd (set_fd s fd (Some Console_file)) (\<lambda>s. finish_open s fd None)
     else
       bnd (strcmp (arr (kstr ''/'' @ [0])) (vptr s path)) (\<lambda>c.
       bnd (if c = 0 then bnd (get_file s (vptr s path)) (\<lambda>fp. Ok (fp = None)) else Ok False) (\<lambda>first.
       if first then
         bnd (alloc_file s (vptr s path)) (\<lambda>(fp, s).
         case fp of None \<Rightarrow> Ok (-1, s)
         | Some f \<Rightarrow>
             let s = set_fp s f (\<lambda>f. f\<lparr>f_type := FT_DIR\<rparr>)
             in bnd (list_rootdir s (f_data (get_fp s f))) (\<lambda>(r, s).
               let s = set_fp s f (\<lambda>f. f\<lparr>f_size := word_of_int r\<rparr>)
               in finish_open s fd fp))
       else if flags = O_RDONLY then
         bnd (get_file s (vptr s path)) (\<lambda>fp. if fp = None then Ok (-1, s) else finish_open s fd fp)
       else if flags = O_WRONLY \<or> flags = O_RDWR then
         bnd (get_file s (vptr s path)) (\<lambda>fp.
         case fp of
           Some f \<Rightarrow>
             let s = s\<lparr>mem := memset (mem s) (f_data (get_fp s f)) 0 4\<rparr>
             in finish_open (set_fp s f (\<lambda>f. f\<lparr>f_type := FT_REGULAR\<rparr>)) fd fp
         | None \<Rightarrow>
             bnd (alloc_file s (vptr s path)) (\<lambda>(fp, s).
             case fp of None \<Rightarrow> Ok (-1, s)
             | Some f \<Rightarrow> finish_open (set_fp s f (\<lambda>f. f\<lparr>f_type := FT_REGULAR\<rparr>)) fd fp))
       else Ok (-1, s))))"

definition sys_open :: "'z k_state_scheme \<Rightarrow> u32 \<Rightarrow> (u32 \<times> 'z k_state_scheme) outcome" where
  "sys_open s regs =
     (let esp = user_esp s regs
      in with_arg s esp 0 (\<lambda>path. with_arg s esp 1 (\<lambda>flags.
           open_path s (free_fd (open_files s) 0) path flags)))"

definition sys_read :: "'z k_state_scheme \<Rightarrow> u32 \<Rightarrow> (u32 \<times> 'z k_state_scheme) outcome" where
  "sys_read s regs =
     (let esp = user_esp s regs
      in with_arg s esp 0 (\<lambda>fd. with_arg s esp 1 (\<lambda>buf. with_arg s esp 2 (\<lambda>count.
         bnd (get_fd s fd) (\<lambda>fp.
         case fp of None \<Rightarrow> Ok (-1, s)
         | Some f \<Rightarrow>
             (case f_type (get_fp s f) of
                FT_DEV \<Rightarrow> bnd (read_console s buf count) (\<lambda>(n, s). Ok (of_nat n, s))
              | FT_REGULAR \<Rightarrow> read_file s f buf count
              | FT_DIR \<Rightarrow> read_file s f buf count))))))"

definition sys_write :: "'z k_state_scheme \<Rightarrow> u32 \<Rightarrow> (u32 \<times> 'z k_state_scheme) outcome" where
  "sys_write s regs =
     (let esp = user_esp s regs
      in with_arg s esp 0 (\<lambda>fd. with_arg s esp 1 (\<lambda>buf. with_arg s esp 2 (\<lambda>count.
         bnd (get_fd s fd) (\<lambda>fp.
         case fp of None \<Rightarrow> Ok (-1, s)
         | Some f \<Rightarrow>
             (case f_type (get_fp s f) of
                FT_DEV \<Rightarrow> printn s (vptr s buf) count
              | FT_REGULAR \<Rightarrow> bnd (write_file s f buf count) (\<lambda>s. Ok (-1, s))
              | FT_DIR \<Rightarrow> Ok (-1, s)))))))"

definition sys_close :: "'z k_state_scheme \<Rightarrow> u32 \<Rightarrow> (u32 \<times> 'z k_state_scheme) outcome" where
  "sys_close s regs =
     with_arg s (user_esp s regs) 0 (\<lambda>fd.
       bnd (get_fd s fd) (\<lambda>fp.
       case fp of None \<Rightarrow> Ok (-1, s)
       | Some f \<Rightarrow>
           if \<not> f_in_use (get_fp s f) then Ok (-1, s)
           else bnd (set_fd s (unat fd) None) (\<lambda>s. Ok (0, s))))"

end
