(* ===== verification/SysProc.thy ===== *)
theory SysProc
  imports SysFile
begin

text \<open>
  The process calls of \<^verbatim>\<open>sys_proc.c\<close>: \<^verbatim>\<open>fork\<close>, \<^verbatim>\<open>execv\<close> with the argument stack it builds, \<^verbatim>\<open>exit\<close> and
  \<^verbatim>\<open>wait\<close>. The last two may switch to another task in the middle; what is left to do when the caller
  runs again is part of their result (\<open>sys_result\<close>).
\<close>

definition MAX_ARGC :: nat where "MAX_ARGC = 8"

section \<open>fork\<close>

definition sys_fork :: "u32 \<Rightarrow> 'z k_state_scheme \<Rightarrow> u32 \<Rightarrow> (u32 \<times> 'z k_state_scheme) outcome" where
  "sys_fork site s regs =
     bnd (alloc_task s) (\<lambda>(tp, s).
     case tp of None \<Rightarrow> Undef ''null pointer dereferenced''
     | Some tp \<Rightarrow>
       let child_frame = KSTACK_TOP (t_kstack (tasks s ! tp)) - sizeof_int_regs;
           s = s\<lparr>mem := build_int_frame (mem s) child_frame (load32 (mem s) (regs + eip_offset))\<rparr>;
           child_context = child_frame - sizeof_context;
           s = s\<lparr>mem := build_context site (mem s) child_context\<rparr>;
           s = upd_task s tp (\<lambda>t. t\<lparr>t_context := child_context\<rparr>);
           s = s\<lparr>mem := memcpy (mem s) child_frame regs sizeof_regs\<rparr>;
           s = s\<lparr>mem := store32 (mem s) (child_frame + esp_offset) (load32 (mem s) (regs + esp_offset))\<rparr>;
           s = s\<lparr>mem := store32 (mem s) (child_frame + eax_offset) 0\<rparr>
       in bnd (alloc_map_memory s (t_pgdir (tasks s ! tp)) 0 PGSIZE (PTE_RW OR PTE_US)) (\<lambda>s.
          bnd (memcpy_to_another_space s (t_pgdir (tasks s ! tp)) 0 0 PGSIZE) (\<lambda>s.
          let s = upd_task s tp (\<lambda>t. t\<lparr>t_open_files := open_files s\<rparr>);
              s = upd_task s tp (\<lambda>t. t\<lparr>t_state := RUNNABLE\<rparr>);
              s = upd_task s tp (\<lambda>t. t\<lparr>t_parent := Some (curr_task s)\<rparr>)
          in Ok (word_of_int (t_pid (tasks s ! tp)), s))))"

section \<open>execv\<close>

text \<open>
  \<^verbatim>\<open>memcpy_to_another_space(pgdir, dest, &x, sizeof(x))\<close> for a 32-bit local \<open>x\<close>: the source is on the
  kernel stack and the copy is one round.
\<close>

definition copy_word :: "'z mstate_scheme \<Rightarrow> u32 \<Rightarrow> u32 \<Rightarrow> u32 \<Rightarrow> 'z mstate_scheme outcome" where
  "copy_word s pgdir dest x =
     (let pte_p = walk_pgdir (mem s) pgdir dest
      in if pte_p = NULL then Undef ''null pointer dereferenced''
         else let tgt = PHYS_TO_VIRT (frame (load32 (mem s) pte_p)) + dest mod PGSIZE
         in loop_from 0 4 (\<lambda>i s. vwrite s (tgt + of_nat i) (ucast (drop_bit (8 * i) x))) s)"

text \<open>
  The loop over the arguments: \<open>n\<close> is \<^verbatim>\<open>MAX_ARGC - argc\<close>, \<open>argv_ps\<close> the pointers stored so far. \<open>None\<close>
  is the return value -1.
\<close>

fun ustack_args ::
    "nat \<Rightarrow> 'z mstate_scheme \<Rightarrow> u32 \<Rightarrow> u32 \<Rightarrow> u32 \<Rightarrow> u32 list \<Rightarrow> ((u32 \<times> u32 list) option \<times> 'z mstate_scheme) outcome" where
  "ustack_args 0 s pgdir esp argv argv_ps = Ok (Some (esp, argv_ps), s)"
| "ustack_args (Suc n) s pgdir esp argv argv_ps =
     bnd (read_user_mem s argv) (\<lambda>r.
     case r of None \<Rightarrow> Ok (None, s)
     | Some arg \<Rightarrow>
         if arg = NULL then Ok (Some (esp, argv_ps), s)
         else bnd (strlen (vptr s arg)) (\<lambda>len.
           if len > 4096 div 3 div MAX_ARGC then Ok (Some (esp, argv_ps), s)
           else
             let esp = esp - of_nat (len + 1)
             in bnd (vload32 s argv) (\<lambda>src.
                bnd (memcpy_to_another_space s pgdir esp src (of_nat (len + 1))) (\<lambda>s.
                  ustack_args n s pgdir esp (argv + 4) (argv_ps @ [esp])))))"

text \<open>The pointers, last one first, each below the one before.\<close>

fun push_words :: "u32 list \<Rightarrow> 'z mstate_scheme \<Rightarrow> u32 \<Rightarrow> u32 \<Rightarrow> (u32 \<times> 'z mstate_scheme) outcome" where
  "push_words [] s pgdir esp = Ok (esp, s)"
| "push_words (w # ws) s pgdir esp = bnd (copy_word s pgdir esp w) (\<lambda>s. push_words ws s pgdir (esp - 4))"

definition prepare_ustack ::
    "'z mstate_scheme \<Rightarrow> u32 \<Rightarrow> u32 \<Rightarrow> u32 \<Rightarrow> (u32 option \<times> 'z mstate_scheme) outcome" where
  "prepare_ustack s pgdir esp argv =
     (if argv = NULL
      then bnd (copy_word s pgdir esp 0) (\<lambda>s. Ok (Some (esp - 4), s))
      else bnd (ustack_args MAX_ARGC s pgdir esp argv []) (\<lambda>(r, s).
        case r of None \<Rightarrow> Ok (None, s)
        | Some (esp, argv_ps) \<Rightarrow>
            let esp = (esp - 4) AND NOT 3
            in bnd (push_words (rev argv_ps) s pgdir esp) (\<lambda>(esp, s).
               bnd (copy_word s pgdir esp (esp + 4)) (\<lambda>s.
               let esp = esp - 4
               in bnd (copy_word s pgdir esp (of_nat (length argv_ps))) (\<lambda>s. Ok (Some (esp - 4), s))))))"

text \<open>The error exit of \<^verbatim>\<open>sys_execv\<close>.\<close>

definition execv_fail :: "'z k_state_scheme \<Rightarrow> u32 \<Rightarrow> (u32 \<times> 'z k_state_scheme) outcome" where
  "execv_fail s old_pgdir =
     bnd (destroy_address_space s (t_pgdir (tasks s ! curr_task s))) (\<lambda>s.
       Ok (-1, upd_task s (curr_task s) (\<lambda>t. t\<lparr>t_pgdir := old_pgdir\<rparr>)))"

definition sys_execv :: "'z k_state_scheme \<Rightarrow> u32 \<Rightarrow> (u32 \<times> 'z k_state_scheme) outcome" where
  "sys_execv s regs =
     (let esp = user_esp s regs
      in with_arg s esp 0 (\<lambda>path. with_arg s esp 1 (\<lambda>argv.
         let old_pgdir = t_pgdir (tasks s ! curr_task s)
         in bnd (map_kernel s) (\<lambda>(pgdir, s).
         let s = upd_task s (curr_task s) (\<lambda>t. t\<lparr>t_pgdir := pgdir\<rparr>)
         in bnd (get_file s (vptr s path)) (\<lambda>fp.
         case fp of None \<Rightarrow> execv_fail s old_pgdir
         | Some f \<Rightarrow>
             let ehdr = f_data (get_fp s f)
             in bnd (load_elf s (curr_task s) ehdr) (\<lambda>(r, s).
             if r < 0 then execv_fail s old_pgdir
             else bnd (vload32 s (ehdr + e_entry_offset)) (\<lambda>e_entry.
             let s = s\<lparr>mem := store32 (mem s) (regs + eip_offset) e_entry\<rparr>;
                 s = s\<lparr>mem := store32 (mem s) (regs + esp_offset) (PGSIZE - 8)\<rparr>
             in bnd (prepare_ustack s (t_pgdir (tasks s ! curr_task s)) (load32 (mem s) (regs + esp_offset)) argv)
                  (\<lambda>(sp, s).
             case sp of None \<Rightarrow> execv_fail s old_pgdir
             | Some sp \<Rightarrow>
                 let s = s\<lparr>mem := store32 (mem s) (regs + esp_offset) sp\<rparr>;
                     s = upd_task s (curr_task s) (\<lambda>t. t\<lparr>t_open_files := replicate MAX_OPEN_FILES None\<rparr>)
                 in bnd (destroy_address_space s old_pgdir) (\<lambda>s.
                    Ok (0, lcr3 s (t_pgdir (tasks s ! curr_task s))))))))))))"

section \<open>exit and wait\<close>

text \<open>
  \<open>Returned r\<close>: the handler returned \<open>r\<close>. \<open>Slept ctx pid\<close>: it switched to the context \<open>ctx\<close> in \<^verbatim>\<open>sleep\<close>
  and will return \<open>pid\<close>. \<open>Exited ctx\<close>: it switched away in \<^verbatim>\<open>sys_exit\<close> and panics if it runs again.
\<close>

datatype sys_result = Returned u32 | Slept u32 u32 | Exited u32

definition sys_exit :: "'z k_state_scheme \<Rightarrow> u32 \<Rightarrow> (sys_result \<times> 'z k_state_scheme) outcome" where
  "sys_exit s sp =
     (if curr_task s = scheduler_task s then Panic ''sys_exit: Exit scheulder''
      else
        let s = s\<lparr>zombie_exists := True\<rparr>;
            s = upd_task s (curr_task s) (\<lambda>t. t\<lparr>t_state := ZOMBIE\<rparr>)
        in bnd (wakeup_parent s) (\<lambda>s.
           let (ctx, s) = switch_to s (scheduler_task s) sp in Ok (Exited ctx, s)))"

fun first_child :: "nat \<Rightarrow> task_struct list \<Rightarrow> nat \<Rightarrow> nat option" where
  "first_child p [] i = None"
| "first_child p (t # ts) i = (if t_parent t = Some p then Some i else first_child p ts (Suc i))"

definition sys_wait :: "'z k_state_scheme \<Rightarrow> u32 \<Rightarrow> (sys_result \<times> 'z k_state_scheme) outcome" where
  "sys_wait s sp =
     (case first_child (curr_task s) (tasks s) 0 of
        None \<Rightarrow> Ok (Returned (-1), s)
      | Some i \<Rightarrow>
          let pid = word_of_int (t_pid (tasks s ! i))
          in if state_of s i = ZOMBIE then Ok (Returned pid, s)
             else bnd (sleep s sp) (\<lambda>(ctx, s). Ok (Slept ctx pid, s)))"

end
