(* ===== verification/Trap.thy ===== *)
theory Trap
  imports SysProc
begin

text \<open>
  The entry into the kernel: \<^verbatim>\<open>handle_syscall\<close> of \<^verbatim>\<open>syscall.c\<close>, \<^verbatim>\<open>trampoline\<close> of \<^verbatim>\<open>interrupt.c\<close>, and what is left
  of them when a task that switched away runs again.
\<close>

definition SYS_open :: nat where "SYS_open = 0"
definition SYS_read :: nat where "SYS_read = 1"
definition SYS_write :: nat where "SYS_write = 2"
definition SYS_close :: nat where "SYS_close = 3"
definition SYS_execv :: nat where "SYS_execv = 4"
definition SYS_fork :: nat where "SYS_fork = 5"
definition SYS_exit :: nat where "SYS_exit = 6"
definition SYS_wait :: nat where "SYS_wait = 7"
definition NUM_SYSCALL :: nat where "NUM_SYSCALL = 8"

lemmas syscall_numbers = SYS_open_def SYS_read_def SYS_write_def SYS_close_def SYS_execv_def SYS_fork_def
  SYS_exit_def SYS_wait_def NUM_SYSCALL_def

abbreviation returned :: "(u32 \<times> 'z k_state_scheme) outcome \<Rightarrow> (sys_result \<times> 'z k_state_scheme) outcome" where
  "returned r \<equiv> bnd r (\<lambda>(v, s). Ok (Returned v, s))"

text \<open>
  The number is compared as a signed \<^verbatim>\<open>int\<close>; a negative one is an index before the table of handlers.
\<close>

definition handle_syscall :: "u32 \<Rightarrow> 'z k_state_scheme \<Rightarrow> u32 \<Rightarrow> u32 \<Rightarrow> (sys_result \<times> 'z k_state_scheme) outcome" where
  "handle_syscall site s regs sp =
     (let num = sint (load32 (mem s) (regs + eax_offset))
      in if num \<ge> int NUM_SYSCALL then Ok (Returned 0, s)
         else if num < 0 then Undef ''read past the end of an array''
         else if num = int SYS_read then returned (sys_read s regs)
         else if num = int SYS_write then returned (sys_write s regs)
         else if num = int SYS_open then returned (sys_open s regs)
         else if num = int SYS_close then returned (sys_close s regs)
         else if num = int SYS_fork then returned (sys_fork site s regs)
         else if num = int SYS_execv then returned (sys_execv s regs)
         else if num = int SYS_exit then sys_exit s sp
         else sys_wait s sp)"

text \<open>
  What remains of a task's stay in the kernel when it is switched to: nothing (after a timer
  interrupt, or for a new task, whose frame goes straight to \<^verbatim>\<open>ret_to_int_site\<close>), the rest of \<^verbatim>\<open>wait\<close> and of
  \<^verbatim>\<open>trampoline\<close> with the frame it belongs to, or the end of \<^verbatim>\<open>sys_exit\<close>.
\<close>

datatype resume = Fresh | After_timer | After_wait u32 u32 | After_exit

datatype trap_result = Back | Away u32 resume

definition finish_syscall :: "'z k_state_scheme \<Rightarrow> u32 \<Rightarrow> u32 \<Rightarrow> 'z k_state_scheme outcome" where
  "finish_syscall s regs ret = kill_off_zombies (s\<lparr>mem := store32 (mem s) (regs + eax_offset) ret\<rparr>)"

definition trampoline ::
    "u32 \<Rightarrow> 'z k_state_scheme \<Rightarrow> u32 \<Rightarrow> u32 \<Rightarrow> (trap_result \<times> 'z k_state_scheme) outcome" where
  "trampoline site s regs sp =
     (let irq = load32 (mem s) (regs + vector_offset) AND 0xff
      in if irq = of_nat (T_IRQ_BASE + IRQ_SYSCALL) then
           bnd (handle_syscall site s regs sp) (\<lambda>(r, s).
           case r of
             Returned ret \<Rightarrow> bnd (finish_syscall s regs ret) (\<lambda>s. Ok (Back, s))
           | Slept ctx pid \<Rightarrow> Ok (Away ctx (After_wait regs pid), s)
           | Exited ctx \<Rightarrow> Ok (Away ctx After_exit, s))
         else if irq = T_IRQ + IRQ_TIMER then
           (let s = s\<lparr>ticks := ticks s + 1\<rparr>;
                s = eoi s;
                (ctx, s) = switch_to s (scheduler_task s) sp
            in Ok (Away ctx After_timer, s))
         else if irq = T_IRQ + IRQ_SERIAL then
           bnd (handle_uartintr s) (\<lambda>(ch, s).
           bnd (write_circular_buf s ch) (\<lambda>s. Ok (Back, eoi s)))
         else if irq = T_IRQ + IRQ_SPURIOUS then Ok (Back, eoi s)
         else if irq = T_IRQ + IRQ_ERR then Panic ''Internal error in lapic''
         else
           bnd (print s (arr (kstr ''Unknown irq: '' @ [0]))) (\<lambda>(_, s).
           bnd (printnum s (uint irq)) (\<lambda>s.
           bnd (print s (arr [10, 0])) (\<lambda>_. Panic ''Don't know how to handle it :)''))))"

definition resume_task :: "'z k_state_scheme \<Rightarrow> resume \<Rightarrow> 'z k_state_scheme outcome" where
  "resume_task s r =
     (case r of
        Fresh \<Rightarrow> Ok s
      | After_timer \<Rightarrow> Ok s
      | After_wait regs pid \<Rightarrow> finish_syscall s regs pid
      | After_exit \<Rightarrow> Panic ''sys_exit: Should not return from scheduler'')"

end
