(* ===== verification/ProcSpec.thy ===== *)
theory ProcSpec
  imports Trap Simulation
begin

text \<open>
  What the scheduler and the process calls promise, on the part of the state that matters for them: for
  every slot of the task table its state, parent and pid (a view), which task runs, where the search
  of the scheduler goes on, and what each suspended task still has to do when it is switched to. A
  step is a dispatch, a stay in the kernel that goes back to the same task, or one that leaves it.
  The memory, the devices and the files do not appear; that the kernel's operations refine this
  machine is shown in \<^verbatim>\<open>Sched\<close>.
\<close>

type_synonym view = "nat \<Rightarrow> procstate \<times> nat option \<times> int"

abbreviation v_state :: "view \<Rightarrow> nat \<Rightarrow> procstate" where "v_state v i \<equiv> fst (v i)"
abbreviation v_parent :: "view \<Rightarrow> nat \<Rightarrow> nat option" where "v_parent v i \<equiv> fst (snd (v i))"
abbreviation v_pid :: "view \<Rightarrow> nat \<Rightarrow> int" where "v_pid v i \<equiv> snd (snd (v i))"

definition to_state :: "procstate \<Rightarrow> nat \<Rightarrow> view \<Rightarrow> view" where
  "to_state st i v = v(i := (st, snd (v i)))"

lemma to_state_apply [simp]: "to_state st i v j = (if j = i then (st, snd (v i)) else v j)"
  by (simp add: to_state_def)

text \<open>After a switch from task \<open>c\<close> to task \<open>n\<close>.\<close>

definition switched :: "nat \<Rightarrow> nat \<Rightarrow> view \<Rightarrow> view" where
  "switched c n v = to_state RUNNING n (if v_state v c = RUNNING then to_state RUNNABLE c v else v)"

definition woken :: "nat \<Rightarrow> view \<Rightarrow> view" where
  "woken p v = (if v_state v p = SLEEPING then to_state RUNNABLE p v else v)"

text \<open>Some zombie children of \<open>c\<close> have become unused slots.\<close>

definition reaps :: "nat \<Rightarrow> view \<Rightarrow> view \<Rightarrow> bool" where
  "reaps c v w \<longleftrightarrow> (\<forall>i. w i = v i \<or> v_state v i = ZOMBIE \<and> v_parent v i = Some c \<and> w i = (UNUSED, None, 0))"

lemma reaps_refl [simp]: "reaps c v v"
  by (simp add: reaps_def)

record proc_sys =
  p_view :: view
  p_cur :: nat
  p_next :: nat
  p_resume :: "nat \<Rightarrow> resume"

datatype event = Dispatched nat | Came_back | Left

text \<open>An unused slot has nothing left to do; the task made in it next starts afresh.\<close>

definition settled :: "view \<Rightarrow> (nat \<Rightarrow> resume) \<Rightarrow> nat \<Rightarrow> resume" where
  "settled v rs i = (if v_state v i = UNUSED then Fresh else rs i)"

abbreviation next_index :: "nat \<Rightarrow> nat" where
  "next_index j \<equiv> (j + 1) mod MAX_TASKS"

inductive p_step :: "proc_sys \<Rightarrow> event \<Rightarrow> proc_sys \<Rightarrow> bool" where
  dispatch:
    "p_cur x = 0 \<Longrightarrow> k < MAX_TASKS \<Longrightarrow> j = (p_next x + k) mod MAX_TASKS \<Longrightarrow> v_state (p_view x) j = RUNNABLE \<Longrightarrow>
     (\<forall>l < k. v_state (p_view x) ((p_next x + l) mod MAX_TASKS) \<noteq> RUNNABLE) \<Longrightarrow>
     p_resume x j \<noteq> After_exit \<Longrightarrow> reaps j (switched 0 j (p_view x)) w \<Longrightarrow>
     p_step x (Dispatched j) \<lparr>p_view = w, p_cur = j, p_next = next_index j, p_resume = settled w (p_resume x)\<rparr>"
| stay:
    "p_cur x \<noteq> 0 \<Longrightarrow> reaps (p_cur x) (p_view x) w \<Longrightarrow>
     p_step x Came_back (x\<lparr>p_view := w, p_resume := settled w (p_resume x)\<rparr>)"
| fork:
    "p_cur x \<noteq> 0 \<Longrightarrow> i < MAX_TASKS \<Longrightarrow> v_state (p_view x) i = UNUSED \<Longrightarrow>
     reaps (p_cur x) ((p_view x)(i := (RUNNABLE, Some (p_cur x), int i))) w \<Longrightarrow>
     p_step x Came_back (x\<lparr>p_view := w, p_resume := settled w (p_resume x)\<rparr>)"
| timer:
    "p_cur x \<noteq> 0 \<Longrightarrow> w = switched (p_cur x) 0 (p_view x) \<Longrightarrow>
     p_step x Left (x\<lparr>p_view := w, p_cur := 0, p_resume := settled w ((p_resume x)(p_cur x := After_timer))\<rparr>)"
| wait:
    "p_cur x \<noteq> 0 \<Longrightarrow> i < MAX_TASKS \<Longrightarrow> v_parent (p_view x) i = Some (p_cur x) \<Longrightarrow>
     v_state (p_view x) i \<noteq> ZOMBIE \<Longrightarrow> (\<forall>j < i. v_parent (p_view x) j \<noteq> Some (p_cur x)) \<Longrightarrow>
     w = switched (p_cur x) 0 (to_state SLEEPING (p_cur x) (p_view x)) \<Longrightarrow>
     p_step x Left (x\<lparr>p_view := w, p_cur := 0,
       p_resume := settled w ((p_resume x)(p_cur x := After_wait regs pid))\<rparr>)"
| exit:
    "p_cur x \<noteq> 0 \<Longrightarrow> v_parent (p_view x) (p_cur x) = Some p \<Longrightarrow>
     w = switched (p_cur x) 0 (woken p (to_state ZOMBIE (p_cur x) (p_view x))) \<Longrightarrow>
     p_step x Left (x\<lparr>p_view := w, p_cur := 0, p_resume := settled w ((p_resume x)(p_cur x := After_exit))\<rparr>)"

inductive_cases p_step_cases: "p_step x e y"

abbreviation p_run :: "proc_sys \<Rightarrow> event list \<Rightarrow> proc_sys \<Rightarrow> bool" where
  "p_run \<equiv> steps p_step"

section \<open>The invariant\<close>

definition live_child :: "view \<Rightarrow> nat \<Rightarrow> nat \<Rightarrow> bool" where
  "live_child v p i \<longleftrightarrow> i < MAX_TASKS \<and> v_parent v i = Some p \<and> v_state v i \<noteq> UNUSED \<and> v_state v i \<noteq> ZOMBIE"

text \<open>
  Exactly the current task is RUNNING; the scheduler is RUNNABLE while another task runs; pids are
  indices; only used slots have parents; a task that has exited stays a zombie and a sleeping task has
  a child that can still wake it.
\<close>

definition p_inv :: "proc_sys \<Rightarrow> bool" where
  "p_inv x \<longleftrightarrow> (let v = p_view x in
     p_cur x < MAX_TASKS \<and> p_next x < MAX_TASKS \<and>
     (\<forall>i < MAX_TASKS. (v_state v i = RUNNING) = (i = p_cur x)) \<and>
     (p_cur x \<noteq> 0 \<longrightarrow> v_state v 0 = RUNNABLE) \<and>
     (\<forall>i < MAX_TASKS. v_state v i \<noteq> UNUSED \<longrightarrow> v_pid v i = int i) \<and>
     (\<forall>i < MAX_TASKS. \<forall>p. v_parent v i = Some p \<longrightarrow> p < MAX_TASKS \<and> p \<noteq> i \<and> v_state v i \<noteq> UNUSED) \<and>
     (\<forall>i < MAX_TASKS. p_resume x i = After_exit \<longrightarrow> v_state v i = ZOMBIE) \<and>
     (\<forall>i < MAX_TASKS. v_state v i = SLEEPING \<longrightarrow> (\<exists>c. live_child v i c)))"

lemma p_invD:
  assumes "p_inv x"
  shows "p_cur x < MAX_TASKS" "p_next x < MAX_TASKS"
    "i < MAX_TASKS \<Longrightarrow> (v_state (p_view x) i = RUNNING) = (i = p_cur x)"
    "p_cur x \<noteq> 0 \<Longrightarrow> v_state (p_view x) 0 = RUNNABLE"
    "i < MAX_TASKS \<Longrightarrow> v_state (p_view x) i \<noteq> UNUSED \<Longrightarrow> v_pid (p_view x) i = int i"
    "i < MAX_TASKS \<Longrightarrow> v_parent (p_view x) i = Some p \<Longrightarrow> p < MAX_TASKS \<and> p \<noteq> i \<and> v_state (p_view x) i \<noteq> UNUSED"
    "i < MAX_TASKS \<Longrightarrow> p_resume x i = After_exit \<Longrightarrow> v_state (p_view x) i = ZOMBIE"
    "i < MAX_TASKS \<Longrightarrow> v_state (p_view x) i = SLEEPING \<Longrightarrow> \<exists>c. live_child (p_view x) i c"
  using assms unfolding p_inv_def Let_def by blast+

text \<open>The parts of the invariant that only concern the view, for a given current task.\<close>

definition v_inv :: "view \<Rightarrow> nat \<Rightarrow> bool" where
  "v_inv v c \<longleftrightarrow>
     (\<forall>i < MAX_TASKS. (v_state v i = RUNNING) = (i = c)) \<and> (c \<noteq> 0 \<longrightarrow> v_state v 0 = RUNNABLE) \<and>
     (\<forall>i < MAX_TASKS. v_state v i \<noteq> UNUSED \<longrightarrow> v_pid v i = int i) \<and>
     (\<forall>i < MAX_TASKS. \<forall>p. v_parent v i = Some p \<longrightarrow> p < MAX_TASKS \<and> p \<noteq> i \<and> v_state v i \<noteq> UNUSED) \<and>
     (\<forall>i < MAX_TASKS. v_state v i = SLEEPING \<longrightarrow> (\<exists>c. live_child v i c))"

lemma p_inv_iff:
  "p_inv x \<longleftrightarrow> p_cur x < MAX_TASKS \<and> p_next x < MAX_TASKS \<and> v_inv (p_view x) (p_cur x) \<and>
     (\<forall>i < MAX_TASKS. p_resume x i = After_exit \<longrightarrow> v_state (p_view x) i = ZOMBIE)"
  unfolding p_inv_def v_inv_def Let_def by blast

lemma v_invI:
  assumes "\<And>i. i < MAX_TASKS \<Longrightarrow> (v_state v i = RUNNING) = (i = c)" and "c \<noteq> 0 \<Longrightarrow> v_state v 0 = RUNNABLE"
    and "\<And>i. i < MAX_TASKS \<Longrightarrow> v_state v i \<noteq> UNUSED \<Longrightarrow> v_pid v i = int i"
    and "\<And>i p. i < MAX_TASKS \<Longrightarrow> v_parent v i = Some p \<Longrightarrow> p < MAX_TASKS \<and> p \<noteq> i \<and> v_state v i \<noteq> UNUSED"
    and "\<And>i. i < MAX_TASKS \<Longrightarrow> v_state v i = SLEEPING \<Longrightarrow> \<exists>c. live_child v i c"
  shows "v_inv v c"
  using assms unfolding v_inv_def by blast

lemma v_invD:
  assumes "v_inv v c"
  shows "i < MAX_TASKS \<Longrightarrow> (v_state v i = RUNNING) = (i = c)" "c \<noteq> 0 \<Longrightarrow> v_state v 0 = RUNNABLE"
    "i < MAX_TASKS \<Longrightarrow> v_state v i \<noteq> UNUSED \<Longrightarrow> v_pid v i = int i"
    "i < MAX_TASKS \<Longrightarrow> v_parent v i = Some p \<Longrightarrow> p < MAX_TASKS \<and> p \<noteq> i \<and> v_state v i \<noteq> UNUSED"
    "i < MAX_TASKS \<Longrightarrow> v_state v i = SLEEPING \<Longrightarrow> \<exists>c. live_child v i c"
  using assms unfolding v_inv_def by blast+

lemma v_inv_reaps:
  assumes "v_inv v c" and "reaps d v w"
  shows "v_inv w c"
proof -
  have r: "w i = v i \<or> v_state v i = ZOMBIE \<and> v_parent v i = Some d \<and> w i = (UNUSED, None, 0)" for i
    using assms(2) by (simp add: reaps_def)
  have live: "live_child w i k" if "live_child v i k" for i k
    using r [of k] that by (auto simp: live_child_def)
  show ?thesis
  proof (rule v_invI)
    fix i assume "i < MAX_TASKS"
    then show "(v_state w i = RUNNING) = (i = c)" using r [of i] v_invD(1) [OF assms(1), of i] by auto
  next
    assume "c \<noteq> 0"
    then show "v_state w 0 = RUNNABLE" using r [of 0] v_invD(2) [OF assms(1)] by auto
  next
    fix i assume "i < MAX_TASKS" "v_state w i \<noteq> UNUSED"
    then show "v_pid w i = int i" using r [of i] v_invD(3) [OF assms(1), of i] by auto
  next
    fix i p assume "i < MAX_TASKS" "v_parent w i = Some p"
    then show "p < MAX_TASKS \<and> p \<noteq> i \<and> v_state w i \<noteq> UNUSED"
      using r [of i] v_invD(4) [OF assms(1), of i p] by auto
  next
    fix i assume "i < MAX_TASKS" "v_state w i = SLEEPING"
    then obtain k where "live_child v i k" using r [of i] v_invD(5) [OF assms(1), of i] by auto
    then show "\<exists>k. live_child w i k" using live by blast
  qed
qed

lemma v_inv_fork:
  assumes v: "v_inv v c" and i: "i < MAX_TASKS" "v_state v i = UNUSED" and c: "c < MAX_TASKS" "c \<noteq> 0"
  shows "v_inv (v(i := (RUNNABLE, Some c, int i))) c"
proof -
  have "v_state v c = RUNNING" "v_state v 0 = RUNNABLE" using v_invD(1) [OF v c(1)] v_invD(2) [OF v c(2)] by auto
  then have ne: "i \<noteq> c" "i \<noteq> 0" using i(2) by (metis procstate.distinct(1,3,5,7))+
  have live: "live_child (v(i := (RUNNABLE, Some c, int i))) p k" if "live_child v p k" for p k
    using that i by (auto simp: live_child_def)
  show ?thesis
  proof (rule v_invI)
    fix k assume "k < MAX_TASKS"
    then show "(v_state (v(i := (RUNNABLE, Some c, int i))) k = RUNNING) = (k = c)"
      using v_invD(1) [OF v, of k] ne by auto
  next
    fix k p assume "k < MAX_TASKS" "v_parent (v(i := (RUNNABLE, Some c, int i))) k = Some p"
    then show "p < MAX_TASKS \<and> p \<noteq> k \<and> v_state (v(i := (RUNNABLE, Some c, int i))) k \<noteq> UNUSED"
      using v_invD(4) [OF v, of k p] ne c(1) by (cases "k = i") auto
  next
    fix k assume "k < MAX_TASKS" "v_state (v(i := (RUNNABLE, Some c, int i))) k = SLEEPING"
    then obtain j where "live_child v k j" using v_invD(5) [OF v, of k] by (cases "k = i") auto
    then show "\<exists>j. live_child (v(i := (RUNNABLE, Some c, int i))) k j" using live by blast
  qed (use v_invD(2,3) [OF v] ne in auto)
qed

text \<open>A change of states that leaves the used slots used and the live tasks live.\<close>

lemma v_inv_states:
  assumes v: "v_inv v c" and same: "\<And>i. snd (w i) = snd (v i)"
    and run: "\<And>i. i < MAX_TASKS \<Longrightarrow> (v_state w i = RUNNING) = (i = d)" "d \<noteq> 0 \<Longrightarrow> v_state w 0 = RUNNABLE"
    and used: "\<And>i. i < MAX_TASKS \<Longrightarrow> (v_state w i = UNUSED) = (v_state v i = UNUSED)"
    and sleep: "\<And>i. i < MAX_TASKS \<Longrightarrow> v_state w i = SLEEPING \<Longrightarrow> \<exists>k. live_child w i k"
  shows "v_inv w d"
proof (rule v_invI)
  fix i assume "i < MAX_TASKS" "v_state w i \<noteq> UNUSED"
  then show "v_pid w i = int i" using v_invD(3) [OF v] used same by simp
next
  fix i p assume "i < MAX_TASKS" "v_parent w i = Some p"
  then show "p < MAX_TASKS \<and> p \<noteq> i \<and> v_state w i \<noteq> UNUSED" using v_invD(4) [OF v, of i p] used same by simp
qed (use run sleep in simp_all)

lemma v_inv_dispatch:
  assumes v: "v_inv v 0" and j: "j < MAX_TASKS" "v_state v j = RUNNABLE"
  shows "v_inv (switched 0 j v) j"
proof -
  have z: "v_state v 0 = RUNNING" using v_invD(1) [OF v, of 0] by (simp add: MAX_TASKS_def)
  have "j \<noteq> 0" by (rule notI) (use z j(2) in simp)
  note z = z this
  have u: "v_state v 0 \<noteq> UNUSED" using z(1) by simp
  have live: "live_child (switched 0 j v) p k" if "live_child v p k" for p k
    using that z by (auto simp: live_child_def switched_def)
  show ?thesis
  proof (rule v_inv_states [OF v])
    fix i assume i: "i < MAX_TASKS" "v_state (switched 0 j v) i = SLEEPING"
    then have "v_state v i = SLEEPING" using z by (auto simp: switched_def split: if_splits)
    then show "\<exists>k. live_child (switched 0 j v) i k" using v_invD(5) [OF v i(1)] live by blast
  qed (use z u j v_invD(1) [OF v] in \<open>auto simp: switched_def\<close>)
qed

lemma v_inv_timer:
  assumes v: "v_inv v c" and c: "c < MAX_TASKS" "c \<noteq> 0"
  shows "v_inv (switched c 0 v) 0"
proof -
  have z: "v_state v c = RUNNING" "v_state v 0 = RUNNABLE" using v_invD(1,2) [OF v] c by auto
  then have u: "v_state v c \<noteq> UNUSED" by simp
  have live: "live_child (switched c 0 v) p k" if "live_child v p k" for p k
    using that z c by (auto simp: live_child_def switched_def)
  show ?thesis
  proof (rule v_inv_states [OF v])
    fix i assume i: "i < MAX_TASKS" "v_state (switched c 0 v) i = SLEEPING"
    then have "v_state v i = SLEEPING" using z c by (auto simp: switched_def split: if_splits)
    then show "\<exists>k. live_child (switched c 0 v) i k" using v_invD(5) [OF v i(1)] live by blast
  qed (use z u c v_invD(1) [OF v] in \<open>auto simp: switched_def\<close>)
qed

lemma v_inv_wait:
  assumes v: "v_inv v c" and c: "c < MAX_TASKS" "c \<noteq> 0"
    and i: "i < MAX_TASKS" "v_parent v i = Some c" "v_state v i \<noteq> ZOMBIE"
  shows "v_inv (switched c 0 (to_state SLEEPING c v)) 0"
proof -
  have z: "v_state v c = RUNNING" "v_state v 0 = RUNNABLE" using v_invD(1,2) [OF v] c by auto
  then have u: "v_state v c \<noteq> UNUSED" by simp
  have live: "live_child (switched c 0 (to_state SLEEPING c v)) p k" if "live_child v p k" for p k
    using that z c by (auto simp: live_child_def switched_def)
  show ?thesis
  proof (rule v_inv_states [OF v])
    fix k assume k: "k < MAX_TASKS" "v_state (switched c 0 (to_state SLEEPING c v)) k = SLEEPING"
    have "live_child v c i" using i v_invD(4) [OF v i(1,2)] by (simp add: live_child_def)
    moreover have "v_state v k = SLEEPING" if "k \<noteq> c"
      using that k z c by (auto simp: switched_def split: if_splits)
    ultimately show "\<exists>j. live_child (switched c 0 (to_state SLEEPING c v)) k j"
      using v_invD(5) [OF v k(1)] live by blast
  qed (use z u c v_invD(1) [OF v] in \<open>auto simp: switched_def\<close>)
qed

lemma v_inv_exit:
  assumes v: "v_inv v c" and c: "c < MAX_TASKS" "c \<noteq> 0" and p: "v_parent v c = Some p"
  shows "v_inv (switched c 0 (woken p (to_state ZOMBIE c v))) 0"
proof -
  let ?w = "switched c 0 (woken p (to_state ZOMBIE c v))"
  have z: "v_state v c = RUNNING" "v_state v 0 = RUNNABLE" using v_invD(1,2) [OF v] c by auto
  then have u: "v_state v c \<noteq> UNUSED" by simp
  have p': "p < MAX_TASKS" "p \<noteq> c" using v_invD(4) [OF v c(1) p] by auto
  have w: "?w i = (if i = 0 then (RUNNING, snd (v 0)) else if i = c then (ZOMBIE, snd (v c))
      else if i = p \<and> v_state v p = SLEEPING then (RUNNABLE, snd (v p)) else v i)" for i
    using z c p' by (auto simp: switched_def woken_def)
  show ?thesis
  proof (rule v_inv_states [OF v])
    fix i assume i: "i < MAX_TASKS" "v_state ?w i = SLEEPING"
    then have s: "v_state v i = SLEEPING" "i \<noteq> p" by (auto simp: w split: if_splits)
    obtain k where k: "live_child v i k" using v_invD(5) [OF v i(1) s(1)] by blast
    then have "k \<noteq> c" using s(2) p by (auto simp: live_child_def)
    then have "live_child ?w i k" using k by (auto simp: live_child_def w)
    then show "\<exists>k. live_child ?w i k" by blast
  qed (use z u c p' v_invD(1) [OF v] in \<open>auto simp: w\<close>)
qed

lemma settled_exit: "settled w rs i = After_exit \<Longrightarrow> rs i = After_exit \<and> v_state w i \<noteq> UNUSED"
  by (auto simp: settled_def split: if_splits)

lemma reaps_zombie:
  "reaps d v w \<Longrightarrow> v_state v i = ZOMBIE \<Longrightarrow> v_state w i = ZOMBIE \<or> v_state w i = UNUSED"
  unfolding reaps_def by (metis fst_conv)

lemma next_index_lt [simp]: "k mod MAX_TASKS < MAX_TASKS"
  by (simp add: MAX_TASKS_def)

lemma p_invI:
  assumes "p_view y = w" "p_resume y = settled w rs" "p_cur y < MAX_TASKS" "p_next y < MAX_TASKS"
    and "v_inv w (p_cur y)"
    and "\<And>i. i < MAX_TASKS \<Longrightarrow> rs i = After_exit \<Longrightarrow> v_state w i = ZOMBIE \<or> v_state w i = UNUSED"
  shows "p_inv y"
  unfolding p_inv_iff assms(1,2)
  using assms(3-6) settled_exit [of w rs] by blast

lemma p_inv_exit: "p_inv x \<Longrightarrow> i < MAX_TASKS \<Longrightarrow> p_resume x i = After_exit \<Longrightarrow> v_state (p_view x) i = ZOMBIE"
  by (simp add: p_inv_iff)

text \<open>A task that has exited stays a zombie when others switch.\<close>

lemma switched_zombie:
  "v_inv v c \<Longrightarrow> c < MAX_TASKS \<Longrightarrow> v_state v n = RUNNABLE \<Longrightarrow> v_state v i = ZOMBIE \<Longrightarrow> v_state (switched c n v) i = ZOMBIE"
  using v_invD(1) [of v c c] by (cases "i = c"; cases "i = n") (simp_all add: switched_def)

lemma p_step_inv:
  assumes "p_step x e y" and inv: "p_inv x"
  shows "p_inv y"
proof -
  have c: "p_cur x < MAX_TASKS" and n: "p_next x < MAX_TASKS" and v: "v_inv (p_view x) (p_cur x)"
    using inv by (simp_all add: p_inv_iff)
  have run: "v_state (p_view x) (p_cur x) = RUNNING" using v_invD(1) [OF v c] by simp
  note z = p_inv_exit [OF inv]
  show ?thesis
    using assms(1)
  proof cases
    case (dispatch k j w)
    have j: "j < MAX_TASKS" using dispatch(5) by simp
    have v': "v_inv w j"
      by (rule v_inv_reaps [OF v_inv_dispatch dispatch(9)]) (use v dispatch(3,6) j in simp_all)
    show ?thesis
    proof (rule p_invI [where w = w and rs = "p_resume x"])
      fix i assume i: "i < MAX_TASKS" "p_resume x i = After_exit"
      have "v_state (switched 0 j (p_view x)) i = ZOMBIE"
        by (rule switched_zombie [OF _ _ dispatch(6) z [OF i]]) (use v dispatch(3) in \<open>simp_all add: MAX_TASKS_def\<close>)
      then show "v_state w i = ZOMBIE \<or> v_state w i = UNUSED" by (rule reaps_zombie [OF dispatch(9)])
    qed (use dispatch(2) v' j in simp_all)
  next
    case (stay w)
    show ?thesis
    proof (rule p_invI [where w = w and rs = "p_resume x"])
      fix i assume i: "i < MAX_TASKS" "p_resume x i = After_exit"
      then show "v_state w i = ZOMBIE \<or> v_state w i = UNUSED" by (intro reaps_zombie [OF stay(4)] z)
    qed (use stay(2) c n v_inv_reaps [OF v stay(4)] in simp_all)
  next
    case (fork i w)
    show ?thesis
    proof (rule p_invI [where w = w and rs = "p_resume x"])
      fix k assume k: "k < MAX_TASKS" "p_resume x k = After_exit"
      have "k \<noteq> i" using z [OF k] fork(5) by auto
      then show "v_state w k = ZOMBIE \<or> v_state w k = UNUSED"
        using z [OF k] by (intro reaps_zombie [OF fork(6)]) simp
    qed (use fork(2) c n v_inv_reaps [OF v_inv_fork [OF v fork(4,5) c fork(3)] fork(6)] in simp_all)
  next
    case (timer w)
    show ?thesis
    proof (rule p_invI [where w = w and rs = "(p_resume x)(p_cur x := After_timer)"])
      fix k assume k: "k < MAX_TASKS" "((p_resume x)(p_cur x := After_timer)) k = After_exit"
      then have "v_state (p_view x) k = ZOMBIE" using z [of k] by (simp split: if_splits)
      then show "v_state w k = ZOMBIE \<or> v_state w k = UNUSED"
        unfolding timer(4) using switched_zombie [OF v c v_invD(2) [OF v timer(3)]] by blast
    qed (use timer n v_inv_timer [OF v c timer(3)] in \<open>simp_all add: MAX_TASKS_def\<close>)
  next
    case (wait i w regs pid)
    show ?thesis
    proof (rule p_invI [where w = w and rs = "(p_resume x)(p_cur x := After_wait regs pid)"])
      fix k assume k: "k < MAX_TASKS" "((p_resume x)(p_cur x := After_wait regs pid)) k = After_exit"
      then have "v_state (p_view x) k = ZOMBIE" "k \<noteq> p_cur x" using z [of k] by (simp_all split: if_splits)
      moreover have "k \<noteq> 0" using calculation v_invD(2) [OF v wait(3)] by (cases "k = 0") simp_all
      ultimately show "v_state w k = ZOMBIE \<or> v_state w k = UNUSED"
        unfolding wait(8) by (simp add: switched_def)
    qed (use wait n v_inv_wait [OF v c wait(3-6)] in \<open>simp_all add: MAX_TASKS_def\<close>)
  next
    case (exit p w)
    have p: "p \<noteq> p_cur x" using v_invD(4) [OF v c exit(4)] by simp
    show ?thesis
    proof (rule p_invI [where w = w and rs = "(p_resume x)(p_cur x := After_exit)"])
      fix k assume k: "k < MAX_TASKS" "((p_resume x)(p_cur x := After_exit)) k = After_exit"
      have "k = p_cur x \<or> v_state (p_view x) k = ZOMBIE" using z [of k] k by (simp split: if_splits)
      moreover have "k \<noteq> 0" using calculation v_invD(2) [OF v exit(3)] exit(3) by (cases "k = 0") auto
      ultimately show "v_state w k = ZOMBIE \<or> v_state w k = UNUSED"
        unfolding exit(5) using p by (auto simp: switched_def woken_def)
    qed (use exit n v_inv_exit [OF v c exit(3,4)] in \<open>simp_all add: MAX_TASKS_def\<close>)
  qed
qed

interpretation proc: invariant_system p_step p_inv
  by unfold_locales (rule p_step_inv)

section \<open>Round robin\<close>

fun is_dispatch :: "event \<Rightarrow> bool" where
  "is_dispatch (Dispatched j) = True"
| "is_dispatch Came_back = False"
| "is_dispatch Left = False"

abbreviation dispatches :: "event list \<Rightarrow> nat" where
  "dispatches es \<equiv> length (filter is_dispatch es)"

lemma mod_once: "(x :: nat) < 2 * m \<Longrightarrow> x mod m = (if x < m then x else x - m)"
  by (simp add: le_mod_geq)

lemma ahead_step:
  assumes "k < ahead i j" and "i < MAX_TASKS" and "j < MAX_TASKS"
  shows "ahead (next_index ((i + k) mod MAX_TASKS)) j < ahead i j"
proof -
  define d where "d = ahead i j"
  have d: "d < MAX_TASKS" "(i + d) mod MAX_TASKS = j"
    using ahead_lt ahead_reaches assms by (simp_all add: d_def)
  have j: "j = (if i + d < MAX_TASKS then i + d else i + d - MAX_TASKS)"
    using d assms(2) mod_once [of "i + d" MAX_TASKS] by simp
  have n: "next_index ((i + k) mod MAX_TASKS) = (if i + k + 1 < MAX_TASKS then i + k + 1 else i + k + 1 - MAX_TASKS)"
    using assms d mod_once [of "i + k + 1" MAX_TASKS] unfolding d_def [symmetric] by (simp add: mod_Suc_eq)
  have "ahead (next_index ((i + k) mod MAX_TASKS)) j = d - (k + 1)"
    using assms d mod_once [of "j + MAX_TASKS - next_index ((i + k) mod MAX_TASKS)" MAX_TASKS]
    unfolding d_def [symmetric] ahead_def n by (auto simp: j split: if_splits)
  then show ?thesis using assms(1) unfolding d_def [symmetric] by simp
qed

text \<open>A RUNNABLE task stays RUNNABLE until it is dispatched, and every other dispatch brings the search nearer to it.\<close>

lemma p_step_waiting:
  assumes "p_step x e y" and inv: "p_inv x" and j: "j < MAX_TASKS" "j \<noteq> 0" "v_state (p_view x) j = RUNNABLE"
    and ne: "e \<noteq> Dispatched j"
  shows "v_state (p_view y) j = RUNNABLE \<and>
    (if is_dispatch e then ahead (p_next y) j < ahead (p_next x) j else p_next y = p_next x)"
proof -
  have run: "v_state (p_view x) (p_cur x) = RUNNING" using p_invD(3) [OF inv p_invD(1) [OF inv]] by simp
  then have cj: "j \<noteq> p_cur x" using j(3) by auto
  have reap: "v_state w j = RUNNABLE" if "reaps d v w" "v_state v j = RUNNABLE" for d v w
    using that unfolding reaps_def by (metis procstate.distinct(27))
  show ?thesis
    using assms(1)
  proof cases
    case (dispatch k i w)
    have "v_state (switched 0 i (p_view x)) j = RUNNABLE"
      using dispatch ne j by (auto simp: switched_def)
    moreover have "k < ahead (p_next x) j"
    proof (rule ccontr)
      assume "\<not> k < ahead (p_next x) j"
      moreover have r: "(p_next x + ahead (p_next x) j) mod MAX_TASKS = j"
        by (rule ahead_reaches [OF p_invD(2) [OF inv] j(1)])
      ultimately consider "k = ahead (p_next x) j" | "ahead (p_next x) j < k" by linarith
      then show False
      proof cases
        case 1
        then show ?thesis using dispatch ne r by simp
      next
        case 2
        then show ?thesis using dispatch(7) r j(3) by metis
      qed
    qed
    ultimately show ?thesis
      using dispatch reap ahead_step [OF _ p_invD(2) [OF inv] j(1)] by simp
  next
    case (stay w)
    then show ?thesis using reap j(3) by simp
  next
    case (fork i w)
    have "((p_view x)(i := (RUNNABLE, Some (p_cur x), int i))) j = p_view x j \<or> i = j" by simp
    then show ?thesis using fork reap [OF fork(6)] j(3) by auto
  next
    case (timer w)
    then show ?thesis using cj j by (auto simp: switched_def)
  next
    case (wait i w regs pid)
    then show ?thesis using cj j by (auto simp: switched_def)
  next
    case (exit p w)
    then show ?thesis using cj j by (auto simp: switched_def woken_def)
  qed
qed

lemma p_run_waiting:
  assumes "p_run x es y" and "p_inv x" and "j < MAX_TASKS" "j \<noteq> 0" "v_state (p_view x) j = RUNNABLE"
    and "Dispatched j \<notin> set es"
  shows "v_state (p_view y) j = RUNNABLE \<and> dispatches es + ahead (p_next y) j \<le> ahead (p_next x) j"
  using assms
proof (induction rule: steps.induct)
  case (steps_snoc x es y e z)
  then have y: "v_state (p_view y) j = RUNNABLE" "dispatches es + ahead (p_next y) j \<le> ahead (p_next x) j"
    by simp_all
  have "v_state (p_view z) j = RUNNABLE \<and>
      (if is_dispatch e then ahead (p_next z) j < ahead (p_next y) j else p_next z = p_next y)"
    by (rule p_step_waiting [OF steps_snoc.hyps(2) proc.steps_inv [OF steps_snoc.hyps(1)]]) (use steps_snoc.prems y in auto)
  then show ?case using y(2) by (auto split: if_splits)
qed simp

text \<open>So it runs before more dispatches happen than there are slots.\<close>

lemma p_run_bounded_waiting:
  assumes "p_run x es y" and "p_inv x" and "j < MAX_TASKS" "j \<noteq> 0" "v_state (p_view x) j = RUNNABLE"
    and "MAX_TASKS \<le> dispatches es"
  shows "Dispatched j \<in> set es"
  using p_run_waiting [OF assms(1-5)] assms(6) ahead_lt [of "p_next x" j] by force

section \<open>Two tasks that are each other's parent\<close>

text \<open>
  The parent of a task is an index that stays when the slot is reused, so two tasks can become each
  other's parent. When both wait, nobody is left to wake them.
\<close>

definition mutual_wait :: "view \<Rightarrow> nat \<Rightarrow> nat \<Rightarrow> bool" where
  "mutual_wait v a b \<longleftrightarrow> a < MAX_TASKS \<and> b < MAX_TASKS \<and>
     v_state v a = SLEEPING \<and> v_state v b = SLEEPING \<and> v_parent v a = Some b \<and> v_parent v b = Some a \<and>
     (\<forall>i < MAX_TASKS. i \<noteq> b \<longrightarrow> v_parent v i \<noteq> Some a) \<and>
     (\<forall>i < MAX_TASKS. i \<noteq> a \<longrightarrow> v_parent v i \<noteq> Some b)"

lemma mutual_waitD:
  assumes "mutual_wait v a b"
  shows "a < MAX_TASKS" "b < MAX_TASKS" "v_state v a = SLEEPING" "v_state v b = SLEEPING"
    "v_parent v a = Some b" "v_parent v b = Some a"
    "i < MAX_TASKS \<Longrightarrow> i \<noteq> b \<Longrightarrow> v_parent v i \<noteq> Some a" "i < MAX_TASKS \<Longrightarrow> i \<noteq> a \<Longrightarrow> v_parent v i \<noteq> Some b"
  using assms unfolding mutual_wait_def by blast+

lemma reaps_mutual_wait:
  assumes "reaps d v w" and m: "mutual_wait v a b"
  shows "mutual_wait w a b"
proof -
  have r: "w i = v i \<or> v_state v i = ZOMBIE \<and> v_parent v i = Some d \<and> w i = (UNUSED, None, 0)" for i
    using assms(1) by (simp add: reaps_def)
  have "w a = v a" using r [of a] mutual_waitD(3) [OF m] by auto
  moreover have "w b = v b" using r [of b] mutual_waitD(4) [OF m] by auto
  moreover have p: "v_parent v i = Some c" if "v_parent w i = Some c" for i c using that r [of i] by auto
  ultimately show ?thesis
    using mutual_waitD(1-6) [OF m] mutual_waitD(7,8) [OF m] unfolding mutual_wait_def by metis
qed

text \<open>Changes of state of the other tasks.\<close>

lemma mutual_wait_states:
  "mutual_wait v a b \<Longrightarrow> (\<And>i. snd (w i) = snd (v i)) \<Longrightarrow> v_state w a = SLEEPING \<Longrightarrow> v_state w b = SLEEPING \<Longrightarrow>
   mutual_wait w a b"
  by (simp add: mutual_wait_def)

lemma p_step_mutual_wait:
  assumes "p_step x e y" and inv: "p_inv x" and m: "mutual_wait (p_view x) a b"
  shows "mutual_wait (p_view y) a b"
proof -
  have run: "v_state (p_view x) (p_cur x) = RUNNING" using p_invD(3) [OF inv p_invD(1) [OF inv]] by simp
  note s = mutual_waitD(3,4) [OF m]
  have c: "a \<noteq> p_cur x" "b \<noteq> p_cur x" using run s by auto
  have z: "p_cur x \<noteq> 0 \<Longrightarrow> a \<noteq> 0" "p_cur x \<noteq> 0 \<Longrightarrow> b \<noteq> 0"
    using p_invD(4) [OF inv] s by (cases "a = 0"; cases "b = 0"; simp)+
  show ?thesis
    using assms(1)
  proof cases
    case (dispatch k j w)
    have "a \<noteq> j" "b \<noteq> j" using dispatch(6) s by auto
    then have "mutual_wait (switched 0 j (p_view x)) a b"
      by (intro mutual_wait_states [OF m]) (use s c dispatch(3) in \<open>auto simp: switched_def\<close>)
    then show ?thesis using dispatch reaps_mutual_wait by simp
  next
    case (stay w)
    then show ?thesis using reaps_mutual_wait m by simp
  next
    case (fork i w)
    have "mutual_wait ((p_view x)(i := (RUNNABLE, Some (p_cur x), int i))) a b"
      using mutual_waitD [OF m] fork(5) c by (auto simp: mutual_wait_def)
    then show ?thesis using fork reaps_mutual_wait by simp
  next
    case (timer w)
    then show ?thesis by (simp, intro mutual_wait_states [OF m]) (use s c z in \<open>auto simp: switched_def\<close>)
  next
    case (wait i w regs pid)
    then show ?thesis by (simp, intro mutual_wait_states [OF m]) (use s c z in \<open>auto simp: switched_def\<close>)
  next
    case (exit p w)
    have "p_cur x < MAX_TASKS" by (rule p_invD(1) [OF inv])
    then have "p \<noteq> a" "p \<noteq> b" using exit(4) mutual_waitD(7,8) [OF m, of "p_cur x"] c by auto
    then show ?thesis
      using exit by (simp, intro mutual_wait_states [OF m]) (use s c z in \<open>auto simp: switched_def woken_def\<close>)
  qed
qed

lemma p_step_not_asleep: "p_step x (Dispatched j) y \<Longrightarrow> v_state (p_view x) j \<noteq> SLEEPING"
  by (erule p_step.cases) simp_all

lemma p_run_mutual_wait:
  assumes "p_run x es y" and "p_inv x" and "mutual_wait (p_view x) a b"
  shows "mutual_wait (p_view y) a b \<and> Dispatched a \<notin> set es \<and> Dispatched b \<notin> set es"
  using assms
proof (induction rule: steps.induct)
  case (steps_snoc x es y e z)
  then have m: "mutual_wait (p_view y) a b" by simp
  moreover have "p_inv y" using steps_snoc.hyps(1) steps_snoc.prems(1) by (rule proc.steps_inv)
  ultimately have "mutual_wait (p_view z) a b" using steps_snoc.hyps(2) p_step_mutual_wait by blast
  moreover have "e \<noteq> Dispatched a" "e \<noteq> Dispatched b"
    using p_step_not_asleep steps_snoc.hyps(2) mutual_waitD(3,4) [OF m] by blast+
  ultimately show ?case using steps_snoc by auto
qed simp

end
