(* ===== verification/Frame.thy ===== *)
theory Frame
  imports ProcSpec
begin

text \<open>
  What the operations leave alone when they return: \<open>ok_all P r\<close> says that \<open>P\<close> holds of the result of \<open>r\<close> if
  it has one. The rules follow the code (sequencing, loops, branches), and with them the code of
  memory, devices, console and files is shown to leave the task table alone, and each system call to
  change of the states and parents in it exactly what it means to (\<open>same_sched\<close>, \<open>forked\<close>, \<open>reaped_some\<close>).
\<close>

named_theorems ok_intro \<open>rules for ok_all\<close>
named_theorems keeps \<open>operations that leave the task table alone\<close>

definition ok_all :: "('a \<Rightarrow> bool) \<Rightarrow> 'a outcome \<Rightarrow> bool" where
  "ok_all P r \<longleftrightarrow> (\<forall>x. r = Ok x \<longrightarrow> P x)"

lemma ok_allD: "ok_all P r \<Longrightarrow> r = Ok x \<Longrightarrow> P x"
  by (simp add: ok_all_def)

lemma ok_all_simps [simp]:
  "ok_all P (Ok x) = P x" "ok_all P (Panic m)" "ok_all P (Undef w)" "ok_all P Diverge" "ok_all P page_fault"
  by (simp_all add: ok_all_def page_fault_def)

lemma ok_bnd: "ok_all Q r \<Longrightarrow> (\<And>x. Q x \<Longrightarrow> ok_all P (f x)) \<Longrightarrow> ok_all P (bnd r f)"
  by (cases r) (auto simp: ok_all_def)

lemma ok_pure: "(\<And>x. ok_all P (f x)) \<Longrightarrow> ok_all P (bnd r f)"
  by (cases r) (auto simp: ok_all_def)

lemma ok_mono: "ok_all Q r \<Longrightarrow> (\<And>x. Q x \<Longrightarrow> P x) \<Longrightarrow> ok_all P r"
  by (simp add: ok_all_def)

lemma ok_if [ok_intro]: "(c \<Longrightarrow> ok_all P a) \<Longrightarrow> (\<not> c \<Longrightarrow> ok_all P b) \<Longrightarrow> ok_all P (if c then a else b)"
  by simp

lemma ok_option [ok_intro]:
  "ok_all P a \<Longrightarrow> (\<And>x. o' = Some x \<Longrightarrow> ok_all P (f x)) \<Longrightarrow> ok_all P (case o' of None \<Rightarrow> a | Some x \<Rightarrow> f x)"
  by (cases o') auto

lemma ok_prod [ok_intro]: "(\<And>x y. p = (x, y) \<Longrightarrow> ok_all P (f x y)) \<Longrightarrow> ok_all P (case p of (x, y) \<Rightarrow> f x y)"
  by (cases p) auto

lemma ok_loop:
  assumes "\<And>i s. I s \<Longrightarrow> ok_all I (body i s)" and "I s"
  shows "ok_all I (loop_from i n body s)"
  using assms(2)
proof (induction n arbitrary: i s)
  case (Suc n)
  then show ?case using assms(1) by (auto intro!: ok_bnd [of I])
qed simp

lemma ok_loop_lt:
  assumes "\<And>j s. j < i + n \<Longrightarrow> I s \<Longrightarrow> ok_all I (body j s)" and "I s"
  shows "ok_all I (loop_from i n body s)"
  using assms
proof (induction n arbitrary: i s)
  case (Suc n)
  show ?case
    using Suc.prems by (auto intro!: ok_bnd [of I] Suc.IH)
qed simp

lemma ok_for_each:
  assumes "\<And>x s. I s \<Longrightarrow> ok_all I (f s x)" and "I s"
  shows "ok_all I (for_each f xs s)"
  using assms(2)
proof (induction xs arbitrary: s)
  case (Cons x xs)
  then show ?case using assms(1) by (auto intro!: ok_bnd [of I])
qed simp

section \<open>Code below the tasks\<close>

text \<open>The part of the state that holds the task table is as it was, \<open>M\<close>.\<close>

abbreviation kept :: "'z \<Rightarrow> 'z fs_state_scheme outcome \<Rightarrow> bool" where
  "kept M \<equiv> ok_all (\<lambda>s. fs_state.more s = M)"

abbreviation kept_val :: "'z \<Rightarrow> ('a \<times> 'z fs_state_scheme) outcome \<Rightarrow> bool" where
  "kept_val M \<equiv> ok_all (\<lambda>(v, s). fs_state.more s = M)"

lemma kept_bnd [ok_intro]:
  "kept M r \<Longrightarrow> (\<And>s. fs_state.more s = M \<Longrightarrow> ok_all P (f s)) \<Longrightarrow> ok_all P (bnd r f)"
  "kept_val M r' \<Longrightarrow> (\<And>v s. fs_state.more s = M \<Longrightarrow> ok_all P (g (v, s))) \<Longrightarrow> ok_all P (bnd r' g)"
  by (auto intro: ok_bnd)

lemma kmalloc_keeps [keeps]: "fs_state.more s = M \<Longrightarrow> kept_val M (kmalloc s)"
  by (simp add: kmalloc_def Let_def)

lemma kfree_keeps [keeps]: "fs_state.more s = M \<Longrightarrow> kept M (kfree s p)"
  by (simp add: kfree_def Let_def)

lemma map_page_keeps [keeps]: "fs_state.more s = M \<Longrightarrow> kept M (map_page s pd va pa perm)"
  unfolding map_page_def Let_def by (intro ok_intro keeps) auto

lemma ok_loop_kept [ok_intro]:
  "fs_state.more s = M \<Longrightarrow> (\<And>i s. fs_state.more s = M \<Longrightarrow> kept M (body i s)) \<Longrightarrow> kept M (loop_from i n body s)"
  by (rule ok_loop)

lemma ok_for_each_kept [ok_intro]:
  "fs_state.more s = M \<Longrightarrow> (\<And>x s. fs_state.more s = M \<Longrightarrow> kept M (f s x)) \<Longrightarrow> kept M (for_each f xs s)"
  by (rule ok_for_each)

lemma map_memory_keeps [keeps]: "fs_state.more s = M \<Longrightarrow> kept M (map_memory s pd va pa n perm)"
  unfolding map_memory_def Let_def by (intro ok_intro keeps) auto

lemma alloc_map_memory_keeps [keeps]: "fs_state.more s = M \<Longrightarrow> kept M (alloc_map_memory s pd va n perm)"
  unfolding alloc_map_memory_def Let_def by (intro ok_intro keeps) auto

lemma unmap_page_keeps [keeps]: "fs_state.more s = M \<Longrightarrow> kept M (unmap_page s pd va)"
  unfolding unmap_page_def Let_def by (intro ok_intro keeps) auto

lemma unmap_memory_keeps [keeps]: "fs_state.more s = M \<Longrightarrow> kept M (unmap_memory s pd va n)"
  unfolding unmap_memory_def Let_def by (intro ok_intro keeps) auto

lemma map_kernel_keeps [keeps]: "fs_state.more s = M \<Longrightarrow> kept_val M (map_kernel s)"
  unfolding map_kernel_def by (intro ok_intro keeps) auto

lemma destroy_address_space_keeps [keeps]: "fs_state.more s = M \<Longrightarrow> kept M (destroy_address_space s pd)"
  unfolding destroy_address_space_def destroy_user_address_space_def Let_def
  by (intro ok_intro keeps) auto

lemma vwrite_keeps [keeps]: "fs_state.more s = M \<Longrightarrow> kept M (vwrite s a b)"
  unfolding vwrite_def by (intro ok_intro keeps) auto

lemma uwrite_keeps [keeps]: "fs_state.more s = M \<Longrightarrow> kept M (uwrite s a b)"
  unfolding uwrite_def by (intro ok_intro keeps) auto

lemma vmemcpy_keeps [keeps]: "fs_state.more s = M \<Longrightarrow> kept M (vmemcpy s d src n)"
  unfolding vmemcpy_def by (intro ok_loop_kept) (auto intro!: ok_pure keeps)

lemma umemcpy_keeps [keeps]: "fs_state.more s = M \<Longrightarrow> kept M (umemcpy s d src n)"
  unfolding umemcpy_def by (intro ok_loop_kept) (auto intro!: ok_pure keeps)

lemma copy_round_keeps:
  "fs_state.more (fst c) = M \<Longrightarrow> ok_all (\<lambda>c. fs_state.more (fst c) = M) (copy_round pd dest src i c)"
  unfolding copy_round_def Let_def by (intro ok_intro keeps) auto

lemma memcpy_to_another_space_keeps [keeps]:
  "fs_state.more s = M \<Longrightarrow> kept M (memcpy_to_another_space s pd dest src n)"
  unfolding memcpy_to_another_space_def Let_def
  by (rule ok_bnd [OF ok_loop [where I = "\<lambda>c. fs_state.more (fst c) = M"]]) (auto intro: copy_round_keeps)

lemma outb_keeps [simp]: "fs_state.more (outb s p b) = fs_state.more s"
  by (simp add: outb_def)

lemma inb_keeps: "inb s p = (b, s') \<Longrightarrow> fs_state.more s' = fs_state.more s"
  by (auto simp: inb_def)

lemma eoi_keeps [simp]: "fs_state.more (eoi s) = fs_state.more s"
  by (simp add: eoi_def write_lapic_def mmio_write_def mmio_read_def)

lemma uart_wait_keeps:
  assumes "uart_wait s = Some s'"
  shows "fs_state.more s' = fs_state.more s"
  by (rule uart_wait.raw_induct [OF _ assms, where P = "\<lambda>s s'. fs_state.more s' = fs_state.more s"])
    (auto simp: inb_def split: if_splits)

lemma uart_write_byte_keeps [keeps]: "fs_state.more s = M \<Longrightarrow> kept M (uart_write_byte s b)"
  unfolding uart_write_byte_def by (intro ok_intro) (auto dest: uart_wait_keeps)

lemma putchar_keeps [keeps]: "fs_state.more s = M \<Longrightarrow> kept M (putchar s c)"
  unfolding putchar_def by (rule uart_write_byte_keeps)

lemma print_loop_keeps [keeps]:
  "fs_state.more s = M \<Longrightarrow> kept M (loop_from i n (\<lambda>i s. bnd (r i) (\<lambda>c. putchar s (sint c))) s)"
  by (intro ok_loop_kept) (auto intro!: ok_pure putchar_keeps uart_write_byte_keeps)

lemma printn_keeps [keeps]: "fs_state.more s = M \<Longrightarrow> kept_val M (printn s r n)"
  unfolding printn_def by (rule kept_bnd(1) [OF print_loop_keeps]) auto

lemma print_keeps [keeps]: "fs_state.more s = M \<Longrightarrow> kept_val M (print s r)"
  unfolding print_def by (rule ok_pure, rule kept_bnd(1) [OF print_loop_keeps]) auto

lemma puts_keeps [keeps]: "fs_state.more s = M \<Longrightarrow> kept_val M (puts s r)"
  unfolding puts_def by (rule kept_bnd(2) [OF print_keeps]) (auto intro!: kept_bnd(1) [OF putchar_keeps])

lemma printnum_keeps [keeps]: "fs_state.more s = M \<Longrightarrow> kept M (printnum s x)"
  unfolding printnum_def by (rule ok_if) (auto intro!: keeps ok_pure ok_for_each_kept)

lemma read_circular_buf_keeps [keeps]: "fs_state.more s = M \<Longrightarrow> kept_val M (read_circular_buf s)"
  by (simp add: read_circular_buf_def Let_def)

lemma read_console_from_keeps: "fs_state.more s = M \<Longrightarrow> kept_val M (read_console_from n s buf i)"
proof (induction n arbitrary: s i)
  case (Suc n)
  then show ?case
    unfolding read_console_from.simps
    by (intro kept_bnd(2) [OF read_circular_buf_keeps]) (auto intro!: kept_bnd(1) [OF uwrite_keeps])
qed simp

lemma read_console_keeps [keeps]: "fs_state.more s = M \<Longrightarrow> kept_val M (read_console s buf n)"
  unfolding read_console_def by (rule read_console_from_keeps)

lemma write_circular_buf_keeps [keeps]: "fs_state.more s = M \<Longrightarrow> kept M (write_circular_buf s ch)"
  by (simp add: write_circular_buf_def Let_def)

lemma uart_read_byte_keeps: "uart_read_byte s = (b, s') \<Longrightarrow> fs_state.more s' = fs_state.more s"
  by (auto simp: uart_read_byte_def inb_def Let_def split: if_splits)

lemma handle_uartintr_keeps [keeps]: "fs_state.more s = M \<Longrightarrow> kept_val M (handle_uartintr s)"
  unfolding handle_uartintr_def Let_def
  by (rule ok_prod, drule uart_read_byte_keeps)
    (intro kept_bnd(1) [where M = M] ok_if uart_write_byte_keeps kept_bnd(1) [where P = "\<lambda>s. fs_state.more s = M"]; simp)

lemma upd_file_keeps [simp]: "fs_state.more (upd_file s i g) = fs_state.more s"
  by (simp add: upd_file_def)

lemma set_fp_keeps [simp]: "fs_state.more (set_fp s fp g) = fs_state.more s"
  by (simp add: set_fp_def split: file_ref.split)

lemma alloc_file_keeps [keeps]: "fs_state.more s = M \<Longrightarrow> kept_val M (alloc_file s path)"
  unfolding alloc_file_def Let_def
  by (auto intro!: ok_option ok_pure [where r = "strlen path"] ok_if ok_pure [where r = "strcpy _ path"]
      kept_bnd(2) [OF kmalloc_keeps])

lemma list_rootdir_keeps [keeps]: "fs_state.more s = M \<Longrightarrow> kept_val M (list_rootdir s buf)"
  unfolding list_rootdir_def by (rule ok_pure) auto

lemma read_file_keeps [keeps]: "fs_state.more s = M \<Longrightarrow> kept_val M (read_file s fp buf n)"
  unfolding read_file_def Let_def by (rule ok_if; rule kept_bnd(1) [OF umemcpy_keeps]) auto

lemma write_file_keeps [keeps]: "fs_state.more s = M \<Longrightarrow> kept M (write_file s fp buf n)"
  unfolding write_file_def Let_def by (rule ok_if) (auto intro!: kept_bnd(1) [OF vmemcpy_keeps])

lemma copy_word_keeps [keeps]: "fs_state.more s = M \<Longrightarrow> kept M (copy_word s pd dest x)"
  unfolding copy_word_def Let_def by (intro ok_intro keeps) auto

lemma push_words_keeps [keeps]: "fs_state.more s = M \<Longrightarrow> kept_val M (push_words ws s pd esp)"
  by (induction ws arbitrary: s esp) (auto intro!: kept_bnd(1) [OF copy_word_keeps])

lemma ustack_args_keeps [keeps]: "fs_state.more s = M \<Longrightarrow> kept_val M (ustack_args n s pd esp argv ps)"
proof (induction n arbitrary: s esp argv ps)
  case (Suc n)
  then show ?case
    unfolding ustack_args.simps Let_def
    by (intro ok_pure ok_option ok_if kept_bnd(1) [OF memcpy_to_another_space_keeps] Suc.IH) simp_all
qed simp

lemma prepare_ustack_keeps [keeps]: "fs_state.more s = M \<Longrightarrow> kept_val M (prepare_ustack s pd esp argv)"
  unfolding prepare_ustack_def Let_def
  by (rule ok_if)
    (auto intro!: kept_bnd(1) [OF copy_word_keeps] kept_bnd(2) [OF ustack_args_keeps] kept_bnd(2) [OF push_words_keeps]
      ok_option split: prod.split)

lemma ELF_reads_keep [keeps]:
  "fs_state.more s = M \<Longrightarrow> kept M (load_segment s task ehdr phdr)"
  unfolding load_segment_def
  by (intro ok_pure ok_if kept_bnd(1) [OF alloc_map_memory_keeps] memcpy_to_another_space_keeps) simp_all

lemma load_segments_keeps: "fs_state.more s = M \<Longrightarrow> kept M (load_segments n s task ehdr i)"
proof (induction n arbitrary: s i)
  case (Suc n)
  then show ?case
    unfolding load_segments.simps
    by (intro ok_pure ok_if kept_bnd(1) [OF ELF_reads_keep] Suc.IH) simp_all
qed simp

lemma load_elf_keeps [keeps]: "fs_state.more s = M \<Longrightarrow> kept_val M (load_elf s task ehdr)"
  unfolding load_elf_def
  by (rule ok_pure [where r = "CHECK_ELF s ehdr"], rule ok_if)
    (auto intro!: ok_pure [where r = "vload16 s _"] kept_bnd(1) [OF load_segments_keeps])

section \<open>The scheduler's view of the task table\<close>

text \<open>State, parent and pid of each task.\<close>

definition tv :: "'z k_state_scheme \<Rightarrow> view" where
  "tv s i = (t_state (tasks s ! i), t_parent (tasks s ! i), t_pid (tasks s ! i))"

lemma tv_zombie [simp]: "tv (s\<lparr>zombie_exists := z\<rparr>) = tv s"
  by (simp add: tv_def fun_eq_iff)

lemma tv_upd_task:
  "i < length (tasks s) \<Longrightarrow> tv (upd_task s i g) =
    (tv s)(i := (t_state (g (tasks s ! i)), t_parent (g (tasks s ! i)), t_pid (g (tasks s ! i))))"
  by (auto simp: tv_def fun_eq_iff nth_list_update)

lemma tv_upd_same:
  "(\<And>t. t_state (g t) = t_state t \<and> t_parent (g t) = t_parent t \<and> t_pid (g t) = t_pid t) \<Longrightarrow> tv (upd_task s i g) = tv s"
  by (cases "i < length (tasks s)") (auto simp: tv_def fun_eq_iff nth_list_update list_update_beyond)

definition same_sched :: "'z k_state_scheme \<Rightarrow> 'z k_state_scheme \<Rightarrow> bool" where
  "same_sched s s' \<longleftrightarrow> tv s' = tv s \<and> length (tasks s') = length (tasks s) \<and>
     curr_task s' = curr_task s \<and> scheduler_task s' = scheduler_task s"

lemma same_sched_refl [simp]: "same_sched s s"
  by (simp add: same_sched_def)

lemma same_sched_trans: "same_sched s t \<Longrightarrow> same_sched t u \<Longrightarrow> same_sched s u"
  by (simp add: same_sched_def)

lemma fs_more:
  fixes s s' :: "'z k_state_scheme"
  assumes "fs_state.more s' = fs_state.more s"
  shows "tasks s' = tasks s" "curr_task s' = curr_task s" "scheduler_task s' = scheduler_task s"
    "zombie_exists s' = zombie_exists s" "ticks s' = ticks s"
  by (use assms in \<open>cases s; cases s'; simp\<close>)+

lemma more_same_sched: "fs_state.more s' = fs_state.more s \<Longrightarrow> same_sched s0 s \<Longrightarrow> same_sched s0 s'"
  using fs_more [of s' s] by (auto simp: same_sched_def tv_def fun_eq_iff)

lemma upd_same_sched:
  "(\<And>t. t_state (g t) = t_state t \<and> t_parent (g t) = t_parent t \<and> t_pid (g t) = t_pid t) \<Longrightarrow>
   same_sched s0 s \<Longrightarrow> same_sched s0 (upd_task s i g)"
  by (simp add: same_sched_def tv_upd_same)

lemma kept_sched:
  "kept (fs_state.more s) r \<Longrightarrow> same_sched s0 s \<Longrightarrow> (\<And>s. same_sched s0 s \<Longrightarrow> ok_all P (f s)) \<Longrightarrow> ok_all P (bnd r f)"
  "kept_val (fs_state.more s) r' \<Longrightarrow> same_sched s0 s \<Longrightarrow> (\<And>v s. same_sched s0 s \<Longrightarrow> ok_all P (g (v, s))) \<Longrightarrow>
   ok_all P (bnd r' g)"
  by (auto intro!: kept_bnd simp: more_same_sched)

abbreviation sched_same :: "'z k_state_scheme \<Rightarrow> (u32 \<times> 'z k_state_scheme) outcome \<Rightarrow> bool" where
  "sched_same s0 \<equiv> ok_all (\<lambda>(v, s). same_sched s0 s)"

lemma kept_sched_same: "kept_val (fs_state.more s) r \<Longrightarrow> same_sched s0 s \<Longrightarrow> sched_same s0 r"
  by (auto elim!: ok_mono simp: more_same_sched)

lemma with_arg_sched:
  "same_sched s0 s \<Longrightarrow> (\<And>v. sched_same s0 (f v)) \<Longrightarrow> sched_same s0 (with_arg s esp n f)"
  unfolding with_arg_def by (intro ok_pure ok_option) simp_all

lemma set_fd_sched: "same_sched s0 s \<Longrightarrow> ok_all (same_sched s0) (set_fd s fd fp)"
  unfolding set_fd_def by (simp add: upd_same_sched)

lemma set_fp_sched: "same_sched s0 s \<Longrightarrow> same_sched s0 (set_fp s fp g)"
  by (rule more_same_sched [OF set_fp_keeps])

lemma finish_open_sched: "same_sched s0 s \<Longrightarrow> sched_same s0 (finish_open s fd fp)"
  unfolding finish_open_def
  by (rule ok_option) (auto intro!: ok_bnd [OF set_fd_sched] set_fp_sched)

lemma mem_same_sched: "same_sched s0 s \<Longrightarrow> same_sched s0 (s\<lparr>mem := m\<rparr>)"
  by (rule more_same_sched) simp_all

lemma open_dir_sched:
  assumes "same_sched s0 s"
  shows "sched_same s0 (bnd (alloc_file s path) (\<lambda>(fp, s).
     case fp of None \<Rightarrow> Ok (-1, s)
     | Some f \<Rightarrow> bnd (list_rootdir (set_fp s f g) (h (set_fp s f g) f)) (\<lambda>(r, s).
         finish_open (set_fp s f (j r)) fd fp)))"
  by (rule kept_sched(2) [OF alloc_file_keeps [OF refl] assms], simp, rule ok_option, simp)
    (auto intro!: kept_sched(2) [OF list_rootdir_keeps [OF refl]] finish_open_sched set_fp_sched)

lemma open_new_sched:
  assumes "same_sched s0 s"
  shows "sched_same s0 (bnd (alloc_file s path) (\<lambda>(fp, s).
     case fp of None \<Rightarrow> Ok (-1, s) | Some f \<Rightarrow> finish_open (set_fp s f g) fd fp))"
  by (rule kept_sched(2) [OF alloc_file_keeps [OF refl] assms], simp, rule ok_option, simp)
    (auto intro!: finish_open_sched set_fp_sched)

lemma open_path_sched: "same_sched s0 s \<Longrightarrow> sched_same s0 (open_path s fd path flags)"
  unfolding open_path_def Let_def
  by (intro ok_pure [where r = "strcmp _ _"] ok_pure [where r = "get_file _ _"] ok_if
      ok_bnd [OF set_fd_sched] finish_open_sched open_dir_sched open_new_sched
      ok_pure [where r = "if _ then _ else _"] ok_option set_fp_sched mem_same_sched)
    simp_all

lemma sys_open_sched: "sched_same s (sys_open s regs)"
  unfolding sys_open_def Let_def by (intro with_arg_sched open_path_sched) simp_all

lemma sys_read_sched: "sched_same s (sys_read s regs)"
  unfolding sys_read_def Let_def
  apply (intro with_arg_sched ok_pure [where r = "get_fd _ _"] ok_option same_sched_refl)
   apply simp
  apply (auto split: file_type.split intro!: kept_sched(2) [OF read_console_keeps [OF refl] same_sched_refl]
      kept_sched_same [OF read_file_keeps [OF refl]])
  done

lemma sys_write_sched: "sched_same s (sys_write s regs)"
  unfolding sys_write_def Let_def
  apply (intro with_arg_sched ok_pure [where r = "get_fd _ _"] ok_option same_sched_refl)
   apply simp
  apply (auto split: file_type.split intro!: kept_sched(1) [OF write_file_keeps [OF refl] same_sched_refl]
      kept_sched_same [OF printn_keeps [OF refl]])
  done

lemma sys_close_sched: "sched_same s (sys_close s regs)"
  unfolding sys_close_def
  by (intro with_arg_sched ok_pure [where r = "get_fd _ _"] ok_option ok_if ok_bnd [OF set_fd_sched]) simp_all

lemma execv_fail_sched: "same_sched s0 s \<Longrightarrow> sched_same s0 (execv_fail s pd)"
  unfolding execv_fail_def
  by (rule kept_sched(1) [OF destroy_address_space_keeps [OF refl]]) (auto intro!: upd_same_sched)

lemma lcr3_same_sched: "same_sched s0 s \<Longrightarrow> same_sched s0 (lcr3 s pd)"
  by (rule more_same_sched) (simp_all add: lcr3_def)

lemma finish_execv_sched:
  assumes "same_sched s0 s" and "\<And>t. t_state (g t) = t_state t \<and> t_parent (g t) = t_parent t \<and> t_pid (g t) = t_pid t"
  shows "sched_same s0 (bnd (destroy_address_space (upd_task (s\<lparr>mem := m\<rparr>) i g) pd) (\<lambda>s. Ok (0, lcr3 s (h s))))"
  by (rule kept_sched(1) [OF destroy_address_space_keeps [OF refl]])
    (auto intro!: upd_same_sched mem_same_sched lcr3_same_sched assms)

lemma sys_execv_sched: "sched_same s (sys_execv s regs)"
  unfolding sys_execv_def Let_def
  apply (intro with_arg_sched same_sched_refl)
  apply (rule kept_sched(2) [OF map_kernel_keeps [OF refl] same_sched_refl])
  apply simp
  apply (rule ok_pure [where r = "get_file _ _"])
  apply (rule ok_option)
   apply (intro execv_fail_sched upd_same_sched; simp)
  apply (rule kept_sched(2) [OF load_elf_keeps [OF refl]])
   apply (intro upd_same_sched; simp)
  apply (simp only: prod.case)
  apply (rule ok_if, erule execv_fail_sched)
  apply (rule ok_pure [where r = "vload32 _ _"])
  apply (rule kept_sched(2) [OF prepare_ustack_keeps [OF refl]])
   apply (intro mem_same_sched; assumption)
  apply (simp only: prod.case)
  apply (rule ok_option, erule execv_fail_sched)
  apply (erule finish_execv_sched, simp)
  done

section \<open>Forking, reaping and switching\<close>

text \<open>\<open>table_as\<close>: the table has the length, the current task and the scheduler of \<open>s0\<close> and the view \<open>v\<close>.\<close>

definition table_as ::
    "'z k_state_scheme \<Rightarrow> view \<Rightarrow> 'z k_state_scheme \<Rightarrow> bool" where
  "table_as s0 v s \<longleftrightarrow> tv s = v \<and> length (tasks s) = length (tasks s0) \<and>
     curr_task s = curr_task s0 \<and> scheduler_task s = scheduler_task s0"

lemma same_sched_table: "same_sched s0 s \<longleftrightarrow> table_as s0 (tv s0) s"
  by (simp add: same_sched_def table_as_def)

lemma more_table_as: "fs_state.more s' = fs_state.more s \<Longrightarrow> table_as s0 v s \<Longrightarrow> table_as s0 v s'"
  using fs_more [of s' s] by (auto simp: table_as_def tv_def fun_eq_iff)

lemma mem_table_as [simp]: "table_as s0 v (s\<lparr>mem := m\<rparr>) = table_as s0 v s"
  by (auto simp: table_as_def tv_def fun_eq_iff)

lemma mem_table_asI: "table_as s0 v s \<Longrightarrow> table_as s0 v (s\<lparr>mem := m\<rparr>)"
  by simp

lemma upd_table_as:
  "table_as s0 v s \<Longrightarrow> i < length (tasks s0) \<Longrightarrow>
   w = v(i := (t_state (g (tasks s ! i)), t_parent (g (tasks s ! i)), t_pid (g (tasks s ! i)))) \<Longrightarrow>
   table_as s0 w (upd_task s i g)"
  by (simp add: table_as_def tv_upd_task)

lemma upd_table_as_same:
  "(\<And>t. t_state (g t) = t_state t \<and> t_parent (g t) = t_parent t \<and> t_pid (g t) = t_pid t) \<Longrightarrow>
   table_as s0 v s \<Longrightarrow> table_as s0 v (upd_task s i g)"
  by (simp add: table_as_def tv_upd_same)

lemma kept_table:
  "kept (fs_state.more s) r \<Longrightarrow> table_as s0 v s \<Longrightarrow> (\<And>s. table_as s0 v s \<Longrightarrow> ok_all P (f s)) \<Longrightarrow> ok_all P (bnd r f)"
  "kept_val (fs_state.more s) r' \<Longrightarrow> table_as s0 v s \<Longrightarrow> (\<And>x s. table_as s0 v s \<Longrightarrow> ok_all P (g (x, s))) \<Longrightarrow>
   ok_all P (bnd r' g)"
  by (auto intro!: kept_bnd simp: more_table_as)

lemma tv_fields: "tv s i = (st, p, pid) \<Longrightarrow> t_state (tasks s ! i) = st \<and> t_parent (tasks s ! i) = p \<and> t_pid (tasks s ! i) = pid"
  by (simp add: tv_def)

lemma table_as_fields:
  "table_as s0 v s \<Longrightarrow> (t_state (tasks s ! i), t_parent (tasks s ! i), t_pid (tasks s ! i)) = v i"
  by (auto simp: table_as_def tv_def)

definition allocated :: "'z k_state_scheme \<Rightarrow> nat option \<times> 'z k_state_scheme \<Rightarrow> bool" where
  "allocated s r \<longleftrightarrow> (case r of (None, _) \<Rightarrow> True
     | (Some i, s') \<Rightarrow> unused_task (tasks s) 0 = Some i \<and> i < length (tasks s) \<and> state_of s i = UNUSED \<and>
         table_as s ((tv s)(i := (UNUSED, t_parent (tasks s ! i), int i))) s')"

lemma alloc_task_table: "ok_all (allocated s) (alloc_task s)"
proof (cases "unused_task (tasks s) 0")
  case None
  show ?thesis
    unfolding alloc_task_def None option.case
    by (rule ok_pure) (auto simp: allocated_def)
next
  case (Some i)
  have i: "i < length (tasks s)" "state_of s i = UNUSED" using unused_task_spec [OF Some] by auto
  let ?v = "(tv s)(i := (UNUSED, t_parent (tasks s ! i), int i))"
  have t: "table_as s ?v (upd_task s i (\<lambda>t. t\<lparr>t_pid := int i\<rparr>))"
    by (rule upd_table_as [where v = "tv s"]) (use i in \<open>simp_all add: table_as_def\<close>)
  show ?thesis
    unfolding alloc_task_def Some option.case Let_def
    apply (rule kept_table(2) [OF kmalloc_keeps [OF refl] t])
    apply (simp only: prod.case)
    apply (rule ok_if)
     apply (rule ok_pure)
     apply (auto simp: allocated_def) [1]
    apply (rule kept_table(2) [OF map_kernel_keeps [OF refl]])
     apply (rule upd_table_as_same, simp, assumption)
    apply (simp only: prod.case ok_all_simps allocated_def option.case)
    apply (intro conjI i Some)
    apply (rule upd_table_as_same, simp, assumption)
    done
qed

text \<open>\<^verbatim>\<open>fork\<close> turns one unused slot into a runnable child of the caller, with its index as pid.\<close>

definition forked :: "'z k_state_scheme \<Rightarrow> 'z k_state_scheme \<Rightarrow> bool" where
  "forked s s' \<longleftrightarrow> (\<exists>i < length (tasks s). state_of s i = UNUSED \<and>
     table_as s ((tv s)(i := (RUNNABLE, Some (curr_task s), int i))) s')"

lemma ok_let: "(\<And>x. ok_all P (f x)) \<Longrightarrow> ok_all P (Let a f)"
  by (simp add: Let_def)

lemma table_let: "table_as s0 v a \<Longrightarrow> (\<And>s. table_as s0 v s \<Longrightarrow> ok_all P (f s)) \<Longrightarrow> ok_all P (Let a f)"
  by (simp add: Let_def)

lemma fork_finish_table:
  assumes t: "table_as s0 v s" and i: "i < length (tasks s0)" "v i = (x, y, int i)"
  shows "ok_all (\<lambda>(r, s). table_as s0 (v(i := (RUNNABLE, Some (curr_task s0), int i))) s)
    (let s = upd_task s i (\<lambda>t. t\<lparr>t_open_files := h s\<rparr>);
         s = upd_task s i (\<lambda>t. t\<lparr>t_state := RUNNABLE\<rparr>);
         s = upd_task s i (\<lambda>t. t\<lparr>t_parent := Some (curr_task s)\<rparr>)
     in Ok (k s, s))"
proof (rule table_let [OF upd_table_as_same [OF _ t]])
  fix s assume t: "table_as s0 v s"
  have u: "table_as s0 (v(i := (RUNNABLE, y, int i))) (upd_task s i (\<lambda>t. t\<lparr>t_state := RUNNABLE\<rparr>))"
    by (rule upd_table_as [OF t i(1)]) (use table_as_fields [OF t, of i] i(2) in simp)
  show "ok_all (\<lambda>(r, s). table_as s0 (v(i := (RUNNABLE, Some (curr_task s0), int i))) s)
    (let s = upd_task s i (\<lambda>t. t\<lparr>t_state := RUNNABLE\<rparr>);
         s = upd_task s i (\<lambda>t. t\<lparr>t_parent := Some (curr_task s)\<rparr>) in Ok (k s, s))"
  proof (rule table_let [OF u], simp only: Let_def ok_all_simps prod.case)
    fix s assume u: "table_as s0 (v(i := (RUNNABLE, y, int i))) s"
    show "table_as s0 (v(i := (RUNNABLE, Some (curr_task s0), int i)))
        (upd_task s i (\<lambda>t. t\<lparr>t_parent := Some (curr_task s)\<rparr>))"
      by (rule upd_table_as [OF u i(1)]) (use table_as_fields [OF u, of i] u in \<open>simp add: table_as_def\<close>)
  qed
qed simp

lemma sys_fork_table: "ok_all (\<lambda>(v, s'). forked s s') (sys_fork site s regs)"
  unfolding sys_fork_def
  apply (rule ok_bnd [OF alloc_task_table], rule ok_prod, rule ok_option, simp)
  subgoal premises p for r tp0 s1 tp
  proof -
    have i: "tp < length (tasks s)" "state_of s tp = UNUSED"
        and t: "table_as s ((tv s)(tp := (UNUSED, t_parent (tasks s ! tp), int tp))) s1"
      using p by (auto simp: allocated_def)
    have e: "((tv s)(tp := (UNUSED, t_parent (tasks s ! tp), int tp))) tp = (UNUSED, t_parent (tasks s ! tp), int tp)"
      by simp
    have fin: "ok_all (\<lambda>(v, s'). forked s s') (let s = upd_task s2 tp (\<lambda>t. t\<lparr>t_open_files := h s2\<rparr>);
         s = upd_task s tp (\<lambda>t. t\<lparr>t_state := RUNNABLE\<rparr>);
         s = upd_task s tp (\<lambda>t. t\<lparr>t_parent := Some (curr_task s)\<rparr>)
       in Ok (k s, s))"
      if "table_as s ((tv s)(tp := (UNUSED, t_parent (tasks s ! tp), int tp))) s2"
      for s2 h and k :: "'a k_state_scheme \<Rightarrow> u32"
      by (rule ok_mono [OF fork_finish_table [OF that i(1) e]])
        (unfold fun_upd_upd, use i in \<open>auto simp: forked_def\<close>)
    show ?thesis
      apply (rule ok_let)
      apply (rule table_let, rule mem_table_asI, rule t)
      apply (rule ok_let)
      apply (rule table_let, rule mem_table_asI, assumption)
      apply (rule table_let, rule upd_table_as_same, simp, assumption)
      apply (rule table_let, rule mem_table_asI, assumption)+
      apply (rule kept_table(1) [OF alloc_map_memory_keeps [OF refl]], assumption)
      apply (rule kept_table(1) [OF memcpy_to_another_space_keeps [OF refl]], assumption)
      apply (rule fin, assumption)
      done
  qed
  done

lemma destroy_task_table:
  assumes "table_as s0 v s" and i: "i < length (tasks s0)"
  shows "ok_all (table_as s0 (v(i := (UNUSED, None, 0)))) (destroy_task s i)"
proof -
  obtain st p n where v: "v i = (st, p, n)" by (cases "v i")
  have upd: "table_as s0 (w(i := (a, b, c))) t \<Longrightarrow>
      (\<And>t. t_state t = a \<Longrightarrow> t_parent t = b \<Longrightarrow> t_pid t = c \<Longrightarrow>
        t_state (g t) = a' \<and> t_parent (g t) = b' \<and> t_pid (g t) = c') \<Longrightarrow>
      table_as s0 (w(i := (a', b', c'))) (upd_task t i g)" for w a b c a' b' c' t g
    by (rule upd_table_as [OF _ i], assumption) (drule table_as_fields [where i = i], simp)
  have 0: "table_as s0 (v(i := (st, p, n))) s" using assms(1) v by (simp add: fun_upd_idem)
  show ?thesis
    unfolding destroy_task_def
    apply (rule table_let, rule upd [OF 0, of _ st p n], simp)
    apply (rule table_let, rule upd [where a' = st and b' = p and c' = 0], assumption, simp)
    apply (rule table_let, rule upd [where a' = UNUSED and b' = p and c' = 0], assumption, simp)
    apply (rule kept_table(1) [OF destroy_address_space_keeps [OF refl]], assumption)
    apply (rule table_let, rule upd [where a' = UNUSED and b' = p and c' = 0], assumption, simp)
    apply (rule kept_table(1) [OF kfree_keeps [OF refl]], assumption)
    apply (rule table_let, rule upd [where a' = UNUSED and b' = p and c' = 0], assumption, simp)
    apply (rule table_let, rule upd [where a' = UNUSED and b' = None and c' = 0], assumption, simp)
    apply (simp only: ok_all_simps)
    apply (rule upd, assumption, simp)
    done
qed

text \<open>\<^verbatim>\<open>kill_off_zombies\<close> turns children of the caller that are zombies into unused slots and nothing else.\<close>

definition reap_table :: "'z k_state_scheme \<Rightarrow> view \<Rightarrow> 'z k_state_scheme \<Rightarrow> bool" where
  "reap_table s0 v s \<longleftrightarrow> (\<exists>w. reaps (curr_task s0) v w \<and> table_as s0 w s)"

lemma reap_round_table:
  assumes "reap_table s0 v s" and i: "i < length (tasks s0)"
  shows "ok_all (reap_table s0 v) (reap_round i s)"
proof -
  obtain w where w: "reaps (curr_task s0) v w" "table_as s0 w s" using assms by (auto simp: reap_table_def)
  show ?thesis
    unfolding reap_round_def
  proof (intro ok_if)
    assume z: "\<not> \<not> (t_parent (tasks s ! i) = Some (curr_task s) \<and> state_of s i = ZOMBIE)"
    then have wi: "w i = (ZOMBIE, Some (curr_task s0), t_pid (tasks s ! i))"
      using table_as_fields [OF w(2), of i] w(2) by (simp add: table_as_def)
    have "reaps (curr_task s0) v (w(i := (UNUSED, None, 0)))"
      unfolding reaps_def
    proof
      fix k
      show "(w(i := (UNUSED, None, 0))) k = v k \<or>
          v_state v k = ZOMBIE \<and> v_parent v k = Some (curr_task s0) \<and> (w(i := (UNUSED, None, 0))) k = (UNUSED, None, 0)"
        using w(1) wi unfolding reaps_def by (cases "k = i") (auto dest: spec [of _ k])
    qed
    then show "ok_all (reap_table s0 v) (destroy_task s i)"
      by (intro ok_mono [OF destroy_task_table [OF w(2) i]]) (auto simp: reap_table_def)
  qed (use assms in simp_all)
qed

lemma kill_off_zombies_table:
  assumes "table_as s0 v s" and "length (tasks s0) = MAX_TASKS"
  shows "ok_all (reap_table s0 v) (kill_off_zombies s)"
proof -
  have "reap_table s0 v s" using assms by (auto simp: reap_table_def intro: exI [of _ v])
  moreover have "ok_all (reap_table s0 v) (loop_from 0 MAX_TASKS reap_round s)"
    by (rule ok_loop_lt) (use assms calculation in \<open>auto intro!: reap_round_table\<close>)
  ultimately show ?thesis
    unfolding kill_off_zombies_def
    by (intro ok_if) (auto intro!: ok_bnd simp: reap_table_def table_as_def tv_def)
qed

lemma finish_syscall_table:
  "table_as s0 v s \<Longrightarrow> length (tasks s0) = MAX_TASKS \<Longrightarrow> ok_all (reap_table s0 v) (finish_syscall s regs ret)"
  unfolding finish_syscall_def by (rule kill_off_zombies_table [OF mem_table_asI])

lemma upd_state_tv:
  "i < length (tasks s) \<Longrightarrow> tv (upd_task s i (\<lambda>t. t\<lparr>t_state := st\<rparr>)) = to_state st i (tv s)"
  by (simp add: tv_upd_task to_state_def) (simp add: tv_def)

lemma tv_tss [simp]:
  "tv (s\<lparr>tss_ss0 := a\<rparr>) = tv s" "tv (s\<lparr>tss_esp0 := a\<rparr>) = tv s" "tv (s\<lparr>tss_iomb := a\<rparr>) = tv s"
  "tv (s\<lparr>curr_task := n\<rparr>) = tv s" "tv (s\<lparr>ticks := a\<rparr>) = tv s" "tv (lcr3 s pd) = tv s"
  by (simp_all add: tv_def fun_eq_iff lcr3_def)

lemma fst_tv: "fst (tv s i) = state_of s i"
  by (simp add: tv_def)

lemma switch_to_table:
  assumes "switch_to s n sp = (ctx, s')" and "curr_task s < length (tasks s)" and "n < length (tasks s)"
  shows "tv s' = switched (curr_task s) n (tv s)" "length (tasks s') = length (tasks s)"
    "curr_task s' = n" "scheduler_task s' = scheduler_task s"
proof -
  define s1 where "s1 = lcr3 (s\<lparr>tss_ss0 := of_nat (KERN_DATA_SEG * 8), tss_esp0 := KSTACK_TOP (t_kstack (tasks s ! n)),
    tss_iomb := sizeof_taskstate\<rparr>) (t_pgdir (tasks s ! n))"
  define s2 where "s2 = (if state_of s1 (curr_task s1) = RUNNING
    then upd_task s1 (curr_task s1) (\<lambda>t. t\<lparr>t_state := RUNNABLE\<rparr>) else s1)"
  define s3 where "s3 = upd_task s2 n (\<lambda>t. t\<lparr>t_state := RUNNING\<rparr>)"
  have s1: "tv s1 = tv s" "length (tasks s1) = length (tasks s)" "curr_task s1 = curr_task s"
      "scheduler_task s1 = scheduler_task s"
    by (simp add: s1_def) (simp_all add: s1_def lcr3_def)
  have s2: "tv s2 = (if fst (tv s (curr_task s)) = RUNNING then to_state RUNNABLE (curr_task s) (tv s) else tv s)"
      "length (tasks s2) = length (tasks s)" "curr_task s2 = curr_task s" "scheduler_task s2 = scheduler_task s"
    using assms(2) s1 fst_tv [of s1 "curr_task s1"] by (auto simp: s2_def upd_state_tv)
  have s3: "tv s3 = switched (curr_task s) n (tv s)" "length (tasks s3) = length (tasks s)"
      "curr_task s3 = curr_task s" "scheduler_task s3 = scheduler_task s"
    using assms(3) s2 by (auto simp: s3_def upd_state_tv switched_def)
  have "switch_to s n sp = context_switch s3 n sp"
    by (simp add: switch_to_def s3_def s2_def s1_def lcr3_def Let_def)
  then have "s' = upd_task s3 (curr_task s3) (\<lambda>t. t\<lparr>t_context := sp\<rparr>)\<lparr>curr_task := n\<rparr>"
    using assms(1) by (simp add: context_switch_def Let_def)
  then show "tv s' = switched (curr_task s) n (tv s)" "length (tasks s') = length (tasks s)"
    "curr_task s' = n" "scheduler_task s' = scheduler_task s"
    using s3 by (simp_all add: tv_upd_same)
qed

section \<open>Leaving the kernel and entering it\<close>

text \<open>\<^verbatim>\<open>exit\<close>: the caller becomes a zombie, its parent is woken and the scheduler runs.\<close>

definition ended :: "'z k_state_scheme \<Rightarrow> sys_result \<times> 'z k_state_scheme \<Rightarrow> bool" where
  "ended s r \<longleftrightarrow> (\<exists>ctx s' p. r = (Exited ctx, s') \<and> t_parent (tasks s ! curr_task s) = Some p \<and>
     tv s' = switched (curr_task s) (scheduler_task s) (woken p (to_state ZOMBIE (curr_task s) (tv s))) \<and>
     length (tasks s') = length (tasks s) \<and> curr_task s' = scheduler_task s \<and> scheduler_task s' = scheduler_task s)"

lemma sys_exit_table:
  assumes c: "curr_task s < length (tasks s)" "scheduler_task s < length (tasks s)"
    and p: "\<And>p. t_parent (tasks s ! curr_task s) = Some p \<Longrightarrow> p < length (tasks s)"
  shows "ok_all (ended s) (sys_exit s sp)"
proof -
  define s1 where "s1 = upd_task (s\<lparr>zombie_exists := True\<rparr>) (curr_task s) (\<lambda>t. t\<lparr>t_state := ZOMBIE\<rparr>)"
  have s1: "tv s1 = to_state ZOMBIE (curr_task s) (tv s)" "length (tasks s1) = length (tasks s)"
      "curr_task s1 = curr_task s" "scheduler_task s1 = scheduler_task s"
      "t_parent (tasks s1 ! curr_task s1) = t_parent (tasks s ! curr_task s)"
    using upd_state_tv [of "curr_task s" "s\<lparr>zombie_exists := True\<rparr>" ZOMBIE] c by (simp_all add: s1_def)
  have wake: "ok_all (\<lambda>s2. \<exists>p. t_parent (tasks s ! curr_task s) = Some p \<and> tv s2 = woken p (tv s1) \<and>
      length (tasks s2) = length (tasks s) \<and> curr_task s2 = curr_task s \<and> scheduler_task s2 = scheduler_task s)
    (wakeup_parent s1)"
    unfolding wakeup_parent_def s1(5)
  proof (rule ok_option)
    fix p' assume p': "t_parent (tasks s ! curr_task s) = Some p'"
    show "ok_all (\<lambda>s2. \<exists>p. t_parent (tasks s ! curr_task s) = Some p \<and> tv s2 = woken p (tv s1) \<and>
        length (tasks s2) = length (tasks s) \<and> curr_task s2 = curr_task s \<and> scheduler_task s2 = scheduler_task s)
      (if state_of s1 p' = SLEEPING then Ok (upd_task s1 p' (\<lambda>t. t\<lparr>t_state := RUNNABLE\<rparr>)) else Ok s1)"
      using p' p [OF p'] s1 fst_tv [of s1 p'] by (simp add: woken_def upd_state_tv)
  qed simp
  have "sys_exit s sp = (if curr_task s = scheduler_task s then Panic ''sys_exit: Exit scheulder''
    else bnd (wakeup_parent s1) (\<lambda>s. let (ctx, s) = switch_to s (scheduler_task s) sp in Ok (Exited ctx, s)))"
    by (simp add: sys_exit_def s1_def Let_def)
  moreover have "ok_all (ended s) (bnd (wakeup_parent s1) (\<lambda>s. let (ctx, s) = switch_to s (scheduler_task s) sp in Ok (Exited ctx, s)))"
  proof (rule ok_bnd [OF wake])
    fix s2 :: "'a k_state_scheme"
    assume s2: "\<exists>p. t_parent (tasks s ! curr_task s) = Some p \<and> tv s2 = woken p (tv s1) \<and>
      length (tasks s2) = length (tasks s) \<and> curr_task s2 = curr_task s \<and> scheduler_task s2 = scheduler_task s"
    obtain ctx s3 where sw: "switch_to s2 (scheduler_task s2) sp = (ctx, s3)" by fastforce
    show "ok_all (ended s) (let (ctx, s) = switch_to s2 (scheduler_task s2) sp in Ok (Exited ctx, s))"
      using switch_to_table [OF sw] s1(1) s2 c unfolding sw by (auto simp: ended_def)
  qed
  ultimately show ?thesis by simp
qed

lemma first_child_Some:
  "first_child p ts k = Some i \<Longrightarrow> k \<le> i \<and> i - k < length ts \<and> t_parent (ts ! (i - k)) = Some p \<and>
    (\<forall>j < i - k. t_parent (ts ! j) \<noteq> Some p)"
proof (induction ts arbitrary: k)
  case (Cons t ts)
  show ?case
  proof (cases "t_parent t = Some p")
    case False
    then have IH: "Suc k \<le> i \<and> i - Suc k < length ts \<and> t_parent (ts ! (i - Suc k)) = Some p \<and>
        (\<forall>j < i - Suc k. t_parent (ts ! j) \<noteq> Some p)"
      using Cons by simp
    then have e: "i - k = Suc (i - Suc k)" by (elim conjE) linarith
    show ?thesis
      unfolding e using IH False by (auto simp: nth_Cons split: nat.splits)
  qed (use Cons.prems in simp)
qed simp

lemma first_child_None: "first_child p ts k = None \<longleftrightarrow> (\<forall>t \<in> set ts. t_parent t \<noteq> Some p)"
  by (induction ts arbitrary: k) auto

text \<open>\<^verbatim>\<open>wait\<close> returns without a change or puts the caller to sleep because its first child is not a zombie.\<close>

definition waited :: "'z k_state_scheme \<Rightarrow> sys_result \<times> 'z k_state_scheme \<Rightarrow> bool" where
  "waited s r \<longleftrightarrow> (\<exists>v. r = (Returned v, s)) \<or>
     (\<exists>ctx pid s' i. r = (Slept ctx pid, s') \<and> i < length (tasks s) \<and> t_parent (tasks s ! i) = Some (curr_task s) \<and>
       state_of s i \<noteq> ZOMBIE \<and> (\<forall>j < i. t_parent (tasks s ! j) \<noteq> Some (curr_task s)) \<and>
       tv s' = switched (curr_task s) (scheduler_task s) (to_state SLEEPING (curr_task s) (tv s)) \<and>
       length (tasks s') = length (tasks s) \<and> curr_task s' = scheduler_task s \<and> scheduler_task s' = scheduler_task s)"

lemma sys_wait_table:
  assumes c: "curr_task s < length (tasks s)" "scheduler_task s < length (tasks s)"
  shows "ok_all (waited s) (sys_wait s sp)"
proof (cases "first_child (curr_task s) (tasks s) 0")
  case None
  then show ?thesis by (simp add: sys_wait_def waited_def)
next
  case (Some i)
  note i = first_child_Some [OF Some]
  define s1 where "s1 = upd_task s (curr_task s) (\<lambda>t. t\<lparr>t_state := SLEEPING\<rparr>)"
  have s1: "tv s1 = to_state SLEEPING (curr_task s) (tv s)" "length (tasks s1) = length (tasks s)"
      "curr_task s1 = curr_task s" "scheduler_task s1 = scheduler_task s"
    using c by (simp_all add: s1_def upd_state_tv)
  obtain ctx s' where sw: "switch_to s1 (scheduler_task s1) sp = (ctx, s')" by fastforce
  have e: "sleep s sp = (if curr_task s = scheduler_task s then Panic ''sleep: Sleep scheduler'' else Ok (ctx, s'))"
    using sw s1 by (simp add: sleep_def s1_def Let_def)
  show ?thesis
  proof (cases "state_of s i = ZOMBIE \<or> curr_task s = scheduler_task s")
    case True
    then show ?thesis using Some e by (auto simp: sys_wait_def waited_def Let_def)
  next
    case False
    then show ?thesis
      using Some e i switch_to_table [OF sw] s1 c
      by (simp add: sys_wait_def waited_def Let_def) blast
  qed
qed

end
