(* ===== verification/Sched.thy ===== *)
theory Sched
  imports Frame
begin

text \<open>
  The kernel as a machine that runs for ever: the scheduler dispatches a task, the task runs in user
  mode until a trap, and \<^verbatim>\<open>trampoline\<close> handles the trap and returns to the task or switches to the
  scheduler. Every step is one of \<^verbatim>\<open>ProcSpec\<close>, so its invariant, the safety of the switch and the bounded
  waiting hold of the kernel.
\<close>

section \<open>The effect of a trap on the task table\<close>

text \<open>A fork, or nothing, and then zombie children of the current task are removed.\<close>

definition stays_effect :: "'z k_state_scheme \<Rightarrow> 'z k_state_scheme \<Rightarrow> bool" where
  "stays_effect s s' \<longleftrightarrow> (\<exists>v. (v = tv s \<or> (\<exists>i < length (tasks s). state_of s i = UNUSED \<and>
     v = (tv s)(i := (RUNNABLE, Some (curr_task s), int i)))) \<and> reap_table s v s')"

definition leaves_effect :: "'z k_state_scheme \<Rightarrow> resume \<Rightarrow> 'z k_state_scheme \<Rightarrow> bool" where
  "leaves_effect s r s' \<longleftrightarrow> length (tasks s') = length (tasks s) \<and> curr_task s' = scheduler_task s \<and>
     scheduler_task s' = scheduler_task s \<and>
     (let c = curr_task s; n = scheduler_task s; v = tv s in
       r = After_timer \<and> tv s' = switched c n v \<or>
       (\<exists>regs pid i. r = After_wait regs pid \<and> i < length (tasks s) \<and> v_parent v i = Some c \<and> v_state v i \<noteq> ZOMBIE \<and>
          (\<forall>j < i. v_parent v j \<noteq> Some c) \<and> tv s' = switched c n (to_state SLEEPING c v)) \<or>
       (\<exists>p. r = After_exit \<and> v_parent v c = Some p \<and> tv s' = switched c n (woken p (to_state ZOMBIE c v))))"

definition trap_effect :: "'z k_state_scheme \<Rightarrow> trap_result \<times> 'z k_state_scheme \<Rightarrow> bool" where
  "trap_effect s r \<longleftrightarrow> (case r of (Back, s') \<Rightarrow> stays_effect s s' | (Away ctx k, s') \<Rightarrow> leaves_effect s k s')"

definition syscall_effect :: "'z k_state_scheme \<Rightarrow> sys_result \<times> 'z k_state_scheme \<Rightarrow> bool" where
  "syscall_effect s r \<longleftrightarrow> (case r of
     (Returned v, s') \<Rightarrow> same_sched s s' \<or> forked s s'
   | (Slept ctx pid, s') \<Rightarrow> waited s r
   | (Exited ctx, s') \<Rightarrow> ended s r)"

lemma handle_syscall_effect:
  assumes c: "curr_task s < length (tasks s)" "scheduler_task s < length (tasks s)"
    and p: "\<And>p. t_parent (tasks s ! curr_task s) = Some p \<Longrightarrow> p < length (tasks s)"
  shows "ok_all (syscall_effect s) (handle_syscall site s regs sp)"
proof -
  have ret: "ok_all (syscall_effect s) (returned r)" if "sched_same s r" for r
    by (rule ok_bnd [OF that]) (auto simp: syscall_effect_def)
  have fork: "ok_all (syscall_effect s) (returned (sys_fork site s regs))"
    by (rule ok_bnd [OF sys_fork_table]) (auto simp: syscall_effect_def)
  have exit: "ok_all (syscall_effect s) (sys_exit s sp)"
    by (rule ok_mono [OF sys_exit_table [OF c p]]) (auto simp: syscall_effect_def ended_def)
  have wait: "ok_all (syscall_effect s) (sys_wait s sp)"
    by (rule ok_mono [OF sys_wait_table [OF c]]) (auto simp: syscall_effect_def waited_def)
  show ?thesis
    unfolding handle_syscall_def Let_def
    by (intro ok_if ret fork exit wait sys_read_sched sys_write_sched sys_open_sched sys_close_sched sys_execv_sched)
      (simp_all add: syscall_effect_def)
qed

lemma finish_syscall_stays:
  assumes "length (tasks s) = MAX_TASKS" and "same_sched s s1 \<or> forked s s1"
  shows "ok_all (stays_effect s) (finish_syscall s1 regs ret)"
proof -
  obtain v where v: "table_as s v s1" "v = tv s \<or> (\<exists>i < length (tasks s). state_of s i = UNUSED \<and>
      v = (tv s)(i := (RUNNABLE, Some (curr_task s), int i)))"
    using assms(2) by (auto simp: same_sched_table forked_def)
  show ?thesis
    by (rule ok_mono [OF finish_syscall_table [OF v(1) assms(1)]]) (use v(2) in \<open>auto simp: stays_effect_def\<close>)
qed

lemma switch_timer_effect:
  assumes "curr_task s < length (tasks s)" "scheduler_task s < length (tasks s)" "switch_to s' (scheduler_task s) sp = (ctx, t)"
    and "table_as s (tv s) s'"
  shows "leaves_effect s After_timer t"
  using switch_to_table [OF assms(3)] assms(1,2,4) by (simp add: leaves_effect_def table_as_def)

lemma trampoline_effect:
  assumes len: "length (tasks s) = MAX_TASKS"
    and c: "curr_task s < length (tasks s)" "scheduler_task s < length (tasks s)"
    and p: "\<And>p. t_parent (tasks s ! curr_task s) = Some p \<Longrightarrow> p < length (tasks s)"
  shows "ok_all (trap_effect s) (trampoline site s regs sp)"
proof -
  have call: "ok_all (syscall_effect s) (handle_syscall site s regs sp)"
    by (rule handle_syscall_effect) (use c p in simp_all)
  have sys: "ok_all (trap_effect s) (bnd (handle_syscall site s regs sp) (\<lambda>(r, s).
      case r of Returned ret \<Rightarrow> bnd (finish_syscall s regs ret) (\<lambda>s. Ok (Back, s))
      | Slept ctx pid \<Rightarrow> Ok (Away ctx (After_wait regs pid), s) | Exited ctx \<Rightarrow> Ok (Away ctx After_exit, s)))"
  proof (rule ok_bnd [OF call], rule ok_prod)
    fix x r s1 assume e: "syscall_effect s x" "x = (r, s1)"
    show "ok_all (trap_effect s) (case r of Returned ret \<Rightarrow> bnd (finish_syscall s1 regs ret) (\<lambda>s. Ok (Back, s))
      | Slept ctx pid \<Rightarrow> Ok (Away ctx (After_wait regs pid), s1) | Exited ctx \<Rightarrow> Ok (Away ctx After_exit, s1))"
    proof (cases r)
      case (Returned ret)
      then have "ok_all (stays_effect s) (finish_syscall s1 regs ret)"
        using e by (intro finish_syscall_stays [OF len]) (simp add: syscall_effect_def)
      then show ?thesis
        unfolding Returned sys_result.case by (rule ok_bnd) (simp add: trap_effect_def)
    next
      case (Slept ctx pid)
      then have "waited s (Slept ctx pid, s1)" using e by (simp add: syscall_effect_def)
      then show ?thesis
        unfolding Slept by (auto simp: trap_effect_def leaves_effect_def waited_def tv_def Let_def)
    next
      case (Exited ctx)
      then have "ended s (Exited ctx, s1)" using e by (simp add: syscall_effect_def)
      then show ?thesis
        unfolding Exited by (auto simp: trap_effect_def leaves_effect_def ended_def tv_def)
    qed
  qed
  have returns: "trap_effect s (Back, t)" if "table_as s (tv s) t" for t
    using that by (auto simp: trap_effect_def stays_effect_def reap_table_def intro!: exI [of _ "tv s"])
  have eoi: "table_as s (tv s) (eoi t)" if "table_as s (tv s) t" for t
    by (rule more_table_as [OF eoi_keeps that])
  have t0: "table_as s (tv s) s" by (simp add: table_as_def)
  have tick: "table_as s (tv s) (s\<lparr>ticks := ticks s + 1\<rparr>)" by (simp add: table_as_def)
  have timer: "ok_all (trap_effect s) (let s = s\<lparr>ticks := ticks s + 1\<rparr>; s = eoi s; (ctx, s) = switch_to s (scheduler_task s) sp
      in Ok (Away ctx After_timer, s))"
  proof -
    obtain ctx t where sw: "switch_to (eoi (s\<lparr>ticks := ticks s + 1\<rparr>)) (scheduler_task s) sp = (ctx, t)" by fastforce
    moreover have "scheduler_task (eoi (s\<lparr>ticks := ticks s + 1\<rparr>)) = scheduler_task s"
      using eoi [OF tick] by (simp add: table_as_def)
    ultimately show ?thesis
      using switch_timer_effect [OF c sw eoi [OF tick]] by (simp add: Let_def trap_effect_def)
  qed
  have serial: "ok_all (trap_effect s) (bnd (handle_uartintr s) (\<lambda>(ch, s). bnd (write_circular_buf s ch) (\<lambda>s. Ok (Back, eoi s))))"
    apply (rule kept_table(2) [OF handle_uartintr_keeps [OF refl] t0])
    apply (simp only: prod.case)
    apply (rule kept_table(1) [OF write_circular_buf_keeps [OF refl]], assumption)
    apply (simp add: returns eoi)
    done
  have unknown: "ok_all (trap_effect s) (bnd r1 (\<lambda>(x, s). bnd (r2 s) (\<lambda>s. bnd (r3 s) (\<lambda>_. Panic w))))"
    for r1 r2 r3 and w :: string
    by (intro ok_pure ok_prod) simp
  show ?thesis
    unfolding trampoline_def
    apply (rule ok_let)
    apply (intro ok_if sys timer serial unknown)
     apply (simp_all add: returns eoi t0)
    done
qed

section \<open>The machine\<close>

text \<open>
  A state of the kernel, the index where the loop of \<^verbatim>\<open>schedule\<close> goes on, and what each suspended task
  has left to do (its saved context points into that code).
\<close>

record kernel_sys =
  k_state_of :: k_state
  k_next :: nat
  k_resume :: "nat \<Rightarrow> resume"

text \<open>The bytes of memory that user code can write under the loaded page directory.\<close>

definition user_writable :: "'z mstate_scheme \<Rightarrow> u32 set" where
  "user_writable s = {PHYS_TO_VIRT (xl_paddr x) | va x. translate (mem s) (curr_pgdir s) va = Some x \<and> xl_user x \<and> xl_write x}"

text \<open>
  The frame that the processor and \<^verbatim>\<open>int_common.asm\<close> push below \<^verbatim>\<open>esp0\<close> of the task state: 76 bytes with the
  user's registers and the vector, whatever they are.
\<close>

definition push_frame :: "mem \<Rightarrow> u32 \<Rightarrow> (nat \<Rightarrow> u8) \<Rightarrow> mem" where
  "push_frame m regs f = (\<lambda>a. if a - regs < sizeof_int_regs then f (unat (a - regs)) else m a)"

fun event_of :: "trap_result \<Rightarrow> event" where
  "event_of Back = Came_back"
| "event_of (Away ctx k) = Left"

fun resume_after :: "trap_result \<Rightarrow> nat \<Rightarrow> (nat \<Rightarrow> resume) \<Rightarrow> nat \<Rightarrow> resume" where
  "resume_after Back c rs = rs"
| "resume_after (Away ctx k) c rs = rs(c := k)"

text \<open>
  Dispatch: \<^verbatim>\<open>schedule\<close> switches to a task, which does what it has left in the kernel. Trap: user code has
  changed what it can change, a trap has pushed its frame, and \<^verbatim>\<open>trampoline\<close> returns to the task or has
  switched to the scheduler. A step that panics does not exist; the machine stops there.
\<close>

inductive kernel_step :: "u32 \<Rightarrow> kernel_sys \<Rightarrow> event \<Rightarrow> kernel_sys \<Rightarrow> bool" for site where
  dispatch:
    "curr_task (k_state_of x) = scheduler_task (k_state_of x) \<Longrightarrow>
     schedule_from (k_state_of x) (k_next x) sp = Ok (j, ctx, s1) \<Longrightarrow>
     resume_task s1 (k_resume x j) = Ok s2 \<Longrightarrow>
     kernel_step site x (Dispatched j)
       \<lparr>k_state_of = s2, k_next = next_index j, k_resume = settled (tv s2) (k_resume x)\<rparr>"
| trap:
    "curr_task (k_state_of x) \<noteq> scheduler_task (k_state_of x) \<Longrightarrow>
     (\<forall>a. a \<notin> user_writable (k_state_of x) \<longrightarrow> m a = mem (k_state_of x) a) \<Longrightarrow>
     regs = tss_esp0 (k_state_of x) - sizeof_int_regs \<Longrightarrow>
     trampoline site (k_state_of x\<lparr>mem := push_frame m regs f\<rparr>) regs sp = Ok (r, s1) \<Longrightarrow>
     kernel_step site x (event_of r)
       \<lparr>k_state_of = s1, k_next = k_next x,
        k_resume = settled (tv s1) (resume_after r (curr_task (k_state_of x)) (k_resume x))\<rparr>"

abbreviation kernel_run :: "u32 \<Rightarrow> kernel_sys \<Rightarrow> event list \<Rightarrow> kernel_sys \<Rightarrow> bool" where
  "kernel_run site \<equiv> steps (kernel_step site)"

text \<open>The abstraction: what \<^verbatim>\<open>ProcSpec\<close> sees of a state.\<close>

definition proc_view :: "kernel_sys \<Rightarrow> proc_sys" where
  "proc_view x = \<lparr>p_view = tv (k_state_of x), p_cur = curr_task (k_state_of x), p_next = k_next x,
     p_resume = k_resume x\<rparr>"

lemma proc_view_simps [simp]:
  "p_view (proc_view x) = tv (k_state_of x)" "p_cur (proc_view x) = curr_task (k_state_of x)"
  "p_next (proc_view x) = k_next x" "p_resume (proc_view x) = k_resume x"
  by (simp_all add: proc_view_def)

definition table_ok :: "k_state \<Rightarrow> bool" where
  "table_ok s \<longleftrightarrow> length (tasks s) = MAX_TASKS \<and> scheduler_task s = 0"

lemma tv_simps: "v_state (tv s) i = state_of s i" "v_parent (tv s) i = t_parent (tasks s ! i)"
  by (simp_all add: tv_def)

lemma tv_pid: "v_pid (tv s) i = t_pid (tasks s ! i)"
  by (simp add: tv_def)

lemma resume_task_table:
  assumes "table_as s0 v s" and "length (tasks s0) = MAX_TASKS"
  shows "ok_all (reap_table s0 v) (resume_task s r)"
proof -
  have "reap_table s0 v s" using assms by (auto simp: reap_table_def intro: exI [of _ v])
  then show ?thesis
    using finish_syscall_table [OF assms] by (simp add: resume_task_def split: resume.split)
qed

lemma kernel_step_refines:
  assumes step: "kernel_step site x e y" and ok: "table_ok (k_state_of x)" and inv: "p_inv (proc_view x)"
  shows "p_step (proc_view x) e (proc_view y) \<and> table_ok (k_state_of y)"
  using step
proof cases
  case (dispatch sp j ctx s1 s2)
  let ?s = "k_state_of x"
  have len: "length (tasks ?s) = MAX_TASKS" and z: "scheduler_task ?s = 0" using ok by (simp_all add: table_ok_def)
  have sf: "next_runnable MAX_TASKS (tasks ?s) (k_next x) = Some j" "switch_to ?s j sp = (ctx, s1)"
    using dispatch(4) by (auto simp: schedule_from_def split: option.splits)
  obtain k where k: "k < MAX_TASKS" "j = (k_next x + k) mod MAX_TASKS" "state_of ?s j = RUNNABLE"
      "\<forall>l < k. state_of ?s ((k_next x + l) mod MAX_TASKS) \<noteq> RUNNABLE"
    using next_runnable_Some [OF sf(1)] p_invD(2) [OF inv] by auto
  have j: "j < MAX_TASKS" using k(2) by simp
  have "curr_task ?s < length (tasks ?s)" "j < length (tasks ?s)" using len j p_invD(1) [OF inv] by simp_all
  note sw = switch_to_table [OF sf(2) this]
  have "reap_table s1 (switched 0 j (tv ?s)) s2"
    using resume_task_table [of s1 "switched 0 j (tv ?s)" s1 "k_resume x j"] sw len z dispatch(3,5)
    by (simp add: table_as_def ok_all_def)
  then obtain w where w: "reaps j (switched 0 j (tv ?s)) w" "tv s2 = w" "length (tasks s2) = MAX_TASKS"
      "curr_task s2 = j" "scheduler_task s2 = 0"
    using sw len z by (auto simp: reap_table_def table_as_def)
  have "k_resume x j \<noteq> After_exit" using dispatch(5) by (auto simp: resume_task_def)
  then have "p_step (proc_view x) (Dispatched j)
      \<lparr>p_view = w, p_cur = j, p_next = next_index j, p_resume = settled w (p_resume (proc_view x))\<rparr>"
    by (intro p_step.dispatch [where k = k]) (use k w(1) dispatch(3) z in \<open>simp_all add: tv_simps\<close>)
  then show ?thesis
    using dispatch(1,2) w(2-5) by (simp add: proc_view_def table_ok_def)
next
  case (trap m regs f sp r s1)
  let ?s = "k_state_of x\<lparr>mem := push_frame m regs f\<rparr>"
  have tv: "tv ?s = tv (k_state_of x)" "curr_task ?s = curr_task (k_state_of x)"
    by (simp_all add: tv_def fun_eq_iff)
  have len: "length (tasks ?s) = MAX_TASKS" and z: "scheduler_task ?s = 0" using ok by (simp_all add: table_ok_def)
  have c: "curr_task ?s < MAX_TASKS" "curr_task ?s \<noteq> 0" using p_invD(1) [OF inv] trap(3) z by simp_all
  have "ok_all (trap_effect ?s) (trampoline site ?s regs sp)"
  proof (rule trampoline_effect [OF len])
    fix p assume "t_parent (tasks ?s ! curr_task ?s) = Some p"
    then show "p < length (tasks ?s)" using p_invD(6) [OF inv, of "curr_task ?s" p] c len by (simp add: tv_simps)
  qed (use c z len in \<open>simp_all add: MAX_TASKS_def\<close>)
  then have eff: "trap_effect ?s (r, s1)" by (rule ok_allD [OF _ trap(6)])
  show ?thesis
  proof (cases r)
    case Back
    then have "stays_effect ?s s1" using eff by (simp add: trap_effect_def)
    then obtain v w where v: "v = tv (k_state_of x) \<or> (\<exists>i < MAX_TASKS. state_of (k_state_of x) i = UNUSED \<and>
        v = (tv (k_state_of x))(i := (RUNNABLE, Some (curr_task (k_state_of x)), int i)))"
      and w: "reaps (curr_task (k_state_of x)) v w" "table_as ?s w s1"
      using len unfolding stays_effect_def reap_table_def tv by auto
    have t: "tv s1 = w" "curr_task s1 = curr_task (k_state_of x)" "table_ok s1"
      using w(2) len z by (simp_all add: table_as_def table_ok_def)
    have "p_step (proc_view x) Came_back (proc_view x\<lparr>p_view := w, p_resume := settled w (p_resume (proc_view x))\<rparr>)"
      using v
    proof (elim disjE exE conjE)
      assume "v = tv (k_state_of x)"
      then show ?thesis by (intro p_step.stay) (use w(1) c in simp_all)
    next
      fix i assume "i < MAX_TASKS" "state_of (k_state_of x) i = UNUSED"
        "v = (tv (k_state_of x))(i := (RUNNABLE, Some (curr_task (k_state_of x)), int i))"
      then show ?thesis by (intro p_step.fork [where i = i]) (use w(1) c in \<open>simp_all add: tv_simps\<close>)
    qed
    then show ?thesis using trap(1,2) Back t by (simp add: proc_view_def)
  next
    case (Away ctx k)
    let ?v = "tv (k_state_of x)" and ?c = "curr_task (k_state_of x)"
    have l: "length (tasks s1) = MAX_TASKS" "curr_task s1 = 0" "scheduler_task s1 = 0"
      "k = After_timer \<and> tv s1 = switched ?c 0 ?v \<or>
       (\<exists>regs pid i. k = After_wait regs pid \<and> i < MAX_TASKS \<and> v_parent ?v i = Some ?c \<and> v_state ?v i \<noteq> ZOMBIE \<and>
          (\<forall>j < i. v_parent ?v j \<noteq> Some ?c) \<and> tv s1 = switched ?c 0 (to_state SLEEPING ?c ?v)) \<or>
       (\<exists>p. k = After_exit \<and> v_parent ?v ?c = Some p \<and> tv s1 = switched ?c 0 (woken p (to_state ZOMBIE ?c ?v)))"
      using eff len z unfolding Away trap_effect_def leaves_effect_def Let_def tv by auto
    have "p_step (proc_view x) Left (proc_view x\<lparr>p_view := tv s1, p_cur := 0,
        p_resume := settled (tv s1) ((p_resume (proc_view x))(p_cur (proc_view x) := k))\<rparr>)"
      using l(4)
    proof (elim disjE exE conjE)
      assume "k = After_timer" "tv s1 = switched ?c 0 ?v"
      then show ?thesis using p_step.timer [of "proc_view x" "tv s1"] c by simp
    next
      fix regs pid i
      assume "k = After_wait regs pid" "i < MAX_TASKS" "v_parent ?v i = Some ?c" "v_state ?v i \<noteq> ZOMBIE"
        "\<forall>j < i. v_parent ?v j \<noteq> Some ?c" "tv s1 = switched ?c 0 (to_state SLEEPING ?c ?v)"
      then show ?thesis using p_step.wait [of "proc_view x" i "tv s1" regs pid] c by simp
    next
      fix p assume "k = After_exit" "v_parent ?v ?c = Some p" "tv s1 = switched ?c 0 (woken p (to_state ZOMBIE ?c ?v))"
      then show ?thesis using p_step.exit [of "proc_view x" p "tv s1"] c by simp
    qed
    then show ?thesis using trap(1,2) Away l by (simp add: proc_view_def table_ok_def)
  qed
qed

interpretation kernel: simulation p_step p_inv "kernel_step site" proc_view "\<lambda>x. table_ok (k_state_of x)" for site
  by unfold_locales (rule kernel_step_refines)

section \<open>The state after booting\<close>

text \<open>\<^verbatim>\<open>main\<close> calls \<^verbatim>\<open>init_tasks\<close> and \<^verbatim>\<open>create_init_task\<close> and then \<^verbatim>\<open>schedule\<close>, which starts at index 0.\<close>

definition started :: "k_state \<Rightarrow> kernel_sys" where
  "started s = \<lparr>k_state_of = s, k_next = 0, k_resume = \<lambda>_. Fresh\<rparr>"

definition boot_view :: "view \<Rightarrow> bool" where
  "boot_view v \<longleftrightarrow> v 0 = (RUNNING, None, 0) \<and> (\<forall>i < MAX_TASKS. 0 < i \<longrightarrow> v i = (UNUSED, None, 0))"

lemma init_tasks_table:
  "length (tasks (init_tasks s)) = MAX_TASKS" "scheduler_task (init_tasks s) = 0" "curr_task (init_tasks s) = 0"
  "boot_view (tv (init_tasks s))"
  by (simp_all add: init_tasks_def Let_def boot_view_def tv_def zero_task_def MAX_TASKS_def nth_list_update)

lemma register_task_table:
  assumes t: "table_as s0 v s" and i: "i < length (tasks s0)" "v i = (x, y, n)"
  shows "ok_all (table_as s0 (v(i := (RUNNABLE, y, n)))) (register_task site s i path)"
proof -
  have upd: "table_as s0 (v(i := (RUNNABLE, y, n))) (upd_task s' i (\<lambda>t. t\<lparr>t_state := RUNNABLE\<rparr>))"
    if "table_as s0 v s'" for s'
    by (rule upd_table_as [OF that i(1)]) (use table_as_fields [OF that, of i] i(2) in simp)
  show ?thesis
  unfolding register_task_def
  apply (rule ok_pure, rule ok_option, simp)
  apply (rule ok_let)
  apply (rule kept_table(2) [OF load_elf_keeps [OF refl] t])
  apply (simp only: prod.case)
  apply (rule ok_if, simp)
  apply (rule ok_let, rule ok_pure)
  apply (rule table_let, rule mem_table_asI, assumption)
  apply (rule ok_let)
  apply (rule table_let, rule upd_table_as_same, simp, assumption)
  apply (rule table_let, rule mem_table_asI, assumption)
  apply (simp only: ok_all_simps)
  apply (rule upd, assumption)
  done
qed

lemma booted_table:
  assumes "create_init_task site (init_tasks s) = Ok s0"
  shows "table_ok s0 \<and> curr_task s0 = 0 \<and>
    (\<exists>v. boot_view v \<and> tv s0 = v(1 := (RUNNABLE, None, 1)))"
proof -
  let ?i = "init_tasks s"
  note I = init_tasks_table [of s]
  have v1: "tv ?i 1 = (UNUSED, None, 0)" using I(4) by (simp add: boot_view_def MAX_TASKS_def)
  have u: "unused_task (tasks ?i) 0 = Some 1"
  proof -
    obtain i where i: "unused_task (tasks ?i) 0 = Some i"
      using unused_task_None [of "tasks ?i" 0] v1 I(1) nth_mem [of 1 "tasks ?i"]
      by (cases "unused_task (tasks ?i) 0") (auto simp: tv_def MAX_TASKS_def)
    have "state_of ?i 0 \<noteq> UNUSED" using I(4) by (simp add: boot_view_def tv_def)
    then have "i \<noteq> 0" using unused_task_spec [OF i] by (cases "i = 0") simp_all
    moreover have "\<not> 1 < i" using unused_task_spec [OF i] v1 by (auto simp: tv_def)
    ultimately show ?thesis using i by (simp add: not_less le_Suc_eq)
  qed
  have "ok_all (table_as ?i ((tv ?i)(1 := (RUNNABLE, None, 1)))) (create_init_task site ?i)"
    unfolding create_init_task_def
    apply (rule ok_bnd [OF alloc_task_table], rule ok_prod, rule ok_option, simp)
    subgoal premises p for r tp s1 i
    proof -
      have i: "i = 1" and t: "table_as ?i ((tv ?i)(1 := (UNUSED, None, 1))) s1"
        using p u v1 by (auto simp: allocated_def tv_def)
      show ?thesis
        unfolding i using register_task_table [OF t, of 1 UNUSED None 1] I(1) by (simp add: MAX_TASKS_def)
    qed
    done
  then have "table_as ?i ((tv ?i)(1 := (RUNNABLE, None, 1))) s0" by (rule ok_allD [OF _ assms])
  then show ?thesis using I by (auto simp: table_as_def table_ok_def)
qed

lemma booted_inv:
  assumes "create_init_task site (init_tasks s) = Ok s0"
  shows "table_ok s0" "p_inv (proc_view (started s0))"
proof -
  show "table_ok s0" using booted_table [OF assms] by blast
  obtain v where c: "curr_task s0 = 0" and v: "boot_view v" "tv s0 = v(1 := (RUNNABLE, None, 1))"
    using booted_table [OF assms] by blast
  have t: "tv s0 i = (if i = 0 then (RUNNING, None, 0) else if i = 1 then (RUNNABLE, None, 1) else (UNUSED, None, 0))"
    if "i < MAX_TASKS" for i using v that by (auto simp: boot_view_def)
  have "v_inv (tv s0) 0" by (rule v_invI) (simp_all add: t split: if_splits)
  then show "p_inv (proc_view (started s0))"
    using c by (simp add: p_inv_iff started_def MAX_TASKS_def)
qed

section \<open>Properties\<close>

text \<open>
  Property C1: the kernel refines \<^verbatim>\<open>ProcSpec\<close>: from the state in which \<^verbatim>\<open>main\<close> calls \<^verbatim>\<open>schedule\<close>, every run of
  dispatches and traps, whatever user code writes to its memory and registers and whatever the devices
  answer, is a run of the abstract machine with the same events.
\<close>

theorem kernel_refines_spec:
  assumes "create_init_task site (init_tasks s) = Ok s0" and "kernel_run site (started s0) es y"
  shows "p_run (proc_view (started s0)) es (proc_view y)"
  using kernel.steps_refine [OF assms(2) _ booted_inv(2) [OF assms(1)]] booted_inv(1) [OF assms(1)]
  by (simp add: started_def)

lemma reachable_ok:
  assumes "create_init_task site (init_tasks s) = Ok s0" and "kernel_run site (started s0) es y"
  shows "table_ok (k_state_of y)" "p_inv (proc_view y)"
  using kernel.concrete.steps_inv [OF assms(2)] booted_inv [OF assms(1)] by (simp_all add: started_def)

text \<open>
  Property C2: in every state the kernel reaches, exactly the current task is RUNNING and the scheduler
  is RUNNABLE while another task runs, the pid of a used slot is its index, only used slots have a
  parent, which is another slot of the table, and a SLEEPING task has a child that is neither a
  zombie nor gone, so no wakeup has been lost.
\<close>

theorem task_table_invariant:
  assumes "create_init_task site (init_tasks s) = Ok s0" and "kernel_run site (started s0) es y"
  shows "\<exists>k. k = k_state_of y \<and> length (tasks k) = MAX_TASKS \<and> curr_task k < MAX_TASKS \<and>
    (\<forall>i < MAX_TASKS. (state_of k i = RUNNING) = (i = curr_task k)) \<and>
    (curr_task k \<noteq> scheduler_task k \<longrightarrow> state_of k (scheduler_task k) = RUNNABLE) \<and>
    (\<forall>i < MAX_TASKS. state_of k i \<noteq> UNUSED \<longrightarrow> t_pid (tasks k ! i) = int i) \<and>
    (\<forall>i < MAX_TASKS. \<forall>p. t_parent (tasks k ! i) = Some p \<longrightarrow> p < MAX_TASKS \<and> p \<noteq> i \<and> state_of k i \<noteq> UNUSED) \<and>
    (\<forall>i < MAX_TASKS. state_of k i = SLEEPING \<longrightarrow> (\<exists>c < MAX_TASKS. t_parent (tasks k ! c) = Some i \<and>
       state_of k c \<noteq> UNUSED \<and> state_of k c \<noteq> ZOMBIE))"
proof (intro exI [of _ "k_state_of y"] conjI refl allI impI)
  note R = reachable_ok(1) [OF assms] and I = p_invD [OF reachable_ok(2) [OF assms], simplified, unfolded tv_simps tv_pid]
  have z: "scheduler_task (k_state_of y) = 0" using R by (simp add: table_ok_def)
  show "length (tasks (k_state_of y)) = MAX_TASKS" using R by (simp add: table_ok_def)
  show "curr_task (k_state_of y) < MAX_TASKS" by (rule I(1))
  show "curr_task (k_state_of y) \<noteq> scheduler_task (k_state_of y) \<Longrightarrow>
      state_of (k_state_of y) (scheduler_task (k_state_of y)) = RUNNABLE"
    unfolding z using I(4) by simp
  fix i assume i: "i < MAX_TASKS"
  show "(state_of (k_state_of y) i = RUNNING) = (i = curr_task (k_state_of y))" by (rule I(3) [OF i])
  show "state_of (k_state_of y) i \<noteq> UNUSED \<Longrightarrow> t_pid (tasks (k_state_of y) ! i) = int i" by (rule I(5) [OF i])
  show "p < MAX_TASKS" "p \<noteq> i" "state_of (k_state_of y) i \<noteq> UNUSED" if "t_parent (tasks (k_state_of y) ! i) = Some p" for p
    using I(6) [OF i that] by blast+
  show "\<exists>c < MAX_TASKS. t_parent (tasks (k_state_of y) ! c) = Some i \<and>
      state_of (k_state_of y) c \<noteq> UNUSED \<and> state_of (k_state_of y) c \<noteq> ZOMBIE" if "state_of (k_state_of y) i = SLEEPING"
    using I(8) [OF i that] unfolding live_child_def tv_simps by blast
qed

text \<open>
  Property C9: the scheduler never switches to a task that has exited: whatever the run so far, the
  task the search finds is not suspended at the end of \<^verbatim>\<open>sys_exit\<close>, so the panic there is not reached,
  nor is it the scheduler itself.
\<close>

theorem exited_task_never_resumed:
  assumes "create_init_task site (init_tasks s) = Ok s0" and "kernel_run site (started s0) es y"
    and "curr_task (k_state_of y) = scheduler_task (k_state_of y)"
    and "schedule_from (k_state_of y) (k_next y) sp = Ok (j, ctx, s1)"
  shows "k_resume y j \<noteq> After_exit \<and> j \<noteq> scheduler_task (k_state_of y) \<and> state_of s1 j = RUNNING"
proof -
  note R = reachable_ok [OF assms(1,2)]
  let ?s = "k_state_of y"
  have sf: "next_runnable MAX_TASKS (tasks ?s) (k_next y) = Some j" "switch_to ?s j sp = (ctx, s1)"
    using assms(4) by (auto simp: schedule_from_def split: option.splits)
  have j: "j < MAX_TASKS" "state_of ?s j = RUNNABLE"
    using next_runnable_Some [OF sf(1)] p_invD(2) [OF R(2)] by auto
  have l: "length (tasks ?s) = MAX_TASKS" "scheduler_task ?s = 0" using R(1) by (simp_all add: table_ok_def)
  have c: "curr_task ?s < length (tasks ?s)" "j < length (tasks ?s)" using l j(1) p_invD(1) [OF R(2)] by simp_all
  have "tv s1 j = switched (curr_task ?s) j (tv ?s) j" using switch_to_table(1) [OF sf(2) c] by simp
  then have "state_of s1 j = RUNNING" by (simp add: switched_def fst_tv [symmetric])
  moreover have "k_resume y j \<noteq> After_exit" using p_invD(7) [OF R(2) j(1)] j(2) by (auto simp: tv_simps)
  moreover have "state_of ?s (curr_task ?s) = RUNNING"
    using p_invD(3) [OF R(2), of "curr_task ?s"] p_invD(1) [OF R(2)] by (simp add: tv_simps)
  then have "j \<noteq> scheduler_task ?s" using j(2) assms(3) by auto
  ultimately show ?thesis by simp
qed

text \<open>
  Property C10: round robin: a RUNNABLE task other than the scheduler is dispatched before the scheduler
  has dispatched \<open>MAX_TASKS\<close> times, whatever the tasks do in between, and as long as it waits the
  scheduler, when it runs, finds a task to switch to.
\<close>

theorem runnable_task_runs_within_a_round:
  assumes "create_init_task site (init_tasks s) = Ok s0" and "kernel_run site (started s0) es x"
    and "kernel_run site x fs y" and "j < MAX_TASKS" "j \<noteq> scheduler_task (k_state_of x)"
    and "state_of (k_state_of x) j = RUNNABLE" and "Dispatched j \<notin> set fs"
  shows "dispatches fs < MAX_TASKS \<and> state_of (k_state_of y) j = RUNNABLE \<and>
    (\<exists>i r. schedule_from (k_state_of y) (k_next y) sp = Ok (i, r))"
proof -
  note X = reachable_ok [OF assms(1,2)]
  have Y: "p_run (proc_view x) fs (proc_view y)" using kernel.steps_refine [OF assms(3) X] by simp
  have "j \<noteq> 0" using assms(5) X(1) by (simp add: table_ok_def)
  then have w: "v_state (tv (k_state_of y)) j = RUNNABLE" "dispatches fs \<le> ahead (k_next x) j"
    using p_run_waiting [OF Y X(2) assms(4)] assms(6,7) by (simp_all add: tv_simps)
  have r: "state_of (k_state_of y) j = RUNNABLE" using w(1) by (simp add: tv_simps)
  obtain i where "next_runnable MAX_TASKS (tasks (k_state_of y)) (k_next y) = Some i"
    using next_runnable_ex [OF p_invD(2) [OF proc.steps_inv [OF Y X(2)], simplified] assms(4) r] by blast
  then show ?thesis using w r ahead_lt [of "k_next x" j] by (simp add: schedule_from_def)
qed

text \<open>
  Property C38: a parent is an index that outlives the parent: its slot may be reused, and two tasks can
  become each other's parent. When both wait, with no other child, neither ever runs again, whatever
  else happens.
\<close>

theorem mutual_wait_never_ends:
  assumes "table_ok (k_state_of x)" and "p_inv (proc_view x)" and "mutual_wait (tv (k_state_of x)) a b"
    and "kernel_run site x es y"
  shows "state_of (k_state_of y) a = SLEEPING \<and> state_of (k_state_of y) b = SLEEPING \<and>
    Dispatched a \<notin> set es \<and> Dispatched b \<notin> set es"
proof -
  have "p_run (proc_view x) es (proc_view y)" using kernel.steps_refine [OF assms(4,1,2)] by blast
  then have "mutual_wait (tv (k_state_of y)) a b \<and> Dispatched a \<notin> set es \<and> Dispatched b \<notin> set es"
    using p_run_mutual_wait [of "proc_view x" es "proc_view y" a b] assms(2,3) by simp
  then show ?thesis using mutual_waitD(3,4) [of "tv (k_state_of y)" a b] by (simp add: tv_simps)
qed

section \<open>Witnesses\<close>

text \<open>A dispatch of a new task, and a timer interrupt, from any state that allows them.\<close>

lemma timer_vector:
  "load32 (push_frame m regs (\<lambda>i. if i = 48 then 0x20 else 0)) (regs + vector_offset) = 0x20"
proof -
  have "push_frame m regs (\<lambda>i. if i = 48 then 0x20 else 0) (regs + x) = (if x = 48 then 0x20 else 0)"
    if "x < sizeof_int_regs" for x
    using that by (simp add: push_frame_def word_unat_eq_iff [of x 48])
  from this [of 48] this [of 49] this [of 50] this [of 51] show ?thesis
    by (simp add: load32_def vector_offset_def sizeof_int_regs_def add.assoc)
qed

lemma timer_step:
  assumes "table_ok (k_state_of x)" and "curr_task (k_state_of x) < MAX_TASKS" and "curr_task (k_state_of x) \<noteq> 0"
  shows "\<exists>y. kernel_step site x Left y \<and> curr_task (k_state_of y) = 0 \<and> k_next y = k_next x \<and>
    tv (k_state_of y) = switched (curr_task (k_state_of x)) 0 (tv (k_state_of x))"
proof -
  let ?s = "k_state_of x" and ?f = "\<lambda>i. if i = 48 then 0x20 else 0 :: u8"
  define regs where "regs = tss_esp0 ?s - sizeof_int_regs"
  define t where "t = ?s\<lparr>mem := push_frame (mem ?s) regs ?f\<rparr>"
  have t: "tv t = tv ?s" "curr_task t = curr_task ?s" "length (tasks t) = MAX_TASKS" "scheduler_task t = 0"
    using assms(1) by (simp_all add: t_def tv_def fun_eq_iff table_ok_def)
  define e where "e = eoi (t\<lparr>ticks := ticks t + 1\<rparr>)"
  have "fs_state.more e = fs_state.more (t\<lparr>ticks := ticks t + 1\<rparr>)" by (simp add: e_def)
  note F = fs_more [OF this]
  have e: "tv e = tv ?s" "curr_task e = curr_task ?s" "length (tasks e) = MAX_TASKS" "scheduler_task e = 0"
    using F t by (simp_all add: tv_def fun_eq_iff)
  obtain ctx u where sw: "switch_to e 0 0 = (ctx, u)" by fastforce
  have len: "curr_task e < length (tasks e)" "0 < length (tasks e)" using e assms(2) by (simp_all add: MAX_TASKS_def)
  note S = switch_to_table [OF sw len]
  have "load32 (mem t) (regs + vector_offset) = 0x20" by (simp add: t_def timer_vector)
  then have tr: "trampoline site t regs 0 = Ok (Away ctx After_timer, u)"
    using sw e(4) by (simp add: trampoline_def e_def [symmetric] Let_def T_IRQ_BASE_def IRQ_SYSCALL_def T_IRQ_def IRQ_TIMER_def)
  have "kernel_step site x (event_of (Away ctx After_timer)) \<lparr>k_state_of = u, k_next = k_next x,
      k_resume = settled (tv u) (resume_after (Away ctx After_timer) (curr_task ?s) (k_resume x))\<rparr>"
    by (rule kernel_step.trap [where m = "mem ?s" and f = ?f and sp = 0 and regs = regs])
      (use assms tr in \<open>simp_all add: t_def regs_def table_ok_def\<close>)
  then show ?thesis using S e by (intro exI) (auto simp: t_def)
qed

lemma dispatch_step:
  assumes "table_ok (k_state_of x)" and "curr_task (k_state_of x) = 0"
    and "next_runnable MAX_TASKS (tasks (k_state_of x)) (k_next x) = Some j" and "j < MAX_TASKS" and "k_resume x j = Fresh"
  shows "\<exists>y. kernel_step site x (Dispatched j) y \<and> curr_task (k_state_of y) = j \<and>
    tv (k_state_of y) = switched 0 j (tv (k_state_of x)) \<and> k_next y = next_index j"
proof -
  obtain ctx u where sw: "switch_to (k_state_of x) j 0 = (ctx, u)" by fastforce
  have len: "curr_task (k_state_of x) < length (tasks (k_state_of x))" "j < length (tasks (k_state_of x))"
    using assms by (simp_all add: table_ok_def)
  have "kernel_step site x (Dispatched j) \<lparr>k_state_of = u, k_next = next_index j, k_resume = settled (tv u) (k_resume x)\<rparr>"
    by (rule kernel_step.dispatch [where sp = 0])
      (use assms sw in \<open>simp_all add: schedule_from_def resume_task_def table_ok_def\<close>)
  then show ?thesis using switch_to_table [OF sw len] assms(2) by (intro exI) auto
qed

lemma only_runnable:
  assumes i: "i < MAX_TASKS" and r: "\<And>k. k < MAX_TASKS \<Longrightarrow> (t_state (ts ! k) = RUNNABLE) = (k = 1)"
  shows "next_runnable MAX_TASKS ts i = Some 1"
proof -
  obtain j where j: "next_runnable MAX_TASKS ts i = Some j"
    using next_runnable_ex [OF i, of 1 ts] r [of 1] by (auto simp: MAX_TASKS_def)
  have "j < MAX_TASKS \<and> t_state (ts ! j) = RUNNABLE" using next_runnable_Some [OF j i] by auto
  then show ?thesis using r [of j] j by simp
qed

text \<open>Booted with a program, the kernel dispatches it and takes a timer interrupt.\<close>

lemma sample_run:
  obtains s s0 y z where "create_init_task 0xc0100100 (init_tasks s) = Ok s0"
    "kernel_run 0xc0100100 (started s0) [Dispatched 1] y" "curr_task (k_state_of y) = 1"
    "kernel_run 0xc0100100 (started s0) [Dispatched 1, Left] z" "curr_task (k_state_of z) = 0"
    "state_of (k_state_of z) 1 = RUNNABLE" "next_runnable MAX_TASKS (tasks (k_state_of z)) (k_next z) = Some 1"
proof -
  obtain s :: k_state and stk pd rs u us where S:
    "kheap s (stk # pd # rs)" "drop kernel_tables rs = u # us" "KERN_BASE \<le> u" "unused_task (tasks s) 0 = Some 1"
    "get_file s (arr (kstr ''init'' @ [0])) = Ok (Some (Fs 0))" "f_data (filesystem s ! 0) = 0xc0003000"
    "elf_prog (mem s) 0xc0003000 116 [1, 2, 3, 4] 8" "pgno 0xc0003000 \<notin> pgno ` set (stk # pd # rs)"
    "load32 (mem s) (0xc0003000 + e_entry_offset) = 116" "tasks s = boot_tasks" "init_tasks s = s"
    by (rule sample_boot)
  obtain s0 where s0: "create_init_task 0xc0100100 (init_tasks s) = Ok s0"
    using create_init_task_spec [OF S(1-9), of "0xc0100100"] S(11) by auto
  note B = booted_inv [OF s0]
  obtain v where c: "curr_task s0 = 0" and v: "boot_view v" "tv s0 = v(1 := (RUNNABLE, None, 1))"
    using booted_table [OF s0] by blast
  have t: "tv s0 i = (if i = 0 then (RUNNING, None, 0) else if i = 1 then (RUNNABLE, None, 1) else (UNUSED, None, 0))"
    if "i < MAX_TASKS" for i using v that by (auto simp: boot_view_def)
  have st: "state_of s0 i = (if i = 0 then RUNNING else if i = 1 then RUNNABLE else UNUSED)" if "i < MAX_TASKS" for i
    using t [OF that] by (simp add: tv_def split: if_splits)
  have "next_runnable MAX_TASKS (tasks s0) 0 = Some 1" by (rule only_runnable) (use st in \<open>auto simp: MAX_TASKS_def split: if_splits\<close>)
  then obtain y where y: "kernel_step 0xc0100100 (started s0) (Dispatched 1) y" "curr_task (k_state_of y) = 1"
      "tv (k_state_of y) = switched 0 1 (tv s0)" "k_next y = next_index 1"
    using dispatch_step [of "started s0" 1 "0xc0100100"] B(1) c by (auto simp: started_def MAX_TASKS_def)
  have r1: "kernel_run 0xc0100100 (started s0) [Dispatched 1] y"
    by (rule steps_one, rule y(1))
  have ok: "table_ok (k_state_of y)"
    using kernel.steps_refine [OF r1] B by (simp add: started_def)
  obtain z where z: "kernel_step 0xc0100100 y Left z" "curr_task (k_state_of z) = 0"
      "tv (k_state_of z) = switched 1 0 (tv (k_state_of y))" "k_next z = k_next y"
    using timer_step [OF ok, of "0xc0100100"] y(2) by (auto simp: MAX_TASKS_def)
  have r2: "kernel_run 0xc0100100 (started s0) [Dispatched 1, Left] z"
    using steps_snoc [OF r1 z(1)] by simp
  have tz: "state_of (k_state_of z) i = (if i = 0 then RUNNING else if i = 1 then RUNNABLE else UNUSED)"
    if "i < MAX_TASKS" for i
    using t [OF that] t [of 0] t [of 1] z(3) y(3) that fst_tv [of "k_state_of z" i]
    by (simp add: switched_def MAX_TASKS_def split: if_splits)
  have "next_runnable MAX_TASKS (tasks (k_state_of z)) (k_next z) = Some 1"
    by (rule only_runnable) (use tz z(4) y(4) in \<open>auto simp: MAX_TASKS_def split: if_splits\<close>)
  then show ?thesis using that [OF s0 r1 y(2) r2 z(2)] tz [of 1] by (simp add: MAX_TASKS_def)
qed

theorem kernel_refines_spec_witness:
  "\<exists>s0 z. kernel_run 0xc0100100 (started s0) [Dispatched 1, Left] z \<and>
    p_run (proc_view (started s0)) [Dispatched 1, Left] (proc_view z)"
proof -
  obtain s s0 y z where S: "create_init_task 0xc0100100 (init_tasks s) = Ok s0"
    "kernel_run 0xc0100100 (started s0) [Dispatched 1] y" "curr_task (k_state_of y) = 1"
    "kernel_run 0xc0100100 (started s0) [Dispatched 1, Left] z" "curr_task (k_state_of z) = 0"
    "state_of (k_state_of z) 1 = RUNNABLE" "next_runnable MAX_TASKS (tasks (k_state_of z)) (k_next z) = Some 1"
    by (rule sample_run)
  show ?thesis using kernel_refines_spec [OF S(1,4)] S(4) by blast
qed

theorem task_table_invariant_witness:
  "\<exists>s0 y. kernel_run 0xc0100100 (started s0) [Dispatched 1] y \<and> state_of (k_state_of y) 1 = RUNNING \<and>
    t_pid (tasks (k_state_of y) ! 1) = 1"
proof -
  obtain s s0 y z where S: "create_init_task 0xc0100100 (init_tasks s) = Ok s0"
    "kernel_run 0xc0100100 (started s0) [Dispatched 1] y" "curr_task (k_state_of y) = 1"
    "kernel_run 0xc0100100 (started s0) [Dispatched 1, Left] z" "curr_task (k_state_of z) = 0"
    "state_of (k_state_of z) 1 = RUNNABLE" "next_runnable MAX_TASKS (tasks (k_state_of z)) (k_next z) = Some 1"
    by (rule sample_run)
  have "1 < MAX_TASKS" by (simp add: MAX_TASKS_def)
  then have "state_of (k_state_of y) 1 = RUNNING \<and> t_pid (tasks (k_state_of y) ! 1) = int 1"
    using task_table_invariant [OF S(1,2)] S(3) by (metis procstate.distinct(7))
  then show ?thesis using S(2) by auto
qed

theorem exited_task_never_resumed_witness:
  "\<exists>(z :: kernel_sys) ctx s1. schedule_from (k_state_of z) (k_next z) 0 = Ok (1, ctx, s1) \<and>
    k_resume z 1 \<noteq> After_exit \<and> state_of s1 1 = RUNNING"
proof -
  obtain s s0 y z where S: "create_init_task 0xc0100100 (init_tasks s) = Ok s0"
    "kernel_run 0xc0100100 (started s0) [Dispatched 1] y" "curr_task (k_state_of y) = 1"
    "kernel_run 0xc0100100 (started s0) [Dispatched 1, Left] z" "curr_task (k_state_of z) = 0"
    "state_of (k_state_of z) 1 = RUNNABLE" "next_runnable MAX_TASKS (tasks (k_state_of z)) (k_next z) = Some 1"
    by (rule sample_run)
  obtain ctx s1 where sw: "switch_to (k_state_of z) 1 0 = (ctx, s1)" by fastforce
  have sf: "schedule_from (k_state_of z) (k_next z) 0 = Ok (1, ctx, s1)"
    using S(7) sw by (simp add: schedule_from_def)
  have "curr_task (k_state_of z) = scheduler_task (k_state_of z)"
    using S(5) reachable_ok(1) [OF S(1,4)] by (simp add: table_ok_def)
  then show ?thesis using exited_task_never_resumed [OF S(1,4) _ sf] sf by blast
qed

theorem runnable_task_runs_within_a_round_witness:
  "\<exists>(z :: kernel_sys) i r. state_of (k_state_of z) 1 = RUNNABLE \<and>
    schedule_from (k_state_of z) (k_next z) 0 = Ok (i, r)"
proof -
  obtain s s0 y z where S: "create_init_task 0xc0100100 (init_tasks s) = Ok s0"
    "kernel_run 0xc0100100 (started s0) [Dispatched 1] y" "curr_task (k_state_of y) = 1"
    "kernel_run 0xc0100100 (started s0) [Dispatched 1, Left] z" "curr_task (k_state_of z) = 0"
    "state_of (k_state_of z) 1 = RUNNABLE" "next_runnable MAX_TASKS (tasks (k_state_of z)) (k_next z) = Some 1"
    by (rule sample_run)
  have "(1 :: nat) \<noteq> scheduler_task (k_state_of z)" using reachable_ok(1) [OF S(1,4)] by (simp add: table_ok_def)
  then show ?thesis
    using runnable_task_runs_within_a_round [OF S(1,4) steps_nil, of 1 0] S(6) by (auto simp: MAX_TASKS_def)
qed

text \<open>Slots 2 and 3 are each other's parent and both asleep; task 1 runs.\<close>

definition deadlock_tasks :: "task_struct list" where
  "deadlock_tasks = boot_tasks[0 := zero_task\<lparr>t_state := RUNNABLE\<rparr>, 1 := zero_task\<lparr>t_state := RUNNING, t_pid := 1\<rparr>,
     2 := zero_task\<lparr>t_state := SLEEPING, t_pid := 2, t_parent := Some 3\<rparr>,
     3 := zero_task\<lparr>t_state := SLEEPING, t_pid := 3, t_parent := Some 2\<rparr>]"

theorem mutual_wait_never_ends_witness:
  "\<exists>(x :: kernel_sys) y. kernel_run 0xc0100100 x [Left] y \<and> curr_task (k_state_of x) = 1 \<and>
    state_of (k_state_of y) 2 = SLEEPING \<and> state_of (k_state_of y) 3 = SLEEPING"
proof -
  define s :: k_state where "s = sample_k sample_heap deadlock_tasks False\<lparr>curr_task := 1\<rparr>"
  define x where "x = \<lparr>k_state_of = s, k_next = 2, k_resume = \<lambda>_. Fresh\<rparr>"
  have tv: "tv s i = (if i = 0 then (RUNNABLE, None, 0) else if i = 1 then (RUNNING, None, 1)
      else if i = 2 then (SLEEPING, Some 3, 2) else if i = 3 then (SLEEPING, Some 2, 3) else (UNUSED, None, 0))"
    if "i < MAX_TASKS" for i
    using that by (auto simp: s_def tv_def deadlock_tasks_def nth_list_update zero_task_def MAX_TASKS_def)
  have ok: "table_ok (k_state_of x)" by (simp add: x_def s_def table_ok_def deadlock_tasks_def)
  have c: "curr_task (k_state_of x) = 1" by (simp add: x_def s_def)
  have l: "live_child (tv s) 2 3" "live_child (tv s) 3 2" by (simp_all add: live_child_def tv MAX_TASKS_def)
  have "v_inv (tv s) 1"
  proof (rule v_invI)
    fix i assume i: "i < MAX_TASKS" "v_state (tv s) i = SLEEPING"
    then have "i = 2 \<or> i = 3" using tv [OF i(1)] by (simp split: if_splits)
    then show "\<exists>k. live_child (tv s) i k" using l by blast
  next
    fix i p assume i: "i < MAX_TASKS" "v_parent (tv s) i = Some p"
    then show "p < MAX_TASKS \<and> p \<noteq> i \<and> v_state (tv s) i \<noteq> UNUSED"
      using tv [OF i(1)] by (auto simp: MAX_TASKS_def split: if_splits)
  qed (use tv in \<open>auto simp: MAX_TASKS_def split: if_splits\<close>)
  then have inv: "p_inv (proc_view x)" by (simp add: p_inv_iff x_def s_def MAX_TASKS_def)
  have m: "mutual_wait (tv (k_state_of x)) 2 3"
    unfolding mutual_wait_def by (auto simp: x_def tv MAX_TASKS_def split: if_splits)
  obtain y where y: "kernel_step 0xc0100100 x Left y"
    using timer_step [OF ok, of "0xc0100100"] c by (auto simp: MAX_TASKS_def)
  have "kernel_run 0xc0100100 x [Left] y" by (rule steps_one, rule y)
  then show ?thesis using mutual_wait_never_ends [OF ok inv m] c by blast
qed

end
