(* ===== verification/Fork.thy ===== *)
theory Fork
  imports Sched
begin

text \<open>
  What \<^verbatim>\<open>fork\<close> makes: a task whose kernel stack holds a copy of the caller's frame with 0 as the result,
  whose page 0 is a copy of the caller's, and whose files are the caller's.
\<close>

section \<open>The child's kernel stack\<close>

definition child_stack :: "u32 \<Rightarrow> mem \<Rightarrow> u32 \<Rightarrow> u32 \<Rightarrow> mem" where
  "child_stack site m stk regs =
     (let fr = stk + of_nat 4016;
          m = build_context site (build_int_frame m fr (load32 m (regs + eip_offset))) (stk + of_nat 3980);
          m = memcpy m fr regs sizeof_regs;
          m = store32 m (fr + esp_offset) (load32 m (regs + esp_offset))
      in store32 m (fr + eax_offset) 0)"

lemma store32_in_page:
  assumes "page_aligned p" and "k + 4 \<le> 4096"
  shows "changes_only {pgno p} m (store32 m (p + of_nat k) v)"
  unfolding changes_only_def
proof (intro allI impI)
  fix x assume "pgno x \<notin> {pgno p}"
  then have "x \<noteq> p + of_nat (k + n)" if "n < 4" for n
    using pgno_page_offset [OF assms(1), of "k + n"] assms(2) that by auto
  from this [of 0] this [of 1] this [of 2] this [of 3] show "store32 m (p + of_nat k) v x = m x"
    by (simp add: store32_def add_ac)
qed

lemma child_stack_fields:
  fixes m :: mem and stk r site :: u32
  defines "regs \<equiv> r + of_nat 4016" and "fr \<equiv> stk + of_nat 4016"
  defines "m' \<equiv> child_stack site m stk regs"
  assumes al: "page_aligned stk" "page_aligned r" and ne: "r \<noteq> stk"
  shows "load32 m' (stk + of_nat 3980 + sizeof_regs) = site"
    and "load32 m' (fr + eip_offset) = load32 m (regs + eip_offset)"
    and "load32 m' (fr + esp_offset) = load32 m (regs + esp_offset)"
    and "load16 m' (fr + cs_offset) = 0x23"
    and "load32 m' (fr + eflags_offset) = FL_IF"
    and "load32 m' (fr + eax_offset) = 0"
    and "j < 7 \<Longrightarrow> load32 m' (fr + of_nat (4 * j)) = load32 m (regs + of_nat (4 * j))"
    and "changes_only {pgno stk} m m'"
proof -
  let ?eip = "load32 m (regs + eip_offset)"
  define m2 where "m2 = build_context site (build_int_frame m fr ?eip) (stk + of_nat 3980)"
  define m3 where "m3 = memcpy m2 fr regs sizeof_regs"
  define m4 where "m4 = store32 m3 (fr + of_nat 68) (load32 m3 (regs + of_nat 68))"
  have m': "m' = store32 m4 (fr + of_nat 28) 0"
    by (simp add: m'_def child_stack_def m2_def m3_def m4_def fr_def Let_def esp_offset_def eax_offset_def)
  note K = kstack_frames [OF al(1), where m = m and site = site and start = ?eip, folded fr_def, folded m2_def]
  have ur: "unat regs = unat r + 4016" "unat fr = unat stk + 4016"
    unfolding regs_def fr_def by (rule unat_page_offset [OF al(2)] unat_page_offset [OF al(1)]; simp)+
  have top: "unat r + 4096 \<le> 4294967296" "unat stk + 4096 \<le> 4294967296"
    using page_aligned_le al by blast+
  have dis: "unat r + 4096 \<le> unat stk \<or> unat stk + 4096 \<le> unat r"
  proof -
    have "pgno r \<noteq> pgno stk" using ne al pgno_inject by blast
    then show ?thesis using al unfolding page_aligned_unat by linarith
  qed
  have m3: "m3 x = (if unat fr \<le> unat x \<and> unat x < unat fr + 32 then m2 (regs + of_nat (unat x - unat fr)) else m2 x)" for x
  proof -
    have sz: "unat sizeof_regs = 32" by (simp add: sizeof_regs_def)
    have "unat fr + 32 \<le> 4294967296" "unat regs + 32 \<le> 4294967296" "unat fr + 32 \<le> unat regs \<or> unat regs + 32 \<le> unat fr"
      using ur top dis by linarith+
    then show ?thesis unfolding m3_def using memcpy_apply [of fr sizeof_regs regs m2 x, unfolded sz] by blast
  qed
  have other: "m2 (regs + of_nat k) = m (regs + of_nat k)" if "k < 76" for k
  proof -
    have "pgno (r + of_nat (4016 + k)) = pgno r" using that by (intro pgno_page_offset [OF al(2)]) simp
    moreover have "pgno r \<noteq> pgno stk" using ne al pgno_inject by blast
    ultimately show ?thesis by (intro changes_onlyD [OF K(6)]) (simp add: regs_def add.assoc)
  qed
  have ufr: "unat (fr + of_nat k) = unat fr + k" if "k < 76" for k
    using ur top that by (intro unat_add_lt) simp
  have low: "m3 (fr + of_nat k) = m (regs + of_nat k)" if "k < 32" for k
    using that ufr [of k] other [of k] by (simp add: m3)
  have high: "m3 (fr + of_nat k) = m2 (fr + of_nat k)" if "32 \<le> k" "k < 76" for k
    using that ufr [of k] by (simp add: m3)
  have ureg: "unat (regs + of_nat k) = unat regs + k" if "k < 76" for k
    using ur top that by (intro unat_add_lt) simp
  have regs3: "m3 (regs + of_nat k) = m (regs + of_nat k)" if "k < 76" for k
  proof -
    have "\<not> (unat fr \<le> unat (regs + of_nat k) \<and> unat (regs + of_nat k) < unat fr + 32)"
      using ureg [OF that] ur dis that by linarith
    then show ?thesis using other [OF that] by (simp only: m3 if_False)
  qed
  have w: "load32 m3 (fr + of_nat (4 * j)) = load32 m (regs + of_nat (4 * j))" if "j < 8" for j
    using low [of "4 * j"] low [of "4 * j + 1"] low [of "4 * j + 2"] low [of "4 * j + 3"] that
    by (simp add: load32_def add_ac)
  have wh: "load32 m3 (fr + of_nat k) = load32 m2 (fr + of_nat k)" "load16 m3 (fr + of_nat k) = load16 m2 (fr + of_nat k)"
    if "32 \<le> k" "k + 4 \<le> 76" for k
    using high [of k] high [of "k + 1"] high [of "k + 2"] high [of "k + 3"] that
    by (simp_all add: load32_def load16_def add_ac)
  have wr: "load32 m3 (regs + of_nat 68) = load32 m (regs + of_nat 68)"
    using regs3 [of 68] regs3 [of 69] regs3 [of 70] regs3 [of 71] by (simp add: load32_def add_ac)
  have L: "load32 m' (fr + of_nat k) = load32 m3 (fr + of_nat k)" "load16 m' (fr + of_nat k) = load16 m3 (fr + of_nat k)"
    if "k + 4 \<le> 28 \<or> 32 \<le> k" "k + 4 \<le> 68 \<or> 72 \<le> k" "k + 4 \<le> 76" for k
  proof -
    have "apart (fr + of_nat k) n (fr + of_nat 28) 4" "apart (fr + of_nat k) n (fr + of_nat 68) 4" if "n \<le> 4" for n
      by (rule apart_offsets; use that \<open>k + 4 \<le> 28 \<or> 32 \<le> k\<close> \<open>k + 4 \<le> 68 \<or> 72 \<le> k\<close> \<open>k + 4 \<le> 76\<close> in auto)+
    from this [of 4] this [of 2] show "load32 m' (fr + of_nat k) = load32 m3 (fr + of_nat k)"
      "load16 m' (fr + of_nat k) = load16 m3 (fr + of_nat k)"
      unfolding m' m4_def by (simp_all only: load_store_apart order_refl)
  qed
  show "load32 m' (fr + eip_offset) = load32 m (regs + eip_offset)"
    using L(1) [of 56] wh(1) [of 56] K(2) by (simp add: eip_offset_def)
  show "load16 m' (fr + cs_offset) = 0x23"
    using L(2) [of 60] wh(2) [of 60] K(3) by (simp add: cs_offset_def)
  show "load32 m' (fr + eflags_offset) = FL_IF"
    using L(1) [of 64] wh(1) [of 64] K(4) by (simp add: eflags_offset_def)
  show "load32 m' (fr + eax_offset) = 0" unfolding m' by (simp add: eax_offset_def)
  have "apart (fr + of_nat 68) 4 (fr + of_nat 28) 4" by (rule apart_offsets) auto
  then show "load32 m' (fr + esp_offset) = load32 m (regs + esp_offset)"
    unfolding m' m4_def using wr by (simp add: esp_offset_def load_store_apart)
  show "load32 m' (fr + of_nat (4 * j)) = load32 m (regs + of_nat (4 * j))" if "j < 7"
    using L(1) [of "4 * j"] w [of j] that by simp
  have ch3: "changes_only {pgno stk} m2 m3"
    unfolding changes_only_def
  proof (intro allI impI)
    fix x assume "pgno x \<notin> {pgno stk}"
    then have "unat x < unat stk \<or> unat stk + 4096 \<le> unat x"
      using al(1) pgno_eqI [of "pgno stk" x] unfolding page_aligned_unat by fastforce
    then show "m3 x = m2 x" using ur by (auto simp: m3)
  qed
  have st: "changes_only {pgno stk} a (store32 a (fr + of_nat k) v)" if "k + 4 \<le> 80" for a k v
    using store32_in_page [OF al(1), of "4016 + k" a v] that by (simp add: fr_def add.assoc)
  have "changes_only {pgno stk} m m3" by (rule changes_only_trans [OF K(6) ch3]) simp_all
  then have "changes_only {pgno stk} m m4" unfolding m4_def by (rule changes_only_trans [OF _ st]) simp_all
  then show "changes_only {pgno stk} m m'" unfolding m' by (rule changes_only_trans [OF _ st]) simp_all
  have "m' (stk + of_nat 3980 + of_nat k) = m2 (stk + of_nat 3980 + of_nat k)" if "k < 36" for k
  proof -
    have u: "unat (stk + of_nat (3980 + k)) = unat stk + (3980 + k)"
      using that by (intro unat_page_offset [OF al(1)]) simp
    then have "m3 (stk + of_nat (3980 + k)) = m2 (stk + of_nat (3980 + k))" using ur that by (simp add: m3)
    moreover have "apart (stk + of_nat (3980 + k)) 1 (stk + of_nat 4044) 4" "apart (stk + of_nat (3980 + k)) 1 (stk + of_nat 4084) 4"
      by (rule apart_offsets; use that in auto)+
    ultimately show ?thesis
      unfolding m' m4_def fr_def by (simp add: store_apart add.assoc)
  qed
  from this [of 32] this [of 33] this [of 34] this [of 35]
  show "load32 m' (stk + of_nat 3980 + sizeof_regs) = site"
    using K(1) by (simp add: load32_def sizeof_regs_def add.assoc)
qed

section \<open>The child's address space\<close>

lemma aspace_frame:
  assumes ok: "aspace_ok s pd ps" and ch: "changes_only P (mem s) (mem s')" and f: "free_pages s' = free_pages s"
    and P: "P \<inter> pgno ` set ps = {}" "P \<inter> pgno ` tables (mem s) pd = {}"
  shows "aspace_ok s' pd ps" and "tables (mem s') pd = tables (mem s) pd" and "free_slots pd s' = free_slots pd s"
proof -
  note D = aspace_okD [OF ok]
  show tb: "tables (mem s') pd = tables (mem s) pd" by (rule pgdir_frame_tables [OF D(2) ch P(2)])
  have "kheap s' ps" using D(1) free_list_frame [OF _ ch P(1)] f by (simp add: kheap_def)
  then show "aspace_ok s' pd ps"
    using pgdir_frame_ok [OF D(2) ch P(2)] tb ok by (simp add: aspace_ok_def)
  show "free_slots pd s' = free_slots pd s"
    using pgdir_frame_pd [OF D(2) ch P(2)] by (auto simp: free_slots_def ptab_def)
qed

text \<open>The bytes of the caller's page 0 as the kernel reads them for the copy.\<close>

lemma user_page_source:
  assumes ok: "task_ok s c" and cr: "curr_pgdir s = t_pgdir (tasks s ! c)"
    and u: "page_aligned u" "u \<notin> owned s c"
  shows "source_bytes s (u + of_nat (page_off 0)) 0 (map (\<lambda>k. mem s (user_page s c + of_nat k)) [0..<4096])"
    and "k < 4096 \<Longrightarrow> \<exists>x. translate (mem s) (curr_pgdir s) (of_nat k) = Some x \<and>
      PHYS_TO_VIRT (xl_paddr x) = user_page s c + of_nat k"
proof -
  let ?pd = "t_pgdir (tasks s ! c)"
  have pok: "pgdir_ok (mem s) ?pd" using ok by (simp add: task_ok_def)
  obtain e where e: "page_entry (mem s) ?pd 0 = Some e" using ok by (auto simp: task_ok_def)
  have up: "user_page s c = PHYS_TO_VIRT (frame e)" by (simp add: user_page_def e)
  have z: "page_off 0 + k < 4096 \<longleftrightarrow> k < 4096" for k by (simp add: page_off_def)
  have tr: "\<exists>x. translate (mem s) (curr_pgdir s) (of_nat k) = Some x \<and>
      PHYS_TO_VIRT (xl_paddr x) = user_page s c + of_nat k" if "k < 4096" for k
  proof -
    have "pgno (of_nat k :: u32) = 0" "(of_nat k :: u32) AND 0xfff = of_nat k"
      using same_page_offset [of 0 k] that by (simp_all add: page_off_def pgno_def)
    then show ?thesis
      using e by (simp add: cr translate_page_entry [OF pok] up PHYS_TO_VIRT_def add_ac)
  qed
  then show "k < 4096 \<Longrightarrow> \<exists>x. translate (mem s) (curr_pgdir s) (of_nat k) = Some x \<and>
      PHYS_TO_VIRT (xl_paddr x) = user_page s c + of_nat k" .
  have al: "page_aligned (user_page s c)" by (rule owned_aligned [OF ok]) (simp add: owned_def)
  have inj: "pgno p \<noteq> pgno u" if "p \<in> owned s c" for p
    using that u owned_aligned [OF ok that] pgno_inject by metis
  show "source_bytes s (u + of_nat (page_off 0)) 0 (map (\<lambda>k. mem s (user_page s c + of_nat k)) [0..<4096])"
  proof (rule source_bytes_user)
    show "pgdir_ok (mem s) (curr_pgdir s)" using pok cr by simp
    show "pgno u \<notin> pgno ` tables (mem s) (curr_pgdir s)"
      unfolding cr using inj tables_owned [of s c] by fastforce
    fix k assume k: "k < length (map (\<lambda>k. mem s (user_page s c + of_nat k)) [0..<4096])"
    then obtain x where x: "translate (mem s) (curr_pgdir s) (of_nat k) = Some x"
        "PHYS_TO_VIRT (xl_paddr x) = user_page s c + of_nat k"
      using tr [of k] by auto
    have "unat (of_nat k :: u32) = k" using k unat_add_lt [of 0 k] by simp
    then have "(of_nat k :: u32) < KERN_BASE" using k by (simp add: word_less_nat_alt KERN_BASE_def)
    moreover have "pgno (user_page s c + of_nat k) \<noteq> pgno u"
      using pgno_page_offset [OF al, of k] k inj [of "user_page s c"] by (simp add: owned_def)
    ultimately show "0 + of_nat k < KERN_BASE \<and> (\<exists>x. translate (mem s) (curr_pgdir s) (0 + of_nat k) = Some x \<and>
        mem s (PHYS_TO_VIRT (xl_paddr x)) = map (\<lambda>k. mem s (user_page s c + of_nat k)) [0..<4096] ! k \<and>
        pgno (PHYS_TO_VIRT (xl_paddr x)) \<noteq> pgno u)"
      using x k by simp
  qed (use u in \<open>simp_all add: page_off_def\<close>)
qed

section \<open>fork\<close>

text \<open>The part of \<^verbatim>\<open>sys_fork\<close> between the allocation of the task and that of its page.\<close>

lemma fork_run:
  assumes al: "alloc_task s = Ok (Some i, s1)" and i: "i < length (tasks s1)"
    and fr: "KSTACK_TOP (t_kstack (tasks s1 ! i)) - sizeof_int_regs = stk + of_nat 4016"
    and s2: "s2 = upd_task (s1\<lparr>mem := child_stack site (mem s1) stk regs\<rparr>) i (\<lambda>t. t\<lparr>t_context := stk + of_nat 3980\<rparr>)"
    and am: "alloc_map_memory s2 (t_pgdir (tasks s1 ! i)) 0 PGSIZE (PTE_RW OR PTE_US) = Ok s3"
    and t3: "tasks s3 = tasks s2"
    and cp: "memcpy_to_another_space s3 (t_pgdir (tasks s1 ! i)) 0 0 PGSIZE = Ok s4"
    and t4: "tasks s4 = tasks s3" "curr_task s4 = curr_task s"
  shows "\<exists>s'. sys_fork site s regs = Ok (word_of_int (t_pid (tasks s1 ! i)), s') \<and> mem s' = mem s4 \<and>
    free_pages s' = free_pages s4 \<and>
    tasks s' = (tasks s1)[i := (tasks s1 ! i)\<lparr>t_context := stk + of_nat 3980,
      t_open_files := t_open_files (tasks s2 ! curr_task s), t_state := RUNNABLE, t_parent := Some (curr_task s)\<rparr>]"
proof -
  let ?cf = "stk + of_nat 4016"
  let ?a = "s1\<lparr>mem := build_int_frame (mem s1) ?cf (load32 (mem s1) (regs + eip_offset))\<rparr>"
  let ?b = "?a\<lparr>mem := build_context site (mem ?a) (stk + of_nat 3980)\<rparr>"
  let ?c = "upd_task ?b i (\<lambda>t. t\<lparr>t_context := stk + of_nat 3980\<rparr>)"
  let ?d = "?c\<lparr>mem := memcpy (mem ?c) ?cf regs sizeof_regs\<rparr>"
  let ?e = "?d\<lparr>mem := store32 (mem ?d) (?cf + esp_offset) (load32 (mem ?d) (regs + esp_offset))\<rparr>"
  let ?f = "?e\<lparr>mem := store32 (mem ?e) (?cf + eax_offset) 0\<rparr>"
  let ?g = "upd_task s4 i (\<lambda>t. t\<lparr>t_open_files := open_files s4\<rparr>)"
  let ?h = "upd_task ?g i (\<lambda>t. t\<lparr>t_state := RUNNABLE\<rparr>)"
  let ?s = "upd_task ?h i (\<lambda>t. t\<lparr>t_parent := Some (curr_task ?h)\<rparr>)"
  have f: "?f = s2" by (simp add: s2 upd_task_def child_stack_def Let_def)
  have pg: "t_pgdir (tasks s2 ! i) = t_pgdir (tasks s1 ! i)" using i by (simp add: s2)
  have "sys_fork site s regs = bnd (alloc_map_memory ?f (t_pgdir (tasks ?f ! i)) 0 PGSIZE (PTE_RW OR PTE_US)) (\<lambda>s.
      bnd (memcpy_to_another_space s (t_pgdir (tasks s ! i)) 0 0 PGSIZE) (\<lambda>s.
      let s = upd_task s i (\<lambda>t. t\<lparr>t_open_files := open_files s\<rparr>);
          s = upd_task s i (\<lambda>t. t\<lparr>t_state := RUNNABLE\<rparr>);
          s = upd_task s i (\<lambda>t. t\<lparr>t_parent := Some (curr_task s)\<rparr>)
      in Ok (word_of_int (t_pid (tasks s ! i)), s)))"
    unfolding sys_fork_def al bnd.simps prod.case option.case Let_def fr kstack_addresses(2) ..
  also have "\<dots> = Ok (word_of_int (t_pid (tasks ?s ! i)), ?s)"
    unfolding f pg am bnd.simps t3 pg cp by (simp add: Let_def)
  finally have run: "sys_fork site s regs = Ok (word_of_int (t_pid (tasks ?s ! i)), ?s)" .
  have i4: "i < length (tasks s4)" "tasks s4 = tasks s2" "tasks s2 = (tasks s1)[i := (tasks s1 ! i)\<lparr>t_context := stk + of_nat 3980\<rparr>]"
    using i t3 t4 by (simp_all add: s2)
  have "tasks ?s = (tasks s1)[i := (tasks s1 ! i)\<lparr>t_context := stk + of_nat 3980,
      t_open_files := t_open_files (tasks s2 ! curr_task s), t_state := RUNNABLE, t_parent := Some (curr_task s)\<rparr>]"
    using i i4 t4 by simp
  moreover have "t_pid (tasks ?s ! i) = t_pid (tasks s1 ! i)" using i i4 by simp
  ultimately show ?thesis using run by (intro exI [of _ ?s]) simp
qed

text \<open>What the steps of \<^verbatim>\<open>fork\<close> find on a heap with the pages \<open>stk # pd # ps\<close>.\<close>

lemma fork_pages:
  assumes h: "kheap s (stk # pd # ps)" and u: "drop kernel_tables ps = u # us"
    and ok: "task_ok s c" and ap: "owned s c \<inter> set (stk # pd # ps) = {}"
  defines "T \<equiv> insert pd (set (take kernel_tables ps))"
  shows "page_aligned stk" "page_aligned u" "NULL \<notin> T" "stk \<notin> T" "u \<notin> insert stk T" "stk \<notin> set (u # us)" "u \<notin> set us"
    and "p \<in> T \<or> p \<in> set us \<Longrightarrow> page_aligned p"
    and "p \<in> owned s c \<Longrightarrow> q \<in> insert u (insert stk T) \<Longrightarrow> pgno p \<noteq> pgno q"
proof -
  have d: "distinct (stk # pd # take kernel_tables ps @ u # us)"
    using kheap_distinct [OF h] append_take_drop_id [of kernel_tables ps] u by simp
  have all: "set (stk # pd # take kernel_tables ps @ u # us) = set (stk # pd # ps)"
    using append_take_drop_id [of kernel_tables ps] u by (metis list.simps(15) set_append)
  have pg: "x \<noteq> NULL \<and> page_aligned x" if "x \<in> set (stk # pd # take kernel_tables ps @ u # us)" for x
    using that unfolding all by (rule kheap_page [OF h])
  show "page_aligned stk" "page_aligned u" "NULL \<notin> T" using pg by (auto simp: T_def)
  show "stk \<notin> T" "u \<notin> insert stk T" "stk \<notin> set (u # us)" "u \<notin> set us" using d by (auto simp: T_def)
  show "page_aligned p" if "p \<in> T \<or> p \<in> set us" using that pg by (auto simp: T_def)
  show "pgno p \<noteq> pgno q" if "p \<in> owned s c" "q \<in> insert u (insert stk T)"
  proof -
    have q: "q \<in> set (stk # pd # take kernel_tables ps @ u # us)" using that(2) by (auto simp: T_def)
    then have "p \<noteq> q" using that(1) ap unfolding all by blast
    then show ?thesis using owned_aligned [OF ok that(1)] pg [OF q] pgno_inject by blast
  qed
qed

text \<open>Up to the allocation of the page: the caller's pages are as they were, and the stack is the child's.\<close>

lemma fork_prepared:
  assumes h: "kheap s (stk # pd # ps)" and u: "drop kernel_tables ps = u # us"
    and i: "unused_task (tasks s) 0 = Some i" and c: "task_ok s c" "owned s c \<inter> set (stk # pd # ps) = {}"
    and r: "r = t_kstack (tasks s ! c)"
  defines "T \<equiv> insert pd (set (take kernel_tables ps))"
  obtains s1 s2 s3 where "alloc_task s = Ok (Some i, s1)"
    "tasks s1 = (tasks s)[i := (tasks s ! i)\<lparr>t_pid := int i, t_kstack := stk, t_pgdir := pd\<rparr>]" "curr_task s1 = curr_task s"
    "s2 = upd_task (s1\<lparr>mem := child_stack site (mem s1) stk (r + of_nat 4016)\<rparr>) i (\<lambda>t. t\<lparr>t_context := stk + of_nat 3980\<rparr>)"
    "alloc_map_memory s2 pd 0 PGSIZE (PTE_RW OR PTE_US) = Ok s3" "aspace_ok s3 pd us" "tables (mem s3) pd = T"
    "page_entry (mem s3) pd 0 = Some (VIRT_TO_PHYS u OR PTE_P OR (PTE_RW OR PTE_US))"
    "changes_only (pgno ` insert stk T) (mem s) (mem s3)" "cr3 s3 = cr3 s" "tasks s3 = tasks s2" "curr_task s3 = curr_task s"
    "page_bytes_eq stk (child_stack site (mem s1) stk (r + of_nat 4016)) (mem s3)" "page_bytes_eq r (mem s) (mem s1)"
proof -
  note G = fork_pages [OF h u c, folded T_def]
  have len: "kernel_tables \<le> length ps" using u by (metis drop_all linear list.distinct(1))
  obtain s1 where s1: "alloc_task s = Ok (Some i, s1)" "aspace_ok s1 pd (u # us)" "tables (mem s1) pd = T"
      "free_slots pd s1 = {..<1024} - ({0} \<union> {768..<1024})" "changes_only (pgno ` T) (mem s) (mem s1)" "cr3 s1 = cr3 s"
      "tasks s1 = (tasks s)[i := (tasks s ! i)\<lparr>t_pid := int i, t_kstack := stk, t_pgdir := pd\<rparr>]"
      "curr_task s1 = curr_task s"
    using alloc_task_spec [OF h len i] unfolding u T_def by auto
  have rp: "page_aligned r" "r \<in> owned s c" using c(1) by (auto simp: r task_ok_def owned_def)
  have rs: "r \<noteq> stk" using G(9) [OF rp(2), of stk] by auto
  note C = child_stack_fields(8) [OF G(1) rp(1) rs, where site = site and m = "mem s1"]
  define s2 where "s2 = upd_task (s1\<lparr>mem := child_stack site (mem s1) stk (r + of_nat 4016)\<rparr>) i (\<lambda>t. t\<lparr>t_context := stk + of_nat 3980\<rparr>)"
  have sep: "pgno stk \<notin> pgno ` T" "pgno stk \<notin> pgno ` set (u # us)" "pgno r \<notin> pgno ` T"
    using G pgno_inject [OF G(1)] G(9) [OF rp(2)] by force+
  have A2: "aspace_ok s2 pd (u # us)" "tables (mem s2) pd = T" "free_slots pd s2 = free_slots pd s1"
    using aspace_frame [OF s1(2), of "{pgno stk}" s2] C sep s1(3) by (simp_all add: s2_def)
  have "0 \<notin> free_slots pd s2" using s1(4) A2(3) by simp
  then obtain s3 where s3: "alloc_map_memory s2 pd 0 PGSIZE (PTE_RW OR PTE_US) = Ok s3" "aspace_ok s3 pd us" "tables (mem s3) pd = T"
      "page_entry (mem s3) pd 0 = Some (VIRT_TO_PHYS u OR PTE_P OR (PTE_RW OR PTE_US))" "grows pd s2 s3"
    using alloc_user_page [OF A2(1)] A2(2) by auto
  have g: "changes_only (pgno ` T) (mem s2) (mem s3)" "cr3 s3 = cr3 s" "mstate.more s3 = mstate.more s2"
    using s3(3,5) A2(2) s1(6) by (simp_all add: grows_def s2_def)
  have "changes_only (pgno ` insert stk T) (mem s) (mem s2)"
    by (rule changes_only_trans [OF s1(5), of "{pgno stk}"]) (use C in \<open>auto simp: s2_def\<close>)
  then have ch: "changes_only (pgno ` insert stk T) (mem s) (mem s3)" by (rule changes_only_trans [OF _ g(1)]) auto
  have "page_bytes_eq stk (child_stack site (mem s1) stk (r + of_nat 4016)) (mem s3)"
    using page_bytes_eq_changes [OF G(1) g(1) sep(1)] by (simp add: s2_def)
  moreover have "page_bytes_eq r (mem s) (mem s1)" by (rule page_bytes_eq_changes [OF rp(1) s1(5) sep(3)])
  moreover have "tasks s3 = tasks s2" "curr_task s3 = curr_task s" using k_more [OF g(3)] s1(8) by (simp_all add: s2_def)
  ultimately show thesis using that [OF s1(1,7,8) s2_def s3(1-4) ch g(2)] by blast
qed

text \<open>The copy of the page: the caller's page is read through the caller's directory, which is loaded.\<close>

lemma fork_copy:
  assumes c: "task_ok s c" "curr_pgdir s = t_pgdir (tasks s ! c)"
    and ch: "changes_only P (mem s) (mem s3)" "P \<inter> pgno ` owned s c = {}" and t: "tasks s3 ! c = tasks s ! c" "cr3 s3 = cr3 s"
    and A: "aspace_ok s3 pd us" "NULL \<notin> tables (mem s3) pd"
      "page_entry (mem s3) pd 0 = Some (VIRT_TO_PHYS u OR PTE_P OR (PTE_RW OR PTE_US))"
    and u: "page_aligned u" "KERN_BASE \<le> u" "u \<notin> owned s c"
  obtains bs where "memcpy_to_another_space s3 pd 0 0 PGSIZE = Ok (s3\<lparr>mem := put_bytes (mem s3) u bs\<rparr>)" "length bs = 4096"
    "\<And>k. k < 4096 \<Longrightarrow> bs ! k = mem s (user_page s c + of_nat k)"
proof -
  note K3 = task_ok_frame [OF c(1) ch t(1)]
  have cr: "curr_pgdir s3 = t_pgdir (tasks s3 ! c)" using t c(2) by (simp add: curr_pgdir_def)
  have "pgdir_ok (mem s) (t_pgdir (tasks s ! c))" using c(1) by (simp add: task_ok_def)
  then have "page_entry (mem s3) (t_pgdir (tasks s ! c)) 0 = page_entry (mem s) (t_pgdir (tasks s ! c)) 0"
    by (rule pgdir_frame_entry [OF _ ch(1)]) (use ch(2) tables_owned [of s c] in \<open>auto 0 3\<close>)
  then have up: "user_page s3 c = user_page s c" by (simp add: user_page_def t(1))
  have uo: "u \<notin> owned s3 c" unfolding K3(2) by (rule u(3))
  define bs where "bs = map (\<lambda>k. mem s3 (user_page s c + of_nat k)) [0..<4096]"
  note S = user_page_source(1) [OF K3(1) cr u(1) uo, unfolded up, folded bs_def]
  have bl: "length bs = 4096" by (simp add: bs_def)
  have e: "page_entry (mem s3) pd (pgno 0) = Some (VIRT_TO_PHYS u OR PTE_P OR (PTE_RW OR PTE_US))"
    using A(3) by (simp add: pgno_def)
  have cp: "memcpy_to_another_space s3 pd 0 0 PGSIZE = Ok (s3\<lparr>mem := put_bytes (mem s3) (u + of_nat (page_off 0)) bs\<rparr>)"
    by (rule memcpy_to_another_space_one_page [OF aspace_okD(2) [OF A(1)] A(2) e user_page_entry [OF u(1), symmetric] u(2) _ _ _ S])
      (use bl in \<open>auto simp: PGSIZE_def page_off_def\<close>)
  have upo: "user_page s c \<in> owned s c" by (simp add: owned_def)
  have "mem s3 (user_page s c + of_nat k) = mem s (user_page s c + of_nat k)" if "k < 4096" for k
    by (rule changes_onlyD [OF ch(1)]) (use ch(2) upo pgno_page_offset [OF owned_aligned [OF c(1) upo] that] in auto)
  then have "bs ! k = mem s (user_page s c + of_nat k)" if "k < 4096" for k using that by (simp add: bs_def)
  then show thesis using that cp bl by (simp add: page_off_def)
qed

text \<open>A user page at address 0, as the processor translates it.\<close>

lemma user_page_translate:
  assumes ok: "pgdir_ok m pd" and u: "page_aligned u"
    and e: "page_entry m pd 0 = Some (VIRT_TO_PHYS u OR PTE_P OR (PTE_RW OR PTE_US))" and k: "k < 4096"
  shows "\<exists>y. translate m pd (of_nat k) = Some y \<and> xl_user y \<and> xl_write y \<and> PHYS_TO_VIRT (xl_paddr y) = u + of_nat k"
proof -
  have O: "pgno (of_nat k :: u32) = 0" "(of_nat k :: u32) AND 0xfff = of_nat k"
    using same_page_offset [of 0 k] k by (simp_all add: pgno_def page_off_def)
  have "PHYS_TO_VIRT (frame (VIRT_TO_PHYS u OR PTE_P OR (PTE_RW OR PTE_US)) + of_nat k) = u + of_nat k"
    using user_page_entry [OF u] by (simp add: PHYS_TO_VIRT_def add_ac)
  moreover have "(VIRT_TO_PHYS u OR PTE_P OR (PTE_RW OR PTE_US)) AND PTE_US = PTE_US"
      "(VIRT_TO_PHYS u OR PTE_P OR (PTE_RW OR PTE_US)) AND PTE_RW = PTE_RW"
    by (rule bit_word_eqI; auto simp: bit_simps)+
  ultimately show ?thesis using e O by (simp add: translate_page_entry [OF ok] entry_bits)
qed

text \<open>The frame in the final memory.\<close>

lemma child_frame_kept:
  assumes al: "page_aligned stk" "page_aligned r" "r \<noteq> stk"
    and B: "page_bytes_eq stk (child_stack site m1 stk (r + of_nat 4016)) m'" and R: "page_bytes_eq r m m1"
  defines "regs \<equiv> r + of_nat 4016" and "fr \<equiv> stk + of_nat 4016"
  shows "load32 m' (stk + of_nat 3980 + sizeof_regs) = site" "load32 m' (fr + eax_offset) = 0"
    "\<forall>j < 7. load32 m' (fr + of_nat (4 * j)) = load32 m (regs + of_nat (4 * j))"
    "load32 m' (fr + eip_offset) = load32 m (regs + eip_offset)" "load32 m' (fr + esp_offset) = load32 m (regs + esp_offset)"
    "load16 m' (fr + cs_offset) = 0x23" "load32 m' (fr + eflags_offset) = FL_IF"
proof -
  let ?m2 = "child_stack site m1 stk regs"
  note C = child_stack_fields [OF al, where site = site and m = m1, folded regs_def fr_def]
  have w: "load32 m' (fr + of_nat k) = load32 ?m2 (fr + of_nat k)" "load16 m' (fr + of_nat k) = load16 ?m2 (fr + of_nat k)"
      "load32 m1 (regs + of_nat k) = load32 m (regs + of_nat k)" if "k + 4 \<le> 80" for k
    using page_bytes_load [OF B, of "4016 + k"] page_bytes_load(1) [OF R, of "4016 + k"] that
    by (simp_all add: regs_def fr_def add.assoc)
  show "load32 m' (stk + of_nat 3980 + sizeof_regs) = site"
  proof -
    have "stk + of_nat 3980 + sizeof_regs = stk + of_nat 4012" by (simp add: sizeof_regs_def)
    moreover have "load32 m' (stk + of_nat 4012) = load32 ?m2 (stk + of_nat 4012)"
      unfolding regs_def by (rule page_bytes_load(1) [OF B]) simp
    ultimately show ?thesis using C(1) by (simp only:)
  qed
  have "load32 m' (fr + of_nat (4 * j)) = load32 m (regs + of_nat (4 * j))" if "j < 7" for j
    using C(7) [OF that] w(1,3) [of "4 * j"] that by (simp only:)
  then show "\<forall>j < 7. load32 m' (fr + of_nat (4 * j)) = load32 m (regs + of_nat (4 * j))" by blast
  show "load32 m' (fr + eax_offset) = 0" "load32 m' (fr + eip_offset) = load32 m (regs + eip_offset)"
    "load32 m' (fr + esp_offset) = load32 m (regs + esp_offset)"
    "load16 m' (fr + cs_offset) = 0x23" "load32 m' (fr + eflags_offset) = FL_IF"
    using C(2-6) w [of 28] w [of 56] w [of 68] w [of 60] w [of 64]
    by (simp_all add: eax_offset_def eip_offset_def esp_offset_def cs_offset_def eflags_offset_def)
qed

section \<open>Properties\<close>

text \<open>
  Property C6: \<^verbatim>\<open>fork\<close> of a task whose memory is whole returns the child's pid and makes the first unused
  slot a RUNNABLE child of the caller with the caller's files: when it is dispatched its context
  returns to \<^verbatim>\<open>ret_to_int_site\<close> with a frame that enters user mode at the caller's program counter and
  stack pointer, with the caller's registers and 0 in \<^verbatim>\<open>eax\<close>, and every byte of its page 0 is that of the
  caller's, in a page of its own.
\<close>

theorem fork_copies_caller:
  assumes h: "kheap s (stk # pd # ps)" and u: "drop kernel_tables ps = u # us" "KERN_BASE \<le> u"
    and i: "unused_task (tasks s) 0 = Some i"
    and c: "c = curr_task s" "c < length (tasks s)" "state_of s c \<noteq> UNUSED" "task_ok s c"
      "curr_pgdir s = t_pgdir (tasks s ! c)" "owned s c \<inter> set (stk # pd # ps) = {}"
    and regs: "regs = KSTACK_TOP (t_kstack (tasks s ! c)) - sizeof_int_regs"
  shows "\<exists>s' ctx fr. sys_fork site s regs = Ok (of_nat i, s') \<and> kheap s' us \<and>
    tasks s' = (tasks s)[i := (tasks s ! i)\<lparr>t_pid := int i, t_kstack := stk, t_pgdir := pd, t_context := ctx,
      t_open_files := t_open_files (tasks s ! c), t_state := RUNNABLE, t_parent := Some c\<rparr>] \<and>
    load32 (mem s') (ctx + sizeof_regs) = site \<and> fr = ctx + sizeof_context \<and> fr + sizeof_int_regs = KSTACK_TOP stk \<and>
    load32 (mem s') (fr + eax_offset) = 0 \<and>
    (\<forall>j < 7. load32 (mem s') (fr + of_nat (4 * j)) = load32 (mem s) (regs + of_nat (4 * j))) \<and>
    load32 (mem s') (fr + eip_offset) = load32 (mem s) (regs + eip_offset) \<and>
    load32 (mem s') (fr + esp_offset) = load32 (mem s) (regs + esp_offset) \<and>
    load16 (mem s') (fr + cs_offset) = 0x23 \<and> load32 (mem s') (fr + eflags_offset) = FL_IF \<and>
    (\<forall>k < 4096. \<exists>x y. translate (mem s) (curr_pgdir s) (of_nat k) = Some x \<and>
      translate (mem s') pd (of_nat k) = Some y \<and> xl_user y \<and> xl_write y \<and> 
      pgno (PHYS_TO_VIRT (xl_paddr x)) \<noteq> pgno (PHYS_TO_VIRT (xl_paddr y)) \<and>
      mem s' (PHYS_TO_VIRT (xl_paddr y)) = mem s (PHYS_TO_VIRT (xl_paddr x)))"
proof -
  define r where "r = t_kstack (tasks s ! c)"
  define T where "T = insert pd (set (take kernel_tables ps))"
  note G = fork_pages [OF h u(1) c(4,6), folded T_def]
  have ic: "i \<noteq> c" "i < length (tasks s)" using unused_task_spec [OF i] c(3) by auto
  have rp: "page_aligned r" "r \<in> owned s c" using c(4) by (auto simp: r_def task_ok_def owned_def)
  have rs: "r \<noteq> stk" using G(9) [OF rp(2), of stk] by auto
  have regs': "regs = r + of_nat 4016" unfolding regs r_def kstack_addresses(1) ..
  obtain s1 s2 s3 where F: "alloc_task s = Ok (Some i, s1)"
    "tasks s1 = (tasks s)[i := (tasks s ! i)\<lparr>t_pid := int i, t_kstack := stk, t_pgdir := pd\<rparr>]" "curr_task s1 = curr_task s"
    "s2 = upd_task (s1\<lparr>mem := child_stack site (mem s1) stk (r + of_nat 4016)\<rparr>) i (\<lambda>t. t\<lparr>t_context := stk + of_nat 3980\<rparr>)"
    "alloc_map_memory s2 pd 0 PGSIZE (PTE_RW OR PTE_US) = Ok s3" "aspace_ok s3 pd us" "tables (mem s3) pd = T"
    "page_entry (mem s3) pd 0 = Some (VIRT_TO_PHYS u OR PTE_P OR (PTE_RW OR PTE_US))"
    "changes_only (pgno ` insert stk T) (mem s) (mem s3)" "cr3 s3 = cr3 s" "tasks s3 = tasks s2" "curr_task s3 = curr_task s"
    "page_bytes_eq stk (child_stack site (mem s1) stk (r + of_nat 4016)) (mem s3)" "page_bytes_eq r (mem s) (mem s1)"
    by (rule fork_prepared [OF h u(1) i c(4,6) r_def, folded T_def, where site = site])
  have P: "pgno ` insert stk T \<inter> pgno ` owned s c = {}" using G(9) by fastforce
  have tc: "tasks s3 ! c = tasks s ! c" using F(2,4,11) ic by simp
  have uo: "u \<notin> owned s c" using G(9) [of u u] by auto
  have nn: "NULL \<notin> tables (mem s3) pd" using F(7) G(3) by simp
  obtain bs where bs: "memcpy_to_another_space s3 pd 0 0 PGSIZE = Ok (s3\<lparr>mem := put_bytes (mem s3) u bs\<rparr>)" "length bs = 4096"
      "\<And>k. k < 4096 \<Longrightarrow> bs ! k = mem s (user_page s c + of_nat k)"
    by (rule fork_copy [OF c(4,5) F(9) P tc F(10,6) nn F(8) G(2) u(2) uo]) blast
  let ?m4 = "put_bytes (mem s3) u bs"
  have ch4: "changes_only {pgno u} (mem s3) ?m4" using put_bytes_page [OF G(2), of 0 bs "mem s3"] bs(2) by (simp add: page_off_def)
  have i1: "i < length (tasks s1)" "t_pgdir (tasks s1 ! i) = pd" "t_kstack (tasks s1 ! i) = stk" "t_pid (tasks s1 ! i) = int i"
    using ic F(2) by simp_all
  have "\<exists>s'. sys_fork site s regs = Ok (word_of_int (t_pid (tasks s1 ! i)), s') \<and> mem s' = mem (s3\<lparr>mem := ?m4\<rparr>) \<and>
      free_pages s' = free_pages (s3\<lparr>mem := ?m4\<rparr>) \<and>
      tasks s' = (tasks s1)[i := (tasks s1 ! i)\<lparr>t_context := stk + of_nat 3980,
        t_open_files := t_open_files (tasks s2 ! curr_task s), t_state := RUNNABLE, t_parent := Some (curr_task s)\<rparr>]"
    by (rule fork_run [OF F(1) i1(1) _ F(4) [folded regs'] _ F(11)])
      (simp_all only: i1(2,3) kstack_addresses(1) F(5) bs(1), simp_all add: F(12))
  then obtain s' where S': "sys_fork site s regs = Ok (of_nat i, s')" "mem s' = ?m4" "free_pages s' = free_pages s3"
      "tasks s' = (tasks s1)[i := (tasks s1 ! i)\<lparr>t_context := stk + of_nat 3980,
        t_open_files := t_open_files (tasks s2 ! curr_task s), t_state := RUNNABLE, t_parent := Some (curr_task s)\<rparr>]"
    unfolding i1(4) by auto
  have un: "pgno u \<notin> pgno ` set us" "pgno u \<notin> pgno ` T" "pgno u \<noteq> pgno stk"
    using G pgno_inject [OF G(2)] by force+
  have kh: "kheap s' us"
    using aspace_okD(1) [OF F(6)] free_list_frame [OF _ ch4] S'(2,3) un(1) by (simp add: kheap_def)
  have ts: "tasks s' = (tasks s)[i := (tasks s ! i)\<lparr>t_pid := int i, t_kstack := stk, t_pgdir := pd, t_context := stk + of_nat 3980,
      t_open_files := t_open_files (tasks s ! c), t_state := RUNNABLE, t_parent := Some c\<rparr>]"
    unfolding S'(4) using F(2,4) ic c(1) by simp
  have "page_bytes_eq stk (mem s3) ?m4" by (rule page_bytes_eq_changes [OF G(1) ch4]) (use un(3) in auto)
  then have B: "page_bytes_eq stk (child_stack site (mem s1) stk (r + of_nat 4016)) (mem s')"
    using F(13) unfolding S'(2) by (simp add: page_bytes_eq_def)
  note fr = child_frame_kept [OF G(1) rp(1) rs B F(14), folded regs']
  have dj: "{pgno u} \<inter> pgno ` tables (mem s3) pd = {}" using un(2) F(7) by simp
  note D4 = pgdir_frame_ok [OF aspace_okD(2) [OF F(6)] ch4 dj]
    pgdir_frame_entry [OF aspace_okD(2) [OF F(6)] ch4 dj, of 0, simplified F(8)]
  have upo: "user_page s c \<in> owned s c" by (simp add: owned_def)
  have copy: "\<exists>x y. translate (mem s) (curr_pgdir s) (of_nat k) = Some x \<and>
      translate (mem s') pd (of_nat k) = Some y \<and> xl_user y \<and> xl_write y \<and>
      pgno (PHYS_TO_VIRT (xl_paddr x)) \<noteq> pgno (PHYS_TO_VIRT (xl_paddr y)) \<and>
      mem s' (PHYS_TO_VIRT (xl_paddr y)) = mem s (PHYS_TO_VIRT (xl_paddr x))" if k: "k < 4096" for k
  proof -
    obtain x where x: "translate (mem s) (curr_pgdir s) (of_nat k) = Some x" "PHYS_TO_VIRT (xl_paddr x) = user_page s c + of_nat k"
      using user_page_source(2) [OF c(4,5) G(2) uo k] by blast
    obtain y where y: "translate ?m4 pd (of_nat k) = Some y" "xl_user y" "xl_write y" "PHYS_TO_VIRT (xl_paddr y) = u + of_nat k"
      using user_page_translate [OF D4(1) G(2) D4(2) k] by auto
    have "?m4 (u + of_nat k) = mem s (user_page s c + of_nat k)"
      using put_bytes_inside [of k bs u "mem s3"] page_aligned_le [OF G(2)] bs(2,3) k by simp
    then show ?thesis
      using x y S'(2) G(9) [OF upo, of u] pgno_page_offset [OF owned_aligned [OF c(4) upo] k] pgno_page_offset [OF G(2) k] by auto
  qed
  have "stk + of_nat 4016 = stk + of_nat 3980 + sizeof_context" "stk + of_nat 4016 + sizeof_int_regs = KSTACK_TOP stk"
    by (simp_all add: KSTACK_TOP_def sizeof_int_regs_def sizeof_context_def PGSIZE_def)
  then show ?thesis
    using S'(1) kh ts fr copy by blast
qed

section \<open>Witness\<close>

text \<open>Task 1 of a booted system runs in an address space of its own.\<close>

lemma sample_parent:
  obtains s :: k_state and stk pd ps u us where "kheap s (stk # pd # ps)" "drop kernel_tables ps = u # us" "KERN_BASE \<le> u"
    "unused_task (tasks s) 0 = Some 2" "curr_task s = 1" "1 < length (tasks s)" "state_of s 1 = RUNNING" "task_ok s 1"
    "curr_pgdir s = t_pgdir (tasks s ! 1)" "owned s 1 \<inter> set (stk # pd # ps) = {}"
    "\<forall>p \<in> owned s 1 \<union> set (stk # pd # ps). 786689 \<le> pgno p"
proof -
  obtain m :: mstate and ps where m: "kheap m ps" "length ps = 767" "\<And>p. p \<in> set ps \<Longrightarrow> 786689 \<le> pgno p"
    using boot_heap by blast
  let ?s = "sample_k m boot_tasks False"
  obtain stk pd rs where ps: "ps = stk # pd # rs" using m(2) by (cases ps; cases "tl ps") auto
  have h: "kheap ?s (stk # pd # rs)" using m(1) ps by simp
  obtain u us where u: "drop kernel_tables rs = u # us"
    using m(2) ps by (cases "drop kernel_tables rs") (auto simp: kernel_tables_def)
  have i1: "unused_task (tasks ?s) 0 = Some 1" by simp
  obtain s2 :: k_state where S: "kheap s2 us" "task_ok s2 1" "owned s2 1 = set (stk # pd # take kernel_tables rs @ [u])"
      "tasks s2 = boot_tasks[1 := (boot_tasks ! 1)\<lparr>t_pid := int 1, t_kstack := stk, t_pgdir := pd\<rparr>]"
    using alloc_task_user_page [OF h u i1] unfolding sample_k_simps(1) by blast
  define s where "s = upd_task (s2\<lparr>curr_task := 1, cr3 := VIRT_TO_PHYS pd\<rparr>) 1 (\<lambda>t. t\<lparr>t_state := RUNNING\<rparr>)"
  have len: "length us = 767 - 3 - kernel_tables"
    using arg_cong [OF u, of length] m(2) ps by simp
  obtain stk' pd' rs' where us: "us = stk' # pd' # rs'"
    using len by (cases us; cases "tl us") (auto simp: kernel_tables_def)
  obtain u' us' where u': "drop kernel_tables rs' = u' # us'"
    using len us by (cases "drop kernel_tables rs'") (auto simp: kernel_tables_def)
  have sub: "set us \<subseteq> set ps"
  proof
    fix x assume "x \<in> set us"
    then have "x \<in> set (drop kernel_tables rs)" using u by simp
    then show "x \<in> set ps" using ps by (auto dest: in_set_dropD)
  qed
  have "u' \<in> set us" using us u' in_set_dropD [of u' kernel_tables rs'] by simp
  then have "786689 \<le> pgno u'" using m(3) sub by blast
  then have ku: "KERN_BASE \<le> u'"
    using unat_pgno_bounds(1) [of u'] by (simp add: word_le_nat_alt KERN_BASE_def)
  have d: "distinct (stk # pd # take kernel_tables rs @ u # us)"
    using kheap_distinct [OF m(1)] ps append_take_drop_id [of kernel_tables rs] u by simp
  have bl: "length boot_tasks = 1024" "1 < length boot_tasks" "boot_tasks ! 2 = zero_task" "boot_tasks ! 0 = zero_task\<lparr>t_state := RUNNING\<rparr>"
    by (simp_all add: MAX_TASKS_def)
  have t2: "length (tasks s2) = 1024" "tasks s2 ! 1 = (boot_tasks ! 1)\<lparr>t_pid := int 1, t_kstack := stk, t_pgdir := pd\<rparr>"
      "tasks s2 ! 0 = boot_tasks ! 0" "tasks s2 ! 2 = boot_tasks ! 2"
    unfolding S(4) using bl(1,2) by simp_all
  have ln: "length (tasks s) = 1024" unfolding s_def by (simp add: t2(1))
  have f: "mem s = mem s2" "t_pgdir (tasks s ! 1) = pd" "t_pgdir (tasks s2 ! 1) = pd" "t_kstack (tasks s ! 1) = t_kstack (tasks s2 ! 1)"
    using t2 by (simp_all add: s_def)
  have tn: "tasks s ! 0 = zero_task\<lparr>t_state := RUNNING\<rparr>" "state_of s 1 = RUNNING" "tasks s ! 2 = zero_task"
    using t2 bl by (simp_all add: s_def)
  have st: "state_of s 2 = UNUSED" by (simp add: tn(3) zero_task_def)
  have ok: "task_ok s 1" "owned s 1 = owned s2 1"
    using S(2) f(1) f(2-4) [unfolded One_nat_def] by (simp_all add: task_ok_def owned_def user_page_def)
  have "unused_task (tasks s) 0 = Some 2"
  proof -
    obtain i where i: "unused_task (tasks s) 0 = Some i"
      using unused_task_None [of "tasks s" 0] st nth_mem [of 2 "tasks s"] ln
      by (cases "unused_task (tasks s) 0") auto
    note I = unused_task_spec [OF i]
    have "i \<noteq> 0" using I tn(1) by (cases "i = 0") auto
    moreover have "i \<noteq> 1" using I tn(2) by (cases "i = 1") auto
    moreover have "\<not> 2 < i" using I st by auto
    ultimately have "i = 2" by linarith
    then show ?thesis using i by simp
  qed
  moreover have "kheap s (stk' # pd' # rs')" using S(1) us by (simp add: s_def kheap_def)
  moreover have "curr_pgdir s = t_pgdir (tasks s ! 1)" unfolding f(2) by (simp add: curr_pgdir_def s_def)
  moreover have "owned s 1 \<inter> set us = {}" using d S(3) ok(2) by auto
  moreover have "curr_task s = 1" "1 < length (tasks s)" "state_of s 1 = RUNNING"
    by (simp add: s_def, simp add: ln, rule tn(2))
  moreover have "786689 \<le> pgno p" if "p \<in> owned s 1 \<union> set us" for p
  proof -
    have "set (take kernel_tables rs) \<subseteq> set ps" "u \<in> set ps"
      using set_take_subset [of kernel_tables rs] u in_set_dropD [of u kernel_tables rs] by (auto simp: ps)
    then have "owned s 1 \<subseteq> set ps" unfolding ok(2) S(3) by (simp add: ps)
    then show ?thesis using that sub m(3) by blast
  qed
  ultimately show ?thesis using that [of s stk' pd' rs' u' us'] u' ku ok(1) us by simp
qed

theorem fork_copies_caller_witness:
  "\<exists>(s :: k_state) s' fr pd x y. sys_fork 0xc0100100 s (KSTACK_TOP (t_kstack (tasks s ! 1)) - sizeof_int_regs) = Ok (2, s') \<and>
    load32 (mem s') (fr + eax_offset) = 0 \<and> translate (mem s) (curr_pgdir s) (of_nat 100) = Some x \<and>
    translate (mem s') pd (of_nat 100) = Some y \<and> mem s' (PHYS_TO_VIRT (xl_paddr y)) = mem s (PHYS_TO_VIRT (xl_paddr x))"
proof -
  obtain s :: k_state and stk pd ps u us where S: "kheap s (stk # pd # ps)" "drop kernel_tables ps = u # us" "KERN_BASE \<le> u"
    "unused_task (tasks s) 0 = Some 2" "curr_task s = 1" "1 < length (tasks s)" "state_of s 1 = RUNNING" "task_ok s 1"
    "curr_pgdir s = t_pgdir (tasks s ! 1)" "owned s 1 \<inter> set (stk # pd # ps) = {}"
    "\<forall>p \<in> owned s 1 \<union> set (stk # pd # ps). 786689 \<le> pgno p"
    by (rule sample_parent)
  have r: "state_of s 1 \<noteq> UNUSED" using S(7) by simp
  have lt: "(100 :: nat) < 4096" by simp
  show ?thesis
    using fork_copies_caller [OF S(1-4) S(5) [symmetric] S(6) r S(8-10) refl, of "0xc0100100"] lt
    by (metis of_nat_numeral)
qed

end
