(* ===== verification/FileCalls.thy ===== *)
theory FileCalls
  imports SysFile
begin

text \<open>
  What the file system calls do for a program: an opened file can be read, a closed descriptor is free
  again, what is written to the console is sent, and what happens with descriptors and pointers that are
  not in order. A later call of the program finds its arguments in a memory the program has changed, so
  the statements about a second call are about any later state with the same descriptors and files.
\<close>

section \<open>Arguments and descriptors\<close>

text \<open>The arguments of a call, as the handlers read them from the user's stack.\<close>

definition call_args :: "'z k_state_scheme \<Rightarrow> u32 \<Rightarrow> u32 list \<Rightarrow> bool" where
  "call_args s regs xs \<longleftrightarrow> (\<forall>i < length xs. read_syscall_arg s (user_esp s regs) i = Ok (Some (xs ! i)))"

lemma with_args1: "call_args s regs [a] \<Longrightarrow> with_arg s (user_esp s regs) 0 f = f a"
  by (simp add: call_args_def with_arg_def)

lemma with_args2:
  assumes "call_args s regs [a, b]"
  shows "with_arg s (user_esp s regs) 0 f = f a" "with_arg s (user_esp s regs) (Suc 0) f = f b"
  using assms by (simp_all add: call_args_def with_arg_def All_less_Suc2)

lemma with_args3:
  assumes "call_args s regs [a, b, c]"
  shows "with_arg s (user_esp s regs) 0 f = f a" "with_arg s (user_esp s regs) (Suc 0) f = f b"
    "with_arg s (user_esp s regs) 2 f = f c"
  using assms by (simp_all add: call_args_def with_arg_def All_less_Suc2 numeral_2_eq_2)

text \<open>The descriptor \<^verbatim>\<open>sys_open\<close> chooses.\<close>

lemma free_fd_spec:
  "free_fd fs k = k + n \<Longrightarrow> n \<le> length fs \<and> (\<forall>j < n. fs ! j \<noteq> None) \<and> (n < length fs \<longrightarrow> fs ! n = None)"
proof (induction fs k arbitrary: n rule: free_fd.induct)
  case (2 f fs k)
  show ?case
  proof (cases "f = None")
    case True
    then show ?thesis using 2 by simp
  next
    case False
    have "Suc k \<le> free_fd fs (Suc k)" by (induction fs "Suc k" arbitrary: k rule: free_fd.induct) (auto dest: Suc_leD)
    then obtain m where m: "n = Suc m" "free_fd fs (Suc k) = Suc k + m" using 2(2) False by (cases n) auto
    show ?thesis using 2(1) [OF False m(2)] False by (auto simp: m(1) nth_Cons split: nat.splits)
  qed
qed simp

lemma free_fd_first:
  "free_fd fs 0 < length fs \<Longrightarrow> fs ! free_fd fs 0 = None \<and> (\<forall>j < free_fd fs 0. fs ! j \<noteq> None)"
  using free_fd_spec [of fs 0 "free_fd fs 0"] by simp

text \<open>The state has a running task with a table of eight descriptors.\<close>

definition has_task :: "'z k_state_scheme \<Rightarrow> bool" where
  "has_task s \<longleftrightarrow> curr_task s < length (tasks s) \<and> length (open_files s) = MAX_OPEN_FILES"

lemma set_fd_ok:
  "has_task s \<Longrightarrow> fd < MAX_OPEN_FILES \<Longrightarrow>
   set_fd s fd fp = Ok (upd_task s (curr_task s) (\<lambda>t. t\<lparr>t_open_files := (t_open_files t)[fd := fp]\<rparr>))"
  by (simp add: set_fd_def has_task_def)

lemma unat_fd: "fd < MAX_OPEN_FILES \<Longrightarrow> unat (of_nat fd :: u32) = fd"
  using unat_add_lt [of 0 fd] by (simp add: MAX_OPEN_FILES_def)

lemma get_fd_ok: "has_task s \<Longrightarrow> fd < MAX_OPEN_FILES \<Longrightarrow> get_fd s (of_nat fd) = Ok (open_files s ! fd)"
  by (simp add: get_fd_def has_task_def unat_fd)

section \<open>Opening\<close>

lemma console_name:
  assumes "cstring r p"
  shows "strcmp (arr (kstr ''console'' @ [0])) r = Ok (str_order (kstr ''console'') p)"
    and "strcmp (arr (kstr ''/'' @ [0])) r = Ok (str_order (kstr ''/'') p)"
proof -
  have "cstring (arr (kstr ''console'' @ 0 # [])) (kstr ''console'')" "cstring (arr (kstr ''/'' @ 0 # [])) (kstr ''/'')"
    by (rule cstring_arr; simp add: kstr_def NUL_SCAN_def)+
  then show "strcmp (arr (kstr ''console'' @ [0])) r = Ok (str_order (kstr ''console'') p)"
      "strcmp (arr (kstr ''/'' @ [0])) r = Ok (str_order (kstr ''/'') p)"
    using strcmp_cstring assms by blast+
qed

lemma open_path_found:
  assumes "cstring (vptr s path) p" and "p \<noteq> kstr ''console''" and "get_file s (vptr s path) = Ok (Some f)"
  shows "open_path s fd path O_RDONLY = finish_open s fd (Some f)"
proof -
  have "str_order (kstr ''console'') p \<noteq> 0" using assms(2) str_order_eq_0 by metis
  then show ?thesis using console_name [OF assms(1)] assms(3) by (simp add: open_path_def)
qed

lemma open_path_missing:
  assumes "cstring (vptr s path) p" and "p \<noteq> kstr ''console''" "p \<noteq> kstr ''/''" and "get_file s (vptr s path) = Ok None"
  shows "open_path s fd path O_RDONLY = Ok (-1, s)"
proof -
  have "str_order (kstr ''console'') p \<noteq> 0" "str_order (kstr ''/'') p \<noteq> 0" using assms(2,3) str_order_eq_0 by metis+
  then show ?thesis using console_name [OF assms(1)] assms(4) by (simp add: open_path_def)
qed

lemma open_path_console:
  assumes "cstring (vptr s path) (kstr ''console'')"
  shows "open_path s fd path flags = bnd (set_fd s fd (Some Console_file)) (\<lambda>s. Ok (of_nat fd, s))"
  using console_name(1) [OF assms] str_order_eq_0 [of "kstr ''console''" "kstr ''console''"]
  by (simp add: open_path_def finish_open_def)

lemma sys_open_path:
  "call_args s regs [path, flags] \<Longrightarrow> sys_open s regs = open_path s (free_fd (open_files s) 0) path flags"
  by (simp add: sys_open_def Let_def with_args2)

text \<open>The state after a file has been opened for reading, and after the console has been opened.\<close>

abbreviation opened :: "'z k_state_scheme \<Rightarrow> nat \<Rightarrow> file_ref \<Rightarrow> 'z k_state_scheme" where
  "opened s fd f \<equiv> upd_task s (curr_task s) (\<lambda>t. t\<lparr>t_open_files := (t_open_files t)[fd := Some f]\<rparr>)"

lemma sys_open_file:
  assumes ok: "fs_ok s" and t: "has_task s" and a: "call_args s regs [path, O_RDONLY]"
    and p: "cstring (vptr s path) p" "p \<noteq> kstr ''console''" "p \<noteq> []"
    and i: "i < MAX_FILES" "fname (filesystem s ! i) = p" "\<And>j. j < i \<Longrightarrow> fname (filesystem s ! j) \<noteq> p"
    and fd: "free_fd (open_files s) 0 = fd" "fd < MAX_OPEN_FILES"
  shows "sys_open s regs = Ok (of_nat fd, upd_file (opened s fd (Fs i)) i (\<lambda>f. f\<lparr>f_pos := 0\<rparr>))"
proof -
  have "List.find (\<lambda>i. fname (filesystem s ! i) = p) [0..<MAX_FILES] = Some i"
    by (rule find_first) (use i in auto)
  then have "get_file s (vptr s path) = Ok (Some (Fs i))" using get_file_find [OF p(1) ok] p(3) by simp
  from open_path_found [OF p(1,2) this] show ?thesis
    using sys_open_path [OF a] fd set_fd_ok [OF t fd(2)] by (simp add: finish_open_def set_fp_def)
qed

lemma sys_open_console:
  assumes "has_task s" and "call_args s regs [path, flags]" and "cstring (vptr s path) (kstr ''console'')"
    and "free_fd (open_files s) 0 = fd" "fd < MAX_OPEN_FILES"
  shows "sys_open s regs = Ok (of_nat fd, opened s fd Console_file)"
  using sys_open_path [OF assms(2)] open_path_console [OF assms(3)] set_fd_ok [OF assms(1,5)] assms(4) by simp

text \<open>A later state of the same task: descriptors and files are as they were.\<close>

definition later :: "'z k_state_scheme \<Rightarrow> 'z k_state_scheme \<Rightarrow> bool" where
  "later s t \<longleftrightarrow> tasks t = tasks s \<and> curr_task t = curr_task s \<and> filesystem t = filesystem s \<and> console_file t = console_file s"

lemma later_has_task: "later s t \<Longrightarrow> has_task t = has_task s" "later s t \<Longrightarrow> open_files t = open_files s"
  by (simp_all add: later_def has_task_def)

lemma opened_has_task:
  "has_task s \<Longrightarrow> has_task (opened s fd f)"
  "has_task s \<Longrightarrow> open_files (opened s fd f) = (open_files s)[fd := Some f]"
  by (simp_all add: has_task_def)

lemma upd_file_fields [simp]:
  "tasks (upd_file s i g) = tasks s" "curr_task (upd_file s i g) = curr_task s" "has_task (upd_file s i g) = has_task s"
  by (simp_all add: upd_file_def has_task_def)

text \<open>Opening a file of the table, whatever for: the task table changes by the new descriptor.\<close>

lemma sys_open_known:
  fixes s :: "'z k_state_scheme"
  assumes ok: "fs_ok s" and t: "has_task s" and a: "call_args s regs [path, flags]" "flags \<in> {O_RDONLY, O_WRONLY, O_RDWR}"
    and p: "cstring (vptr s path) p" "p \<noteq> kstr ''console''" "p \<noteq> []"
    and i: "i < MAX_FILES" "fname (filesystem s ! i) = p" "\<And>j. j < i \<Longrightarrow> fname (filesystem s ! j) \<noteq> p"
    and fd: "free_fd (open_files s) 0 = fd" "fd < MAX_OPEN_FILES"
  shows "\<exists>s1. sys_open s regs = Ok (of_nat fd, s1) \<and> tasks s1 = tasks (opened s fd (Fs i)) \<and> curr_task s1 = curr_task s \<and>
    length (filesystem s1) = MAX_FILES \<and> f_in_use (filesystem s1 ! i) = f_in_use (filesystem s ! i)"
proof -
  have "List.find (\<lambda>i. fname (filesystem s ! i) = p) [0..<MAX_FILES] = Some i"
    by (rule find_first) (use i in auto)
  then have g: "get_file s (vptr s path) = Ok (Some (Fs i))" using get_file_find [OF p(1) ok] p(3) by simp
  have len: "length (filesystem s) = MAX_FILES" using ok by (simp add: fs_ok_def)
  let ?w = "set_fp (s\<lparr>mem := memset (mem s) (f_data (get_fp s (Fs i))) 0 4\<rparr>) (Fs i) (\<lambda>f. f\<lparr>f_type := FT_REGULAR\<rparr>)"
  have "str_order (kstr ''console'') p \<noteq> 0" using p(2) str_order_eq_0 by metis
  then have o: "sys_open s regs = finish_open (if flags = O_RDONLY then s else ?w) fd (Some (Fs i))"
    using console_name [OF p(1)] g a(2) sys_open_path [OF a(1)] fd(1)
    by (auto simp: open_path_def O_RDONLY_def O_WRONLY_def O_RDWR_def)
  have w: "has_task ?w" "tasks ?w = tasks s" "curr_task ?w = curr_task s" "length (filesystem ?w) = MAX_FILES"
      "f_in_use (filesystem ?w ! i) = f_in_use (filesystem s ! i)"
    using t len i(1) by (simp_all add: set_fp_def has_task_def)
  have "\<exists>s1. finish_open u fd (Some (Fs i)) = Ok (of_nat fd, s1) \<and> tasks s1 = tasks (opened s fd (Fs i)) \<and> curr_task s1 = curr_task s \<and>
      length (filesystem s1) = MAX_FILES \<and> f_in_use (filesystem s1 ! i) = f_in_use (filesystem s ! i)"
    if "has_task u" "tasks u = tasks s" "curr_task u = curr_task s" "length (filesystem u) = MAX_FILES"
      "f_in_use (filesystem u ! i) = f_in_use (filesystem s ! i)" for u :: "'z k_state_scheme"
    using that set_fd_ok [OF that(1) fd(2)] i(1) by (simp add: finish_open_def set_fp_def upd_task_def)
  from this [of s] this [OF w] show ?thesis unfolding o using t len by (cases "flags = O_RDONLY") simp_all
qed

text \<open>The first time that the root directory is opened: it becomes a file, whose data is the listing.\<close>

lemma listing_update:
  assumes "i < length fs" and "\<not> (f_in_use (fs ! i) \<and> f_type (fs ! i) = FT_REGULAR)" and "\<not> (f_in_use f \<and> f_type f = FT_REGULAR)"
  shows "listing (fs[i := f]) = listing fs"
  using assms
proof (induction fs arbitrary: i)
  case (Cons g fs)
  then show ?case by (cases i) (auto simp: listing_def)
qed simp

lemma open_root_first:
  fixes s :: "'z k_state_scheme"
  assumes ok: "fs_ok s" and h: "kheap s (pg # ps)" and pg: "pgno pg < 1048575" and p: "cstring (vptr s path) (kstr ''/'')"
    and none: "\<And>j. j < MAX_FILES \<Longrightarrow> fname (filesystem s ! j) \<noteq> kstr ''/''" and i: "unused_slot (filesystem s) 0 = Some i"
  shows "\<exists>s2. open_path s fd path flags = finish_open s2 fd (Some (Fs i)) \<and> tasks s2 = tasks s \<and> curr_task s2 = curr_task s \<and>
    length (filesystem s2) = MAX_FILES \<and> fname (filesystem s2 ! i) = kstr ''/'' \<and> f_type (filesystem s2 ! i) = FT_DIR \<and>
    f_in_use (filesystem s2 ! i) \<and> f_data (filesystem s2 ! i) = pg \<and>
    f_size (filesystem s2 ! i) = of_nat (length (listing (filesystem s))) \<and>
    (\<forall>j < MAX_FILES. j \<noteq> i \<longrightarrow> filesystem s2 ! j = filesystem s ! j) \<and>
    mem_bytes (mem s2) pg (length (listing (filesystem s))) = listing (filesystem s) \<and> kheap s2 ps"
proof -
  note I = unused_slot_spec [OF i]
  have il: "i < length (filesystem s)" "\<not> f_in_use (filesystem s ! i)" and len: "length (filesystem s) = MAX_FILES"
    using I ok by (simp_all add: fs_ok_def)
  have sl: "length (kstr ''/'') \<le> 15" "kstr ''/'' \<noteq> []" "kstr ''console'' \<noteq> kstr ''/''" by (simp_all add: kstr_def)
  obtain s1 name where s1: "alloc_file s (vptr s path) = Ok (Some (Fs i), s1)" "kheap s1 ps" "mem s1 = mem s"
      "filesystem s1 = (filesystem s)[i := (filesystem s ! i)\<lparr>f_name := name, f_data := pg, f_in_use := True, f_size := 0\<rparr>]"
      "length name = 16" "0 \<in> set name" "takeWhile (\<lambda>c. c \<noteq> 0) name = kstr ''/''" "fs_state.more s1 = fs_state.more s"
    using alloc_file_spec [OF ok h p sl(1) i] by blast
  have same: "tasks s1 = tasks s" "curr_task s1 = curr_task s" using s1(8) by (cases s; cases s1; simp)+
  let ?t = "set_fp s1 (Fs i) (\<lambda>f. f\<lparr>f_type := FT_DIR\<rparr>)"
  have ft: "filesystem ?t = (filesystem s)[i := (filesystem s ! i)\<lparr>f_name := name, f_data := pg, f_in_use := True, f_size := 0, f_type := FT_DIR\<rparr>]"
    using s1(4) il(1) by (simp add: set_fp_def)
  have okt: "fs_ok ?t"
    using ok s1(5,6) ft by (auto simp: fs_ok_def name_ok_def dest!: set_update_subset_insert [THEN subsetD])
  have L: "listing (filesystem ?t) = listing (filesystem s)" unfolding ft by (rule listing_update [OF il(1)]) (use il(2) in simp_all)
  have al: "page_aligned pg" using kheap_page [OF h] by simp
  obtain m where m: "list_rootdir ?t pg = Ok (int (length (listing (filesystem s))), ?t\<lparr>mem := m\<rparr>)"
      "mem_bytes m pg (length (listing (filesystem s))) = listing (filesystem s)" "changes_only {pgno pg} (mem ?t) m"
    using list_rootdir_lists [OF okt al pg] unfolding L by blast
  have "pgno pg \<notin> pgno ` set ps"
    using kheap_distinct [OF h] kheap_page [OF h] al by (auto simp: pgno_inject)
  then have "kheap (s1\<lparr>mem := m\<rparr>) ps"
    using kheap_frame [OF s1(2), of "{pgno pg}" m] m(3) by (simp add: set_fp_def)
  let ?s2 = "set_fp (?t\<lparr>mem := m\<rparr>) (Fs i) (\<lambda>f. f\<lparr>f_size := of_nat (length (listing (filesystem s)))\<rparr>)"
  have "get_file s (vptr s path) = Ok None"
    using get_file_find [OF p ok] none by (auto simp: find_None_iff)
  moreover have "f_data (get_fp ?t (Fs i)) = pg" using ft il(1) by (simp add: get_fp_def)
  ultimately have "open_path s fd path flags = finish_open ?s2 fd (Some (Fs i))"
    using console_name [OF p] str_order_eq_0 [of "kstr ''console''" "kstr ''/''"] str_order_eq_0 [of "kstr ''/''" "kstr ''/''"] sl(3) s1(1) m(1)
    by (simp add: open_path_def Let_def)
  moreover have "filesystem ?s2 = (filesystem s)[i := (filesystem s ! i)\<lparr>f_name := name, f_data := pg, f_in_use := True,
      f_type := FT_DIR, f_size := of_nat (length (listing (filesystem s)))\<rparr>]"
    using ft il(1) by (simp add: set_fp_def)
  moreover have "tasks ?s2 = tasks s" "curr_task ?s2 = curr_task s" "mem ?s2 = m" "kheap ?s2 ps"
    using same \<open>kheap (s1\<lparr>mem := m\<rparr>) ps\<close> by (simp_all add: set_fp_def kheap_def upd_file_def)
  ultimately show ?thesis
    using il(1) len s1(7) m(2) by (intro exI [of _ ?s2]) (simp add: fname_def)
qed


lemma first_free_fd:
  assumes "has_task s" and "None \<in> set (open_files s)"
  obtains fd where "free_fd (open_files s) 0 = fd" "fd < MAX_OPEN_FILES" "open_files s ! fd = None" "\<forall>j < fd. open_files s ! j \<noteq> None"
proof -
  have len: "length (open_files s) = MAX_OPEN_FILES" using assms(1) by (simp add: has_task_def)
  obtain k where k: "k < length (open_files s)" "open_files s ! k = None" using assms(2) by (metis in_set_conv_nth)
  have "\<not> k < free_fd (open_files s) 0"
    using free_fd_spec [of "open_files s" 0 "free_fd (open_files s) 0"] k(2) by auto
  then have "free_fd (open_files s) 0 < length (open_files s)" using k(1) by linarith
  then show thesis using that [OF refl] free_fd_first [of "open_files s"] len by simp
qed

lemma no_free_fd:
  assumes "has_task s" and "None \<notin> set (open_files s)"
  shows "set_fd t (free_fd (open_files s) 0) f = Undef ''write past the end of an array'' \<or> open_files t \<noteq> open_files s"
proof -
  have "\<not> free_fd (open_files s) 0 < length (open_files s)"
    using free_fd_first [of "open_files s"] assms(2) nth_mem [of "free_fd (open_files s) 0" "open_files s"] by auto
  then show ?thesis by (auto simp: set_fd_def)
qed

lemma finish_open_cases:
  assumes t: "has_task s" and s2: "tasks s2 = tasks s" "curr_task s2 = curr_task s"
  shows "if None \<notin> set (open_files s) then finish_open s2 (free_fd (open_files s) 0) (Some (Fs i)) = Undef ''write past the end of an array''
    else \<exists>fd s1. finish_open s2 (free_fd (open_files s) 0) (Some (Fs i)) = Ok (of_nat fd, s1) \<and> fd < MAX_OPEN_FILES \<and>
      open_files s ! fd = None \<and> (\<forall>j < fd. open_files s ! j \<noteq> None) \<and> open_files s1 = (open_files s)[fd := Some (Fs i)] \<and>
      mem s1 = mem s2 \<and> filesystem s1 = (filesystem s2)[i := (filesystem s2 ! i)\<lparr>f_pos := 0\<rparr>]"
proof (cases "None \<in> set (open_files s)")
  case True
  then obtain fd where fd: "free_fd (open_files s) 0 = fd" "fd < MAX_OPEN_FILES" "open_files s ! fd = None" "\<forall>j < fd. open_files s ! j \<noteq> None"
    using first_free_fd [OF t] by blast
  have h: "has_task s2" "open_files s2 = open_files s" using t s2 by (simp_all add: has_task_def)
  let ?s1 = "upd_file (opened s2 fd (Fs i)) i (\<lambda>f. f\<lparr>f_pos := 0\<rparr>)"
  have "finish_open s2 fd (Some (Fs i)) = Ok (of_nat fd, ?s1)"
    using set_fd_ok [OF h(1) fd(2)] by (simp add: finish_open_def set_fp_def)
  moreover have "open_files ?s1 = (open_files s)[fd := Some (Fs i)]" using opened_has_task(2) [OF h(1), of fd "Fs i"] h(2) by simp
  ultimately show ?thesis using True fd by (auto simp: upd_file_def)
next
  case False
  then show ?thesis
    using no_free_fd [OF t, of s2 "Some (Fs i)"] s2 by (simp add: finish_open_def)
qed

lemma open_console_cases:
  assumes t: "has_task s" and a: "call_args s regs [path, flags]" and p: "cstring (vptr s path) (kstr ''console'')"
  shows "if None \<notin> set (open_files s) then sys_open s regs = Undef ''write past the end of an array''
    else \<exists>fd s1. sys_open s regs = Ok (of_nat fd, s1) \<and> fd < MAX_OPEN_FILES \<and> open_files s ! fd = None \<and>
      (\<forall>j < fd. open_files s ! j \<noteq> None) \<and> open_files s1 = (open_files s)[fd := Some Console_file]"
proof (cases "None \<in> set (open_files s)")
  case free: True
  then obtain fd where fd: "free_fd (open_files s) 0 = fd" "fd < MAX_OPEN_FILES" "open_files s ! fd = None" "\<forall>j < fd. open_files s ! j \<noteq> None"
    using first_free_fd [OF t] by blast
  then show ?thesis
    using free sys_open_console [OF t a p fd(1,2)] opened_has_task(2) [OF t, of fd Console_file] by auto
next
  case False
  then show ?thesis
    using sys_open_path [OF a, unfolded open_path_console [OF p]] no_free_fd [OF t False, of s "Some Console_file"] by auto
qed

lemma first_of_name:
  assumes "\<exists>i < MAX_FILES. fname (filesystem s ! i) = p"
  obtains i where "i < MAX_FILES" "fname (filesystem s ! i) = p" "\<And>j. j < i \<Longrightarrow> fname (filesystem s ! j) \<noteq> p"
proof -
  define P where "P j \<longleftrightarrow> j < MAX_FILES \<and> fname (filesystem s ! j) = p" for j
  have "\<exists>i. P i" using assms by (simp add: P_def)
  then have "P (LEAST i. P i)" by (rule LeastI_ex)
  moreover have "\<not> P j" if "j < (LEAST i. P i)" for j using that not_less_Least by blast
  ultimately show thesis using that [of "LEAST i. P i"] unfolding P_def by (meson less_trans)
qed

lemma open_file_cases:
  assumes ok: "fs_ok s" and t: "has_task s" and a: "call_args s regs [path, O_RDONLY]"
    and p: "cstring (vptr s path) p" "p \<noteq> kstr ''console''" "p \<noteq> []" "\<exists>i < MAX_FILES. fname (filesystem s ! i) = p"
  shows "if None \<notin> set (open_files s) then sys_open s regs = Undef ''write past the end of an array''
    else \<exists>fd i s1. sys_open s regs = Ok (of_nat fd, s1) \<and> fd < MAX_OPEN_FILES \<and> open_files s ! fd = None \<and>
      (\<forall>j < fd. open_files s ! j \<noteq> None) \<and> open_files s1 = (open_files s)[fd := Some (Fs i)] \<and>
      i < MAX_FILES \<and> fname (filesystem s ! i) = p \<and> (\<forall>j < i. fname (filesystem s ! j) \<noteq> p)"
proof -
  obtain i where i: "i < MAX_FILES" "fname (filesystem s ! i) = p" "\<And>j. j < i \<Longrightarrow> fname (filesystem s ! j) \<noteq> p"
    using first_of_name [OF p(4)] by blast
  have "List.find (\<lambda>i. fname (filesystem s ! i) = p) [0..<MAX_FILES] = Some i" by (rule find_first) (use i in auto)
  then have "get_file s (vptr s path) = Ok (Some (Fs i))" using get_file_find [OF p(1) ok] p(3) by simp
  then have o: "sys_open s regs = finish_open s (free_fd (open_files s) 0) (Some (Fs i))"
    using open_path_found [OF p(1,2)] sys_open_path [OF a] by simp
  show ?thesis
    unfolding o using finish_open_cases [OF t refl refl, of i] i by (cases "None \<in> set (open_files s)") (simp, blast, simp)
qed

lemma open_root_cases:
  fixes s :: "'z k_state_scheme"
  assumes ok: "fs_ok s" and t: "has_task s" and a: "call_args s regs [path, O_RDONLY]" and p: "cstring (vptr s path) (kstr ''/'')"
    and new: "\<And>j. j < MAX_FILES \<Longrightarrow> fname (filesystem s ! j) \<noteq> kstr ''/''"
  shows "if \<forall>f \<in> set (filesystem s). f_in_use f then sys_open s regs = Ok (-1, s)
    else kheap s (pg # ps) \<and> pgno pg < 1048575 \<longrightarrow>
     (if None \<notin> set (open_files s) then sys_open s regs = Undef ''write past the end of an array''
     else \<exists>fd i s1 f. sys_open s regs = Ok (of_nat fd, s1) \<and> fd < MAX_OPEN_FILES \<and> open_files s ! fd = None \<and>
      (\<forall>j < fd. open_files s ! j \<noteq> None) \<and> open_files s1 = (open_files s)[fd := Some (Fs i)] \<and>
      i < MAX_FILES \<and> \<not> f_in_use (filesystem s ! i) \<and> (\<forall>j < i. f_in_use (filesystem s ! j)) \<and>
      (\<forall>j < MAX_FILES. j \<noteq> i \<longrightarrow> filesystem s1 ! j = filesystem s ! j) \<and> f = filesystem s1 ! i \<and>
      fname f = kstr ''/'' \<and> f_type f = FT_DIR \<and> f_in_use f \<and> f_pos f = 0 \<and> f_size f = of_nat (length (listing (filesystem s))) \<and>
      mem_bytes (mem s1) (f_data f) (length (listing (filesystem s))) = listing (filesystem s))"
proof (cases "unused_slot (filesystem s) 0")
  case None
  have none: "get_file s (vptr s path) = Ok None" using get_file_find [OF p ok] new by (auto simp: find_None_iff)
  have "unused_slot fs k = None \<Longrightarrow> \<forall>f \<in> set fs. f_in_use f" for fs k
    by (induction fs k rule: unused_slot.induct) (auto split: if_splits)
  then have full: "\<forall>f \<in> set (filesystem s). f_in_use f" using None by blast
  have "kstr ''console'' \<noteq> kstr ''/''" by (simp add: kstr_def)
  then have "open_path s fd path O_RDONLY = Ok (-1, s)" for fd
    using console_name [OF p] str_order_eq_0 [of "kstr ''console''" "kstr ''/''"] str_order_eq_0 [of "kstr ''/''" "kstr ''/''"] none None
    by (simp add: open_path_def alloc_file_def)
  then show ?thesis using full sys_open_path [OF a] by simp
next
  case (Some i)
  note I = unused_slot_spec [OF Some]
  have len: "length (filesystem s) = MAX_FILES" using ok by (simp add: fs_ok_def)
  have il: "i < MAX_FILES" "\<not> f_in_use (filesystem s ! i)" "\<forall>j < i. f_in_use (filesystem s ! j)" using I len by simp_all
  then have c: "\<not> (\<forall>f \<in> set (filesystem s). f_in_use f)" using len nth_mem [of i "filesystem s"] by auto
  show ?thesis
  proof (cases "kheap s (pg # ps) \<and> pgno pg < 1048575")
    case False
    then show ?thesis unfolding if_not_P [OF c] by blast
  next
    case h: True
    obtain s2 where s2: "open_path s (free_fd (open_files s) 0) path O_RDONLY = finish_open s2 (free_fd (open_files s) 0) (Some (Fs i))"
        "tasks s2 = tasks s" "curr_task s2 = curr_task s" "length (filesystem s2) = MAX_FILES"
        "fname (filesystem s2 ! i) = kstr ''/''" "f_type (filesystem s2 ! i) = FT_DIR" "f_in_use (filesystem s2 ! i)" "f_data (filesystem s2 ! i) = pg"
        "f_size (filesystem s2 ! i) = of_nat (length (listing (filesystem s)))"
        "\<forall>j < MAX_FILES. j \<noteq> i \<longrightarrow> filesystem s2 ! j = filesystem s ! j"
        "mem_bytes (mem s2) pg (length (listing (filesystem s))) = listing (filesystem s)"
      using open_root_first [OF ok h [THEN conjunct1] h [THEN conjunct2] p new Some, of "free_fd (open_files s) 0" O_RDONLY] by blast
    have o: "sys_open s regs = finish_open s2 (free_fd (open_files s) 0) (Some (Fs i))" using s2(1) sys_open_path [OF a] by simp
    note F = finish_open_cases [OF t s2(2,3), of i]
    show ?thesis
    proof (cases "None \<in> set (open_files s)")
      case False
      then show ?thesis unfolding if_not_P [OF c] using F o by simp
    next
      case True
      then obtain fd s1 where f: "finish_open s2 (free_fd (open_files s) 0) (Some (Fs i)) = Ok (of_nat fd, s1)" "fd < MAX_OPEN_FILES"
          "open_files s ! fd = None" "\<forall>j < fd. open_files s ! j \<noteq> None" "open_files s1 = (open_files s)[fd := Some (Fs i)]"
          "mem s1 = mem s2" "filesystem s1 = (filesystem s2)[i := (filesystem s2 ! i)\<lparr>f_pos := 0\<rparr>]"
        using F by auto
      have n: "\<not> None \<notin> set (open_files s)" using True by simp
      have e: "filesystem s1 ! i = (filesystem s2 ! i)\<lparr>f_pos := 0\<rparr>" using f(7) il(1) s2(4) by simp
      have oth: "\<forall>j < MAX_FILES. j \<noteq> i \<longrightarrow> filesystem s1 ! j = filesystem s ! j" using f(7) s2(10) by simp
      show ?thesis
        unfolding if_not_P [OF c] if_not_P [OF n] o
        by (intro impI exI [of _ fd] exI [of _ i] exI [of _ s1] exI [of _ "filesystem s1 ! i"] conjI)
          (use f(1-6) il oth s2(5-9,11) in \<open>simp_all add: e fname_def\<close>)
    qed
  qed
qed

section \<open>Properties\<close>

text \<open>
  Property C25: \<^verbatim>\<open>open\<close> for reading of a file of the table takes the lowest descriptor that is not in use and
  makes it refer to the first file with that name, and a \<^verbatim>\<open>read\<close> with this descriptor, whenever the program
  gets to it, delivers the file's bytes into the program's buffer, at most as many as asked for, and
  returns their number.
\<close>

theorem open_read_delivers_file:
  assumes ok: "fs_ok s" and t: "has_task s" and a: "call_args s regs [path, O_RDONLY]"
    and p: "cstring (vptr s path) p" "p \<noteq> kstr ''console''" "p \<noteq> []"
    and i: "i < MAX_FILES" "fname (filesystem s ! i) = p" "\<And>j. j < i \<Longrightarrow> fname (filesystem s ! j) \<noteq> p"
    and f: "f = filesystem s ! i" "f_type f \<noteq> FT_DEV" "unat (f_size f) \<le> 4096"
    and fd: "free_fd (open_files s) 0 = fd" "fd < MAX_OPEN_FILES"
  shows "\<exists>s1. sys_open s regs = Ok (of_nat fd, s1) \<and> mem s1 = mem s \<and> open_files s ! fd = None \<and>
    (\<forall>j < fd. open_files s ! j \<noteq> None) \<and> open_files s1 = (open_files s)[fd := Some (Fs i)] \<and>
    (\<forall>t regs' buf count n. later s1 t \<and> call_args t regs' [of_nat fd, buf, count] \<and>
       buffer_apart t buf (unat count) (f_data f) \<and> n = min (unat count) (unat (f_size f)) \<longrightarrow>
       (\<exists>t'. sys_read t regs' = Ok (of_nat n, t') \<and>
         (\<forall>k < n. vread t' (buf + of_nat k) = Ok (mem t (f_data f + of_nat k)))))"
proof -
  let ?s = "upd_file (opened s fd (Fs i)) i (\<lambda>f. f\<lparr>f_pos := 0\<rparr>)"
  have il: "i < length (filesystem s)" using ok i(1) by (simp add: fs_ok_def)
  have fl: "fd < length (open_files s)" using t fd(2) by (simp add: has_task_def)
  have fs: "filesystem ?s ! i = f\<lparr>f_pos := 0\<rparr>" "length (filesystem ?s) = length (filesystem s)"
    using il f(1) by (simp_all add: upd_file_def)
  have rd: "\<exists>t'. sys_read t regs' = Ok (of_nat n, t') \<and> (\<forall>k < n. vread t' (buf + of_nat k) = Ok (mem t (f_data f + of_nat k)))"
    if L: "later ?s t" and A: "call_args t regs' [of_nat fd, buf, count]" and B: "buffer_apart t buf (unat count) (f_data f)"
      and n: "n = min (unat count) (unat (f_size f))" for t :: "'a k_state_scheme" and regs' buf count n
  proof -
    have ft: "filesystem t ! i = f\<lparr>f_pos := 0\<rparr>" "i < length (filesystem t)"
      using L fs il by (simp_all add: later_def)
    have g: "get_fd t (of_nat fd) = Ok (Some (Fs i))"
      using get_fd_ok [of t fd] later_has_task [OF L] opened_has_task [OF assms(2), of fd "Fs i"] fd(2) fl by simp
    have "sys_read t regs' = read_file t (Fs i) buf count"
      using g f(2) ft(1) by (simp add: sys_read_def Let_def with_args3 [OF A] get_fp_def split: file_type.splits)
    moreover have "\<exists>t'. read_file t (Fs i) buf count = Ok (of_nat n, t') \<and>
        (\<forall>k < n. vread t' (buf + of_nat k) = Ok (mem t (f_data f + of_nat k)))"
      using read_file_spec [OF refl ft(2), unfolded ft(1), of n count buf] f(3) B n by auto
    ultimately show ?thesis by simp
  qed
  moreover have "open_files ?s = (open_files s)[fd := Some (Fs i)]" using opened_has_task(2) [OF t] by simp
  moreover have "mem ?s = mem s" by (simp add: upd_file_def)
  ultimately show ?thesis
    using sys_open_file [OF ok t a p i fd] free_fd_first [of "open_files s"] fd fl
    by (intro exI [of _ ?s]) blast
qed

text \<open>
  Property C28: opening a file that is in the table and in use, for reading or for writing, and closing the
  descriptor again, whenever the program gets to it, leaves the task table exactly as it was before the
  file was opened; \<^verbatim>\<open>close\<close> returns 0 and changes neither memory nor files. (The console is not such a file: its
  descriptor cannot be closed.)
\<close>

theorem open_close_roundtrip:
  assumes ok: "fs_ok s" and t: "has_task s" and a: "call_args s regs [path, flags]" "flags \<in> {O_RDONLY, O_WRONLY, O_RDWR}"
    and p: "cstring (vptr s path) p" "p \<noteq> kstr ''console''" "p \<noteq> []"
    and i: "i < MAX_FILES" "fname (filesystem s ! i) = p" "\<And>j. j < i \<Longrightarrow> fname (filesystem s ! j) \<noteq> p" "f_in_use (filesystem s ! i)"
    and fd: "free_fd (open_files s) 0 = fd" "fd < MAX_OPEN_FILES"
  shows "\<exists>s1. sys_open s regs = Ok (of_nat fd, s1) \<and>
    (\<forall>t regs'. later s1 t \<and> call_args t regs' [of_nat fd] \<longrightarrow>
      (\<exists>t'. sys_close t regs' = Ok (0, t') \<and> tasks t' = tasks s \<and> filesystem t' = filesystem s1 \<and> mem t' = mem t))"
proof -
  obtain s1 where s1: "sys_open s regs = Ok (of_nat fd, s1)" "tasks s1 = tasks (opened s fd (Fs i))" "curr_task s1 = curr_task s"
      "length (filesystem s1) = MAX_FILES" "f_in_use (filesystem s1 ! i)"
    using sys_open_known [OF ok t a p i(1-3) fd] i(4) by blast
  have fl: "fd < length (open_files s)" "curr_task s < length (tasks s)" using t fd(2) by (simp_all add: has_task_def)
  have none: "open_files s ! fd = None" using free_fd_first [of "open_files s"] fd fl by simp
  have h1: "has_task s1" "open_files s1 = (open_files s)[fd := Some (Fs i)]"
    using t s1(2,3) fl by (simp_all add: has_task_def)
  have "\<exists>t'. sys_close t regs' = Ok (0, t') \<and> tasks t' = tasks s \<and> filesystem t' = filesystem s1 \<and> mem t' = mem t"
    if L: "later s1 t" and A: "call_args t regs' [of_nat fd]" for t :: "'a k_state_scheme" and regs'
  proof -
    have h: "has_task t" using later_has_task(1) [OF L] h1(1) by simp
    have g: "get_fd t (of_nat fd) = Ok (Some (Fs i))"
      using get_fd_ok [OF h fd(2)] later_has_task(2) [OF L] h1(2) fl(1) by simp
    have u: "f_in_use (get_fp t (Fs i))" using L s1(5) by (simp add: later_def get_fp_def)
    have ct: "curr_task t = curr_task s" "tasks t = tasks (opened s fd (Fs i))" using L s1(2,3) by (simp_all add: later_def)
    have "sys_close t regs' = bnd (set_fd t fd None) (\<lambda>s. Ok (0, s))"
      using g u by (simp add: sys_close_def with_args1 [OF A] unat_fd [OF fd(2)])
    moreover have "(open_files s)[fd := None] = open_files s" using none by (metis list_update_id)
    ultimately show ?thesis
      using set_fd_ok [OF h fd(2), of None] ct fl(2) L by (simp add: later_def)
  qed
  then show ?thesis using s1(1) by blast
qed

text \<open>
  Property C26: \<^verbatim>\<open>open\<close> of the console gives the lowest descriptor that is not in use, and a \<^verbatim>\<open>write\<close> with it
  sends exactly the bytes of the program's buffer over the serial line and returns their number. The
  console cannot be closed, as \<^verbatim>\<open>in_use\<close> of its file is never set.
\<close>

theorem console_write_sends:
  assumes t: "has_task s" and a: "call_args s regs [path, flags]" "cstring (vptr s path) (kstr ''console'')"
    and fd: "free_fd (open_files s) 0 = fd" "fd < MAX_OPEN_FILES"
    and c: "f_type (console_file s) = FT_DEV" "\<not> f_in_use (console_file s)"
  shows "\<exists>s1. sys_open s regs = Ok (of_nat fd, s1) \<and> open_files s1 = (open_files s)[fd := Some Console_file] \<and>
    (\<forall>t regs' buf n bs. later s1 t \<and> uart_ready t \<and> call_args t regs' [of_nat fd, buf, n] \<and> unat n = length bs \<and>
       (\<forall>k < length bs. vptr t buf k = Ok (bs ! k)) \<longrightarrow> (\<exists>t'. sys_write t regs' = Ok (n, t') \<and> sends t bs t')) \<and>
    (\<forall>t regs'. later s1 t \<and> call_args t regs' [of_nat fd] \<longrightarrow> sys_close t regs' = Ok (-1, t))"
proof -
  let ?s = "opened s fd Console_file"
  have fl: "fd < length (open_files s)" using t fd(2) by (simp add: has_task_def)
  have g: "get_fd t (of_nat fd) = Ok (Some Console_file)" "get_fp t Console_file = console_file s" if "later ?s t" for t
    using get_fd_ok [of t fd] later_has_task [OF that] opened_has_task [OF t, of fd Console_file] fd(2) fl that
    by (simp_all add: later_def get_fp_def)
  have "\<exists>t'. sys_write t regs' = Ok (n, t') \<and> sends t bs t'"
    if "later ?s t" "uart_ready t" "call_args t regs' [of_nat fd, buf, n]" "unat n = length bs"
      "\<forall>k < length bs. vptr t buf k = Ok (bs ! k)" for t :: "'a k_state_scheme" and regs' buf n bs
    using printn_sends [OF that(2), of bs "vptr t buf" n] that(4,5) g [OF that(1)] c(1)
    by (simp add: sys_write_def Let_def with_args3 [OF that(3)])
  moreover have "sys_close t regs' = Ok (-1, t)" if "later ?s t" "call_args t regs' [of_nat fd]"
    for t :: "'a k_state_scheme" and regs'
    using g [OF that(1)] c(2) by (simp add: sys_close_def with_args1 [OF that(2)])
  ultimately show ?thesis
    using sys_open_console [OF t a fd] opened_has_task(2) [OF t, of fd Console_file] by blast
qed

text \<open>
  Property C27: \<^verbatim>\<open>open\<close> for reading, for every name. The console, and a name of the table, is given the lowest
  descriptor that is not in use, which then refers to the console or to the first file with that name. If
  no descriptor is left, the loop over the descriptors does not stop the call, and \<^verbatim>\<open>open_files[8]\<close> is written.
  The name \<^verbatim>\<open>/\<close>, when it is not in the table and there is a free page, is entered into the first slot not in use, as a directory whose
  data is the listing of the regular files; any other name that is not in the table, and \<^verbatim>\<open>/\<close> when the table is full, gives
  -1, and nothing changes.
\<close>

theorem open_for_reading_cases:
  assumes ok: "fs_ok s" and t: "has_task s" and a: "call_args s regs [path, O_RDONLY]" and p: "cstring (vptr s path) p"
  shows "if p = kstr ''console'' \<or> p \<noteq> [] \<and> (\<exists>i < MAX_FILES. fname (filesystem s ! i) = p) then
      (if None \<notin> set (open_files s) then sys_open s regs = Undef ''write past the end of an array''
       else \<exists>fd f s1. sys_open s regs = Ok (of_nat fd, s1) \<and> fd < MAX_OPEN_FILES \<and> open_files s ! fd = None \<and>
         (\<forall>j < fd. open_files s ! j \<noteq> None) \<and> open_files s1 = (open_files s)[fd := Some f] \<and>
         (if p = kstr ''console'' then f = Console_file
          else \<exists>i < MAX_FILES. f = Fs i \<and> fname (filesystem s ! i) = p \<and> (\<forall>j < i. fname (filesystem s ! j) \<noteq> p)))
    else if p \<noteq> kstr ''/'' \<or> (\<forall>f \<in> set (filesystem s). f_in_use f) then sys_open s regs = Ok (-1, s)
    else kheap s (pg # ps) \<and> pgno pg < 1048575 \<longrightarrow>
     (if None \<notin> set (open_files s) then sys_open s regs = Undef ''write past the end of an array''
     else \<exists>fd i s1 f. sys_open s regs = Ok (of_nat fd, s1) \<and> fd < MAX_OPEN_FILES \<and> open_files s ! fd = None \<and>
      (\<forall>j < fd. open_files s ! j \<noteq> None) \<and> open_files s1 = (open_files s)[fd := Some (Fs i)] \<and>
      i < MAX_FILES \<and> \<not> f_in_use (filesystem s ! i) \<and> (\<forall>j < i. f_in_use (filesystem s ! j)) \<and>
      (\<forall>j < MAX_FILES. j \<noteq> i \<longrightarrow> filesystem s1 ! j = filesystem s ! j) \<and> f = filesystem s1 ! i \<and>
      fname f = p \<and> f_type f = FT_DIR \<and> f_in_use f \<and> f_pos f = 0 \<and> f_size f = of_nat (length (listing (filesystem s))) \<and>
      mem_bytes (mem s1) (f_data f) (length (listing (filesystem s))) = listing (filesystem s))"
proof (cases "p = kstr ''console''")
  case True
  then show ?thesis using open_console_cases [OF t a p [unfolded True]] by (cases "None \<in> set (open_files s)") auto
next
  case nc: False
  show ?thesis
  proof (cases "p \<noteq> [] \<and> (\<exists>i < MAX_FILES. fname (filesystem s ! i) = p)")
    case True
    then have "p \<noteq> []" "\<exists>i < MAX_FILES. fname (filesystem s ! i) = p" by blast+
    then show ?thesis using open_file_cases [OF ok t a p nc] nc by (cases "None \<in> set (open_files s)") auto
  next
    case False
    then have c: "\<not> (p = kstr ''console'' \<or> p \<noteq> [] \<and> (\<exists>i < MAX_FILES. fname (filesystem s ! i) = p))" using nc by blast
    have none: "get_file s (vptr s path) = Ok None" using get_file_find [OF p ok] False by (auto simp: find_None_iff)
    show ?thesis
    proof (cases "p = kstr ''/''")
      case False
      then show ?thesis unfolding if_not_P [OF c] using open_path_missing [OF p nc _ none] sys_open_path [OF a] by simp
    next
      case root: True
      have new: "fname (filesystem s ! j) \<noteq> kstr ''/''" if "j < MAX_FILES" for j
        using False that root by (auto simp: kstr_def)
      have r: "(p \<noteq> kstr ''/'' \<or> Q) = Q" for Q using root by simp
      show ?thesis
        unfolding if_not_P [OF c] r by (rule open_root_cases [OF ok t a p [unfolded root] new, folded root])
    qed
  qed
qed

section \<open>Witnesses\<close>

text \<open>
  A program with its page 5 at 0xc0009000, with the contents \<open>U\<close>, and its kernel stack at 0xc000b000, where its
  stack pointer is saved as 0x5200. The page at 0xc000c000 is free and the last of its list.
\<close>

definition caller_mem :: "mem \<Rightarrow> (nat \<Rightarrow> u8) \<Rightarrow> mem" where
  "caller_mem m U = (\<lambda>x. if pgno x = 0xc0009 then U (page_off x)
     else if pgno x = 0xc000b then (if page_off x = 69 then 0x52 else 0)
     else if pgno x = 0xc000c then 0 else m x)"

lemma sample_program:
  "\<exists>m. \<forall>(s :: k_state) U. mem s = caller_mem m U \<and> cr3 s = 0x1000 \<longrightarrow>
    user_esp s 0xc000b000 = 0x5200 \<and> (\<forall>k < 4096. vread s (0x5000 + of_nat k) = Ok (U k)) \<and>
    buffer_apart s 0x5400 16 0xc000a000"
proof -
  obtain m :: mstate where m: "aspace_ok m 0xc0001000 []"
      "tables (mem m) 0xc0001000 = {0xc0001000, 0xc0002000}"
      "page_entry (mem m) 0xc0001000 5 = Some (0x9000 OR PTE_P OR (PTE_RW OR PTE_US))"
    using mapped_sample by blast
  have "user_esp s 0xc000b000 = 0x5200 \<and> (\<forall>k < 4096. vread s (0x5000 + of_nat k) = Ok (U k)) \<and>
      buffer_apart s 0x5400 16 0xc000a000" if M: "mem s = caller_mem (mem m) U" and c: "cr3 s = 0x1000" for s :: k_state and U
  proof -
    have cp: "curr_pgdir s = 0xc0001000" by (simp add: curr_pgdir_def c PHYS_TO_VIRT_def KERN_BASE_def)
    have ch: "changes_only {0xc0009, 0xc000b, 0xc000c} (mem m) (mem s)" by (simp add: M caller_mem_def changes_only_def)
    have d: "{0xc0009, 0xc000b, 0xc000c} \<inter> pgno ` tables (mem m) 0xc0001000 = {}" unfolding m(2) by (simp add: pgno_def)
    note D = aspace_okD(2) [OF m(1)]
    have ok: "pgdir_ok (mem s) (curr_pgdir s)" unfolding cp by (rule pgdir_frame_ok [OF D ch d])
    have tb: "tables (mem s) (curr_pgdir s) = {0xc0001000, 0xc0002000}"
      unfolding cp pgdir_frame_tables [OF D ch d] by (rule m(2))
    have e: "page_entry (mem s) (curr_pgdir s) 5 = Some (0x9000 OR PTE_P OR (PTE_RW OR PTE_US))"
      unfolding cp using pgdir_frame_entry [OF D ch d, of 5] m(3) by simp
    have ub: "user_byte s (0x5000 + of_nat k) = 0xc0009000 + of_nat k" if "k < 4096" for k
      using user_byte_page [OF ok, of "0x5000"] e that sample_frames(1) by (simp add: pgno_def page_off_def)
    have al: "page_aligned (0xc0009000 :: u32)" by (simp add: page_aligned_def)
    have pg: "pgno (0xc0009000 + of_nat k) = 0xc0009" "page_off (0xc0009000 + of_nat k) = k" if "k < 4096" for k
    proof -
      show "pgno (0xc0009000 + of_nat k) = 0xc0009" using pgno_page_offset [OF al that] by (simp add: pgno_def)
      have "unat (0xc0009000 + of_nat k :: u32) = 3221262336 + k" using unat_page_offset [OF al that] by simp
      moreover have "(3221262336 + k) mod 4096 = k" using mod_mult_self4 [of 4096 786441 k] that by simp
      ultimately show "page_off (0xc0009000 + of_nat k) = k" by (simp only: page_off_def)
    qed
    have "user_buffer s 0x5000 4096"
      by (rule user_buffer_page [OF ok]) (use e tb sample_frames(1) in \<open>auto simp: entry_bits page_off_def pgno_def\<close>)
    then have rd: "vread s (0x5000 + of_nat k) = Ok (U k)" if "k < 4096" for k
      using vwrite_user_byte(2) [of s "0x5000" 4096 k] that ub [OF that] pg [OF that] by (simp add: M caller_mem_def)
    have b: "user_buffer s 0x5400 16"
      by (rule user_buffer_page [OF ok]) (use e tb sample_frames(1) in \<open>auto simp: entry_bits page_off_def pgno_def\<close>)
    have "user_byte s (0x5400 + of_nat i) = 0xc0009000 + of_nat (0x400 + i)" if "i < 16" for i
      using ub [of "0x400 + i"] that by (simp add: add.assoc)
    then have "pgno (user_byte s (0x5400 + of_nat i)) \<noteq> pgno 0xc000a000" if "i < 16" for i
      using pg(1) [of "0x400 + i"] that by (simp add: pgno_def [of "0xc000a000"])
    then have "buffer_apart s 0x5400 16 0xc000a000"
      using b by (simp add: buffer_apart_def page_aligned_def KERN_BASE_def)
    moreover have "user_esp s 0xc000b000 = 0x5200"
      by (simp add: user_esp_def load32_def M caller_mem_def esp_offset_def pgno_def page_off_def)
    ultimately show ?thesis using rd by blast
  qed
  then show ?thesis by blast
qed

lemma caller_word:
  fixes s :: k_state
  assumes "\<forall>k < 4096. vread s (0x5000 + of_nat k) = Ok (U k)" and "k + 4 \<le> 4096"
  shows "read_user_mem s (0x5000 + of_nat k) = Ok (Some (ucast (U k) OR push_bit 8 (ucast (U (k + 1))) OR
    push_bit 16 (ucast (U (k + 2))) OR push_bit 24 (ucast (U (k + 3)))))"
proof -
  have "0x5000 + of_nat k + 4 = (0x5000 + of_nat (k + 4) :: u32)" by simp
  moreover have "unat (0x5000 :: u32) = 0x5000" by simp
  ultimately have u: "unat (0x5000 + of_nat k :: u32) = 0x5000 + k" "unat (0x5000 + of_nat k + 4 :: u32) = 0x5000 + (k + 4)"
    using unat_add_lt [of "0x5000" k] unat_add_lt [of "0x5000" "k + 4"] assms(2) by (simp_all only:)
  then have "\<not> KERN_BASE \<le> 0x5000 + of_nat k" "\<not> KERN_BASE \<le> 0x5000 + of_nat k + 4"
    using assms(2) by (simp_all add: word_le_nat_alt KERN_BASE_def)
  moreover have "vread s (0x5000 + of_nat k + 1) = Ok (U (k + 1))" "vread s (0x5000 + of_nat k + 2) = Ok (U (k + 2))"
      "vread s (0x5000 + of_nat k + 3) = Ok (U (k + 3))" "vread s (0x5000 + of_nat k) = Ok (U k)"
    using assms(1) [rule_format, of "k + 1"] assms(1) [rule_format, of "k + 2"] assms(1) [rule_format, of "k + 3"]
      assms(1) [rule_format, of k] assms(2) by (simp_all add: add_ac)
  ultimately show ?thesis by (simp add: read_user_mem_def vload32_def)
qed

definition sample_caller :: "mem \<Rightarrow> (nat \<Rightarrow> u8) \<Rightarrow> file_ref option list \<Rightarrow> k_state" where
  "sample_caller m U fds = (sample_k undefined [zero_task\<lparr>t_open_files := fds\<rparr>] False)\<lparr>mem := caller_mem m U, cr3 := 0x1000, free_pages := 0xc000c000,
     filesystem := zero_file\<lparr>f_size := 3, f_in_use := True, f_data := 0xc000a000, f_name := kstr ''hi'' @ replicate 14 0\<rparr>
       # replicate 31 zero_file,
     console_file := zero_file\<lparr>f_type := FT_DEV\<rparr>\<rparr>"

text \<open>The words at 0x5204 are 0x5300 and 0, and the string at 0x5300 is the given one.\<close>

definition open_call :: "u8 list \<Rightarrow> nat \<Rightarrow> u8" where
  "open_call name k = (if k = 0x205 then 0x53 else if 0x300 \<le> k \<and> k < 0x300 + length name then name ! (k - 0x300) else 0)"

text \<open>The words are 0, 0x5400 and 2, and the bytes at 0x5400 are \<open>ok\<close>.\<close>

definition buffer_call :: "nat \<Rightarrow> u8" where
  "buffer_call k = (if k = 0x209 then 0x54 else if k = 0x20c then 2 else if k = 0x400 then 111 else if k = 0x401 then 107 else 0)"

lemma sample_caller_calls:
  obtains m :: mem where
    "\<And>(s :: k_state) name. mem s = caller_mem m (open_call name) \<Longrightarrow> cr3 s = 0x1000 \<Longrightarrow> 0 \<notin> set name \<Longrightarrow> length name < 100 \<Longrightarrow>
      call_args s 0xc000b000 [0x5300, O_RDONLY] \<and> cstring (vptr s 0x5300) name"
    "\<And>s :: k_state. mem s = caller_mem m buffer_call \<Longrightarrow> cr3 s = 0x1000 \<Longrightarrow>
      call_args s 0xc000b000 [0] \<and> call_args s 0xc000b000 [0, 0x5400, 2] \<and> buffer_apart s 0x5400 2 0xc000a000 \<and>
      (\<forall>k < 2. vptr s 0x5400 k = Ok ([111, 107] ! k))"
proof -
  obtain m :: mem where M: "\<And>(s :: k_state) U. mem s = caller_mem m U \<Longrightarrow> cr3 s = 0x1000 \<Longrightarrow>
      user_esp s 0xc000b000 = 0x5200 \<and> (\<forall>k < 4096. vread s (0x5000 + of_nat k) = Ok (U k)) \<and>
      buffer_apart s 0x5400 16 0xc000a000"
    using sample_program by blast
  have "call_args s 0xc000b000 [0x5300, O_RDONLY] \<and> cstring (vptr s 0x5300) name"
    if "mem s = caller_mem m (open_call name)" "cr3 s = 0x1000" "0 \<notin> set name" "length name < 100" for s :: k_state and name
  proof -
    have e: "user_esp s 0xc000b000 = 0x5200" and r: "\<forall>k < 4096. vread s (0x5000 + of_nat k) = Ok (open_call name k)"
      using M [OF that(1,2)] by simp_all
    have "call_args s 0xc000b000 [0x5300, O_RDONLY]"
      using caller_word [OF r, of "0x204"] caller_word [OF r, of "0x208"] that(4)
      by (simp add: call_args_def All_less_Suc2 read_syscall_arg_def e open_call_def O_RDONLY_def)
    moreover have "vptr s 0x5300 k = Ok (if k < length name then name ! k else 0)" if "k \<le> length name" for k
    proof -
      have "0x5300 + of_nat k = (0x5000 + of_nat (0x300 + k) :: u32)" by simp
      then show ?thesis using r [rule_format, of "0x300 + k"] that \<open>length name < 100\<close> by (simp add: vptr_def open_call_def)
    qed
    then have "cstring (vptr s 0x5300) name" using that(3,4) by (auto simp: cstring_def NUL_SCAN_def)
    ultimately show ?thesis by blast
  qed
  moreover have "call_args s 0xc000b000 [0] \<and> call_args s 0xc000b000 [0, 0x5400, 2] \<and> buffer_apart s 0x5400 2 0xc000a000 \<and>
      (\<forall>k < 2. vptr s 0x5400 k = Ok ([111, 107] ! k))"
    if "mem s = caller_mem m buffer_call" "cr3 s = 0x1000" for s :: k_state
  proof -
    have e: "user_esp s 0xc000b000 = 0x5200" "buffer_apart s 0x5400 16 0xc000a000"
      and r: "\<forall>k < 4096. vread s (0x5000 + of_nat k) = Ok (buffer_call k)"
      using M [OF that(1,2)] by simp_all
    have "call_args s 0xc000b000 [0]" "call_args s 0xc000b000 [0, 0x5400, 2]"
      using caller_word [OF r, of "0x204"] caller_word [OF r, of "0x208"] caller_word [OF r, of "0x20c"]
      by (simp_all add: call_args_def All_less_Suc2 read_syscall_arg_def e(1) buffer_call_def)
    moreover have "\<forall>k < 2. vptr s 0x5400 k = Ok ([111, 107] ! k)"
      using r [rule_format, of "0x400"] r [rule_format, of "0x401"]
      by (simp add: vptr_def buffer_call_def All_less_Suc2 numeral_2_eq_2)
    ultimately show ?thesis using buffer_apart_le [OF e(2), of 2] by simp
  qed
  ultimately show thesis using that by blast
qed

lemma sample_caller_fields:
  assumes "length fds = MAX_OPEN_FILES"
  shows "has_task (sample_caller m U fds)" "fs_ok (sample_caller m U fds)" "open_files (sample_caller m U fds) = fds"
    "mem (sample_caller m U fds) = caller_mem m U" "cr3 (sample_caller m U fds) = 0x1000" "uart_ready (sample_caller m U fds)"
    "fname (filesystem (sample_caller m U fds) ! 0) = kstr ''hi''" "f_in_use (filesystem (sample_caller m U fds) ! 0)"
    "f_type (filesystem (sample_caller m U fds) ! 0) \<noteq> FT_DEV" "f_size (filesystem (sample_caller m U fds) ! 0) = 3"
    "f_data (filesystem (sample_caller m U fds) ! 0) = 0xc000a000" "f_type (console_file (sample_caller m U fds)) = FT_DEV"
    "\<not> f_in_use (console_file (sample_caller m U fds))"
  using assms by (auto simp: sample_caller_def has_task_def sample_k_def fs_ok_def name_ok_def fname_def kstr_def zero_file_def
      MAX_FILES_def MAX_NAME_def uart_ready_def UART_STAT_REG_EMPTY_def)

lemma sample_caller_heap: "kheap (sample_caller m U fds) [0xc000c000]"
  by (simp add: kheap_def sample_caller_def load32_def caller_mem_def pgno_def page_aligned_def NULL_def)

lemma sample_names:
  "0 \<notin> set (kstr ''hi'')" "0 \<notin> set (kstr ''console'')" "length (kstr ''hi'') < 100" "length (kstr ''console'') < 100"
  "kstr ''hi'' \<noteq> kstr ''console''" "kstr ''hi'' \<noteq> kstr ''/''" "kstr ''hi'' \<noteq> []"
  by (simp_all add: kstr_def of_char_def)

lemma sample_free_fd: "free_fd (replicate MAX_OPEN_FILES None) 0 = 0" "0 < MAX_OPEN_FILES"
  by (simp_all add: MAX_OPEN_FILES_def numeral_eq_Suc)

text \<open>The program's next call, with descriptors and files as in \<open>s\<close>.\<close>

definition next_call :: "mem \<Rightarrow> k_state \<Rightarrow> k_state" where
  "next_call m s = (sample_caller m buffer_call [])\<lparr>tasks := tasks s, curr_task := curr_task s, filesystem := filesystem s,
     console_file := console_file s\<rparr>"

lemma next_call_fields:
  "later s (next_call m s)" "mem (next_call m s) = caller_mem m buffer_call" "cr3 (next_call m s) = 0x1000"
  "uart_ready (next_call m s)"
  by (auto simp: next_call_def later_def sample_caller_def sample_k_def uart_ready_def UART_STAT_REG_EMPTY_def)

lemma sample_calls:
  obtains m :: mem where
    "\<And>fds name. length fds = MAX_OPEN_FILES \<Longrightarrow> 0 \<notin> set name \<Longrightarrow> length name < 100 \<Longrightarrow>
      call_args (sample_caller m (open_call name) fds) 0xc000b000 [0x5300, O_RDONLY] \<and>
      cstring (vptr (sample_caller m (open_call name) fds) 0x5300) name"
    "\<And>s. call_args (next_call m s) 0xc000b000 [0]" "\<And>s. call_args (next_call m s) 0xc000b000 [0, 0x5400, 2]"
    "\<And>s. buffer_apart (next_call m s) 0x5400 2 0xc000a000"
    "\<And>s k. k < 2 \<Longrightarrow> vptr (next_call m s) 0x5400 k = Ok ([111, 107] ! k)"
proof -
  obtain m where O: "\<And>(s :: k_state) name. mem s = caller_mem m (open_call name) \<Longrightarrow> cr3 s = 0x1000 \<Longrightarrow> 0 \<notin> set name \<Longrightarrow>
      length name < 100 \<Longrightarrow> call_args s 0xc000b000 [0x5300, O_RDONLY] \<and> cstring (vptr s 0x5300) name"
    and B: "\<And>s :: k_state. mem s = caller_mem m buffer_call \<Longrightarrow> cr3 s = 0x1000 \<Longrightarrow>
      call_args s 0xc000b000 [0] \<and> call_args s 0xc000b000 [0, 0x5400, 2] \<and> buffer_apart s 0x5400 2 0xc000a000 \<and>
      (\<forall>k < 2. vptr s 0x5400 k = Ok ([111, 107] ! k))"
    by (rule sample_caller_calls) blast
  note B' = B [OF next_call_fields(2,3)]
  have "call_args (sample_caller m (open_call name) fds) 0xc000b000 [0x5300, O_RDONLY] \<and>
      cstring (vptr (sample_caller m (open_call name) fds) 0x5300) name"
    if "length fds = MAX_OPEN_FILES" "0 \<notin> set name" "length name < 100" for fds name
    by (rule O [OF sample_caller_fields(4) [OF that(1)] sample_caller_fields(5) [OF that(1)] that(2,3)])
  then show thesis by (rule that [of m]) (use B' in blast)+
qed

theorem open_read_delivers_file_witness:
  "\<exists>(s :: k_state) s1 t t'. sys_open s 0xc000b000 = Ok (0, s1) \<and> later s1 t \<and> sys_read t 0xc000b000 = Ok (2, t') \<and>
    vread t' (0x5400 + of_nat 1) = Ok (mem t (0xc000a000 + of_nat 1))"
proof -
  obtain m where O: "\<And>fds name. length fds = MAX_OPEN_FILES \<Longrightarrow> 0 \<notin> set name \<Longrightarrow> length name < 100 \<Longrightarrow>
      call_args (sample_caller m (open_call name) fds) 0xc000b000 [0x5300, O_RDONLY] \<and>
      cstring (vptr (sample_caller m (open_call name) fds) 0x5300) name"
    and B: "\<And>s. call_args (next_call m s) 0xc000b000 [0, 0x5400, 2]" "\<And>s. buffer_apart (next_call m s) 0x5400 2 0xc000a000"
    by (rule sample_calls) blast
  let ?s = "sample_caller m (open_call (kstr ''hi'')) (replicate MAX_OPEN_FILES None)"
  have len: "length (replicate MAX_OPEN_FILES (None :: file_ref option)) = MAX_OPEN_FILES" by simp
  note F = sample_caller_fields [OF len, of m "open_call (kstr ''hi'')"]
  note A = O [OF len sample_names(1,3)]
  have fd: "free_fd (open_files ?s) 0 = 0" using F(3) sample_free_fd(1) by simp
  have z: "unat (f_size (filesystem ?s ! 0)) \<le> 4096" "0 < MAX_FILES" by (simp_all add: F(10) MAX_FILES_def)
  obtain s1 where s1: "sys_open ?s 0xc000b000 = Ok (of_nat 0, s1)" "\<forall>t regs' buf count n. later s1 t \<and>
      call_args t regs' [of_nat 0, buf, count] \<and> buffer_apart t buf (unat count) (f_data (filesystem ?s ! 0)) \<and>
      n = min (unat count) (unat (f_size (filesystem ?s ! 0))) \<longrightarrow>
      (\<exists>t'. sys_read t regs' = Ok (of_nat n, t') \<and>
        (\<forall>k < n. vread t' (buf + of_nat k) = Ok (mem t (f_data (filesystem ?s ! 0) + of_nat k))))"
    using open_read_delivers_file [OF F(2,1) A [THEN conjunct1] A [THEN conjunct2] sample_names(5,7) z(2) F(7) _ refl F(9) z(1) fd
        sample_free_fd(2)] by blast
  have "call_args (next_call m s1) 0xc000b000 [of_nat 0, 0x5400, 2]" using B(1) by simp
  moreover have "buffer_apart (next_call m s1) 0x5400 (unat (2 :: u32)) (f_data (filesystem ?s ! 0))" using B(2) F(11) by simp
  moreover have "2 = min (unat (2 :: u32)) (unat (f_size (filesystem ?s ! 0)))" by (simp add: F(10))
  ultimately obtain t' where t': "sys_read (next_call m s1) 0xc000b000 = Ok (of_nat 2, t')"
      "\<forall>k < 2. vread t' (0x5400 + of_nat k) = Ok (mem (next_call m s1) (f_data (filesystem ?s ! 0) + of_nat k))"
    using s1(2) next_call_fields(1) by blast
  have "vread t' (0x5400 + of_nat 1) = Ok (mem (next_call m s1) (0xc000a000 + of_nat 1))"
    using t'(2) [rule_format, of 1] unfolding F(11) by simp
  moreover have "sys_read (next_call m s1) 0xc000b000 = Ok (2, t')" "sys_open ?s 0xc000b000 = Ok (0, s1)"
    using t'(1) s1(1) by simp_all
  ultimately show ?thesis using next_call_fields(1) by blast
qed

theorem open_close_roundtrip_witness:
  "\<exists>(s :: k_state) s1 t t'. sys_open s 0xc000b000 = Ok (0, s1) \<and> later s1 t \<and> sys_close t 0xc000b000 = Ok (0, t') \<and>
    tasks t' = tasks s"
proof -
  obtain m where O: "\<And>fds name. length fds = MAX_OPEN_FILES \<Longrightarrow> 0 \<notin> set name \<Longrightarrow> length name < 100 \<Longrightarrow>
      call_args (sample_caller m (open_call name) fds) 0xc000b000 [0x5300, O_RDONLY] \<and>
      cstring (vptr (sample_caller m (open_call name) fds) 0x5300) name"
    and B: "\<And>s. call_args (next_call m s) 0xc000b000 [0]"
    by (rule sample_calls) blast
  let ?s = "sample_caller m (open_call (kstr ''hi'')) (replicate MAX_OPEN_FILES None)"
  have len: "length (replicate MAX_OPEN_FILES (None :: file_ref option)) = MAX_OPEN_FILES" by simp
  note F = sample_caller_fields [OF len, of m "open_call (kstr ''hi'')"]
  note A = O [OF len sample_names(1,3)]
  have fd: "free_fd (open_files ?s) 0 = 0" using F(3) sample_free_fd(1) by simp
  have z: "0 < MAX_FILES" by (simp add: MAX_FILES_def)
  obtain s1 where s1: "sys_open ?s 0xc000b000 = Ok (of_nat 0, s1)" "\<forall>t regs'. later s1 t \<and> call_args t regs' [of_nat 0] \<longrightarrow>
      (\<exists>t'. sys_close t regs' = Ok (0, t') \<and> tasks t' = tasks ?s \<and> filesystem t' = filesystem s1 \<and> mem t' = mem t)"
    using open_close_roundtrip [OF F(2,1) A [THEN conjunct1] _ A [THEN conjunct2] sample_names(5,7) z F(7) _ F(8) fd
        sample_free_fd(2)] by blast
  have "call_args (next_call m s1) 0xc000b000 [of_nat 0]" using B by simp
  then obtain t' where "sys_close (next_call m s1) 0xc000b000 = Ok (0, t')" "tasks t' = tasks ?s"
    using s1(2) next_call_fields(1) by blast
  moreover have "sys_open ?s 0xc000b000 = Ok (0, s1)" using s1(1) by simp
  ultimately show ?thesis using next_call_fields(1) by blast
qed

theorem console_write_sends_witness:
  "\<exists>(s :: k_state) s1 t t'. sys_open s 0xc000b000 = Ok (0, s1) \<and> later s1 t \<and> sys_write t 0xc000b000 = Ok (2, t') \<and>
    sends t [111, 107] t' \<and> sys_close t 0xc000b000 = Ok (-1, t)"
proof -
  obtain m where O: "\<And>fds name. length fds = MAX_OPEN_FILES \<Longrightarrow> 0 \<notin> set name \<Longrightarrow> length name < 100 \<Longrightarrow>
      call_args (sample_caller m (open_call name) fds) 0xc000b000 [0x5300, O_RDONLY] \<and>
      cstring (vptr (sample_caller m (open_call name) fds) 0x5300) name"
    and B: "\<And>s. call_args (next_call m s) 0xc000b000 [0]" "\<And>s. call_args (next_call m s) 0xc000b000 [0, 0x5400, 2]"
      "\<And>s k. k < 2 \<Longrightarrow> vptr (next_call m s) 0x5400 k = Ok ([111, 107] ! k)"
    by (rule sample_calls) blast
  let ?s = "sample_caller m (open_call (kstr ''console'')) (replicate MAX_OPEN_FILES None)"
  have len: "length (replicate MAX_OPEN_FILES (None :: file_ref option)) = MAX_OPEN_FILES" by simp
  note F = sample_caller_fields [OF len, of m "open_call (kstr ''console'')"]
  note A = O [OF len sample_names(2,4)]
  have fd: "free_fd (open_files ?s) 0 = 0" using F(3) sample_free_fd(1) by simp
  obtain s1 where s1: "sys_open ?s 0xc000b000 = Ok (of_nat 0, s1)"
      "\<forall>t regs' buf n bs. later s1 t \<and> uart_ready t \<and> call_args t regs' [of_nat 0, buf, n] \<and> unat n = length bs \<and>
        (\<forall>k < length bs. vptr t buf k = Ok (bs ! k)) \<longrightarrow> (\<exists>t'. sys_write t regs' = Ok (n, t') \<and> sends t bs t')"
      "\<forall>t regs'. later s1 t \<and> call_args t regs' [of_nat 0] \<longrightarrow> sys_close t regs' = Ok (-1, t)"
    using console_write_sends [OF F(1) A [THEN conjunct1] A [THEN conjunct2] fd sample_free_fd(2) F(12,13)] by blast
  have "call_args (next_call m s1) 0xc000b000 [of_nat 0]" "call_args (next_call m s1) 0xc000b000 [of_nat 0, 0x5400, 2]"
    using B(1,2) by simp_all
  moreover have "unat (2 :: u32) = length [111, 107 :: u8]" "\<forall>k < length [111, 107 :: u8]. vptr (next_call m s1) 0x5400 k = Ok ([111, 107] ! k)"
    using B(3) by simp_all
  ultimately obtain t' where "sys_write (next_call m s1) 0xc000b000 = Ok (2, t')" "sends (next_call m s1) [111, 107] t'"
      "sys_close (next_call m s1) 0xc000b000 = Ok (-1, next_call m s1)"
    using s1(2,3) next_call_fields(1,4) by blast
  moreover have "sys_open ?s 0xc000b000 = Ok (0, s1)" using s1(1) by simp
  ultimately show ?thesis using next_call_fields(1) by blast
qed

text \<open>A program that opens the root directory, with one file in the table.\<close>

theorem open_for_reading_cases_witness:
  "\<exists>(s :: k_state) s1. sys_open s 0xc000b000 = Ok (0, s1) \<and> f_type (filesystem s1 ! 1) = FT_DIR \<and> f_size (filesystem s1 ! 1) = 3 \<and>
    mem_bytes (mem s1) (f_data (filesystem s1 ! 1)) 3 = kstr ''hi'' @ [10]"
proof -
  obtain m where O: "\<And>fds name. length fds = MAX_OPEN_FILES \<Longrightarrow> 0 \<notin> set name \<Longrightarrow> length name < 100 \<Longrightarrow>
      call_args (sample_caller m (open_call name) fds) 0xc000b000 [0x5300, O_RDONLY] \<and>
      cstring (vptr (sample_caller m (open_call name) fds) 0x5300) name"
    by (rule sample_calls) blast
  let ?s = "sample_caller m (open_call (kstr ''/'')) (replicate MAX_OPEN_FILES None)"
  have len: "length (replicate MAX_OPEN_FILES (None :: file_ref option)) = MAX_OPEN_FILES" by simp
  have root: "0 \<notin> set (kstr ''/'')" "length (kstr ''/'') < 100" "kstr ''/'' \<noteq> kstr ''console''" "kstr ''/'' \<noteq> kstr ''hi''" "kstr ''/'' \<noteq> []"
    by (simp_all add: kstr_def of_char_def)
  note F = sample_caller_fields [OF len, of m "open_call (kstr ''/'')"]
  note A = O [OF len root(1,2)]
  have rest: "filesystem ?s ! j = zero_file" if "0 < j" "j < MAX_FILES" for j
    using that by (cases j) (simp_all add: sample_caller_def MAX_FILES_def)
  have c1: "\<not> (kstr ''/'' = kstr ''console'' \<or> kstr ''/'' \<noteq> [] \<and> (\<exists>i < MAX_FILES. fname (filesystem ?s ! i) = kstr ''/''))"
  proof -
    have "fname (filesystem ?s ! i) \<noteq> kstr ''/''" if "i < MAX_FILES" for i
      using that rest [of i] F(7) root(4,5) by (cases "i = 0") auto
    then show ?thesis using root(3) by blast
  qed
  have one: "1 < MAX_FILES" "\<not> f_in_use (filesystem ?s ! 1)" using rest [of 1] by (simp_all add: MAX_FILES_def zero_file_def)
  have "length (filesystem ?s) = MAX_FILES" using F(2) by (simp add: fs_ok_def)
  then have c2: "\<not> (kstr ''/'' \<noteq> kstr ''/'' \<or> (\<forall>f \<in> set (filesystem ?s). f_in_use f))" using one by (metis nth_mem)
  have none: "open_files ?s = replicate MAX_OPEN_FILES None" by (rule F(3))
  have c3: "\<not> None \<notin> set (open_files ?s)" unfolding none by (simp add: MAX_OPEN_FILES_def)
  have pg: "pgno 0xc000c000 < 1048575" by (simp add: pgno_def)
  obtain fd i s1 where r: "sys_open ?s 0xc000b000 = Ok (of_nat fd, s1)" "fd < MAX_OPEN_FILES" "\<forall>j < fd. open_files ?s ! j \<noteq> None"
      "\<not> f_in_use (filesystem ?s ! i)" "\<forall>j < i. f_in_use (filesystem ?s ! j)" "f_type (filesystem s1 ! i) = FT_DIR"
      "f_size (filesystem s1 ! i) = of_nat (length (listing (filesystem ?s)))"
      "mem_bytes (mem s1) (f_data (filesystem s1 ! i)) (length (listing (filesystem ?s))) = listing (filesystem ?s)"
    using open_for_reading_cases [OF F(2,1) A [THEN conjunct1] A [THEN conjunct2], of "0xc000c000" "[]"] sample_caller_heap pg
    unfolding if_not_P [OF c1] if_not_P [OF c2] if_not_P [OF c3] by blast
  have "open_files ?s ! 0 = None" unfolding none by (simp add: MAX_OPEN_FILES_def)
  then have "fd = 0" using r(3) by (cases fd) auto
  moreover have "i = 1" using r(4,5) F(8) one(2) by (metis less_one nat_neq_iff)
  moreover have "listing (filesystem ?s) = kstr ''hi'' @ [10]"
  proof -
    have "listing (replicate n zero_file) = []" for n by (induction n) (simp_all add: listing_def zero_file_def)
    then show ?thesis
      by (simp add: sample_caller_def listing_def fname_def kstr_def zero_file_def del: replicate.simps)
  qed
  ultimately show ?thesis using r(1,6-8) by - (rule exI [of _ ?s], rule exI [of _ s1], simp add: kstr_def eval_nat_numeral)
qed

end
