(* ===== verification/ArgStack.thy ===== *)
theory ArgStack
  imports Fork FileCalls
begin

text \<open>
  The argument stack that \<^verbatim>\<open>execv\<close> builds for a new program: \<^verbatim>\<open>prepare_ustack\<close> of \<^verbatim>\<open>sys_proc.c\<close>. A program's memory
  is the one page at address 0, here a page \<open>u\<close> of the kernel's direct mapping; \<open>up\<close> is the page of the
  caller, whose directory is still loaded while the arguments are copied.
\<close>

section \<open>The two pages\<close>

abbreviation user_pte :: "u32 \<Rightarrow> u32" where
  "user_pte u \<equiv> VIRT_TO_PHYS u OR PTE_P OR (PTE_RW OR PTE_US)"

definition arg_space :: "'z mstate_scheme \<Rightarrow> u32 \<Rightarrow> u32 \<Rightarrow> u32 \<Rightarrow> bool" where
  "arg_space s pd u up \<longleftrightarrow> page_aligned u \<and> KERN_BASE \<le> u \<and> pgdir_ok (mem s) pd \<and> NULL \<notin> tables (mem s) pd \<and>
     pgno u \<notin> pgno ` tables (mem s) pd \<and> page_entry (mem s) pd 0 = Some (user_pte u) \<and>
     pgdir_ok (mem s) (curr_pgdir s) \<and> (\<exists>e. page_entry (mem s) (curr_pgdir s) 0 = Some e \<and> up = PHYS_TO_VIRT (frame e)) \<and>
     pgno u \<notin> insert (pgno up) (pgno ` tables (mem s) (curr_pgdir s))"

lemma arg_spaceD:
  assumes "arg_space s pd u up"
  shows "page_aligned u" "KERN_BASE \<le> u" "pgdir_ok (mem s) pd" "NULL \<notin> tables (mem s) pd" "page_aligned up" "pgno u \<noteq> pgno up"
    "page_entry (mem s) pd 0 = Some (user_pte u)"
  using assms by (auto simp: arg_space_def page_aligned_PHYS_TO_VIRT)

lemma arg_space_frame:
  assumes A: "arg_space s pd u up" and ch: "changes_only {pgno u} (mem s) m"
  shows "arg_space (s\<lparr>mem := m\<rparr>) pd u up"
proof -
  have d: "{pgno u} \<inter> pgno ` tables (mem s) pd = {}" "{pgno u} \<inter> pgno ` tables (mem s) (curr_pgdir s) = {}"
    and ok: "pgdir_ok (mem s) pd" "pgdir_ok (mem s) (curr_pgdir s)" using A by (simp_all add: arg_space_def)
  have cp: "curr_pgdir (s\<lparr>mem := m\<rparr>) = curr_pgdir s" by (simp add: curr_pgdir_def)
  note F = pgdir_frame_ok [OF ok(1) ch d(1)] pgdir_frame_ok [OF ok(2) ch d(2)]
    pgdir_frame_tables [OF ok(1) ch d(1)] pgdir_frame_tables [OF ok(2) ch d(2)]
    pgdir_frame_entry [OF ok(1) ch d(1), of 0] pgdir_frame_entry [OF ok(2) ch d(2), of 0]
  show ?thesis using A F by (simp add: arg_space_def cp)
qed

lemma page_0_offset:
  "k < 4096 \<Longrightarrow> pgno (of_nat k :: u32) = 0" "k < 4096 \<Longrightarrow> page_off (of_nat k :: u32) = k"
  "k < 4096 \<Longrightarrow> (of_nat k :: u32) AND 0xfff = of_nat k" "k < 786432 \<Longrightarrow> (of_nat k :: u32) < KERN_BASE"
proof -
  have u: "unat (of_nat k :: u32) = k" if "k < 4294967296" using unat_add_lt [of 0 k] that by simp
  show "k < 4096 \<Longrightarrow> pgno (of_nat k :: u32) = 0" "k < 4096 \<Longrightarrow> page_off (of_nat k :: u32) = k"
    using u by (simp_all add: pgno_def page_off_def)
  show "k < 4096 \<Longrightarrow> (of_nat k :: u32) AND 0xfff = of_nat k" using same_page_offset(2) [of 0 k] by (simp add: page_off_def)
  show "k < 786432 \<Longrightarrow> (of_nat k :: u32) < KERN_BASE" using u by (simp add: word_less_nat_alt KERN_BASE_def)
qed

text \<open>Page 0 of the space that is loaded, through its entry.\<close>

lemma page_0_read:
  assumes ok: "pgdir_ok (mem s) (curr_pgdir s)" and e: "page_entry (mem s) (curr_pgdir s) 0 = Some e" and k: "k < 4096"
  shows "\<exists>x. translate (mem s) (curr_pgdir s) (of_nat k) = Some x \<and> PHYS_TO_VIRT (xl_paddr x) = PHYS_TO_VIRT (frame e) + of_nat k"
    and "vread s (of_nat k) = Ok (mem s (PHYS_TO_VIRT (frame e) + of_nat k))"
proof -
  show x: "\<exists>x. translate (mem s) (curr_pgdir s) (of_nat k) = Some x \<and> PHYS_TO_VIRT (xl_paddr x) = PHYS_TO_VIRT (frame e) + of_nat k"
    using e page_0_offset(1,3) [OF k] by (simp add: translate_page_entry [OF ok] PHYS_TO_VIRT_def add_ac)
  have "\<not> KERN_BASE \<le> (of_nat k :: u32)" using page_0_offset(4) [of k] k by simp
  then show "vread s (of_nat k) = Ok (mem s (PHYS_TO_VIRT (frame e) + of_nat k))" using x by (auto simp: vread_def)
qed

lemma arg_space_read:
  assumes "arg_space s pd u up" and "k < 4096"
  shows "\<exists>x. translate (mem s) (curr_pgdir s) (of_nat k) = Some x \<and> PHYS_TO_VIRT (xl_paddr x) = up + of_nat k"
    and "vread s (of_nat k) = Ok (mem s (up + of_nat k))"
  using page_0_read [of s _ k] assms by (auto simp: arg_space_def)

lemma page_0_load:
  assumes P: "pgdir_ok (mem s) (curr_pgdir s)" "page_entry (mem s) (curr_pgdir s) 0 = Some e" and k: "k + 4 \<le> 4096"
  shows "vload32 s (of_nat k) = Ok (load32 (mem s) (PHYS_TO_VIRT (frame e) + of_nat k))"
    and "read_user_mem s (of_nat k) = Ok (Some (load32 (mem s) (PHYS_TO_VIRT (frame e) + of_nat k)))"
proof -
  let ?p = "PHYS_TO_VIRT (frame e)"
  have "vread s (of_nat k + 1) = Ok (mem s (?p + of_nat k + 1))" "vread s (of_nat k + 2) = Ok (mem s (?p + of_nat k + 2))"
      "vread s (of_nat k + 3) = Ok (mem s (?p + of_nat k + 3))" "vread s (of_nat k) = Ok (mem s (?p + of_nat k))"
    using page_0_read(2) [OF P, of "k + 1"] page_0_read(2) [OF P, of "k + 2"] page_0_read(2) [OF P, of "k + 3"]
      page_0_read(2) [OF P, of k] k by (simp_all add: add_ac)
  then show v: "vload32 s (of_nat k) = Ok (load32 (mem s) (?p + of_nat k))" by (simp add: vload32_def load32_def)
  have "of_nat k < KERN_BASE" "of_nat (k + 4) < KERN_BASE" by (rule page_0_offset(4); use k in simp)+
  then show "read_user_mem s (of_nat k) = Ok (Some (load32 (mem s) (?p + of_nat k)))"
    using v by (simp add: read_user_mem_def linorder_not_le [symmetric] add.commute)
qed

lemma arg_space_load:
  assumes "arg_space s pd u up" and "k + 4 \<le> 4096"
  shows "vload32 s (of_nat k) = Ok (load32 (mem s) (up + of_nat k))"
    and "read_user_mem s (of_nat k) = Ok (Some (load32 (mem s) (up + of_nat k)))"
  using page_0_load [of s _ k] assms by (auto simp: arg_space_def)

text \<open>The copies \<^verbatim>\<open>prepare_ustack\<close> makes.\<close>

lemma arg_space_copy:
  assumes A: "arg_space s pd u up" and n: "0 < n" "p + n \<le> 4096" "off + n \<le> 4096"
    and bs: "bs = map (\<lambda>k. mem s (up + of_nat (p + k))) [0..<n]"
  shows "memcpy_to_another_space s pd (of_nat off) (of_nat p) (of_nat n) = Ok (s\<lparr>mem := put_bytes (mem s) (u + of_nat off) bs\<rparr>)"
proof -
  note D = arg_spaceD [OF A]
  have o: "page_off (of_nat off :: u32) = off" "pgno (of_nat off :: u32) = 0" using page_0_offset(1,2) [of off] n by simp_all
  have len: "length bs = n" by (simp add: bs)
  have un: "unat (of_nat n :: u32) = length bs" using unat_add_lt [of 0 n] n len by simp
  have "source_bytes s (u + of_nat (page_off (of_nat off))) (of_nat p) bs"
  proof (rule source_bytes_user)
    show "pgdir_ok (mem s) (curr_pgdir s)" "pgno u \<notin> pgno ` tables (mem s) (curr_pgdir s)" using A by (auto simp: arg_space_def)
    show "page_off (of_nat off) + length bs \<le> 4096" using o n len by simp
    fix i assume i: "i < length bs"
    then have pi: "p + i < 4096" using n len by simp
    obtain x where x: "translate (mem s) (curr_pgdir s) (of_nat (p + i)) = Some x" "PHYS_TO_VIRT (xl_paddr x) = up + of_nat (p + i)"
      using arg_space_read(1) [OF A pi] by blast
    have "pgno (up + of_nat (p + i)) \<noteq> pgno u" using pgno_page_offset [OF D(5) pi] D(6) by simp
    moreover have "(of_nat (p + i) :: u32) < KERN_BASE" using page_0_offset(4) [of "p + i"] pi by simp
    ultimately show "of_nat p + of_nat i < KERN_BASE \<and> (\<exists>x. translate (mem s) (curr_pgdir s) (of_nat p + of_nat i) = Some x \<and>
        mem s (PHYS_TO_VIRT (xl_paddr x)) = bs ! i \<and> pgno (PHYS_TO_VIRT (xl_paddr x)) \<noteq> pgno u)"
      using x i len by (simp add: bs)
  qed (rule D(1))
  from memcpy_to_another_space_one_page [OF D(3,4) _ user_page_entry [OF D(1), symmetric] D(2) un _ _ this] show ?thesis
    using o D(7) len n by auto
qed

lemma arg_space_word:
  assumes A: "arg_space s pd u up" and off: "off + 4 \<le> 4096"
  shows "copy_word s pd (of_nat off) x = Ok (s\<lparr>mem := store32 (mem s) (u + of_nat off) x\<rparr>)"
proof -
  note D = arg_spaceD [OF A]
  have o: "page_off (of_nat off :: u32) = off" "pgno (of_nat off :: u32) = 0" using page_0_offset(1,2) [of off] off by simp_all
  have "page_entry (mem s) pd (pgno (of_nat off)) = Some (user_pte u)" using D(7) o by simp
  note W = walk_pgdir_page [OF D(3,4) this]
  have top: "unat u + 4096 \<le> 4294967296" using page_aligned_le [OF D(1)] .
  have kb: "KERN_BASE \<le> u + of_nat (off + i)" if "i < 4" for i
    using D(2) off that top by (intro KERN_BASE_offset) linarith+
  have wr: "vwrite t (u + of_nat off + of_nat i) b = Ok (t\<lparr>mem := (mem t)(u + of_nat off + of_nat i := b)\<rparr>)" if "i < 4"
    for t :: "'a mstate_scheme" and i b
    using kb [OF that] by (simp add: vwrite_def add.assoc)
  have "loop_from 0 4 (\<lambda>i t. vwrite t (u + of_nat off + of_nat i) (ucast (drop_bit (8 * i) x))) s =
      Ok (s\<lparr>mem := store32 (mem s) (u + of_nat off) x\<rparr>)"
    using wr [of 0] wr [of 1] wr [of 2] wr [of 3] by (simp add: numeral_eq_Suc store32_def)
  then show ?thesis
    using W by (simp add: copy_word_def Let_def user_page_entry [OF D(1)] mod_PGSIZE o)
qed

section \<open>Strings on a page\<close>

definition page_string :: "mem \<Rightarrow> u32 \<Rightarrow> nat \<Rightarrow> u8 list \<Rightarrow> bool" where
  "page_string m p k w \<longleftrightarrow> k + length w < 4096 \<and> 0 \<notin> set w \<and> (\<forall>j < length w. m (p + of_nat (k + j)) = w ! j) \<and>
     m (p + of_nat (k + length w)) = 0"

lemma page_string_cong:
  assumes "page_string m p k w" and "\<And>j. k \<le> j \<Longrightarrow> j \<le> k + length w \<Longrightarrow> m' (p + of_nat j) = m (p + of_nat j)"
  shows "page_string m' p k w"
  using assms(1) assms(2) [of "k + length w"] assms(2) [of "k + _"] by (auto simp: page_string_def)

lemma page_string_cstring:
  assumes A: "arg_space s pd u up" and p: "page_string (mem s) up k w"
  shows "cstring (vptr s (of_nat k)) w"
proof -
  have "vptr s (of_nat k) j = Ok (mem s (up + of_nat (k + j)))" if "j \<le> length w" for j
    using arg_space_read(2) [OF A, of "k + j"] p that by (simp add: vptr_def page_string_def)
  then show ?thesis using p by (auto simp: cstring_def page_string_def NUL_SCAN_def)
qed

lemma put_bytes_on_page:
  assumes "page_aligned u" and "off + length bs \<le> 4096" and "k < 4096"
  shows "put_bytes m (u + of_nat off) bs (u + of_nat k) = (if off \<le> k \<and> k < off + length bs then bs ! (k - off) else m (u + of_nat k))"
  using put_bytes_loaded_at [OF assms(1,2), of m] assms(3) by (simp add: loaded_at_def)

lemma put_page_string:
  assumes "page_aligned u" and "off + length w < 4096" and "0 \<notin> set w"
  shows "page_string (put_bytes m (u + of_nat off) (w @ [0])) u off w"
proof -
  have "put_bytes m (u + of_nat off) (w @ [0]) (u + of_nat (off + j)) = (w @ [0]) ! j" if "j \<le> length w" for j
    using put_bytes_on_page [OF assms(1), of off "w @ [0]" "off + j" m] assms(2) that by (simp del: of_nat_add)
  then show ?thesis using assms(2,3) by (simp add: page_string_def nth_append del: of_nat_add)
qed

lemma put_bytes_changes:
  "page_aligned u \<Longrightarrow> off + length bs \<le> 4096 \<Longrightarrow> off < 4096 \<Longrightarrow> changes_only {pgno u} m (put_bytes m (u + of_nat off) bs)"
  using put_bytes_page [of u "of_nat off" bs m] page_0_offset(2) [of off] by simp

section \<open>The arguments\<close>

text \<open>
  \<open>arg_vector m up n a ws\<close>: at the address \<open>a\<close> of the page there are pointers to the strings \<open>ws\<close> on the same
  page, none longer than the limit of 170, followed by a null pointer unless there are \<open>n\<close> of them.
\<close>

fun arg_vector :: "mem \<Rightarrow> u32 \<Rightarrow> nat \<Rightarrow> nat \<Rightarrow> u8 list list \<Rightarrow> bool" where
  "arg_vector m up n a [] \<longleftrightarrow> n = 0 \<or> a + 4 \<le> 4096 \<and> load32 m (up + of_nat a) = 0"
| "arg_vector m up n a (w # ws) \<longleftrightarrow> 0 < n \<and> a + 4 \<le> 4096 \<and> length w \<le> 170 \<and>
     (\<exists>p. 0 < p \<and> page_string m up p w \<and> load32 m (up + of_nat a) = of_nat p) \<and> arg_vector m up (n - 1) (a + 4) ws"

lemma arg_vector_length: "arg_vector m up n a ws \<Longrightarrow> length ws \<le> n"
  by (induction ws arbitrary: n a) force+

lemma arg_vector_cong:
  assumes "\<And>k. k < 4096 \<Longrightarrow> m' (up + of_nat k) = m (up + of_nat k)"
  shows "arg_vector m up n a ws \<Longrightarrow> arg_vector m' up n a ws"
proof (induction ws arbitrary: n a)
  have eq: "page_bytes_eq up m m'" using assms by (simp add: page_bytes_eq_def)
  { case Nil then show ?case using page_bytes_load(1) [OF eq, of a] by auto }
  case (Cons w ws)
  then obtain p where p: "0 < p" "page_string m up p w" "load32 m (up + of_nat a) = of_nat p" "a + 4 \<le> 4096" by auto
  have "page_string m' up p w" by (rule page_string_cong [OF p(2)], rule assms) (use p(2) in \<open>simp add: page_string_def\<close>)
  then show ?case using Cons p page_bytes_load(1) [OF eq, of a] by auto
qed

text \<open>Where the copies go, downwards from \<open>e\<close>, and the memory with them.\<close>

fun args_end :: "nat \<Rightarrow> u8 list list \<Rightarrow> nat" where
  "args_end e [] = e"
| "args_end e (w # ws) = args_end (e - (length w + 1)) ws"

fun args_at :: "nat \<Rightarrow> u8 list list \<Rightarrow> nat list" where
  "args_at e [] = []"
| "args_at e (w # ws) = (e - (length w + 1)) # args_at (e - (length w + 1)) ws"

fun put_args :: "mem \<Rightarrow> u32 \<Rightarrow> nat \<Rightarrow> u8 list list \<Rightarrow> mem" where
  "put_args m u e [] = m"
| "put_args m u e (w # ws) = put_args (put_bytes m (u + of_nat (e - (length w + 1))) (w @ [0])) u (e - (length w + 1)) ws"

abbreviation args_size :: "u8 list list \<Rightarrow> nat" where
  "args_size ws \<equiv> sum_list (map (\<lambda>w. length w + 1) ws)"

lemma args_end_size: "args_size ws \<le> e \<Longrightarrow> args_end e ws = e - args_size ws"
  by (induction e ws rule: args_end.induct) auto

lemma length_args_at [simp]: "length (args_at e ws) = length ws"
  by (induction e ws rule: args_at.induct) auto

lemma put_args_other:
  assumes u: "page_aligned u"
  shows "args_size ws \<le> e \<Longrightarrow> e \<le> 4096 \<Longrightarrow> k < 4096 \<Longrightarrow> k < args_end e ws \<or> e \<le> k \<Longrightarrow>
    put_args m u e ws (u + of_nat k) = m (u + of_nat k)"
proof (induction ws arbitrary: m e)
  case (Cons w ws)
  let ?e = "e - (length w + 1)"
  have s: "args_size ws \<le> ?e" "?e \<le> 4096" using Cons.prems by auto
  then have le: "args_end ?e ws \<le> ?e" using args_end_size [of ws ?e] by simp
  then have "k < args_end ?e ws \<or> ?e \<le> k" using Cons.prems by auto
  from Cons.IH [OF s Cons.prems(3) this] show ?case
    using put_bytes_on_page [OF u, of ?e "w @ [0]" k m] Cons.prems le by auto
qed simp

lemma put_args_changes:
  assumes u: "page_aligned u"
  shows "args_size ws \<le> e \<Longrightarrow> e \<le> 4096 \<Longrightarrow> changes_only {pgno u} m (put_args m u e ws)"
proof (induction ws arbitrary: m e)
  case (Cons w ws)
  let ?e = "e - (length w + 1)"
  have 1: "changes_only {pgno u} m (put_bytes m (u + of_nat ?e) (w @ [0]))"
    by (rule put_bytes_changes [OF u]) (use Cons.prems in auto)
  have 2: "changes_only {pgno u} (put_bytes m (u + of_nat ?e) (w @ [0])) (put_args (put_bytes m (u + of_nat ?e) (w @ [0])) u ?e ws)"
    by (rule Cons.IH) (use Cons.prems in auto)
  show ?case unfolding put_args.simps by (rule changes_only_trans [OF 1 2]) simp_all
qed simp

lemma put_args_strings:
  assumes u: "page_aligned u"
  shows "args_size ws \<le> e \<Longrightarrow> e \<le> 4096 \<Longrightarrow> list_all (\<lambda>w. 0 \<notin> set w) ws \<Longrightarrow> j < length ws \<Longrightarrow>
    page_string (put_args m u e ws) u (args_at e ws ! j) (ws ! j) \<and> args_end e ws \<le> args_at e ws ! j \<and>
    args_at e ws ! j + length (ws ! j) < e"
proof (induction ws arbitrary: m e j)
  case (Cons w ws)
  let ?e = "e - (length w + 1)" and ?m = "put_bytes m (u + of_nat (e - (length w + 1))) (w @ [0])"
  have s: "args_size ws \<le> ?e" "?e \<le> 4096" "list_all (\<lambda>w. 0 \<notin> set w) ws" using Cons.prems by auto
  have le: "args_end ?e ws \<le> ?e" using args_end_size [OF s(1)] by simp
  show ?case
  proof (cases j)
    case 0
    have "page_string ?m u ?e w" by (rule put_page_string [OF u]) (use Cons.prems in auto)
    then have "page_string (put_args ?m u ?e ws) u ?e w"
      by (rule page_string_cong, intro put_args_other [OF u s(1,2)]) (use Cons.prems in auto)
    then show ?thesis using 0 Cons.prems le by simp
  next
    case (Suc i)
    then show ?thesis using Cons.IH [OF s, of i ?m] Cons.prems by auto
  qed
qed simp

text \<open>The loop over the arguments.\<close>

lemma ustack_args_run:
  assumes "arg_space s pd u up" and "arg_vector (mem s) up n a ws" and "args_size ws \<le> e" and "e \<le> 4088"
  shows "ustack_args n s pd (of_nat e) (of_nat a) acc =
    Ok (Some (of_nat (args_end e ws), acc @ map of_nat (args_at e ws)), s\<lparr>mem := put_args (mem s) u e ws\<rparr>)"
  using assms
proof (induction ws arbitrary: n s a e acc)
  case Nil
  then show ?case
    using arg_space_load(2) [OF Nil(1), of a] by (cases n) (auto simp: NULL_def)
next
  case (Cons w ws)
  note A = Cons.prems(1)
  obtain k where n: "n = Suc k" using Cons.prems(2) by (cases n) auto
  obtain p where p: "0 < p" "page_string (mem s) up p w" "load32 (mem s) (up + of_nat a) = of_nat p" "a + 4 \<le> 4096"
      "length w \<le> 170" "arg_vector (mem s) up k (a + 4) ws"
    using Cons.prems(2) by (auto simp: n)
  let ?e = "e - (length w + 1)" and ?m = "put_bytes (mem s) (u + of_nat (e - (length w + 1))) (w @ [0])"
  have pl: "p + (length w + 1) \<le> 4096" using p(2) by (simp add: page_string_def)
  have "unat (of_nat p :: u32) = p" using unat_add_lt [of 0 p] pl by simp
  then have nz: "(of_nat p = (0 :: u32)) = False" using p(1) by auto
  have sl: "strlen (vptr s (of_nat p)) = Ok (length w)" by (rule strlen_cstring [OF page_string_cstring [OF A p(2)]])
  have bs: "w @ [0] = map (\<lambda>k. mem s (up + of_nat (p + k))) [0..<length w + 1]"
    using p(2) by (intro nth_equalityI) (auto simp: page_string_def nth_append less_Suc_eq simp del: of_nat_add)
  have cp: "memcpy_to_another_space s pd (of_nat ?e) (of_nat p) (of_nat (length w + 1)) = Ok (s\<lparr>mem := ?m\<rparr>)"
    by (rule arg_space_copy [OF A _ pl _ bs]) (use Cons.prems in auto)
  have we: "(of_nat e :: u32) - of_nat (length w + 1) = of_nat ?e" using Cons.prems(3) by (simp add: of_nat_diff)
  have al: "page_aligned u" by (rule arg_spaceD(1) [OF A])
  have ch: "changes_only {pgno u} (mem s) ?m" by (rule put_bytes_changes [OF al]) (use Cons.prems in auto)
  have "mem (s\<lparr>mem := ?m\<rparr>) (up + of_nat k) = mem s (up + of_nat k)" if "k < 4096" for k
    using changes_onlyD [OF ch, of "up + of_nat k"] pgno_page_offset [OF arg_spaceD(5) [OF A] that] arg_spaceD(6) [OF A] by simp
  from arg_vector_cong [OF this p(6)] have "arg_vector (mem (s\<lparr>mem := ?m\<rparr>)) up k (a + 4) ws" .
  from Cons.IH [OF arg_space_frame [OF A ch] this, of ?e "acc @ [of_nat ?e]"]
  have ih: "ustack_args k (s\<lparr>mem := ?m\<rparr>) pd (of_nat ?e) (of_nat (a + 4)) (acc @ [of_nat ?e]) =
      Ok (Some (of_nat (args_end ?e ws), (acc @ [of_nat ?e]) @ map of_nat (args_at ?e ws)),
        s\<lparr>mem := put_args ?m u ?e ws\<rparr>)"
    using Cons.prems by simp
  have l: "\<not> 4096 div 3 div MAX_ARGC < length w" using p(5) by (simp add: MAX_ARGC_def)
  have a4: "(of_nat a :: u32) + 4 = of_nat (a + 4)" by simp
  show ?case
    by (simp only: n ustack_args.simps arg_space_load [OF A p(4)] p(3) bnd.simps option.simps NULL_def nz sl l if_False Let_def
      we cp a4 ih args_end.simps args_at.simps put_args.simps list.map append_assoc append.simps)
qed

section \<open>The words below the strings\<close>

fun put_words :: "mem \<Rightarrow> u32 \<Rightarrow> nat \<Rightarrow> u32 list \<Rightarrow> mem" where
  "put_words m u e [] = m"
| "put_words m u e (v # vs) = put_words (store32 m (u + of_nat e) v) u (e - 4) vs"

lemma push_words_run:
  assumes "arg_space s pd u up" and "4 * length vs \<le> e" and "e + 4 \<le> 4096"
  shows "push_words vs s pd (of_nat e) = Ok (of_nat (e - 4 * length vs), s\<lparr>mem := put_words (mem s) u e vs\<rparr>)"
  using assms
proof (induction vs arbitrary: s e)
  case (Cons v vs)
  let ?m = "store32 (mem s) (u + of_nat e) v"
  have "changes_only {pgno u} (mem s) ?m" by (rule store32_in_page [OF arg_spaceD(1) [OF Cons.prems(1)] Cons.prems(3)])
  then have "push_words vs (s\<lparr>mem := ?m\<rparr>) pd (of_nat (e - 4)) =
      Ok (of_nat (e - 4 - 4 * length vs), s\<lparr>mem := put_words ?m u (e - 4) vs\<rparr>)"
    using Cons.IH [OF arg_space_frame [OF Cons.prems(1)], of ?m "e - 4"] Cons.prems(2,3) by simp
  moreover have "(of_nat e :: u32) - 4 = of_nat (e - 4)" using Cons.prems(2) by (simp add: of_nat_diff)
  ultimately show ?case by (simp add: arg_space_word [OF Cons.prems(1,3)] diff_diff_left)
qed simp

lemma store32_on_page:
  assumes "k < 4096" and "k < e \<or> e + 4 \<le> k" and "e + 4 \<le> 4096"
  shows "store32 m (u + of_nat e) v (u + of_nat k) = m (u + of_nat k)"
  by (rule store_apart(1), rule apart_offsets) (use assms in auto)

lemma load32_on_page:
  assumes "\<And>j. k \<le> j \<Longrightarrow> j < k + 4 \<Longrightarrow> m' (u + of_nat j) = m (u + of_nat j)"
  shows "load32 m' (u + of_nat k) = load32 m (u + of_nat k)"
  using assms [of k] assms [of "k + 1"] assms [of "k + 2"] assms [of "k + 3"] by (simp add: load32_def add_ac)

lemma put_words_other:
  "4 * length vs \<le> e \<Longrightarrow> e + 4 \<le> 4096 \<Longrightarrow> k < 4096 \<Longrightarrow> k < e + 4 - 4 * length vs \<or> e + 4 \<le> k \<Longrightarrow>
   put_words m u e vs (u + of_nat k) = m (u + of_nat k)"
proof (induction vs arbitrary: m e)
  case (Cons v vs)
  have "store32 m (u + of_nat e) v (u + of_nat k) = m (u + of_nat k)"
    by (rule store32_on_page) (use Cons.prems in \<open>simp_all, linarith\<close>)
  moreover have "put_words (store32 m (u + of_nat e) v) u (e - 4) vs (u + of_nat k) = store32 m (u + of_nat e) v (u + of_nat k)"
    by (rule Cons.IH) (use Cons.prems in \<open>simp_all, linarith\<close>)
  ultimately show ?case by simp
qed simp

lemma put_words_nth:
  "4 * length vs \<le> e \<Longrightarrow> e + 4 \<le> 4096 \<Longrightarrow> j < length vs \<Longrightarrow> load32 (put_words m u e vs) (u + of_nat (e - 4 * j)) = vs ! j"
proof (induction vs arbitrary: m e j)
  case (Cons v vs)
  let ?m = "store32 m (u + of_nat e) v"
  show ?case
  proof (cases j)
    case 0
    have "load32 (put_words ?m u (e - 4) vs) (u + of_nat e) = load32 ?m (u + of_nat e)"
      by (rule load32_on_page, rule put_words_other) (use Cons.prems in auto)
    then show ?thesis using 0 by simp
  next
    case (Suc i)
    then show ?thesis using Cons.IH [of "e - 4" i ?m] Cons.prems by (simp add: diff_diff_left)
  qed
qed simp

lemma put_words_changes:
  assumes u: "page_aligned u"
  shows "4 * length vs \<le> e \<Longrightarrow> e + 4 \<le> 4096 \<Longrightarrow> changes_only {pgno u} m (put_words m u e vs)"
proof (induction vs arbitrary: m e)
  case (Cons v vs)
  have 1: "changes_only {pgno u} m (store32 m (u + of_nat e) v)" by (rule store32_in_page [OF u]) (use Cons.prems in simp)
  have 2: "changes_only {pgno u} (store32 m (u + of_nat e) v) (put_words (store32 m (u + of_nat e) v) u (e - 4) vs)"
    by (rule Cons.IH) (use Cons.prems in simp_all)
  show ?case unfolding put_words.simps by (rule changes_only_trans [OF 1 2]) simp
qed simp

lemma align_word:
  assumes "e < 4294967296"
  shows "(of_nat e :: u32) AND NOT 3 = of_nat (e div 4 * 4)"
proof -
  have u: "unat (of_nat e :: u32) = e" using unat_add_lt [of 0 e] assms by simp
  have "unat ((of_nat e :: u32) AND 3) = unat (of_nat e :: u32) AND unat (3 :: u32)" by (rule unsigned_and_eq)
  also have "unat (3 :: u32) = mask 2" by (simp add: mask_eq_exp_minus_1)
  also have "unat (of_nat e :: u32) AND mask 2 = e mod 4" unfolding u by (simp add: take_bit_eq_mod flip: take_bit_eq_mask)
  finally have m: "unat ((of_nat e :: u32) AND 3) = e mod 4" .
  have "(of_nat e :: u32) AND NOT 3 = of_nat e - (of_nat e AND 3)"
    by (metis add_diff_cancel_right' and_not_add_and)
  also have "(of_nat e :: u32) AND 3 = of_nat (e mod 4)" using m by (metis of_nat_unat ucast_id)
  also have "(of_nat e :: u32) - of_nat (e mod 4) = of_nat (e - e mod 4)" by (simp add: of_nat_diff)
  also have "e - e mod 4 = e div 4 * 4" by (simp add: minus_mod_eq_div_mult)
  finally show ?thesis .
qed

section \<open>The stack of the new program\<close>

text \<open>
  What \<^verbatim>\<open>main(argc, argv)\<close> finds when it is entered with the stack pointer \<open>sp\<close>, where a return address would
  be: the number of arguments, the address of the vector, and in the vector pointers to the strings.
\<close>

definition started_with :: "mem \<Rightarrow> u32 \<Rightarrow> nat \<Rightarrow> u8 list list \<Rightarrow> bool" where
  "started_with m u sp ws \<longleftrightarrow> sp + 12 + 4 * length ws \<le> 4096 \<and> load32 m (u + of_nat (sp + 4)) = of_nat (length ws) \<and>
     load32 m (u + of_nat (sp + 8)) = of_nat (sp + 12) \<and>
     (\<forall>j < length ws. \<exists>q. load32 m (u + of_nat (sp + 12 + 4 * j)) = of_nat q \<and> page_string m u q (ws ! j))"

lemma started_with_cong:
  assumes S: "started_with m u sp ws" and eq: "\<And>k. k < 4096 \<Longrightarrow> m' (u + of_nat k) = m (u + of_nat k)"
  shows "started_with m' u sp ws"
proof -
  have P: "page_string m' u q w" if "page_string m u q w" for q w
    by (rule page_string_cong [OF that], rule eq) (use that in \<open>simp add: page_string_def\<close>)
  have L: "load32 m' (u + of_nat k) = load32 m (u + of_nat k)" if "k + 4 \<le> 4096" for k
    by (rule load32_on_page, rule eq) (use that in linarith)+
  have b: "sp + 12 + 4 * length ws \<le> 4096" using S by (simp add: started_with_def)
  have "\<exists>q. load32 m' (u + of_nat (sp + 12 + 4 * j)) = of_nat q \<and> page_string m' u q (ws ! j)" if j: "j < length ws" for j
  proof -
    obtain q where "load32 m (u + of_nat (sp + 12 + 4 * j)) = of_nat q" "page_string m u q (ws ! j)"
      using S j unfolding started_with_def by blast
    moreover have "sp + 12 + 4 * j + 4 \<le> 4096" using b j by linarith
    ultimately show ?thesis using L P by metis
  qed
  moreover have "load32 m' (u + of_nat (sp + 4)) = of_nat (length ws)" "load32 m' (u + of_nat (sp + 8)) = of_nat (sp + 12)"
    using S L [of "sp + 4"] L [of "sp + 8"] b unfolding started_with_def by (simp_all del: of_nat_add)
  ultimately show ?thesis using b unfolding started_with_def by blast
qed

text \<open>The memory with strings from \<open>e\<close> downwards, and below them the pointers, the vector's address and the number.\<close>

lemma arg_stack_layout:
  fixes m :: mem and u :: u32 and e :: nat and ws :: "u8 list list"
  defines "n \<equiv> length ws" and "m1 \<equiv> put_args m u e ws" and "e2 \<equiv> (args_end e ws - 4) div 4 * 4"
  defines "e3 \<equiv> e2 - 4 * n"
  defines "m2 \<equiv> put_words m1 u e2 (rev (map of_nat (args_at e ws)))"
  defines "m' \<equiv> store32 (store32 m2 (u + of_nat e3) (of_nat (e3 + 4))) (u + of_nat (e3 - 4)) (of_nat n)"
  assumes u: "page_aligned u" and fit: "args_size ws + 4 * n + 20 \<le> e" "e \<le> 4088" and nz: "list_all (\<lambda>w. 0 \<notin> set w) ws"
  shows "started_with m' u (e3 - 8) ws" and "changes_only {pgno u} m m'"
    and "k < e3 - 4 \<Longrightarrow> m' (u + of_nat k) = m (u + of_nat k)"
proof -
  define e1 where "e1 = args_end e ws"
  have e1: "e1 + args_size ws = e" using fit args_end_size [of ws e] by (simp add: e1_def)
  have e2: "e2 + 4 \<le> e1" "e1 < e2 + 8" using e1 fit unfolding e2_def e1_def [symmetric] by linarith+
  have e3: "e3 + 4 * n = e2" "8 \<le> e3" using e1 e2 fit by (simp_all add: e3_def)
  have len: "length (rev (map (of_nat :: nat \<Rightarrow> u32) (args_at e ws))) = n" by (simp add: n_def)
  have sz: "args_size ws \<le> e" "e \<le> 4096" "4 * n \<le> e2" "e2 + 4 \<le> 4096" using fit e1 e2 e3 by linarith+
  have top: "m' (u + of_nat k) = m2 (u + of_nat k)" if "k < 4096" "k < e3 - 4 \<or> e3 + 4 \<le> k" for k
    unfolding m'_def using that e3 sz by (subst store32_on_page, simp, linarith, linarith) (rule store32_on_page; linarith)
  have str: "m2 (u + of_nat k) = m1 (u + of_nat k)" if "k < 4096" "k < e3 + 4 \<or> e2 + 4 \<le> k" for k
    unfolding m2_def by (rule put_words_other) (use that e3 sz len in \<open>simp_all, linarith\<close>)
  show low: "m' (u + of_nat k) = m (u + of_nat k)" if "k < e3 - 4" for k
  proof -
    have "m1 (u + of_nat k) = m (u + of_nat k)"
      unfolding m1_def by (rule put_args_other [OF u sz(1,2)]) (use that e2 e3 sz in \<open>simp, unfold e1_def, linarith\<close>)
    moreover have "m' (u + of_nat k) = m2 (u + of_nat k)" by (rule top) (use that e3 sz in linarith)+
    moreover have "m2 (u + of_nat k) = m1 (u + of_nat k)" by (rule str) (use that e3 sz in linarith)+
    ultimately show ?thesis by simp
  qed
  have S: "page_string m' u (args_at e ws ! j) (ws ! j)" if j: "j < length ws" for j
  proof -
    have P: "page_string m1 u (args_at e ws ! j) (ws ! j)" "e1 \<le> args_at e ws ! j" "args_at e ws ! j + length (ws ! j) < e"
      using put_args_strings [OF u sz(1,2) nz j] by (simp_all add: m1_def e1_def)
    show ?thesis
    proof (rule page_string_cong [OF P(1)])
      fix k assume k: "args_at e ws ! j \<le> k" "k \<le> args_at e ws ! j + length (ws ! j)"
      have b: "k < 4096" "e3 + 4 \<le> k" "e2 + 4 \<le> k" using k P(2,3) e2 e3 sz by linarith+
      show "m' (u + of_nat k) = m1 (u + of_nat k)" using top [OF b(1)] str [OF b(1)] b(2,3) by simp
    qed
  qed
  have V: "load32 m' (u + of_nat (e3 + 4 + 4 * j)) = of_nat (args_at e ws ! j)" if j: "j < length ws" for j
  proof -
    have jn: "n - 1 - j < n" "e2 - 4 * (n - 1 - j) = e3 + 4 + 4 * j" using j e3 by (simp_all add: n_def)
    have "rev (map of_nat (args_at e ws)) ! (n - 1 - j) = (of_nat (args_at e ws ! j) :: u32)"
      using j jn(1) by (simp add: rev_nth n_def)
    moreover have "load32 m2 (u + of_nat (e2 - 4 * (n - 1 - j))) = rev (map of_nat (args_at e ws)) ! (n - 1 - j)"
      unfolding m2_def by (rule put_words_nth) (use sz len jn(1) in linarith)+
    ultimately have "load32 m2 (u + of_nat (e3 + 4 + 4 * j)) = of_nat (args_at e ws ! j)" by (simp only: jn(2))
    moreover have "load32 m' (u + of_nat (e3 + 4 + 4 * j)) = load32 m2 (u + of_nat (e3 + 4 + 4 * j))"
      by (rule load32_on_page, rule top) (use j e3 sz in \<open>simp_all add: n_def\<close>)
    ultimately show ?thesis by simp
  qed
  have N: "load32 m' (u + of_nat (e3 - 4)) = of_nat n" by (simp add: m'_def)
  have A: "load32 m' (u + of_nat e3) = of_nat (e3 + 4)"
  proof -
    have "load32 m' (u + of_nat e3) = load32 (store32 m2 (u + of_nat e3) (of_nat (e3 + 4))) (u + of_nat e3)"
      unfolding m'_def by (rule load32_on_page, rule store32_on_page) (use e3 sz in linarith)+
    then show ?thesis by simp
  qed
  have o: "e3 - 8 + 4 = e3 - 4" "e3 - 8 + 8 = e3" "e3 - 8 + 12 = e3 + 4" using e3 by linarith+
  have "e3 + 4 + 4 * length ws \<le> 4096" using e3 sz by (simp add: n_def)
  moreover have "\<exists>q. load32 m' (u + of_nat (e3 + 4 + 4 * j)) = of_nat q \<and> page_string m' u q (ws ! j)" if "j < length ws" for j
    using V [OF that] S [OF that] by blast
  ultimately show "started_with m' u (e3 - 8) ws" using A N unfolding started_with_def n_def o by blast
  have c1: "changes_only {pgno u} m m1" unfolding m1_def by (rule put_args_changes [OF u sz(1,2)])
  have c2: "changes_only {pgno u} m1 m2" unfolding m2_def by (rule put_words_changes [OF u]) (use sz len in simp_all)
  have c3: "changes_only {pgno u} m2 (store32 m2 (u + of_nat e3) (of_nat (e3 + 4)))"
    by (rule store32_in_page [OF u]) (use e3 sz in linarith)
  have c4: "changes_only {pgno u} (store32 m2 (u + of_nat e3) (of_nat (e3 + 4))) m'"
    unfolding m'_def by (rule store32_in_page [OF u]) (use e3 sz in linarith)
  have "changes_only {pgno u} m m2" by (rule changes_only_trans [OF c1 c2]) simp
  then have "changes_only {pgno u} m (store32 m2 (u + of_nat e3) (of_nat (e3 + 4)))" by (rule changes_only_trans [OF _ c3]) simp
  then show "changes_only {pgno u} m m'" by (rule changes_only_trans [OF _ c4]) simp
qed

text \<open>What \<^verbatim>\<open>prepare_ustack\<close> makes of a vector of at most eight strings, and of a null pointer.\<close>

lemma arg_vector_args:
  "arg_vector m up n a ws \<Longrightarrow> length ws \<le> n \<and> list_all (\<lambda>w. 0 \<notin> set w) ws \<and> args_size ws \<le> 171 * length ws"
proof (induction ws arbitrary: n a)
  case (Cons w ws)
  from Cons.prems have "arg_vector m up (n - 1) (a + 4) ws" "0 < n" "length w \<le> 170" "0 \<notin> set w" by (auto simp: page_string_def)
  then show ?case using Cons.IH [of "n - 1" "a + 4"] by auto
qed simp

lemma prepare_ustack_args:
  assumes A: "arg_space s pd u up" and v: "arg_vector (mem s) up MAX_ARGC a ws" and a: "0 < a" "a < 4096"
  shows "\<exists>sp m'. prepare_ustack s pd (of_nat 4088) (of_nat a) = Ok (Some (of_nat sp), s\<lparr>mem := m'\<rparr>) \<and>
    started_with m' u sp ws \<and> changes_only {pgno u} (mem s) m' \<and> 2600 < sp \<and> (\<forall>k < 2600. m' (u + of_nat k) = mem s (u + of_nat k))"
proof -
  define n where "n = length ws"
  define e1 where "e1 = args_end 4088 ws"
  define e2 where "e2 = (e1 - 4) div 4 * 4"
  define e3 where "e3 = e2 - 4 * n"
  define ps where "ps = map (of_nat :: nat \<Rightarrow> u32) (args_at 4088 ws)"
  define m1 where "m1 = put_args (mem s) u 4088 ws"
  define m2 where "m2 = put_words m1 u e2 (rev ps)"
  define m3 where "m3 = store32 m2 (u + of_nat e3) (of_nat (e3 + 4))"
  define m' where "m' = store32 m3 (u + of_nat (e3 - 4)) (of_nat n)"
  note W = arg_vector_args [OF v, folded n_def] and D = arg_spaceD [OF A]
  have sz: "n \<le> 8" "args_size ws \<le> 1368" using W by (simp_all add: MAX_ARGC_def)
  have e1: "e1 + args_size ws = 4088" using sz args_end_size [of ws 4088] by (simp add: e1_def)
  have e2: "e2 + 4 \<le> e1" "e1 < e2 + 8" using e1 sz unfolding e2_def by linarith+
  have e3: "e3 + 4 * n = e2" "2608 < e3" using e1 e2 sz by (simp_all add: e3_def)
  have le: "args_size ws \<le> 4088" "length ps = n" "4 * length (rev ps) \<le> e2" "e2 + 4 \<le> 4096" "e3 + 4 \<le> 4096" "e3 - 4 + 4 \<le> 4096"
    using sz e1 e2 e3 by (simp_all add: ps_def n_def)
  have L: "started_with m' u (e3 - 8) ws" "changes_only {pgno u} (mem s) m'" "\<And>k. k < e3 - 4 \<Longrightarrow> m' (u + of_nat k) = mem s (u + of_nat k)"
    using arg_stack_layout [OF D(1), where m = "mem s" and e = 4088 and ws = ws] W sz
    unfolding m'_def m3_def m2_def m1_def e3_def e2_def e1_def ps_def n_def by simp_all
  have c1: "changes_only {pgno u} (mem s) m1" unfolding m1_def by (rule put_args_changes [OF D(1)]) (use le in simp_all)
  have A1: "arg_space (s\<lparr>mem := m1\<rparr>) pd u up" by (rule arg_space_frame [OF A c1])
  have c2: "changes_only {pgno u} m1 m2" unfolding m2_def by (rule put_words_changes [OF D(1) le(3,4)])
  have A2: "arg_space (s\<lparr>mem := m2\<rparr>) pd u up" using arg_space_frame [OF A1, of m2] c2 by simp
  have c3: "changes_only {pgno u} m2 m3" unfolding m3_def by (rule store32_in_page [OF D(1) le(5)])
  have A3: "arg_space (s\<lparr>mem := m3\<rparr>) pd u up" using arg_space_frame [OF A2, of m3] c3 by simp
  have r1: "ustack_args MAX_ARGC s pd (of_nat 4088) (of_nat a) [] = Ok (Some (of_nat e1, ps), s\<lparr>mem := m1\<rparr>)"
    using ustack_args_run [OF A v le(1), of "[]"] by (simp add: e1_def ps_def m1_def)
  have al: "(of_nat e1 - 4 :: u32) AND NOT 3 = of_nat e2"
    using align_word [of "e1 - 4"] e1 e2 by (simp add: e2_def of_nat_diff)
  have r2: "push_words (rev ps) (s\<lparr>mem := m1\<rparr>) pd (of_nat e2) = Ok (of_nat e3, s\<lparr>mem := m2\<rparr>)"
    using push_words_run [OF A1 le(3,4)] le(2) by (simp add: m2_def e3_def)
  have w: "(of_nat e3 :: u32) + 4 = of_nat (e3 + 4)" "(of_nat e3 :: u32) - 4 = of_nat (e3 - 4)" "(of_nat (e3 - 4) :: u32) - 4 = of_nat (e3 - 8)"
    using e3 by (simp_all add: of_nat_diff)
  have r3: "copy_word (s\<lparr>mem := m2\<rparr>) pd (of_nat e3) (of_nat (e3 + 4)) = Ok (s\<lparr>mem := m3\<rparr>)"
    using arg_space_word [OF A2 le(5)] by (simp add: m3_def)
  have r4: "copy_word (s\<lparr>mem := m3\<rparr>) pd (of_nat (e3 - 4)) (of_nat n) = Ok (s\<lparr>mem := m'\<rparr>)"
    using arg_space_word [OF A3 le(6)] by (simp add: m'_def)
  have ua: "unat (of_nat a :: u32) = a" using unat_add_lt [of 0 a] a by simp
  have nz: "(of_nat a = NULL) = False" using a ua by (auto simp: NULL_def)
  have "prepare_ustack s pd (of_nat 4088) (of_nat a) = Ok (Some (of_nat (e3 - 8)), s\<lparr>mem := m'\<rparr>)"
    by (simp only: prepare_ustack_def nz if_False r1 bnd.simps option.simps prod.case Let_def al r2 w r3 le(2) r4)
  moreover have "2600 < e3 - 8" "\<forall>k < 2600. m' (u + of_nat k) = mem s (u + of_nat k)" using e3 L(3) by auto
  ultimately show ?thesis using L(1,2) by blast
qed

lemma prepare_ustack_null:
  assumes "arg_space s pd u up"
  shows "prepare_ustack s pd (of_nat 4088) 0 = Ok (Some 4084, s\<lparr>mem := store32 (mem s) (u + of_nat 4088) 0\<rparr>)"
  using arg_space_word [OF assms, of 4088 0] by (simp add: prepare_ustack_def NULL_def)

end
