(* ===== verification/Execv.thy ===== *)
theory Execv
  imports ArgStack
begin

text \<open>
  What \<^verbatim>\<open>execv\<close> makes of a task: the program of a file with its arguments on a fresh stack, in a new
  address space, while the pages of the old one go back to the free list.
\<close>

section \<open>The caller's space while the new one is built\<close>

abbreviation old_pgdir :: "'z k_state_scheme \<Rightarrow> u32" where
  "old_pgdir s \<equiv> t_pgdir (tasks s ! curr_task s)"

definition caller_space :: "'z k_state_scheme \<Rightarrow> u32 set" where
  "caller_space s = insert (user_page s (curr_task s)) (tables (mem s) (old_pgdir s))"

definition caller_kept :: "'z k_state_scheme \<Rightarrow> 'z k_state_scheme \<Rightarrow> bool" where
  "caller_kept s t \<longleftrightarrow> cr3 t = cr3 s \<and> (\<exists>P. changes_only P (mem s) (mem t) \<and> P \<inter> pgno ` caller_space s = {})"

lemma caller_kept_step:
  assumes "caller_kept s t" and "changes_only P (mem t) (mem t')" and "P \<inter> pgno ` caller_space s = {}" and "cr3 t' = cr3 t"
  shows "caller_kept s t'"
proof -
  obtain Q where Q: "changes_only Q (mem s) (mem t)" "Q \<inter> pgno ` caller_space s = {}" using assms(1) by (auto simp: caller_kept_def)
  have "changes_only (Q \<union> P) (mem s) (mem t')" by (rule changes_only_trans [OF Q(1) assms(2)]) simp
  then show ?thesis using assms Q(2) unfolding caller_kept_def by (metis Int_Un_distrib2 Un_empty)
qed

lemma caller_kept_refl: "caller_kept s s"
  by (auto simp: caller_kept_def changes_only_def)

lemma caller_kept_space:
  assumes K: "caller_kept s t" and ok: "task_ok s (curr_task s)" and cr: "curr_pgdir s = old_pgdir s"
  shows "curr_pgdir t = old_pgdir s" "pgdir_ok (mem t) (old_pgdir s)"
    "tables (mem t) (old_pgdir s) = tables (mem s) (old_pgdir s)"
    "\<exists>e. page_entry (mem t) (old_pgdir s) 0 = Some e \<and> user_page s (curr_task s) = PHYS_TO_VIRT (frame e)"
    "k < 4096 \<Longrightarrow> mem t (user_page s (curr_task s) + of_nat k) = mem s (user_page s (curr_task s) + of_nat k)"
    "k < 4096 \<Longrightarrow> vread t (of_nat k) = Ok (mem s (user_page s (curr_task s) + of_nat k))"
proof -
  obtain P where P: "changes_only P (mem s) (mem t)" "P \<inter> pgno ` caller_space s = {}" using K by (auto simp: caller_kept_def)
  have pok: "pgdir_ok (mem s) (old_pgdir s)" using ok by (simp add: task_ok_def)
  have dj: "P \<inter> pgno ` tables (mem s) (old_pgdir s) = {}" using P(2) by (auto simp: caller_space_def)
  show c: "curr_pgdir t = old_pgdir s" using K cr by (simp add: caller_kept_def curr_pgdir_def)
  show p: "pgdir_ok (mem t) (old_pgdir s)" by (rule pgdir_frame_ok [OF pok P(1) dj])
  show "tables (mem t) (old_pgdir s) = tables (mem s) (old_pgdir s)" by (rule pgdir_frame_tables [OF pok P(1) dj])
  obtain e where e: "page_entry (mem s) (old_pgdir s) 0 = Some e" "user_page s (curr_task s) = PHYS_TO_VIRT (frame e)"
    using ok by (auto simp: task_ok_def user_page_def)
  have e': "page_entry (mem t) (old_pgdir s) 0 = Some e" using pgdir_frame_entry [OF pok P(1) dj, of 0] e(1) by simp
  then show "\<exists>e. page_entry (mem t) (old_pgdir s) 0 = Some e \<and> user_page s (curr_task s) = PHYS_TO_VIRT (frame e)" using e(2) by blast
  have al: "page_aligned (user_page s (curr_task s))" by (rule owned_aligned [OF ok]) (simp add: owned_def)
  show m: "mem t (user_page s (curr_task s) + of_nat k) = mem s (user_page s (curr_task s) + of_nat k)" if "k < 4096" for k
    by (rule changes_onlyD [OF P(1)]) (use P(2) pgno_page_offset [OF al that] in \<open>auto simp: caller_space_def\<close>)
  show "vread t (of_nat k) = Ok (mem s (user_page s (curr_task s) + of_nat k))" if "k < 4096"
    using page_0_read(2) [of t e k] c p e' that m [OF that] unfolding e(2) [symmetric] by simp
qed

section \<open>The call, step by step\<close>

lemma execv_run:
  assumes a: "call_args s regs [path, argv]" and mk: "map_kernel s = Ok (pd, s1)"
    and t1: "tasks s1 = tasks s" "curr_task s1 = curr_task s" "curr_task s < length (tasks s)"
    and s2: "s2 = upd_task s1 (curr_task s) (\<lambda>t. t\<lparr>t_pgdir := pd\<rparr>)"
    and gf: "get_file s2 (vptr s2 path) = Ok (Some f)"
    and le: "load_elf s2 (curr_task s) (f_data (get_fp s2 f)) = Ok (0, s3)"
    and t3: "tasks s3 = tasks s2" "curr_task s3 = curr_task s"
    and en: "vload32 s3 (f_data (get_fp s2 f) + e_entry_offset) = Ok start"
    and s4: "s4 = s3\<lparr>mem := store32 (store32 (mem s3) (regs + eip_offset) start) (regs + esp_offset) (PGSIZE - 8)\<rparr>"
    and pu: "prepare_ustack s4 pd (PGSIZE - 8) argv = Ok (Some sp, s4\<lparr>mem := m\<rparr>)"
    and s6: "s6 = upd_task (s4\<lparr>mem := store32 m (regs + esp_offset) sp\<rparr>) (curr_task s)
      (\<lambda>t. t\<lparr>t_open_files := replicate MAX_OPEN_FILES None\<rparr>)"
    and da: "destroy_address_space s6 (old_pgdir s) = Ok s7" "tasks s7 = tasks s6" "curr_task s7 = curr_task s6"
  shows "sys_execv s regs = Ok (0, lcr3 s7 pd)"
    and "tasks s7 = (tasks s)[curr_task s := (tasks s ! curr_task s)\<lparr>t_pgdir := pd, t_open_files := replicate MAX_OPEN_FILES None\<rparr>]"
proof -
  have p: "t_pgdir (tasks s2 ! curr_task s) = pd" "curr_task s2 = curr_task s" using t1 by (simp_all add: s2)
  have t4: "tasks s4 = tasks s2" "curr_task s4 = curr_task s" using t3 by (simp_all add: s4)
  have t6: "tasks s6 = (tasks s)[curr_task s := (tasks s ! curr_task s)\<lparr>t_pgdir := pd, t_open_files := replicate MAX_OPEN_FILES None\<rparr>]"
    using t4 t1 by (simp add: s6 s2)
  have c7: "curr_task s7 = curr_task s" using da(3) t4 by (simp add: s6)
  show "tasks s7 = (tasks s)[curr_task s := (tasks s ! curr_task s)\<lparr>t_pgdir := pd, t_open_files := replicate MAX_OPEN_FILES None\<rparr>]"
    using da(2) t6 by simp
  have p7: "t_pgdir (tasks s7 ! curr_task s7) = pd" using da(2) t6 c7 t1(3) by simp
  have e4: "s3\<lparr>mem := store32 (mem s3) (regs + eip_offset) start\<rparr>
      \<lparr>mem := store32 (mem (s3\<lparr>mem := store32 (mem s3) (regs + eip_offset) start\<rparr>)) (regs + esp_offset) (PGSIZE - 8)\<rparr> = s4"
    by (simp add: s4)
  have l4: "load32 (mem s4) (regs + esp_offset) = PGSIZE - 8" by (simp add: s4)
  have e6: "upd_task (s4\<lparr>mem := m\<rparr>\<lparr>mem := store32 (mem (s4\<lparr>mem := m\<rparr>)) (regs + esp_offset) sp\<rparr>)
      (curr_task (s4\<lparr>mem := m\<rparr>\<lparr>mem := store32 (mem (s4\<lparr>mem := m\<rparr>)) (regs + esp_offset) sp\<rparr>))
      (\<lambda>t. t\<lparr>t_open_files := replicate MAX_OPEN_FILES None\<rparr>) = s6"
    using t4 by (simp add: s6)
  have z: "((0 :: int) < 0) = False" by simp
  show "sys_execv s regs = Ok (0, lcr3 s7 pd)"
    unfolding sys_execv_def Let_def with_args2 [OF a] mk bnd.simps prod.case t1(2) s2 [symmetric] gf option.case p(2) le z if_False
      One_nat_def en e4 t4(1,2) p(1) l4 pu e6 da(1) p7 ..
qed

section \<open>The new space\<close>

lemma new_space_pages:
  assumes h: "kheap s (pd # ps)" and u: "drop kernel_tables ps = u # us"
    and ok: "task_ok s c" and ap: "owned s c \<inter> set (pd # ps) = {}"
  defines "T \<equiv> insert pd (set (take kernel_tables ps))"
  shows "insert u T \<union> set us = set (pd # ps)" "u \<notin> T" "u \<notin> set us" "set us \<inter> T = {}"
    and "q \<in> set (pd # ps) \<Longrightarrow> page_aligned q" "q \<in> set (pd # ps) \<Longrightarrow> q \<noteq> NULL"
    and "p \<in> owned s c \<Longrightarrow> q \<in> set (pd # ps) \<Longrightarrow> pgno p \<noteq> pgno q"
    and "p \<in> set (pd # ps) \<Longrightarrow> q \<in> set (pd # ps) \<Longrightarrow> pgno p = pgno q \<longleftrightarrow> p = q"
proof -
  have d: "distinct (pd # take kernel_tables ps @ u # us)"
    using kheap_distinct [OF h] append_take_drop_id [of kernel_tables ps] u by simp
  have all: "set (pd # take kernel_tables ps @ u # us) = set (pd # ps)"
    using append_take_drop_id [of kernel_tables ps] u by (metis list.simps(15) set_append)
  show "insert u T \<union> set us = set (pd # ps)" unfolding T_def all [symmetric] by auto
  show "u \<notin> T" "u \<notin> set us" "set us \<inter> T = {}" using d by (auto simp: T_def)
  show pg: "page_aligned q" "q \<noteq> NULL" if "q \<in> set (pd # ps)" for q using kheap_page [OF h that] by simp_all
  show "pgno p = pgno q \<longleftrightarrow> p = q" if "p \<in> set (pd # ps)" "q \<in> set (pd # ps)" using pg that pgno_inject by blast
  show "pgno p \<noteq> pgno q" if "p \<in> owned s c" "q \<in> set (pd # ps)"
  proof -
    have "p \<noteq> q" using that ap by blast
    then show ?thesis using owned_aligned [OF ok that(1)] pg(1) [OF that(2)] pgno_inject by blast
  qed
qed

lemma pages_disjoint: "(\<And>p q. p \<in> A \<Longrightarrow> q \<in> B \<Longrightarrow> pgno p \<noteq> pgno q) \<Longrightarrow> pgno ` A \<inter> pgno ` B = {}"
proof (rule equals0I)
  fix x assume apart: "\<And>p q. p \<in> A \<Longrightarrow> q \<in> B \<Longrightarrow> pgno p \<noteq> pgno q" and "x \<in> pgno ` A \<inter> pgno ` B"
  then obtain p q where "p \<in> A" "q \<in> B" "x = pgno p" "x = pgno q" by (elim IntE imageE) blast
  then show False using apart [of p q] by simp
qed

lemma caller_space_owned: "caller_space s \<subseteq> owned s (curr_task s)"
  by (auto simp: caller_space_def owned_def)

lemma caller_string:
  assumes K: "caller_kept s t" and ok: "task_ok s (curr_task s)" and cr: "curr_pgdir s = old_pgdir s"
    and p: "page_string (mem s) (user_page s (curr_task s)) b p"
  shows "cstring (vptr t (of_nat b)) p"
proof -
  have "vptr t (of_nat b) j = Ok (mem s (user_page s (curr_task s) + of_nat (b + j)))" if "j \<le> length p" for j
    using caller_kept_space(6) [OF K ok cr, of "b + j"] p that by (simp add: vptr_def page_string_def)
  then show ?thesis using p by (auto simp: cstring_def page_string_def NUL_SCAN_def)
qed

lemma execv_loaded:
  assumes h: "kheap s (pd # ps)" and u: "drop kernel_tables ps = u # us" "KERN_BASE \<le> u"
    and c: "curr_task s < length (tasks s)" "task_ok s (curr_task s)" "curr_pgdir s = old_pgdir s"
      "owned s (curr_task s) \<inter> set (pd # ps) = {}"
    and path: "page_string (mem s) (user_page s (curr_task s)) b p" "p \<noteq> []"
    and i: "fs_ok s" "i < MAX_FILES" "fname (filesystem s ! i) = p" "\<And>j. j < i \<Longrightarrow> fname (filesystem s ! j) \<noteq> p"
    and f: "f_data (filesystem s ! i) = ehdr"
    and prog: "elf_prog (mem s) ehdr vaddr seg memsz" and apart: "pgno ehdr \<notin> pgno ` set (pd # ps)"
    and start: "load32 (mem s) (ehdr + e_entry_offset) = start"
  defines "T \<equiv> insert pd (set (take kernel_tables ps))"
  obtains s1 s2 s3 where "map_kernel s = Ok (pd, s1)" "tasks s1 = tasks s" "curr_task s1 = curr_task s"
    "s2 = upd_task s1 (curr_task s) (\<lambda>t. t\<lparr>t_pgdir := pd\<rparr>)"
    "get_file s2 (vptr s2 (of_nat b)) = Ok (Some (Fs i))" "f_data (get_fp s2 (Fs i)) = ehdr"
    "load_elf s2 (curr_task s) ehdr = Ok (0, s3)" "tasks s3 = tasks s2" "curr_task s3 = curr_task s"
    "vload32 s3 (ehdr + e_entry_offset) = Ok start"
    "aspace_ok s3 pd us" "tables (mem s3) pd = T" "page_entry (mem s3) pd 0 = Some (user_pte u)"
    "\<forall>k < length seg. mem s3 (u + of_nat (page_off vaddr + k)) = seg ! k"
    "cr3 s3 = cr3 s" "changes_only (pgno ` insert u T) (mem s) (mem s3)"
proof -
  note G = new_space_pages [OF h u(1) c(2,4), folded T_def]
  have len: "kernel_tables \<le> length ps" using u(1) by (metis drop_all linear list.distinct(1))
  obtain s1 where s1: "map_kernel s = Ok (pd, s1)" "aspace_ok s1 pd (u # us)" "tables (mem s1) pd = T"
      "free_slots pd s1 = {..<1024} - ({0} \<union> {768..<1024})" "changes_only (pgno ` T) (mem s) (mem s1)"
      "cr3 s1 = cr3 s" "mstate.more s1 = mstate.more s"
    using map_kernel_spec [OF h len, unfolded u(1), folded T_def] by blast
  note m1 = k_more [OF s1(7)]
  define s2 where "s2 = upd_task s1 (curr_task s) (\<lambda>t. t\<lparr>t_pgdir := pd\<rparr>)"
  have sub: "T \<subseteq> set (pd # ps)" "insert u T \<subseteq> set (pd # ps)" unfolding G(1) [symmetric] by blast+
  have "pgno q \<noteq> pgno p" if "q \<in> T" "p \<in> caller_space s" for p q
    using G(7) [of p q] that sub(1) caller_space_owned [of s] by (metis subsetD)
  then have TP: "pgno ` T \<inter> pgno ` caller_space s = {}" "pgno ehdr \<notin> pgno ` insert u T"
    using apart image_mono [OF sub(2), of pgno] by (blast, metis subsetD)
  have K: "caller_kept s s2"
    by (rule caller_kept_step [OF caller_kept_refl, where P = "pgno ` T"]) (use s1(5,6) TP(1) in \<open>simp_all add: s2_def\<close>)
  have "List.find (\<lambda>i. fname (filesystem s ! i) = p) [0..<MAX_FILES] = Some i"
    by (rule find_first) (use i in auto)
  then have gf: "get_file s2 (vptr s2 (of_nat b)) = Ok (Some (Fs i))"
    using get_file_find [OF caller_string [OF K c(2,3) path(1)], of s2] i(1) path(2) m1 by (simp add: s2_def fs_ok_def)
  have fp: "f_data (get_fp s2 (Fs i)) = ehdr" using f m1 by (simp add: s2_def get_fp_def)
  note P = elf_prog_fields [OF prog]
  have pe1: "page_bytes_eq ehdr (mem s) (mem s2)"
    unfolding s2_def by (rule page_bytes_eq_changes [OF P(1), where P = "pgno ` T"]) (use s1(5) TP(2) in simp_all)
  have a2: "aspace_ok s2 pd (u # us)" "tables (mem s2) pd = T" "0 \<notin> free_slots pd s2" "t_pgdir (tasks s2 ! curr_task s) = pd"
    using s1(2-4) m1 c(1) by (simp_all add: s2_def)
  have nn: "NULL \<notin> tables (mem s2) pd" using G(1,6) a2(2) by blast
  have hd: "pgno ehdr \<notin> insert (pgno u) (pgno ` tables (mem s2) pd)" using TP(2) a2(2) by simp
  obtain s3 where s3: "load_elf s2 (curr_task s) ehdr = Ok (0, s3)" "aspace_ok s3 pd us" "tables (mem s3) pd = T"
      "page_entry (mem s3) pd 0 = Some (user_pte u)" "loaded_at (mem s2) (mem s3) u (page_off vaddr) seg"
      "changes_only (insert (pgno u) (pgno ` T)) (mem s2) (mem s3)" "cr3 s3 = cr3 s2" "mstate.more s3 = mstate.more s2"
    using load_elf_spec [OF elf_prog_cong [OF prog pe1] a2(4,1,3) nn hd u(2), unfolded a2(2)]
    by blast
  note m3 = k_more [OF s3(8)]
  have "page_bytes_eq ehdr (mem s2) (mem s3)" by (rule page_bytes_eq_changes [OF P(1) s3(6) TP(2) [unfolded image_insert]])
  then have en: "vload32 s3 (ehdr + e_entry_offset) = Ok start"
    using vload_kernel(1) [OF P(1,2), of 24 s3] page_bytes_load(1) [OF pe1, of 24]
      page_bytes_load(1) [of ehdr "mem s2" "mem s3" 24] start by (simp add: e_entry_offset_def)
  have ld: "\<forall>k < length seg. mem s3 (u + of_nat (page_off vaddr + k)) = seg ! k"
    using s3(5) prog by (simp add: loaded_at_def elf_prog_def del: of_nat_add)
  have ch: "changes_only (pgno ` insert u T) (mem s) (mem s3)"
    by (rule changes_only_trans [OF s1(5) s3(6) [unfolded s2_def upd_task_simps]]) simp
  show thesis
    by (rule that [OF s1(1) m1(1,2) s2_def gf fp s3(1) m3(1) _ en s3(2-4) ld _ ch])
      (use m1 m3 s1(6) s3(7) in \<open>simp_all add: s2_def\<close>)
qed

text \<open>The old space goes back to the free list.\<close>

lemma caller_space_freed:
  assumes K: "caller_kept s t" and ok: "task_ok s (curr_task s)" and cr: "curr_pgdir s = old_pgdir s"
    and h: "kheap t us" and dj: "caller_space s \<inter> set us = {}"
  obtains t' qs where "destroy_address_space t (old_pgdir s) = Ok t'" "kheap t' qs" "mset qs = mset us + mset_set (caller_space s)"
    "changes_only (pgno ` caller_space s) (mem t) (mem t')" "mstate.more t' = mstate.more t"
proof -
  let ?pd = "old_pgdir s" and ?u = "user_page s (curr_task s)"
  note C = caller_kept_space [OF K ok cr]
  let ?st = "slot_tables (mem t) ?pd 1024"
  have tb: "tables (mem t) ?pd = insert ?pd (set ?st)" "?pd \<notin> set ?st" "distinct ?st"
    using tables_slot_tables [OF C(2)] slot_tables_distinct [OF C(2)] by auto
  obtain e where e: "page_entry (mem t) ?pd 0 = Some e" "?u = PHYS_TO_VIRT (frame e)" using C(4) by blast
  have cs: "caller_space s = insert ?u (tables (mem t) ?pd)" by (simp add: caller_space_def C(3))
  have nn: "NULL \<notin> tables (mem t) ?pd" "?u \<noteq> NULL" "?u \<notin> set us" "?u \<notin> tables (mem t) ?pd"
    using ok dj C(3) by (auto simp: task_ok_def owned_def caller_space_def)
  have a: "aspace_ok t ?pd us" using h C(2) dj unfolding aspace_ok_def cs by blast
  obtain t' where t': "destroy_address_space t ?pd = Ok t'" "kheap t' (?pd # rev ?st @ ?u # us)"
      "changes_only (insert (pgno ?u) (pgno ` tables (mem t) ?pd)) (mem t) (mem t')" "mstate.more t' = mstate.more t"
    using destroy_address_space_spec [OF a nn(1) e nn(2-4)] by blast
  have "distinct (?pd # ?st @ [?u])" using tb(2,3) nn(4) unfolding tb(1) by auto
  then have "mset_set (set (?pd # ?st @ [?u])) = mset (?pd # ?st @ [?u])" by (rule mset_set_set)
  moreover have "caller_space s = set (?pd # ?st @ [?u])" unfolding cs tb(1) by auto
  ultimately have "mset (?pd # rev ?st @ ?u # us) = mset us + mset_set (caller_space s)" by simp
  moreover have "changes_only (pgno ` caller_space s) (mem t) (mem t')" using t'(3) unfolding cs by simp
  ultimately show thesis using that t'(1,2,4) by blast
qed

text \<open>The arguments are copied while the old space is loaded.\<close>

lemma kstack_apart:
  assumes "task_ok s (curr_task s)"
  shows "page_aligned (t_kstack (tasks s ! curr_task s))" "pgno (t_kstack (tasks s ! curr_task s)) \<notin> pgno ` caller_space s"
proof -
  let ?r = "t_kstack (tasks s ! curr_task s)"
  show al: "page_aligned ?r" using assms by (simp add: task_ok_def)
  have "?r \<notin> caller_space s" using assms by (simp add: task_ok_def caller_space_def)
  moreover have "page_aligned q" if "q \<in> caller_space s" for q
    using owned_aligned [OF assms] that caller_space_owned [of s] by blast
  ultimately show "pgno ?r \<notin> pgno ` caller_space s" using pgno_inject [OF al] by (metis imageE)
qed

lemma execv_stack:
  assumes h: "kheap s (pd # ps)" and u: "drop kernel_tables ps = u # us" "KERN_BASE \<le> u"
    and c: "task_ok s (curr_task s)" "curr_pgdir s = old_pgdir s" "owned s (curr_task s) \<inter> set (pd # ps) = {}"
    and argv: "arg_vector (mem s) (user_page s (curr_task s)) MAX_ARGC a ws" "0 < a" "a < 4096"
    and s3: "aspace_ok s3 pd us" "tables (mem s3) pd = insert pd (set (take kernel_tables ps))" "page_entry (mem s3) pd 0 = Some (user_pte u)"
      "cr3 s3 = cr3 s" "changes_only (pgno ` insert u (insert pd (set (take kernel_tables ps)))) (mem s) (mem s3)"
    and r: "r = t_kstack (tasks s ! curr_task s)"
    and s4: "s4 = s3\<lparr>mem := store32 (store32 (mem s3) (r + of_nat 4072) start) (r + of_nat 4084) (PGSIZE - 8)\<rparr>"
  obtains sp m where "prepare_ustack s4 pd (PGSIZE - 8) (of_nat a) = Ok (Some (of_nat sp), s4\<lparr>mem := m\<rparr>)"
    "started_with m u sp ws" "\<forall>k < 2600. m (u + of_nat k) = mem s3 (u + of_nat k)"
    "load32 m (r + of_nat 4072) = start" "changes_only {pgno u, pgno r} (mem s3) m"
    "caller_kept s (s4\<lparr>mem := m\<rparr>)"
proof -
  define T where "T = insert pd (set (take kernel_tables ps))"
  define up where "up = user_page s (curr_task s)"
  note G = new_space_pages [OF h u(1) c(1,3), folded T_def] and S = s3 [folded T_def] and R = kstack_apart [OF c(1), folded r]
  have sub: "T \<subseteq> set (pd # ps)" "u \<in> set (pd # ps)" unfolding G(1) [symmetric] by blast+
  have ap: "pgno p \<noteq> pgno q" if "p \<in> insert r (caller_space s)" "q \<in> insert u T" for p q
  proof -
    have "r \<in> owned s (curr_task s)" by (simp add: r owned_def)
    then have "p \<in> owned s (curr_task s)" "q \<in> set (pd # ps)" using that caller_space_owned [of s] sub by auto
    then show ?thesis by (rule G(7))
  qed
  have al: "page_aligned u" by (rule G(5) [OF sub(2)])
  have m4: "mem s4 = store32 (store32 (mem s3) (r + of_nat 4072) start) (r + of_nat 4084) (PGSIZE - 8)" by (simp add: s4)
  have ch4: "changes_only {pgno r} (mem s3) (mem s4)"
  proof -
    have 1: "changes_only {pgno r} (mem s3) (store32 (mem s3) (r + of_nat 4072) start)" by (rule store32_in_page [OF R(1)]) simp
    have 2: "changes_only {pgno r} m (store32 m (r + of_nat 4084) v)" for m v by (rule store32_in_page [OF R(1)]) simp
    show ?thesis unfolding m4 using changes_only_trans [OF 1 2] by (simp only: Un_absorb order_refl)
  qed
  have c4: "cr3 s4 = cr3 s3" by (simp add: s4)
  have TP: "pgno ` insert u T \<inter> pgno ` caller_space s = {}" "{pgno r} \<inter> pgno ` T = {}" "{pgno u} \<inter> pgno ` caller_space s = {}"
    "pgno u \<noteq> pgno r" using ap by (force, force, force, metis insertI1)
  have K3: "caller_kept s s3" by (rule caller_kept_step [OF caller_kept_refl S(5) TP(1) S(4)])
  have K4: "caller_kept s s4" by (rule caller_kept_step [OF K3 ch4 _ c4]) (use R(2) in blast)
  note C4 = caller_kept_space [OF K4 c(1,2)]
  note D = pgdir_frame_ok [OF aspace_okD(2) [OF S(1)] ch4] pgdir_frame_tables [OF aspace_okD(2) [OF S(1)] ch4]
    pgdir_frame_entry [OF aspace_okD(2) [OF S(1)] ch4]
  have uT: "pgno u \<notin> pgno ` T" using G(8) [OF sub(2)] G(2) sub(1) by blast
  have "NULL \<notin> T" using G(6) sub(1) by blast
  moreover have "pgno u \<notin> insert (pgno up) (pgno ` tables (mem s) (old_pgdir s))"
    using TP(3) by (auto simp: caller_space_def up_def)
  ultimately have A: "arg_space s4 pd u up"
    using al u(2) D TP(2) uT S(2,3) C4(1-4) by (simp add: arg_space_def up_def)
  have V: "arg_vector (mem s4) up MAX_ARGC a ws"
    by (rule arg_vector_cong [OF _ argv(1) [folded up_def]]) (use C4(5) in \<open>simp add: up_def\<close>)
  obtain sp m where M: "prepare_ustack s4 pd (of_nat 4088) (of_nat a) = Ok (Some (of_nat sp), s4\<lparr>mem := m\<rparr>)"
      "started_with m u sp ws" "changes_only {pgno u} (mem s4) m" "\<forall>k < 2600. m (u + of_nat k) = mem s4 (u + of_nat k)"
    using prepare_ustack_args [OF A V argv(2,3)] by blast
  have uk: "mem s4 (u + of_nat k) = mem s3 (u + of_nat k)" if "k < 4096" for k
    by (rule changes_onlyD [OF ch4]) (use pgno_page_offset [OF al that] TP(4) in simp)
  have "page_bytes_eq r (mem s4) m" by (rule page_bytes_eq_changes [OF R(1) M(3)]) (use TP(4) in simp)
  then have "load32 m (r + of_nat 4072) = load32 (mem s4) (r + of_nat 4072)" by (rule page_bytes_load) simp
  moreover have "load32 (mem s4) (r + of_nat 4072) = load32 (store32 (mem s3) (r + of_nat 4072) start) (r + of_nat 4072)"
    unfolding m4 by (rule load32_on_page, rule store32_on_page) auto
  ultimately have st: "load32 m (r + of_nat 4072) = start" by simp
  have "changes_only {pgno u, pgno r} (mem s3) m" by (rule changes_only_trans [OF ch4 M(3)]) simp
  moreover have "caller_kept s (s4\<lparr>mem := m\<rparr>)" by (rule caller_kept_step [OF K4 _ TP(3)]) (use M(3) in simp_all)
  moreover have pe: "(PGSIZE - 8 :: u32) = of_nat 4088" by (simp add: PGSIZE_def)
  have "\<forall>k < 2600. m (u + of_nat k) = mem s3 (u + of_nat k)" using M(4) uk by simp
  ultimately show thesis using that [OF M(1) [folded pe] M(2)] st by blast
qed

text \<open>The stores into the frame and the end of the old space leave the new program as it was built.\<close>

lemma new_program_kept:
  assumes al: "page_aligned u" "page_aligned r" "pgno u \<noteq> pgno r"
    and pd: "pgdir_ok m3 pd" "page_entry m3 pd 0 = Some (user_pte u)"
    and ch: "changes_only {pgno u, pgno r} m3 m" "changes_only Q (store32 m (r + of_nat 4084) sp) m7"
    and Q: "pgno u \<notin> Q" "pgno r \<notin> Q" "insert (pgno u) (insert (pgno r) Q) \<inter> pgno ` tables m3 pd = {}"
  shows "k < 4096 \<Longrightarrow> m7 (u + of_nat k) = m (u + of_nat k)"
    and "load32 m7 (r + of_nat 4072) = load32 m (r + of_nat 4072)" "load32 m7 (r + of_nat 4084) = sp"
    and "k < 4096 \<Longrightarrow> \<exists>x. translate m7 pd (of_nat k) = Some x \<and> xl_user x \<and> xl_write x \<and> PHYS_TO_VIRT (xl_paddr x) = u + of_nat k"
proof -
  let ?m6 = "store32 m (r + of_nat 4084) sp"
  have ch6: "changes_only {pgno r} m ?m6" by (rule store32_in_page [OF al(2)]) simp
  have on: "m7 (q + of_nat k) = ?m6 (q + of_nat k)" if "page_aligned q" "pgno q \<notin> Q" "k < 4096" for q k
    by (rule changes_onlyD [OF ch(2)]) (use pgno_page_offset [OF that(1,3)] that(2) in simp)
  show "m7 (u + of_nat k) = m (u + of_nat k)" if "k < 4096" for k
  proof -
    have "?m6 (u + of_nat k) = m (u + of_nat k)"
      by (rule changes_onlyD [OF ch6]) (use pgno_page_offset [OF al(1) that] al(3) in simp)
    then show ?thesis using on [OF al(1) Q(1) that] by simp
  qed
  have "page_bytes_eq r ?m6 m7" using on [OF al(2) Q(2)] by (simp add: page_bytes_eq_def)
  note W = page_bytes_load(1) [OF this]
  show "load32 m7 (r + of_nat 4072) = load32 m (r + of_nat 4072)" "load32 m7 (r + of_nat 4084) = sp"
    using W [of 4072] W [of 4084] load32_on_page [of 4072 ?m6 r m] store32_on_page [of _ 4084 m r sp] by auto
  have "changes_only {pgno u, pgno r} m3 ?m6" by (rule changes_only_trans [OF ch(1) ch6]) simp
  then have ch7: "changes_only (insert (pgno u) (insert (pgno r) Q)) m3 m7" by (rule changes_only_trans [OF _ ch(2)]) blast
  note P = pgdir_frame_ok [OF pd(1) ch7 Q(3)] pgdir_frame_entry [OF pd(1) ch7 Q(3), of 0]
  show "\<exists>x. translate m7 pd (of_nat k) = Some x \<and> xl_user x \<and> xl_write x \<and> PHYS_TO_VIRT (xl_paddr x) = u + of_nat k"
    if "k < 4096" by (rule user_page_translate [OF P(1) al(1) _ that]) (use P(2) pd(2) in simp)
qed

section \<open>Property\<close>

text \<open>
  Property C7: \<^verbatim>\<open>execv\<close> of a task whose memory is whole, with the name of a file that holds a program and a
  vector of at most eight arguments of at most 170 characters, returns 0 and leaves the task in a new address space
  that is loaded: page 0 is a page from the free list in which the bytes of the program's segment below
  the stack are those of the file and the stack holds \<^verbatim>\<open>argc\<close>, \<^verbatim>\<open>argv\<close> and the strings as \<^verbatim>\<open>main\<close> expects
  them, and the frame returns to the program's entry point with the stack pointer below them. All
  descriptors are closed, nothing else of the task table changes, and every page of the old space is on
  the free list.
\<close>

theorem execv_replaces_program:
  assumes h: "kheap s (pd # ps)" and u: "drop kernel_tables ps = u # us" "KERN_BASE \<le> u"
    and c: "c = curr_task s" "c < length (tasks s)" "task_ok s c" "curr_pgdir s = t_pgdir (tasks s ! c)"
      "owned s c \<inter> set (pd # ps) = {}"
    and regs: "regs = KSTACK_TOP (t_kstack (tasks s ! c)) - sizeof_int_regs"
    and a: "call_args s regs [of_nat b, of_nat a]" "0 < a" "a < 4096"
    and path: "page_string (mem s) (user_page s c) b p" "p \<noteq> []"
    and argv: "arg_vector (mem s) (user_page s c) MAX_ARGC a ws"
    and i: "fs_ok s" "i < MAX_FILES" "fname (filesystem s ! i) = p" "\<forall>j < i. fname (filesystem s ! j) \<noteq> p"
    and f: "f_data (filesystem s ! i) = ehdr" "elf_prog (mem s) ehdr vaddr seg memsz" "pgno ehdr \<notin> pgno ` set (pd # ps)"
  shows "\<exists>s' sp qs. sys_execv s regs = Ok (0, s') \<and> curr_pgdir s' = pd \<and>
    tasks s' = (tasks s)[c := (tasks s ! c)\<lparr>t_pgdir := pd, t_open_files := replicate MAX_OPEN_FILES None\<rparr>] \<and>
    load32 (mem s') (regs + eip_offset) = load32 (mem s) (ehdr + e_entry_offset) \<and>
    load32 (mem s') (regs + esp_offset) = of_nat sp \<and> started_with (mem s') u sp ws \<and>
    (\<forall>k < 4096. \<exists>x. translate (mem s') pd (of_nat k) = Some x \<and> xl_user x \<and> xl_write x \<and>
      PHYS_TO_VIRT (xl_paddr x) = u + of_nat k) \<and>
    (\<forall>k < length seg. page_off vaddr + k < 2600 \<longrightarrow> mem s' (u + of_nat (page_off vaddr + k)) = seg ! k) \<and>
    kheap s' qs \<and> mset qs = mset us + mset_set (insert (user_page s c) (tables (mem s) (t_pgdir (tasks s ! c))))"
proof -
  define r where "r = t_kstack (tasks s ! c)"
  define T where "T = insert pd (set (take kernel_tables ps))"
  note C = c(2-5) [unfolded c(1)]
  note G = new_space_pages [OF h u(1) C(2,4), folded T_def] and R = kstack_apart [OF C(2), folded c(1), folded r_def]
  have regs': "regs = r + of_nat 4016" unfolding regs r_def kstack_addresses(1) ..
  have off: "regs + eip_offset = r + of_nat 4072" "regs + esp_offset = r + of_nat 4084"
    by (simp_all add: regs' eip_offset_def esp_offset_def)
  obtain s1 s2 s3 where L: "map_kernel s = Ok (pd, s1)" "tasks s1 = tasks s" "curr_task s1 = curr_task s"
    "s2 = upd_task s1 (curr_task s) (\<lambda>t. t\<lparr>t_pgdir := pd\<rparr>)"
    "get_file s2 (vptr s2 (of_nat b)) = Ok (Some (Fs i))" "f_data (get_fp s2 (Fs i)) = ehdr"
    "load_elf s2 (curr_task s) ehdr = Ok (0, s3)" "tasks s3 = tasks s2" "curr_task s3 = curr_task s"
    "vload32 s3 (ehdr + e_entry_offset) = Ok (load32 (mem s) (ehdr + e_entry_offset))"
    "aspace_ok s3 pd us" "tables (mem s3) pd = T" "page_entry (mem s3) pd 0 = Some (user_pte u)"
    "\<forall>k < length seg. mem s3 (u + of_nat (page_off vaddr + k)) = seg ! k"
    "cr3 s3 = cr3 s" "changes_only (pgno ` insert u T) (mem s) (mem s3)"
    by (rule execv_loaded [OF h u C path [unfolded c(1)] i [rule_format] f refl, folded T_def])
  define s4 where "s4 = s3\<lparr>mem := store32 (store32 (mem s3) (regs + eip_offset) (load32 (mem s) (ehdr + e_entry_offset)))
    (regs + esp_offset) (PGSIZE - 8)\<rparr>"
  obtain sp m where M: "prepare_ustack s4 pd (PGSIZE - 8) (of_nat a) = Ok (Some (of_nat sp), s4\<lparr>mem := m\<rparr>)"
    "started_with m u sp ws" "\<forall>k < 2600. m (u + of_nat k) = mem s3 (u + of_nat k)"
    "load32 m (r + of_nat 4072) = load32 (mem s) (ehdr + e_entry_offset)" "changes_only {pgno u, pgno r} (mem s3) m"
    "caller_kept s (s4\<lparr>mem := m\<rparr>)"
    by (rule execv_stack [OF h u C(2-4) argv [unfolded c(1)] a(2,3) L(11) L(12) [unfolded T_def] L(13,15) L(16) [unfolded T_def]
      r_def [unfolded c(1)] s4_def [unfolded off]])
  let ?m6 = "store32 m (regs + esp_offset) (of_nat sp)"
  define s6 where "s6 = upd_task (s4\<lparr>mem := ?m6\<rparr>) (curr_task s) (\<lambda>t. t\<lparr>t_open_files := replicate MAX_OPEN_FILES None\<rparr>)"
  have ch6: "changes_only {pgno r} m ?m6" unfolding off(2) by (rule store32_in_page [OF R(1)]) simp
  have K6: "caller_kept s s6"
    by (rule caller_kept_step [OF M(6), where P = "{pgno r}"]) (use ch6 R(2) c(1) in \<open>simp_all add: s6_def\<close>)
  have ch36: "changes_only {pgno u, pgno r} (mem s3) (mem s6)"
    using changes_only_trans [OF M(5) ch6, of "{pgno u, pgno r}"] by (simp add: s6_def)
  have sub: "T \<subseteq> set (pd # ps)" "u \<in> set (pd # ps)" "set us \<subseteq> set (pd # ps)" unfolding G(1) [symmetric] by blast+
  have ro: "r \<in> owned s (curr_task s)" by (simp add: r_def c(1) owned_def)
  have apart: "{pgno u, pgno r} \<inter> pgno ` set us = {}" "{pgno u, pgno r} \<inter> pgno ` T = {}" "pgno u \<noteq> pgno r"
    using G(7) [OF ro] G(8) [OF sub(2)] G(2,3) sub by (blast, blast, metis)
  have k6: "kheap s6 us"
    using free_list_frame [OF _ ch36 apart(1)] aspace_okD(1) [OF L(11)] by (simp add: kheap_def s6_def s4_def)
  have dj: "caller_space s \<inter> set us = {}" using C(4) caller_space_owned [of s] sub(3) by blast
  obtain s7 qs where D: "destroy_address_space s6 (old_pgdir s) = Ok s7" "kheap s7 qs" "mset qs = mset us + mset_set (caller_space s)"
    "changes_only (pgno ` caller_space s) (mem s6) (mem s7)" "mstate.more s7 = mstate.more s6"
    by (rule caller_space_freed [OF K6 C(2,3) k6 dj])
  have run: "sys_execv s regs = Ok (0, lcr3 s7 pd)"
    "tasks s7 = (tasks s)[curr_task s := (tasks s ! curr_task s)\<lparr>t_pgdir := pd, t_open_files := replicate MAX_OPEN_FILES None\<rparr>]"
    by (rule execv_run [OF a(1) L(1-3) C(1) L(4,5) _ L(8,9) _ s4_def M(1) s6_def D(1) k_more(1,2) [OF D(5)]];
      simp only: L(6,7,10))+
  have cs: "pgno ` caller_space s \<inter> pgno ` insert u (insert r T) = {}"
  proof (rule pages_disjoint)
    fix q p assume q: "q \<in> caller_space s" and p: "p \<in> insert u (insert r T)"
    show "pgno q \<noteq> pgno p"
    proof (cases "p = r")
      case True
      have "pgno q \<in> pgno ` caller_space s" using q by (rule imageI)
      then show ?thesis using R(2) True by metis
    next
      case False
      have "p \<in> set (pd # ps)" using p sub(1,2) False by (metis insertE subsetD)
      moreover have "q \<in> owned s (curr_task s)" using caller_space_owned q by (rule subsetD)
      ultimately show ?thesis by (metis G(7))
    qed
  qed
  have ual: "page_aligned u" by (rule G(5) [OF sub(2)])
  have m6: "mem s6 = store32 m (r + of_nat 4084) (of_nat sp)" by (simp add: s6_def off)
  have Q: "pgno u \<notin> pgno ` caller_space s" "pgno r \<notin> pgno ` caller_space s"
    "insert (pgno u) (insert (pgno r) (pgno ` caller_space s)) \<inter> pgno ` tables (mem s3) pd = {}"
    using cs apart(2) unfolding L(12) by blast+
  note N = new_program_kept [OF ual R(1) apart(3) aspace_okD(2) [OF L(11)] L(13) M(5) D(4) [unfolded m6] Q]
  have fr: "load32 (mem s7) (regs + eip_offset) = load32 (mem s) (ehdr + e_entry_offset)"
    "load32 (mem s7) (regs + esp_offset) = of_nat sp"
    unfolding off N(2,3) M(4) by simp_all
  have sg: "mem s7 (u + of_nat (page_off vaddr + k)) = seg ! k" if "k < length seg" "page_off vaddr + k < 2600" for k
    using N(1) M(3) L(14) that by (simp del: of_nat_add)
  have sw: "started_with (mem s7) u sp ws" by (rule started_with_cong [OF M(2) N(1)])
  let ?s = "lcr3 s7 pd"
  have "mem ?s = mem s7" "tasks ?s = tasks s7" "curr_pgdir ?s = pd" "kheap ?s qs"
    using D(2) by (simp_all add: lcr3_def curr_pgdir_def kheap_def)
  then show ?thesis using run fr N(4) sg sw D(3) unfolding caller_space_def c(1)
    by (intro exI [of _ ?s] exI [of _ sp] exI [of _ qs]) simp
qed

text \<open>
  Property C35: \<^verbatim>\<open>execv\<close> with a name that no file has returns -1 and leaves the caller's address space loaded
  and the task table as it was, but destroying the new address space, which has no user page yet, puts
  KERN_BASE on the free list: physical page 0, which was never registered as free memory and which a later
  \<^verbatim>\<open>kmalloc\<close> will hand out.
\<close>

theorem execv_missing_file:
  assumes h: "kheap s (pd # ps)" "kernel_tables \<le> length ps" "KERN_BASE \<notin> set (pd # ps)"
    and c: "c = curr_task s" "c < length (tasks s)" "task_ok s c" "curr_pgdir s = t_pgdir (tasks s ! c)"
      "owned s c \<inter> set (pd # ps) = {}"
    and a: "call_args s regs [of_nat b, argv]" and path: "page_string (mem s) (user_page s c) b p"
    and none: "fs_ok s" "\<forall>i < MAX_FILES. fname (filesystem s ! i) \<noteq> p"
  shows "\<exists>s' qs. sys_execv s regs = Ok (-1, s') \<and> tasks s' = tasks s \<and> curr_pgdir s' = curr_pgdir s \<and>
    kheap s' qs \<and> mset qs = add_mset KERN_BASE (mset (pd # ps))"
proof -
  note C = c(2-5) [unfolded c(1)]
  obtain s1 where s1: "map_kernel s = Ok (pd, s1)" "aspace_ok s1 pd (drop kernel_tables ps)"
      "tables (mem s1) pd = insert pd (set (take kernel_tables ps))" "\<forall>w < 1048576. page_entry (mem s1) pd w = kernel_entry w"
      "changes_only (pgno ` tables (mem s1) pd) (mem s) (mem s1)" "cr3 s1 = cr3 s" "mstate.more s1 = mstate.more s"
    using map_kernel_spec [OF h(1,2)] by blast
  note m1 = k_more [OF s1(7)] and T = map_kernel_tables [OF h(1) s1(3) aspace_okD(2) [OF s1(2)]]
  let ?s2 = "upd_task s1 (curr_task s) (\<lambda>t. t\<lparr>t_pgdir := pd\<rparr>)"
  have sub: "tables (mem s1) pd \<subseteq> set (pd # ps)" unfolding s1(3) using set_take_subset [of kernel_tables ps] by auto
  have dj: "pgno ` tables (mem s1) pd \<inter> pgno ` caller_space s = {}"
  proof (rule pages_disjoint)
    fix q p assume q: "q \<in> tables (mem s1) pd" and p: "p \<in> caller_space s"
    have "page_aligned q" "q \<in> set (pd # ps)" using kheap_page [OF h(1)] sub q by blast+
    moreover have "page_aligned p" "p \<in> owned s (curr_task s)"
      using owned_aligned [OF C(2)] caller_space_owned [of s] p by blast+
    ultimately show "pgno q \<noteq> pgno p" using C(4) pgno_inject by blast
  qed
  have K: "caller_kept s ?s2" by (rule caller_kept_step [OF caller_kept_refl, where P = "pgno ` tables (mem s1) pd"])
      (use s1(5,6) dj in simp_all)
  have "List.find (\<lambda>i. fname (filesystem s ! i) = p) [0..<MAX_FILES] = None" using none(2) by (auto simp: find_None_iff)
  then have gf: "get_file ?s2 (vptr ?s2 (of_nat b)) = Ok None"
    using get_file_find [OF caller_string [OF K C(2,3) path [unfolded c(1)]], of ?s2] none(1) m1 by (simp add: fs_ok_def)
  have e: "page_entry (mem ?s2) pd 0 = Some (0 OR PTE_P OR PTE_RW)" using s1(4) kernel_entry_0(1) by simp
  have a2: "aspace_ok ?s2 pd (drop kernel_tables ps)" "NULL \<notin> tables (mem ?s2) pd" using s1(2) T(3) by simp_all
  have "KERN_BASE \<notin> set (drop kernel_tables ps)" "KERN_BASE \<notin> tables (mem ?s2) pd"
    using h(3) sub by (auto dest: in_set_dropD)
  then obtain s3 where s3: "destroy_address_space ?s2 pd = Ok s3"
      "kheap s3 (pd # rev (slot_tables (mem s1) pd 1024) @ KERN_BASE # drop kernel_tables ps)" "cr3 s3 = cr3 ?s2"
      "mstate.more s3 = mstate.more ?s2"
    using destroy_address_space_spec [OF a2 e kernel_entry_0(2) [symmetric] KERN_BASE_page(2)] by auto
  note m3 = k_more [OF s3(4)]
  let ?s' = "upd_task s3 (curr_task s3) (\<lambda>t. t\<lparr>t_pgdir := old_pgdir s\<rparr>)"
  have "sys_execv s regs = Ok (-1, ?s')"
    using s1(1) gf s3(1) m1(1,2) m3(1,2) C(1) by (simp add: sys_execv_def Let_def with_args2 [OF a] execv_fail_def)
  moreover have "tasks ?s' = tasks s" using m1(1,2) m3(1,2) C(1) by simp
  moreover have "curr_pgdir ?s' = curr_pgdir s" using s1(6) s3(3) by (simp add: curr_pgdir_def)
  moreover have "mset (pd # rev (slot_tables (mem s1) pd 1024) @ KERN_BASE # drop kernel_tables ps) = add_mset KERN_BASE (mset (pd # ps))"
    using T(2) by simp (metis append_take_drop_id mset_append)
  moreover have "kheap ?s' (pd # rev (slot_tables (mem s1) pd 1024) @ KERN_BASE # drop kernel_tables ps)" using s3(2) by simp
  ultimately show ?thesis by blast
qed

section \<open>Witness\<close>

text \<open>The contents of a task's pages do not matter to its address space.\<close>

lemma task_contents:
  assumes ok: "task_ok s c" and ch: "changes_only P (mem s) (mem t)" and t: "tasks t = tasks s"
    and P: "P \<inter> pgno ` tables (mem s) (t_pgdir (tasks s ! c)) = {}"
  shows "task_ok t c" "owned t c = owned s c" "user_page t c = user_page s c"
proof -
  have pok: "pgdir_ok (mem s) (t_pgdir (tasks s ! c))" using ok by (simp add: task_ok_def)
  have "page_entry (mem t) (t_pgdir (tasks s ! c)) 0 = page_entry (mem s) (t_pgdir (tasks s ! c)) 0"
    by (rule pgdir_frame_entry [OF pok ch P]) simp
  note F = pgdir_frame_ok [OF pok ch P] pgdir_frame_tables [OF pok ch P] this
  show "task_ok t c" "owned t c = owned s c" "user_page t c = user_page s c"
    using ok F by (simp_all add: task_ok_def owned_def user_page_def t)
qed

text \<open>
  The page of a program that calls \<open>execv(''hi'', {''hi'', 0})\<close> with its stack pointer at 0x200: the arguments
  0x300 and 0x100, the vector at 0x100, the string at 0x300.
\<close>

definition execv_page :: "nat \<Rightarrow> u8" where
  "execv_page k = (if k = 0x205 then 3 else if k = 0x209 then 1 else if k = 0x101 then 3
     else if k = 0x300 then 104 else if k = 0x301 then 105 else 0)"

definition execv_mem :: "mem \<Rightarrow> u32 \<Rightarrow> u32 \<Rightarrow> mem" where
  "execv_mem m up r = put_bytes (\<lambda>x. if pgno x = pgno up then execv_page (page_off x)
     else if pgno x = pgno r then (if page_off x = 4085 then 2 else 0) else m x) 0xc0003000 sample_elf"

lemma execv_mem_facts:
  assumes al: "page_aligned up" "page_aligned r" and ne: "pgno up \<noteq> pgno r" "pgno up \<noteq> 0xc0003" "pgno r \<noteq> 0xc0003"
  shows "changes_only {pgno up, pgno r, 0xc0003} m (execv_mem m up r)"
    and "k < 4096 \<Longrightarrow> execv_mem m up r (up + of_nat k) = execv_page k"
    and "load32 (execv_mem m up r) (r + of_nat 4084) = 0x200"
    and "mem_bytes (execv_mem m up r) 0xc0003000 88 = sample_elf"
proof -
  let ?a = "0xc0003000 :: u32"
  let ?m = "\<lambda>x. if pgno x = pgno up then execv_page (page_off x)
     else if pgno x = pgno r then (if page_off x = 4085 then 2 else 0) else m x"
  have a: "page_aligned ?a" "pgno ?a = 0xc0003" by (simp_all add: page_aligned_def pgno_def)
  have ch: "changes_only {pgno ?a} ?m (execv_mem m up r)"
    using put_bytes_page [OF a(1), of 0 sample_elf ?m] by (simp add: execv_mem_def page_off_def)
  have "changes_only {pgno up, pgno r} m ?m" by (simp add: changes_only_def)
  then show "changes_only {pgno up, pgno r, 0xc0003} m (execv_mem m up r)"
    by (rule changes_only_trans [OF _ ch]) (simp add: a(2))
  have at: "execv_mem m up r (q + of_nat k) = ?m (q + of_nat k)" "page_off (q + of_nat k) = k" "pgno (q + of_nat k) = pgno q"
    if "page_aligned q" "pgno q \<noteq> 0xc0003" "k < 4096" for q k
  proof -
    show pk: "pgno (q + of_nat k) = pgno q" by (rule pgno_page_offset [OF that(1,3)])
    show "execv_mem m up r (q + of_nat k) = ?m (q + of_nat k)"
      by (rule changes_onlyD [OF ch]) (use pk that(2) a(2) in simp)
    have "page_off q = 0" using that(1) by (simp add: page_aligned_unat page_off_def)
    moreover have "unat (q + of_nat k) = unat q + k" by (rule unat_page_offset [OF that(1,3)])
    ultimately show "page_off (q + of_nat k) = k" using that(3) unfolding page_off_def by (metis add.commute mod_add_self2 mod_less mod_add_left_eq add_0)
  qed
  show "execv_mem m up r (up + of_nat k) = execv_page k" if "k < 4096" using at [OF al(1) ne(2) that] by simp
  have R: "execv_mem m up r (r + of_nat k) = (if k = 4085 then 2 else 0)" if "k < 4096" for k
    using at [OF al(2) ne(3) that] ne(1) by simp
  show "load32 (execv_mem m up r) (r + of_nat 4084) = 0x200"
    using R [of 4084] R [of 4085] R [of 4086] R [of 4087] by (simp add: load32_def add.assoc)
  show "mem_bytes (execv_mem m up r) ?a 88 = sample_elf"
    using mem_bytes_put [of ?a sample_elf ?m] by (simp add: execv_mem_def)
qed

lemma execv_page_facts:
  assumes U: "\<And>k. k < 4096 \<Longrightarrow> m (up + of_nat k) = execv_page k"
  shows "load32 m (up + of_nat 0x204) = of_nat 0x300" "load32 m (up + of_nat 0x208) = of_nat 0x100"
    and "page_string m up 0x300 (kstr ''hi'')" and "arg_vector m up MAX_ARGC 0x100 [kstr ''hi'']"
proof -
  have w: "load32 m (up + of_nat k) = ucast (execv_page k) OR push_bit 8 (ucast (execv_page (k + 1))) OR
      push_bit 16 (ucast (execv_page (k + 2))) OR push_bit 24 (ucast (execv_page (k + 3)))" if "k + 4 \<le> 4096" for k
    using U [of k] U [of "k + 1"] U [of "k + 2"] U [of "k + 3"] that by (simp add: load32_def add_ac)
  show "load32 m (up + of_nat 0x204) = of_nat 0x300" "load32 m (up + of_nat 0x208) = of_nat 0x100"
    using w [of "0x204"] w [of "0x208"] by (simp_all add: execv_page_def)
  have v: "load32 m (up + of_nat 0x100) = of_nat 0x300" "load32 m (up + of_nat 0x104) = 0"
    using w [of "0x100"] w [of "0x104"] by (simp_all add: execv_page_def)
  have "m (up + of_nat (0x300 + j)) = execv_page (0x300 + j)" if "j \<le> 2" for j using U [of "0x300 + j"] that by simp
  from this [of 0] this [of 1] this [of 2] show st: "page_string m up 0x300 (kstr ''hi'')"
    by (simp add: page_string_def kstr_def of_char_def execv_page_def All_less_Suc2)
  show "arg_vector m up MAX_ARGC 0x100 [kstr ''hi'']"
    using v st by (auto simp: MAX_ARGC_def kstr_def intro!: exI [of _ "0x300"])
qed

definition execv_caller :: "k_state \<Rightarrow> k_state" where
  "execv_caller s = s\<lparr>mem := execv_mem (mem s) (user_page s 1) (t_kstack (tasks s ! 1)),
     filesystem := zero_file\<lparr>f_size := 88, f_in_use := True, f_data := 0xc0003000, f_name := kstr ''hi'' @ replicate 14 0\<rparr>
       # replicate 31 zero_file\<rparr>"

lemma execv_caller_files:
  "fs_ok (execv_caller s)" "0 < MAX_FILES" "fname (filesystem (execv_caller s) ! 0) = kstr ''hi''"
  "f_data (filesystem (execv_caller s) ! 0) = 0xc0003000"
  by (auto simp: execv_caller_def fs_ok_def name_ok_def fname_def kstr_def zero_file_def MAX_FILES_def MAX_NAME_def)

lemma pages_apart:
  assumes al: "page_aligned p" "page_aligned q" and out: "p \<notin> A" "q \<notin> A" "k < n"
    and A: "\<And>x. x \<in> A \<Longrightarrow> page_aligned x" "\<And>x. x \<in> A \<Longrightarrow> n \<le> pgno x"
  shows "{pgno p, pgno q, k} \<inter> pgno ` A = {}"
proof (rule equals0I)
  fix y assume "y \<in> {pgno p, pgno q, k} \<inter> pgno ` A"
  then obtain x where x: "x \<in> A" "y = pgno x" "y \<in> {pgno p, pgno q, k}" by (elim IntE imageE) simp
  have "pgno x \<noteq> k" using A(2) [OF x(1)] out(3) by simp
  moreover have "pgno x \<noteq> pgno p" "pgno x \<noteq> pgno q"
    using pgno_inject [OF A(1) [OF x(1)] al(1)] pgno_inject [OF A(1) [OF x(1)] al(2)] x(1) out(1,2) by metis+
  ultimately show False using x(2,3) by simp
qed

lemma sample_execv:
  obtains s :: k_state and pd ps u us where "kheap s (pd # ps)" "drop kernel_tables ps = u # us" "KERN_BASE \<le> u"
    "curr_task s = 1" "1 < length (tasks s)" "task_ok s 1" "curr_pgdir s = t_pgdir (tasks s ! 1)"
    "owned s 1 \<inter> set (pd # ps) = {}" "call_args s (KSTACK_TOP (t_kstack (tasks s ! 1)) - sizeof_int_regs) [of_nat 0x300, of_nat 0x100]"
    "page_string (mem s) (user_page s 1) 0x300 (kstr ''hi'')" "arg_vector (mem s) (user_page s 1) MAX_ARGC 0x100 [kstr ''hi'']"
    "elf_prog (mem s) 0xc0003000 116 [1, 2, 3, 4] 8" "pgno 0xc0003000 \<notin> pgno ` set (pd # ps)"
    "load32 (mem s) (0xc0003000 + e_entry_offset) = 116" "fs_ok s" "fname (filesystem s ! 0) = kstr ''hi''"
    "f_data (filesystem s ! 0) = 0xc0003000" "\<forall>q \<in> set (pd # ps). 786689 \<le> pgno q"
proof -
  obtain s :: k_state and stk pd ps u us where S: "kheap s (stk # pd # ps)" "drop kernel_tables ps = u # us" "KERN_BASE \<le> u"
    "unused_task (tasks s) 0 = Some 2" "curr_task s = 1" "1 < length (tasks s)" "state_of s 1 = RUNNING" "task_ok s 1"
    "curr_pgdir s = t_pgdir (tasks s ! 1)" "owned s 1 \<inter> set (stk # pd # ps) = {}"
    "\<forall>p \<in> owned s 1 \<union> set (stk # pd # ps). 786689 \<le> pgno p"
    by (rule sample_parent)
  let ?t = "execv_caller s" and ?up = "user_page s 1" and ?r = "t_kstack (tasks s ! 1)"
  have o: "?up \<in> owned s 1" "?r \<in> owned s 1" "?r \<noteq> ?up" "?r \<notin> tables (mem s) (t_pgdir (tasks s ! 1))"
      "?up \<notin> tables (mem s) (t_pgdir (tasks s ! 1))"
    using S(8) by (auto simp: owned_def task_ok_def)
  have al: "page_aligned ?up" "page_aligned ?r" using owned_aligned [OF S(8)] o by blast+
  have ge: "786689 \<le> pgno p" if "p \<in> owned s 1 \<or> p \<in> set (stk # pd # ps)" for p using S(11) that by blast
  have ne: "pgno ?up \<noteq> pgno ?r" "pgno ?up \<noteq> 0xc0003" "pgno ?r \<noteq> 0xc0003"
    using pgno_inject [OF al] o(3) ge [of ?up] ge [of ?r] o(1,2) by auto
  note M = execv_mem_facts [OF al ne, where m = "mem s"]
  have tm: "mem ?t = execv_mem (mem s) ?up ?r" by (simp add: execv_caller_def)
  let ?P = "{pgno ?up, pgno ?r, 0xc0003}"
  have ch: "changes_only ?P (mem s) (mem ?t)" unfolding tm by (rule M(1))
  have pdd: "?P \<inter> pgno ` tables (mem s) (t_pgdir (tasks s ! 1)) = {}"
    by (rule pages_apart [OF al o(5,4), where n = 786689])
      (use owned_aligned [OF S(8)] tables_owned [of s 1] ge in \<open>simp, blast, blast\<close>)
  have dh: "?P \<inter> pgno ` set (stk # pd # ps) = {}"
    by (rule pages_apart [OF al, where n = 786689]) (use S(10) o(1,2) kheap_page [OF S(1)] ge in \<open>blast, blast, simp, blast, blast\<close>)
  have t: "tasks ?t = tasks s" "curr_task ?t = curr_task s" "curr_pgdir ?t = curr_pgdir s"
    by (simp_all add: execv_caller_def curr_pgdir_def)
  note K = task_contents [OF S(8) ch t(1) pdd]
  have kh: "kheap ?t (stk # pd # ps)"
    using free_list_frame [OF _ ch dh] S(1) by (simp add: kheap_def execv_caller_def)
  note E = execv_page_facts [OF M(2), folded tm]
  obtain e where e: "page_entry (mem ?t) (curr_pgdir ?t) 0 = Some e" "?up = PHYS_TO_VIRT (frame e)" "pgdir_ok (mem ?t) (curr_pgdir ?t)"
    using K(1) S(9) K(3) t by (auto simp: task_ok_def user_page_def)
  have rd: "read_user_mem ?t (of_nat k) = Ok (Some (load32 (mem ?t) (?up + of_nat k)))" if "k + 4 \<le> 4096" for k
    unfolding e(2) by (rule page_0_load(2) [OF e(3,1) that])
  have "user_esp ?t (KSTACK_TOP ?r - sizeof_int_regs) = 0x200"
    using M(3) unfolding user_esp_def kstack_addresses(1) tm by (simp add: esp_offset_def add.commute)
  then have ca: "call_args ?t (KSTACK_TOP ?r - sizeof_int_regs) [of_nat 0x300, of_nat 0x100]"
    using rd [of "0x204"] rd [of "0x208"] E(1,2) by (simp add: call_args_def All_less_Suc2 read_syscall_arg_def)
  have drp: "drop kernel_tables (pd # ps) = ps ! (kernel_tables - 1) # u # us"
  proof -
    have "kernel_tables < length ps" using S(2) by (metis drop_all linorder_not_less list.distinct(1))
    then have "drop (kernel_tables - 1) ps = ps ! (kernel_tables - 1) # drop kernel_tables ps"
      using Cons_nth_drop_Suc [of "kernel_tables - 1" ps] by (simp add: kernel_tables_def)
    then show ?thesis using S(2) by (simp add: kernel_tables_def)
  qed
  have "ps ! (kernel_tables - 1) \<in> set (pd # ps)" using drp by (metis in_set_dropD list.set_intros(1))
  then have "786689 \<le> pgno (ps ! (kernel_tables - 1))" using ge by simp
  then have ku: "KERN_BASE \<le> ps ! (kernel_tables - 1)"
    using unat_pgno_bounds(1) [of "ps ! (kernel_tables - 1)"] by (simp add: word_le_nat_alt KERN_BASE_def)
  have pg: "pgno 0xc0003000 \<notin> pgno ` set (stk # pd # ps)" using dh by (simp add: pgno_def [of "0xc0003000"])
  have al3: "page_aligned (0xc0003000 :: u32)" "KERN_BASE \<le> 0xc0003000" by (simp_all add: page_aligned_def KERN_BASE_def)
  note el = sample_elf_at [OF al3 M(4), folded tm]
  show thesis
    by (rule that [OF kh drp ku _ _ K(1) _ _ _ E(3,4) [folded K(3)] el(1) pg el(2) execv_caller_files(1,3,4)])
      (use S(5,6,9,10) t K(2) ca ge in \<open>simp_all only:, blast\<close>)
qed

theorem execv_replaces_program_witness:
  "\<exists>(s :: k_state) s' sp u. sys_execv s (KSTACK_TOP (t_kstack (tasks s ! 1)) - sizeof_int_regs) = Ok (0, s') \<and>
    load32 (mem s') (KSTACK_TOP (t_kstack (tasks s ! 1)) - sizeof_int_regs + eip_offset) = 116 \<and>
    started_with (mem s') u sp [kstr ''hi''] \<and> mem s' (u + of_nat (116 + 2)) = 3"
proof -
  obtain s :: k_state and pd ps u us where S: "kheap s (pd # ps)" "drop kernel_tables ps = u # us" "KERN_BASE \<le> u"
    "curr_task s = 1" "1 < length (tasks s)" "task_ok s 1" "curr_pgdir s = t_pgdir (tasks s ! 1)"
    "owned s 1 \<inter> set (pd # ps) = {}" "call_args s (KSTACK_TOP (t_kstack (tasks s ! 1)) - sizeof_int_regs) [of_nat 0x300, of_nat 0x100]"
    "page_string (mem s) (user_page s 1) 0x300 (kstr ''hi'')" "arg_vector (mem s) (user_page s 1) MAX_ARGC 0x100 [kstr ''hi'']"
    "elf_prog (mem s) 0xc0003000 116 [1, 2, 3, 4] 8" "pgno 0xc0003000 \<notin> pgno ` set (pd # ps)"
    "load32 (mem s) (0xc0003000 + e_entry_offset) = 116" "fs_ok s" "fname (filesystem s ! 0) = kstr ''hi''"
    "f_data (filesystem s ! 0) = 0xc0003000" "\<forall>q \<in> set (pd # ps). 786689 \<le> pgno q"
    by (rule sample_execv)
  let ?regs = "KSTACK_TOP (t_kstack (tasks s ! 1)) - sizeof_int_regs"
  have z: "(0 :: nat) < 0x100" "(0x100 :: nat) < 4096" "kstr ''hi'' \<noteq> []" by (simp_all add: kstr_def)
  have nj: "\<forall>j < 0. fname (filesystem s ! j) \<noteq> kstr ''hi''" by simp
  note T = execv_replaces_program [OF S(1-3) S(4) [symmetric] S(5-8) refl S(9) z(1,2) S(10) z(3) S(11,15) execv_caller_files(2) S(16) nj
      S(17,12,13), unfolded S(14)]
  have p2: "page_off 116 = 116" by (simp add: page_off_def)
  obtain s' sp where R: "sys_execv s ?regs = Ok (0, s')" "load32 (mem s') (?regs + eip_offset) = 116" "started_with (mem s') u sp [kstr ''hi'']"
      "\<forall>k < length [1, 2, 3, 4 :: u8]. page_off 116 + k < 2600 \<longrightarrow> mem s' (u + of_nat (page_off 116 + k)) = [1, 2, 3, 4] ! k"
    using T by (elim exE conjE) (rule that)
  have "mem s' (u + of_nat (116 + 2)) = [1, 2, 3, 4] ! 2" using R(4) [rule_format, of 2] unfolding p2 by simp
  then have "mem s' (u + of_nat (116 + 2)) = 3" by simp
  then show ?thesis using R(1-3) by blast
qed

theorem execv_missing_file_witness:
  "\<exists>(s :: k_state) s' qs. sys_execv s (KSTACK_TOP (t_kstack (tasks s ! 1)) - sizeof_int_regs) = Ok (-1, s') \<and>
    kheap s' qs \<and> KERN_BASE \<in> set qs"
proof -
  obtain s :: k_state and pd ps u us where S: "kheap s (pd # ps)" "drop kernel_tables ps = u # us" "KERN_BASE \<le> u"
    "curr_task s = 1" "1 < length (tasks s)" "task_ok s 1" "curr_pgdir s = t_pgdir (tasks s ! 1)"
    "owned s 1 \<inter> set (pd # ps) = {}" "call_args s (KSTACK_TOP (t_kstack (tasks s ! 1)) - sizeof_int_regs) [of_nat 0x300, of_nat 0x100]"
    "page_string (mem s) (user_page s 1) 0x300 (kstr ''hi'')" "arg_vector (mem s) (user_page s 1) MAX_ARGC 0x100 [kstr ''hi'']"
    "elf_prog (mem s) 0xc0003000 116 [1, 2, 3, 4] 8" "pgno 0xc0003000 \<notin> pgno ` set (pd # ps)"
    "load32 (mem s) (0xc0003000 + e_entry_offset) = 116" "fs_ok s" "fname (filesystem s ! 0) = kstr ''hi''"
    "f_data (filesystem s ! 0) = 0xc0003000" "\<forall>q \<in> set (pd # ps). 786689 \<le> pgno q"
    by (rule sample_execv)
  let ?t = "s\<lparr>filesystem := replicate MAX_FILES zero_file\<rparr>"
  let ?regs = "KSTACK_TOP (t_kstack (tasks s ! 1)) - sizeof_int_regs"
  have len: "kernel_tables \<le> length ps" using S(2) by (metis drop_all linear list.distinct(1))
  have kb: "KERN_BASE \<notin> set (pd # ps)" using S(18) by (auto simp: pgno_def KERN_BASE_def)
  have ow: "task_ok ?t 1" "owned ?t 1 = owned s 1" "user_page ?t 1 = user_page s 1" "kheap ?t (pd # ps)"
      "curr_pgdir ?t = t_pgdir (tasks ?t ! 1)" "curr_task ?t = 1" "1 < length (tasks ?t)"
    using S(1,4-7) by (simp_all add: task_ok_def owned_def user_page_def kheap_def curr_pgdir_def)
  have "vread ?t a = vread s a" for a by (simp add: vread_def curr_pgdir_def split: option.split)
  then have "read_syscall_arg ?t e n = read_syscall_arg s e n" for e n
    by (simp add: read_syscall_arg_def read_user_mem_def vload32_def)
  then have ca: "call_args ?t ?regs [of_nat 0x300, of_nat 0x100]" using S(9) by (simp add: call_args_def user_esp_def)
  have fs: "fs_ok ?t" "\<forall>i < MAX_FILES. fname (filesystem ?t ! i) \<noteq> kstr ''hi''"
    using zero_file_ok by (auto simp: fs_ok_def fname_def zero_file_def kstr_def MAX_NAME_def)
  have oj: "owned ?t 1 \<inter> set (pd # ps) = {}" using S(8) ow(2) by simp
  have ps: "page_string (mem ?t) (user_page ?t 1) 0x300 (kstr ''hi'')" using S(10) ow(3) by simp
  obtain s' qs where "sys_execv ?t ?regs = Ok (-1, s')" "kheap s' qs" "mset qs = add_mset KERN_BASE (mset (pd # ps))"
    using execv_missing_file [OF ow(4) len kb ow(6) [symmetric] ow(7,1,5) oj ca ps fs] by blast
  moreover from this(3) have "KERN_BASE \<in> set qs" by (metis set_mset_mset union_single_eq_member)
  ultimately show ?thesis by (intro exI [of _ ?t] exI [of _ s'] exI [of _ qs]) simp
qed

end
