(* ===== verification/UserProg.thy ===== *)
theory UserProg
  imports Trap
begin

text \<open>
  User programs and their library: \<^verbatim>\<open>user/util.c\<close>, \<^verbatim>\<open>user/sys.asm\<close>, the shell \<^verbatim>\<open>user/sh.c\<close> and the
  programs \<^verbatim>\<open>cat\<close>, \<^verbatim>\<open>ls\<close>, \<^verbatim>\<open>echo\<close>, \<^verbatim>\<open>init\<close> and \<^verbatim>\<open>hello\<close>. A program is a tree of system calls: at
  each \<open>Call\<close> it hands a request to the kernel and goes on with the answer, so \<^verbatim>\<open>fork\<close>, which answers
  twice, and \<^verbatim>\<open>exit\<close>, which does not answer, need no special treatment. \<open>feed p as\<close> runs a program on a
  list of answers and gives the requests it made and what is left of it. Local arrays are lists of
  bytes whose initial contents, which C leaves open, are arguments.
\<close>

section \<open>Programs\<close>

text \<open>
  Requests carry what the kernel reads from user memory: the string behind a path, the strings of an
  \<^verbatim>\<open>argv\<close> up to its null pointer (\<open>None\<close> for a null \<^verbatim>\<open>argv\<close>), the bytes of a buffer to be written. An answer
  is the value returned in \<^verbatim>\<open>eax\<close> and, for \<^verbatim>\<open>read\<close>, the bytes the kernel put into the buffer.
\<close>

datatype request =
    Open "u8 list" int
  | Read int nat
  | Write int "u8 list"
  | Close int
  | Execv "u8 list" "u8 list list option"
  | Fork
  | Exit int
  | Wait

type_synonym answer = "int \<times> u8 list"

text \<open>\<open>Wrong\<close>: the program left what C defines. \<open>Spin\<close>: it is still in a loop when its fuel is used up.\<close>

datatype 'a prog = Ret 'a | Call request "answer \<Rightarrow> 'a prog" | Wrong string | Spin

primrec bindp :: "'a prog \<Rightarrow> ('a \<Rightarrow> 'b prog) \<Rightarrow> 'b prog" where
  "bindp (Ret x) f = f x"
| "bindp (Call r k) f = Call r (\<lambda>a. bindp (k a) f)"
| "bindp (Wrong w) f = Wrong w"
| "bindp Spin f = Spin"

fun lift :: "'a outcome \<Rightarrow> 'a prog" where
  "lift (Ok x) = Ret x"
| "lift (Panic m) = Wrong m"
| "lift (Undef w) = Wrong w"
| "lift Diverge = Spin"

text \<open>
  The stubs of \<^verbatim>\<open>sys.asm\<close>: the number of the call goes to \<^verbatim>\<open>eax\<close>; \<open>int 0x80\<close> enters the kernel, which
  answers in \<^verbatim>\<open>eax\<close>.
\<close>

fun sys_number :: "request \<Rightarrow> nat" where
  "sys_number (Open path flags) = 0"
| "sys_number (Read fd n) = 1"
| "sys_number (Write fd buf) = 2"
| "sys_number (Close fd) = 3"
| "sys_number (Execv path argv) = 4"
| "sys_number Fork = 5"
| "sys_number (Exit status) = 6"
| "sys_number Wait = 7"

definition syscall :: "request \<Rightarrow> int prog" where
  "syscall r = Call r (\<lambda>(v, bs). Ret v)"

fun feed :: "'a prog \<Rightarrow> answer list \<Rightarrow> request list \<times> 'a prog" where
  "feed (Call r k) (a # as) = (let (rs, p) = feed (k a) as in (r # rs, p))"
| "feed p as = ([], p)"

lemma sys_number_syscall_h:
  "sys_number r = (case r of Open _ _ \<Rightarrow> SYS_open | Read _ _ \<Rightarrow> SYS_read | Write _ _ \<Rightarrow> SYS_write | Close _ \<Rightarrow> SYS_close
    | Execv _ _ \<Rightarrow> SYS_execv | Fork \<Rightarrow> SYS_fork | Exit _ \<Rightarrow> SYS_exit | Wait \<Rightarrow> SYS_wait)"
  by (cases r) (simp_all add: syscall_numbers)

lemma bindp_assoc: "bindp (bindp p f) g = bindp p (\<lambda>x. bindp (f x) g)"
  by (induction p) auto

text \<open>A run of a sequence: the answers are used up by the first part, then by the second.\<close>

lemma feed_bindp:
  "feed p as = (rs, Ret x) \<Longrightarrow> length as = length rs \<Longrightarrow>
   feed (bindp p f) (as @ bs) = (rs @ fst (feed (f x) bs), snd (feed (f x) bs))"
proof (induction p as arbitrary: rs rule: feed.induct)
  case (1 r k a as)
  then obtain rs' where "feed (k a) as = (rs', Ret x)" "rs = r # rs'" "length as = length rs'"
    by (auto split: prod.splits)
  then show ?case using "1.IH" [of rs'] by (auto split: prod.splits)
qed (auto split: prod.splits)

section \<open>The user library\<close>

text \<open>
  \<^verbatim>\<open>strlen\<close>, \<^verbatim>\<open>strcmp\<close>, \<^verbatim>\<open>memset\<close>, \<^verbatim>\<open>memcpy\<close> and \<^verbatim>\<open>atoi\<close> of the user library are the texts of the kernel's.
\<close>

definition user_strlen :: "reader \<Rightarrow> nat outcome" where "user_strlen s = strlen s"
definition user_strcmp :: "reader \<Rightarrow> reader \<Rightarrow> int outcome" where "user_strcmp s1 s2 = strcmp s1 s2"
definition user_memset :: "mem \<Rightarrow> u32 \<Rightarrow> u32 \<Rightarrow> u32 \<Rightarrow> mem" where "user_memset m s c n = memset m s c n"
definition user_memcpy :: "mem \<Rightarrow> u32 \<Rightarrow> u32 \<Rightarrow> u32 \<Rightarrow> mem" where "user_memcpy m d s n = memcpy m d s n"
definition user_atoi :: "reader \<Rightarrow> int outcome" where "user_atoi s = atoi s"

text \<open>The user \<^verbatim>\<open>strcpy\<close> stops at the NUL without copying it and returns the end of the copy.\<close>

fun user_strcpy_from :: "nat \<Rightarrow> mem \<Rightarrow> u32 \<Rightarrow> u32 \<Rightarrow> nat \<Rightarrow> (mem \<times> u32) outcome" where
  "user_strcpy_from 0 m dest src i = Diverge"
| "user_strcpy_from (Suc fuel) m dest src i =
     (let c = m (src + of_nat i)
      in if c \<noteq> 0 then user_strcpy_from fuel (m(dest := c)) (dest + 1) src (Suc i)
         else Ok (m, dest))"

definition user_strcpy :: "mem \<Rightarrow> u32 \<Rightarrow> u32 \<Rightarrow> (mem \<times> u32) outcome" where
  "user_strcpy m dest src = user_strcpy_from NUL_SCAN m dest src 0"

definition user_putchar :: "int \<Rightarrow> int \<Rightarrow> int prog" where
  "user_putchar fd c = bindp (syscall (Write fd [word_of_int c])) (\<lambda>_. Ret c)"

primrec user_putchars :: "int \<Rightarrow> reader \<Rightarrow> nat \<Rightarrow> nat \<Rightarrow> unit prog" where
  "user_putchars fd s i 0 = Ret ()"
| "user_putchars fd s i (Suc n) =
     bindp (lift (s i)) (\<lambda>c. bindp (user_putchar fd (sint c)) (\<lambda>_. user_putchars fd s (Suc i) n))"

definition user_printn :: "int \<Rightarrow> reader \<Rightarrow> u32 \<Rightarrow> u32 prog" where
  "user_printn fd s n = bindp (user_putchars fd s 0 (unat n)) (\<lambda>_. Ret n)"

text \<open>As in the kernel, the string does not change while \<^verbatim>\<open>print\<close> takes its length again and again.\<close>

definition user_print :: "int \<Rightarrow> reader \<Rightarrow> nat prog" where
  "user_print fd s =
     bindp (lift (user_strlen s)) (\<lambda>n. bindp (user_putchars fd s 0 n) (\<lambda>_. Ret n))"

definition user_puts :: "int \<Rightarrow> reader \<Rightarrow> nat prog" where
  "user_puts fd s =
     bindp (user_print fd s) (\<lambda>n. bindp (user_putchar fd 10) (\<lambda>_. Ret (n + 1)))"

definition user_printnum :: "int \<Rightarrow> int \<Rightarrow> int prog" where
  "user_printnum fd x =
     (if x = 0 then bindp (user_putchar fd 48) (\<lambda>_. Ret 1)
      else bindp (lift (printnum_digits x [])) (\<lambda>tmp.
           bindp (user_putchars fd (arr (rev tmp)) 0 (length tmp)) (\<lambda>_. Ret 1)))"

text \<open>
  \<^verbatim>\<open>read_line\<close> reads byte by byte and tries again when the kernel has none; \<open>fuel\<close> bounds the number of
  \<^verbatim>\<open>read\<close> calls. It returns the buffer and the number of bytes put into it.
\<close>

primrec read_line :: "nat \<Rightarrow> int \<Rightarrow> u8 list \<Rightarrow> int \<Rightarrow> nat \<Rightarrow> (u8 list \<times> nat) prog" where
  "read_line 0 fd buf sz i = (if int i < sz then Spin else Ret (buf, i))"
| "read_line (Suc fuel) fd buf sz i =
     (if int i < sz then
        Call (Read fd 1) (\<lambda>(r, bs).
          if r \<le> 0 then read_line fuel fd buf sz i
          else case bs of
              [] \<Rightarrow> Wrong ''read of an indeterminate value''
            | ch # _ \<Rightarrow>
                if length buf \<le> i then Wrong ''write past the end of an array''
                else if ch = 10 then Ret (buf[i := ch], Suc i)
                else read_line fuel fd (buf[i := ch]) sz (Suc i))
      else Ret (buf, i))"

section \<open>The shell\<close>

definition MAX_ARG :: nat where "MAX_ARG = 8"

text \<open>The two inner loops of \<^verbatim>\<open>tokenize\<close>; a pointer into the buffer is an offset.\<close>

function skip_spaces :: "u8 list \<Rightarrow> nat \<Rightarrow> nat outcome" where
  "skip_spaces buf p =
     bnd (arr buf p) (\<lambda>c. if c = 32 then skip_spaces buf (Suc p) else Ok p)"
  by pat_completeness auto
termination
  by (relation "measure (\<lambda>(buf, p). length buf - p)") (auto simp: arr_def split: if_splits)

function word_end :: "u8 list \<Rightarrow> nat \<Rightarrow> nat outcome" where
  "word_end buf p =
     bnd (arr buf p) (\<lambda>c. if c \<noteq> 32 \<and> c \<noteq> 0 then word_end buf (Suc p) else Ok p)"
  by pat_completeness auto
termination
  by (relation "measure (\<lambda>(buf, p). length buf - p)") (auto simp: arr_def split: if_splits)

declare skip_spaces.simps [simp del] word_end.simps [simp del]

lemma word_end_le: "word_end buf p = Ok e \<Longrightarrow> p \<le> e \<and> e < length buf"
proof (induction buf p rule: word_end.induct)
  case (1 buf p)
  show ?case
    using 1 by (subst (asm) word_end.simps) (fastforce simp: arr_def split: if_splits)
qed

lemma skip_spaces_le: "skip_spaces buf p = Ok e \<Longrightarrow> p \<le> e"
proof (induction buf p rule: skip_spaces.induct)
  case (1 buf p)
  show ?case
    using 1 by (subst (asm) skip_spaces.simps) (fastforce simp: arr_def split: if_splits)
qed

text \<open>
  The outer loop: \<open>lp\<close> and \<open>rp\<close> are equal at its head. The result is the buffer cut into strings, the
  entries of \<^verbatim>\<open>tokens\<close> that were set, and the number returned.
\<close>

function tokenize_from :: "u8 list \<Rightarrow> nat \<Rightarrow> nat \<Rightarrow> nat list \<Rightarrow> (u8 list \<times> nat list \<times> nat) outcome" where
  "tokenize_from buf len rp tokens =
     (if rp < len then
        bnd (word_end buf rp) (\<lambda>e.
          let buf' = buf[e := 0]; tokens' = tokens @ [rp]
          in if length tokens' = MAX_ARG then Ok (buf', tokens', 0)
             else bnd (skip_spaces buf' (Suc e)) (\<lambda>rp'. tokenize_from buf' len rp' tokens'))
      else Ok (buf, tokens, length tokens))"
  by pat_completeness auto
termination
proof (relation "measure (\<lambda>(buf, len, rp, tokens). len - rp)", goal_cases)
  case (2 buf len rp tokens e buf' tokens' rp')
  then show ?case using word_end_le [of buf rp e] skip_spaces_le [of buf' "Suc e" rp'] by auto
qed simp

declare tokenize_from.simps [simp del]

definition tokenize :: "u8 list \<Rightarrow> (u8 list \<times> nat list \<times> nat) outcome" where
  "tokenize buf =
     bnd (user_strlen (arr buf)) (\<lambda>len. bnd (skip_spaces buf 0) (\<lambda>lp. tokenize_from buf len lp []))"

text \<open>What a pointer into the buffer points to, as the kernel reads it.\<close>

definition at :: "u8 list \<Rightarrow> nat \<Rightarrow> reader" where
  "at buf p = (\<lambda>k. arr buf (p + k))"

definition read_str :: "u8 list \<Rightarrow> nat \<Rightarrow> u8 list outcome" where
  "read_str buf p = bnd (strlen (at buf p)) (\<lambda>n. Ok (take n (drop p buf)))"

fun read_strs :: "u8 list \<Rightarrow> nat list \<Rightarrow> u8 list list outcome" where
  "read_strs buf [] = Ok []"
| "read_strs buf (p # ps) = bnd (read_str buf p) (\<lambda>w. bnd (read_strs buf ps) (\<lambda>ws. Ok (w # ws)))"

text \<open>
  One round of the loop of \<^verbatim>\<open>main\<close>, from the prompt to the next; \<open>buf\<close> is the uninitialised local array of
  1024 bytes, \<open>fuel\<close> bounds the \<^verbatim>\<open>read\<close> calls. After \<^verbatim>\<open>exit\<close> the child makes no further request.
\<close>

definition sh_child :: "int \<Rightarrow> u8 list \<Rightarrow> nat list \<Rightarrow> unit prog" where
  "sh_child fd buf argv =
     bindp (lift (read_strs buf argv)) (\<lambda>ws.
     bindp (syscall (Execv (hd ws) (Some ws))) (\<lambda>_.
     bindp (user_print fd (arr (kstr ''execv failed: '' @ [0]))) (\<lambda>_.
     bindp (user_print fd (at buf (hd argv))) (\<lambda>_.
     bindp (user_puts fd (arr [0])) (\<lambda>_.
     bindp (syscall (Exit 0)) (\<lambda>_. Ret ()))))))"

text \<open>What the shell does with the line in \<open>buf\<close>.\<close>

definition sh_command :: "int \<Rightarrow> u8 list \<Rightarrow> unit prog" where
  "sh_command fd buf =
     bindp (lift (tokenize buf)) (\<lambda>(buf, tokens, argc).
     if argc = 0 then Ret ()
     else if MAX_ARG \<le> argc then Wrong ''write past the end of an array''
     else bindp (syscall Fork) (\<lambda>pid.
       if pid = 0 then sh_child fd buf tokens
       else bindp (syscall Wait) (\<lambda>_. Ret ())))"

definition sh_round :: "nat \<Rightarrow> int \<Rightarrow> u8 list \<Rightarrow> unit prog" where
  "sh_round fuel fd buf =
     bindp (user_print fd (arr (kstr ''$ '' @ [0]))) (\<lambda>_.
     bindp (read_line fuel fd buf (1024 - 1) 0) (\<lambda>(buf, n).
     if n = 0 then Wrong ''write before the start of an array''
     else sh_command fd (buf[n - 1 := 0])))"

primrec sh_rounds :: "nat \<Rightarrow> nat \<Rightarrow> int \<Rightarrow> (nat \<Rightarrow> u8 list) \<Rightarrow> unit prog" where
  "sh_rounds fuel 0 fd stack = Spin"
| "sh_rounds fuel (Suc n) fd stack =
     bindp (sh_round fuel fd (stack n)) (\<lambda>_. sh_rounds fuel n fd stack)"

definition sh_main :: "nat \<Rightarrow> nat \<Rightarrow> (nat \<Rightarrow> u8 list) \<Rightarrow> unit prog" where
  "sh_main fuel n stack =
     bindp (syscall (Open (kstr ''console'') 0)) (\<lambda>fd. sh_rounds fuel n fd stack)"


section \<open>The other programs\<close>

text \<open>\<^verbatim>\<open>cat\<close>: \<open>stack i\<close> is the buffer of round \<open>i\<close> before the kernel writes to it; the kernel's bytes go to its front.\<close>

definition overlay :: "u8 list \<Rightarrow> u8 list \<Rightarrow> u8 list" where
  "overlay bs buf = bs @ drop (length bs) buf"

definition read_buf :: "int \<Rightarrow> u8 list \<Rightarrow> (int \<times> u8 list) prog" where
  "read_buf fd buf = Call (Read fd (length buf)) (\<lambda>(r, bs). Ret (r, overlay (take (length buf) bs) buf))"

definition cat_file :: "int \<Rightarrow> u8 list \<Rightarrow> u8 list \<Rightarrow> unit prog \<Rightarrow> unit prog" where
  "cat_file cfd path buf next_file =
     bindp (syscall (Open path 0)) (\<lambda>fd.
     if fd < 0 then
       bindp (user_print cfd (arr (kstr ''cat: Failed to open file '' @ [0]))) (\<lambda>_.
       bindp (user_print cfd (arr (path @ [0]))) (\<lambda>_.
       bindp (user_puts cfd (arr [0])) (\<lambda>_.
       bindp (syscall (Exit 0)) (\<lambda>_. Ret ()))))
     else
       bindp (read_buf fd buf) (\<lambda>(_, buf).
       bindp (lift (user_strlen (arr buf))) (\<lambda>n.
       bindp (syscall (Write cfd (take n buf))) (\<lambda>_.
       bindp (syscall (Close fd)) (\<lambda>_. next_file)))))"

fun cat_files :: "int \<Rightarrow> u8 list list \<Rightarrow> (nat \<Rightarrow> u8 list) \<Rightarrow> nat \<Rightarrow> unit prog" where
  "cat_files cfd [] stack i = bindp (syscall (Exit 0)) (\<lambda>_. Ret ())"
| "cat_files cfd (path # paths) stack i = cat_file cfd path (stack i) (cat_files cfd paths stack (Suc i))"

definition cat :: "u8 list list \<Rightarrow> (nat \<Rightarrow> u8 list) \<Rightarrow> unit prog" where
  "cat argv stack =
     bindp (syscall (Open (kstr ''console'') 0)) (\<lambda>cfd.
     if length argv = 1 then
       bindp (user_puts cfd (arr (kstr ''Usage: cat [FILE]...'' @ [0]))) (\<lambda>_.
       bindp (syscall (Exit 0)) (\<lambda>_. Ret ()))
     else cat_files cfd (tl argv) stack 1)"

definition ls :: "u8 list \<Rightarrow> unit prog" where
  "ls buf =
     bindp (syscall (Open (kstr ''console'') 0)) (\<lambda>cfd.
     bindp (syscall (Open (kstr ''/'') 0)) (\<lambda>rfd.
     bindp (read_buf rfd buf) (\<lambda>(r, buf).
     if r < 0 then bindp (user_puts cfd (arr (kstr ''ls: Error'' @ [0]))) (\<lambda>_.
       bindp (syscall (Exit 1)) (\<lambda>_. Ret ()))
     else bindp (user_print cfd (arr buf)) (\<lambda>_.
       bindp (syscall (Exit 0)) (\<lambda>_. Ret ())))))"

fun echo_args :: "int \<Rightarrow> u8 list list \<Rightarrow> unit prog" where
  "echo_args cfd [] = Ret ()"
| "echo_args cfd (w # ws) =
     bindp (user_print cfd (arr (w @ [0]))) (\<lambda>_.
     if ws \<noteq> [] then bindp (user_print cfd (arr (kstr '' '' @ [0]))) (\<lambda>_. echo_args cfd ws)
     else echo_args cfd ws)"

definition echo :: "u8 list list \<Rightarrow> unit prog" where
  "echo argv =
     bindp (syscall (Open (kstr ''console'') 0)) (\<lambda>cfd.
     bindp (echo_args cfd (tl argv)) (\<lambda>_.
     bindp (user_puts cfd (arr [0])) (\<lambda>_.
     bindp (syscall (Exit 0)) (\<lambda>_. Ret ()))))"

definition init :: "int prog" where
  "init = bindp (syscall (Execv (kstr ''sh'') None)) (\<lambda>_. Ret 0)"

definition hello :: "unit prog" where
  "hello =
     bindp (syscall (Open (kstr ''console'') 0)) (\<lambda>fd.
     bindp (user_puts fd (arr (kstr ''Hello from child process!!'' @ [0]))) (\<lambda>_.
     bindp (syscall (Exit 0)) (\<lambda>_. Ret ())))"

section \<open>What the library requests\<close>

text \<open>Printing writes the bytes of the string one by one, whatever the kernel answers.\<close>

definition writes :: "int \<Rightarrow> u8 list \<Rightarrow> request list" where
  "writes fd bs = map (\<lambda>b. Write fd [b]) bs"

text \<open>\<open>does p n rs x\<close>: on any \<open>n\<close> answers the program makes the requests \<open>rs\<close> and returns \<open>x\<close>.\<close>

definition does :: "'a prog \<Rightarrow> request list \<Rightarrow> 'a \<Rightarrow> bool" where
  "does p rs x \<longleftrightarrow> (\<forall>as. length as = length rs \<longrightarrow> feed p as = (rs, Ret x))"

lemma doesD: "does p rs x \<Longrightarrow> length as = length rs \<Longrightarrow> feed p as = (rs, Ret x)"
  by (simp add: does_def)

lemma does_feed:
  "does p rs x \<Longrightarrow> length as = length rs \<Longrightarrow>
   feed (bindp p f) (as @ bs) = (rs @ fst (feed (f x) bs), snd (feed (f x) bs))"
  by (rule feed_bindp) (simp_all add: does_def)

lemma does_Ret: "does (Ret x) [] x"
  by (simp add: does_def)

lemma does_bindp: "does p rs x \<Longrightarrow> does (f x) qs y \<Longrightarrow> does (bindp p f) (rs @ qs) y"
  unfolding does_def
proof (intro allI impI)
  fix as :: "answer list"
  assume a: "\<forall>as. length as = length rs \<longrightarrow> feed p as = (rs, Ret x)"
    "\<forall>as. length as = length qs \<longrightarrow> feed (f x) as = (qs, Ret y)" "length as = length (rs @ qs)"
  have "feed (bindp p f) (take (length rs) as @ drop (length rs) as) =
      (rs @ fst (feed (f x) (drop (length rs) as)), snd (feed (f x) (drop (length rs) as)))"
    by (rule feed_bindp) (use a in simp_all)
  then show "feed (bindp p f) as = (rs @ qs, Ret y)" using a by simp
qed

lemma does_putchar: "does (user_putchar fd c) [Write fd [word_of_int c]] c"
  by (auto simp: does_def user_putchar_def syscall_def length_Suc_conv split: prod.splits)

lemma does_putchars:
  "(\<And>k. k < n \<Longrightarrow> s (i + k) = Ok (bs ! k)) \<Longrightarrow> length bs = n \<Longrightarrow> does (user_putchars fd s i n) (writes fd bs) ()"
proof (induction n arbitrary: i bs)
  case (Suc n)
  then obtain b cs where bs: "bs = b # cs" by (cases bs) auto
  have "does (user_putchars fd s (Suc i) n) (writes fd cs) ()"
  proof (rule Suc.IH)
    show "s (Suc i + k) = Ok (cs ! k)" if "k < n" for k using Suc.prems(1) [of "Suc k"] that bs by simp
    show "length cs = n" using Suc.prems(2) bs by simp
  qed
  then have "does (bindp (user_putchar fd (sint b)) (\<lambda>_. user_putchars fd s (Suc i) n))
      ([Write fd [word_of_int (sint b)]] @ writes fd cs) ()"
    by (rule does_bindp [OF does_putchar])
  then show ?case using Suc.prems(1) [of 0] bs by (simp add: writes_def)
qed (simp add: does_Ret writes_def)

lemma does_print: "cstring s bs \<Longrightarrow> does (user_print fd s) (writes fd bs) (length bs)"
proof -
  assume c: "cstring s bs"
  have "does (user_putchars fd s 0 (length bs)) (writes fd bs) ()"
    by (rule does_putchars) (use cstring_nth [OF c] in simp_all)
  from does_bindp [OF this does_Ret, of "\<lambda>_. length bs"] show ?thesis
    using strlen_cstring [OF c] by (simp add: user_print_def user_strlen_def)
qed

lemma does_puts: "cstring s bs \<Longrightarrow> does (user_puts fd s) (writes fd (bs @ [10])) (length bs + 1)"
proof -
  assume c: "cstring s bs"
  have "does (bindp (user_putchar fd 10) (\<lambda>_. Ret (length bs + 1))) ([Write fd [word_of_int 10]] @ []) (length bs + 1)"
    by (rule does_bindp [OF does_putchar does_Ret])
  from does_bindp [OF does_print [OF c], of "\<lambda>n. bindp (user_putchar fd 10) (\<lambda>_. Ret (n + 1))", OF this]
  show ?thesis by (simp add: user_puts_def writes_def)
qed

end
