(* ===== verification/Shell.thy ===== *)
theory Shell
  imports UserProg
begin

text \<open>
  What the shell and the programs do: \<^verbatim>\<open>tokenize\<close> cuts a line into its words, \<^verbatim>\<open>read_line\<close> collects a
  line from a console that often has nothing to say, and a round of the shell starts the command that
  was typed. The words of a line are given by the reference function \<open>words\<close>.
\<close>

section \<open>Tokens\<close>

function words :: "u8 list \<Rightarrow> u8 list list" where
  "words xs =
     (let ys = dropWhile (\<lambda>c. c = 32) xs
      in if ys = [] then [] else takeWhile (\<lambda>c. c \<noteq> 32) ys # words (dropWhile (\<lambda>c. c \<noteq> 32) ys))"
  by pat_completeness auto
termination
proof (relation "measure length", goal_cases)
  case (2 xs ys)
  then have "ys \<noteq> []" "hd ys \<noteq> 32" using hd_dropWhile [of "\<lambda>c. c = 32" xs] by simp_all
  then obtain y ys' where y: "ys = y # ys'" "y \<noteq> 32" by (cases ys) simp_all
  then have "length (dropWhile (\<lambda>c. c \<noteq> 32) ys) < length ys"
    by (simp add: length_dropWhile_le less_Suc_eq_le)
  also have "\<dots> \<le> length xs" using 2 by (simp add: length_dropWhile_le)
  finally show ?case by simp
qed simp

declare words.simps [simp del]

lemma words_Nil [simp]: "words [] = []"
  by (simp add: words.simps)

lemma words_spaces: "words (dropWhile (\<lambda>c. c = 32) xs) = words xs"
  by (simp add: words.simps [of xs] words.simps [of "dropWhile (\<lambda>c. c = 32) xs"] Let_def)

lemma words_Cons:
  "c \<noteq> 32 \<Longrightarrow> words (c # xs) = takeWhile (\<lambda>c. c \<noteq> 32) (c # xs) # words (dropWhile (\<lambda>c. c \<noteq> 32) xs)"
  by (simp add: words.simps [of "c # xs"])

text \<open>The inner loops find the first byte of another kind.\<close>

lemma arr_drop: "drop p buf = xs @ c # ys \<Longrightarrow> arr buf (p + length xs) = Ok c"
proof -
  assume a: "drop p buf = xs @ c # ys"
  have "length (drop p buf) = length xs + Suc (length ys)" unfolding a by simp
  then have "p + length xs < length buf" by simp
  moreover have "buf ! (p + length xs) = drop p buf ! length xs" using calculation by simp
  ultimately show ?thesis unfolding a by (simp add: arr_def)
qed

lemma skip_spaces_run:
  "drop p buf = xs @ c # ys \<Longrightarrow> \<forall>x \<in> set xs. x = 32 \<Longrightarrow> c \<noteq> 32 \<Longrightarrow> skip_spaces buf p = Ok (p + length xs)"
proof (induction xs arbitrary: p)
  case Nil
  then show ?case using arr_drop [of p buf "[]" c ys] by (subst skip_spaces.simps) simp
next
  case (Cons x xs)
  have "drop (Suc p) buf = xs @ c # ys" using Cons.prems(1) by (metis drop_Suc list.sel(3) tl_drop append_Cons)
  then show ?case
    using Cons.IH [of "Suc p"] Cons.prems arr_drop [of p buf "[]" x "xs @ c # ys"]
    by (subst skip_spaces.simps) simp
qed

lemma word_end_run:
  "drop p buf = xs @ c # ys \<Longrightarrow> \<forall>x \<in> set xs. x \<noteq> 32 \<and> x \<noteq> 0 \<Longrightarrow> c = 32 \<or> c = 0 \<Longrightarrow> word_end buf p = Ok (p + length xs)"
proof (induction xs arbitrary: p)
  case Nil
  then show ?case using arr_drop [of p buf "[]" c ys] by (subst word_end.simps) auto
next
  case (Cons x xs)
  have "drop (Suc p) buf = xs @ c # ys" using Cons.prems(1) by (metis drop_Suc list.sel(3) tl_drop append_Cons)
  then show ?case
    using Cons.IH [of "Suc p"] Cons.prems arr_drop [of p buf "[]" x "xs @ c # ys"]
    by (subst word_end.simps) simp
qed

lemma skip_spaces_from:
  assumes "drop p buf = xs" and "\<exists>x \<in> set xs. x \<noteq> 32"
  shows "skip_spaces buf p = Ok (p + length (takeWhile (\<lambda>c. c = 32) xs))"
proof -
  have "dropWhile (\<lambda>c. c = 32) xs \<noteq> []" using assms(2) by auto
  then obtain c ys where c: "dropWhile (\<lambda>c. c = 32) xs = c # ys" by (cases "dropWhile (\<lambda>c. c = 32) xs") auto
  then have "c \<noteq> 32" using hd_dropWhile [of "\<lambda>c. c = 32" xs] by auto
  moreover have "drop p buf = takeWhile (\<lambda>c. c = 32) xs @ c # ys"
    using takeWhile_dropWhile_id [of "\<lambda>c. c = 32" xs] c assms(1) by simp
  ultimately show ?thesis by (intro skip_spaces_run) (auto dest: set_takeWhileD)
qed

text \<open>
  One round of the outer loop: the word at \<open>rp\<close> becomes a string of its own, and what follows it is as
  before.
\<close>

lemma cut_word:
  assumes d: "drop rp buf = w @ c # ys" and w: "\<forall>x \<in> set w. x \<noteq> 32 \<and> x \<noteq> 0" and c: "c = 32 \<or> c = 0"
    and buf': "take (Suc (rp + length w)) buf'' = take (Suc (rp + length w)) (buf[rp + length w := 0])"
    and n: "length w < NUL_SCAN"
  shows "cstring (at buf'' rp) w"
proof -
  let ?e = "rp + length w"
  have len: "?e < length buf"
    using arg_cong [OF d, of length] by simp
  then have len': "?e < length buf''"
    using arg_cong [OF buf', of length] by simp
  have nth: "buf'' ! k = (buf[?e := 0]) ! k" if "k \<le> ?e" for k
    using arg_cong [OF buf', of "\<lambda>xs. xs ! k"] that by simp
  have "buf ! (rp + i) = w ! i" if "i < length w" for i
    using arg_cong [OF d, of "\<lambda>xs. xs ! i"] that len by (simp add: nth_append)
  then have "at buf'' rp i = Ok (w ! i)" if "i < length w" for i
    using that nth [of "rp + i"] len' by (simp add: at_def arr_def)
  moreover have "at buf'' rp (length w) = Ok 0"
    using nth [of ?e] len len' by (simp add: at_def arr_def)
  ultimately show ?thesis using w n by (auto simp: cstring_def)
qed

text \<open>\<open>ptrs buf ts ws\<close>: the pointers \<open>ts\<close> point to the strings \<open>ws\<close>.\<close>

definition ptrs :: "u8 list \<Rightarrow> nat list \<Rightarrow> u8 list list \<Rightarrow> bool" where
  "ptrs buf ts ws \<longleftrightarrow> list_all2 (\<lambda>t w. cstring (at buf t) w) ts ws"

lemma word_split:
  assumes "0 \<notin> set ys" and "ys \<noteq> []" and "hd ys \<noteq> 32"
  obtains (last) "\<forall>x \<in> set ys. x \<noteq> 32 \<and> x \<noteq> 0" "words ys = [ys]"
  | (more) w zs where "ys = w @ 32 # zs" "\<forall>x \<in> set w. x \<noteq> 32 \<and> x \<noteq> 0" "words ys = w # words zs"
proof -
  define w where "w = takeWhile (\<lambda>c. c \<noteq> 32) ys"
  have wy: "\<forall>x \<in> set w. x \<noteq> 32 \<and> x \<noteq> 0" using assms(1) by (auto simp: w_def dest: set_takeWhileD)
  have ws: "words ys = w # words (dropWhile (\<lambda>c. c \<noteq> 32) ys)"
    using assms(2,3) by (cases ys) (auto simp: w_def words_Cons)
  have split: "ys = w @ dropWhile (\<lambda>c. c \<noteq> 32) ys" by (simp add: w_def)
  show thesis
  proof (cases "dropWhile (\<lambda>c. c \<noteq> 32) ys")
    case Nil
    then have "ys = w" using split by (metis append.right_neutral)
    moreover have "words ys = [w]" using ws Nil by simp
    ultimately show thesis using last wy by simp
  next
    case (Cons c zs)
    then have "c = 32" using hd_dropWhile [of "\<lambda>c. c \<noteq> 32" ys] by simp
    moreover have "words (c # zs) = words zs"
      using words_spaces [of "c # zs"] words_spaces [of zs] \<open>c = 32\<close> by simp
    ultimately show thesis using more [of w zs] wy ws split Cons by simp
  qed
qed

text \<open>
  The whole loop, started at a byte that is not a space: fewer than eight words in all are found
  exactly; with the eighth the result is 0.
\<close>

definition tail_ok :: "u8 list \<Rightarrow> bool" where
  "tail_ok rest \<longleftrightarrow> (\<exists>x \<in> set rest. x \<noteq> 32)"

lemma tokenize_from_done:
  "len \<le> rp \<Longrightarrow> tokenize_from buf len rp ts = Ok (buf, ts, length ts)"
  by (subst tokenize_from.simps) simp

lemma tokenize_from_last:
  assumes d: "drop rp buf = ys @ 0 # rest" and ys: "\<forall>x \<in> set ys. x \<noteq> 32 \<and> x \<noteq> 0" "ys \<noteq> []"
    and r: "tail_ok rest" and t: "Suc (length ts) < MAX_ARG"
  shows "tokenize_from buf (rp + length ys) rp ts = Ok (buf, ts @ [rp], Suc (length ts))"
proof -
  let ?e = "rp + length ys"
  have e: "word_end buf rp = Ok ?e" by (rule word_end_run [OF d]) (use ys in auto)
  have len: "?e < length buf" using arg_cong [OF d, of length] by simp
  have "buf ! ?e = 0" using arr_drop [OF d] len by (simp add: arr_def)
  then have same: "buf[?e := 0] = buf" using list_update_id [of buf ?e] by simp
  have "drop (Suc ?e) buf = rest"
    using arg_cong [OF d, of "drop (Suc (length ys))"] by (simp add: add_ac)
  from skip_spaces_from [OF this] r obtain k where "skip_spaces buf (Suc ?e) = Ok (Suc ?e + k)"
    by (auto simp: tail_ok_def)
  then show ?thesis
    using e same ys(2) t by (subst tokenize_from.simps) (simp add: tokenize_from_done)
qed

lemma tokenize_from_more:
  assumes d: "drop rp buf = w @ 32 # zs @ 0 # rest" and w: "\<forall>x \<in> set w. x \<noteq> 32 \<and> x \<noteq> 0"
    and r: "rp + length w < len" and t: "Suc (length ts) < MAX_ARG"
  shows "tokenize_from buf len rp ts =
    tokenize_from (buf[rp + length w := 0]) len (Suc (rp + length w) + length (takeWhile (\<lambda>c. c = 32) zs)) (ts @ [rp])"
    and "drop (Suc (rp + length w) + length (takeWhile (\<lambda>c. c = 32) zs)) (buf[rp + length w := 0]) =
      dropWhile (\<lambda>c. c = 32) zs @ 0 # rest"
proof -
  let ?e = "rp + length w" and ?k = "length (takeWhile (\<lambda>c. c = 32) zs)"
  have e: "word_end buf rp = Ok ?e" by (rule word_end_run [OF d]) (use w in auto)
  have d': "drop (Suc ?e) (buf[?e := 0]) = zs @ 0 # rest"
    using arg_cong [OF d, of "drop (Suc (length w))"] by (simp add: add_ac)
  have "drop (Suc ?e + ?k) (buf[?e := 0]) = drop ?k (zs @ 0 # rest)"
    unfolding d' [symmetric] by (simp add: add.commute)
  also have "\<dots> = dropWhile (\<lambda>c. c = 32) zs @ 0 # rest"
    by (simp add: length_takeWhile_le dropWhile_eq_drop)
  finally show "drop (Suc ?e + ?k) (buf[?e := 0]) = dropWhile (\<lambda>c. c = 32) zs @ 0 # rest" .
  have "skip_spaces (buf[?e := 0]) (Suc ?e) = Ok (Suc ?e + length (takeWhile (\<lambda>c. c = 32) (zs @ 0 # rest)))"
    by (rule skip_spaces_from [OF d']) (auto intro: bexI [of _ 0])
  moreover have "takeWhile (\<lambda>c. c = 32) (zs @ 0 # rest) = takeWhile (\<lambda>c. c = 32) zs"
    by (induction zs) auto
  ultimately show "tokenize_from buf len rp ts = tokenize_from (buf[?e := 0]) len (Suc ?e + ?k) (ts @ [rp])"
    using e r t by (subst tokenize_from.simps) simp
qed


lemma hd_dropWhile_spaces: "dropWhile (\<lambda>c. c = (32 :: u8)) zs = [] \<or> hd (dropWhile (\<lambda>c. c = 32) zs) \<noteq> 32"
  using hd_dropWhile [of "\<lambda>c. c = 32" zs] by blast

lemma tokenize_from_words:
  assumes "drop rp buf = ys @ 0 # rest" and "0 \<notin> set ys" and "ys = [] \<or> hd ys \<noteq> 32" and "tail_ok rest"
    and "length ts + length (words ys) < MAX_ARG" and "length ys < NUL_SCAN"
  shows "\<exists>buf' ts'. tokenize_from buf (rp + length ys) rp ts = Ok (buf', ts @ ts', length ts + length (words ys)) \<and>
    ptrs buf' ts' (words ys) \<and> take rp buf' = take rp buf \<and> length buf' = length buf"
  using assms
proof (induction "length ys" arbitrary: rp buf ys ts rule: less_induct)
  case (less ys rp buf ts)
  show ?case
  proof (cases "ys = []")
    case True
    then show ?thesis by (auto simp: tokenize_from_done ptrs_def)
  next
    case False
    then have hd: "hd ys \<noteq> 32" using less.prems(3) by simp
    show ?thesis
      using less.prems(2) False hd
    proof (cases rule: word_split)
      case last
      have "cstring (at buf rp) ys"
      proof (rule cut_word [OF less.prems(1) last(1)])
        have "buf ! (rp + length ys) = 0"
          using arr_drop [OF less.prems(1)] by (simp add: arr_def split: if_splits)
        then show "take (Suc (rp + length ys)) buf = take (Suc (rp + length ys)) (buf[rp + length ys := 0])"
          using list_update_id [of buf "rp + length ys"] by simp
      qed (use less.prems(6) in simp_all)
      then show ?thesis
        using tokenize_from_last [OF less.prems(1) last(1) False less.prems(4), of ts] less.prems(5) last(2)
        by (auto simp: ptrs_def)
    next
      case (more w zs)
      define zs' where "zs' = dropWhile (\<lambda>c. c = 32) zs"
      define e where "e = rp + length w"
      define rp' where "rp' = Suc e + length (takeWhile (\<lambda>c. c = 32) zs)"
      have d: "drop rp buf = w @ 32 # zs @ 0 # rest" using less.prems(1) more(1) by simp
      have lz: "length zs = length (takeWhile (\<lambda>c. c = 32) zs) + length zs'"
        using arg_cong [OF takeWhile_dropWhile_id [of "\<lambda>c. c = 32" zs], of length]
        unfolding zs'_def length_append by simp
      have len: "rp + length ys = rp' + length zs'" using more(1) lz by (simp add: rp'_def e_def)
      have wz: "words zs = words zs'" by (simp add: zs'_def words_spaces)
      have t: "Suc (length ts) < MAX_ARG \<or> words zs' = []" using less.prems(5) more(3) wz by (cases "words zs'") auto
      have t1: "Suc (length ts) < MAX_ARG" using less.prems(5) more(3) by simp
      have M: "tokenize_from buf (rp + length ys) rp ts = tokenize_from (buf[e := 0]) (rp' + length zs') rp' (ts @ [rp])"
          "drop rp' (buf[e := 0]) = zs' @ 0 # rest"
        using tokenize_from_more [OF d more(2) _ t1, of "rp + length ys"] more(1) len
        by (simp_all add: e_def rp'_def zs'_def add_ac)
      have "\<exists>buf' ts'. tokenize_from (buf[e := 0]) (rp' + length zs') rp' (ts @ [rp]) =
            Ok (buf', (ts @ [rp]) @ ts', length (ts @ [rp]) + length (words zs')) \<and>
          ptrs buf' ts' (words zs') \<and> take rp' buf' = take rp' (buf[e := 0]) \<and> length buf' = length (buf[e := 0])"
      proof (rule less.hyps)
        show "length zs' < length ys" using more(1) lz by simp
        show "0 \<notin> set zs'" using less.prems(2) more(1) set_dropWhileD [of 0 "\<lambda>c. c = 32" zs] by (auto simp: zs'_def)
        show "zs' = [] \<or> hd zs' \<noteq> 32" unfolding zs'_def by (rule hd_dropWhile_spaces)
        show "length (ts @ [rp]) + length (words zs') < MAX_ARG" using less.prems(5) more(3) wz by simp
        show "length zs' < NUL_SCAN" using less.prems(6) more(1) lz by simp
      qed (use M(2) less.prems(4) in simp_all)
      then obtain buf' ts' where R: "tokenize_from (buf[e := 0]) (rp' + length zs') rp' (ts @ [rp]) =
            Ok (buf', (ts @ [rp]) @ ts', length (ts @ [rp]) + length (words zs'))"
          "ptrs buf' ts' (words zs')" "take rp' buf' = take rp' (buf[e := 0])" "length buf' = length (buf[e := 0])"
        by blast
      have tk: "take n buf' = take n (buf[e := 0])" if "n \<le> rp'" for n
        using arg_cong [OF R(3), of "take n"] that by (simp add: min_def)
      have "cstring (at buf' rp) w"
      proof (rule cut_word [OF d more(2)])
        show "take (Suc (rp + length w)) buf' = take (Suc (rp + length w)) (buf[rp + length w := 0])"
          using tk [of "Suc e"] by (simp add: e_def rp'_def)
      qed (use less.prems(6) more(1) in simp_all)
      moreover have "take rp buf' = take rp buf" using tk [of rp] by (simp add: e_def rp'_def)
      ultimately show ?thesis
        using R(1,2,4) M(1) more(3) wz
        by (intro exI [of _ buf'] exI [of _ "rp # ts'"]) (simp add: ptrs_def)
    qed
  qed
qed

lemma tokenize_from_too_many:
  assumes "drop rp buf = ys @ 0 # rest" and "0 \<notin> set ys" and "ys = [] \<or> hd ys \<noteq> 32"
    and "length ts < MAX_ARG" and "MAX_ARG \<le> length ts + length (words ys)"
  shows "\<exists>buf' ts'. tokenize_from buf (rp + length ys) rp ts = Ok (buf', ts', 0)"
  using assms
proof (induction "length ys" arbitrary: rp buf ys ts rule: less_induct)
  case (less ys rp buf ts)
  have ne: "ys \<noteq> []" using less.prems(4,5) by auto
  then have hd: "hd ys \<noteq> 32" using less.prems(3) by simp
  have eight: "\<exists>buf' ts'. tokenize_from buf (rp + length ys) rp ts = Ok (buf', ts', 0)"
    if "drop rp buf = w @ c # xs" "\<forall>x \<in> set w. x \<noteq> 32 \<and> x \<noteq> 0" "c = 32 \<or> c = 0" "Suc (length ts) = MAX_ARG" for w c xs
    using word_end_run [OF that(1-3)] that(4) ne by (subst tokenize_from.simps) auto
  show ?case
    using less.prems(2) ne hd
  proof (cases rule: word_split)
    case last
    then show ?thesis using eight [of ys 0 rest] less.prems(1,4,5) by simp
  next
    case (more w zs)
    define zs' where "zs' = dropWhile (\<lambda>c. c = 32) zs"
    define rp' where "rp' = Suc (rp + length w) + length (takeWhile (\<lambda>c. c = 32) zs)"
    have d: "drop rp buf = w @ 32 # zs @ 0 # rest" using less.prems(1) more(1) by simp
    have lz: "length zs = length (takeWhile (\<lambda>c. c = 32) zs) + length zs'"
      using arg_cong [OF takeWhile_dropWhile_id [of "\<lambda>c. c = 32" zs], of length]
      unfolding zs'_def length_append by simp
    have len: "rp + length ys = rp' + length zs'" using more(1) lz by (simp add: rp'_def)
    show ?thesis
    proof (cases "Suc (length ts) = MAX_ARG")
      case True
      then show ?thesis using eight [OF d more(2)] by simp
    next
      case False
      then have t: "Suc (length ts) < MAX_ARG" using less.prems(4) by simp
      have M: "tokenize_from buf (rp + length ys) rp ts = tokenize_from (buf[rp + length w := 0]) (rp' + length zs') rp' (ts @ [rp])"
          "drop rp' (buf[rp + length w := 0]) = zs' @ 0 # rest"
        using tokenize_from_more [OF d more(2) _ t, of "rp + length ys"] more(1) len
        by (simp_all add: rp'_def zs'_def add_ac)
      show ?thesis
        unfolding M(1)
      proof (rule less.hyps)
        show "length zs' < length ys" using more(1) lz by simp
        show "0 \<notin> set zs'" using less.prems(2) more(1) set_dropWhileD [of 0 "\<lambda>c. c = 32" zs] by (auto simp: zs'_def)
        show "zs' = [] \<or> hd zs' \<noteq> 32" unfolding zs'_def by (rule hd_dropWhile_spaces)
        show "MAX_ARG \<le> length (ts @ [rp]) + length (words zs')"
          using less.prems(5) more(3) words_spaces [of zs] by (simp add: zs'_def)
      qed (use M(2) t in simp_all)
    qed
  qed
qed

text \<open>
  \<^verbatim>\<open>tokenize\<close> on a line: fewer than eight words are found, in order, each as a string of its own; an
  empty line and one of eight words or more give 0.
\<close>

lemma tokenize_start:
  assumes "0 \<notin> set line" and "length line < NUL_SCAN"
  defines "k \<equiv> length (takeWhile (\<lambda>c. c = 32) line)"
  shows "tokenize (line @ 0 # rest) =
      tokenize_from (line @ 0 # rest) (k + length (dropWhile (\<lambda>c. c = 32) line)) k []"
    and "drop k (line @ 0 # rest) = dropWhile (\<lambda>c. c = 32) line @ 0 # rest"
proof -
  have tw: "takeWhile (\<lambda>c. c = 32) (line @ 0 # rest) = takeWhile (\<lambda>c. c = 32) line" for rest :: "u8 list"
    by (induction line) auto
  have "skip_spaces (line @ 0 # rest) 0 = Ok (0 + length (takeWhile (\<lambda>c. c = 32) (line @ 0 # rest)))"
    by (rule skip_spaces_from) (auto intro: bexI [of _ 0])
  moreover have "length line = k + length (dropWhile (\<lambda>c. c = 32) line)"
    using arg_cong [OF takeWhile_dropWhile_id [of "\<lambda>c. c = 32" line], of length]
    unfolding k_def length_append by simp
  moreover have "strlen (arr (line @ 0 # rest)) = Ok (length line)"
    by (rule strlen_cstring) (use assms in simp)
  ultimately show "tokenize (line @ 0 # rest) =
      tokenize_from (line @ 0 # rest) (k + length (dropWhile (\<lambda>c. c = 32) line)) k []"
    by (simp add: tokenize_def user_strlen_def tw k_def)
  show "drop k (line @ 0 # rest) = dropWhile (\<lambda>c. c = 32) line @ 0 # rest"
    by (simp add: k_def length_takeWhile_le dropWhile_eq_drop)
qed

lemma tokenize_words:
  assumes "0 \<notin> set line" and "length line < NUL_SCAN" and "length (words line) < 8" and "tail_ok rest"
  shows "\<exists>buf ts. tokenize (line @ 0 # rest) = Ok (buf, ts, length (words line)) \<and>
    ptrs buf ts (words line) \<and> length buf = length (line @ 0 # rest)"
proof -
  let ?k = "length (takeWhile (\<lambda>c. c = 32) line)" and ?ys = "dropWhile (\<lambda>c. c = 32) line"
  note T = tokenize_start [OF assms(1,2), of rest]
  have "\<exists>buf' ts'. tokenize_from (line @ 0 # rest) (?k + length ?ys) ?k [] =
      Ok (buf', [] @ ts', length ([] :: nat list) + length (words ?ys)) \<and>
      ptrs buf' ts' (words ?ys) \<and> take ?k buf' = take ?k (line @ 0 # rest) \<and> length buf' = length (line @ 0 # rest)"
  proof (rule tokenize_from_words [OF T(2) _ _ assms(4)])
    show "0 \<notin> set ?ys" using assms(1) set_dropWhileD [of 0 "\<lambda>c. c = 32" line] by auto
    show "?ys = [] \<or> hd ?ys \<noteq> 32" by (rule hd_dropWhile_spaces)
    show "length ([] :: nat list) + length (words ?ys) < MAX_ARG" using assms(3) by (simp add: words_spaces MAX_ARG_def)
    show "length ?ys < NUL_SCAN" using assms(2) length_dropWhile_le [of "\<lambda>c. c = 32" line] by linarith
  qed
  then show ?thesis unfolding T(1) words_spaces by auto
qed

lemma tokenize_too_many:
  assumes "0 \<notin> set line" and "length line < NUL_SCAN" and "8 \<le> length (words line)"
  shows "\<exists>buf ts. tokenize (line @ 0 # rest) = Ok (buf, ts, 0)"
proof -
  note T = tokenize_start [OF assms(1,2), of rest]
  show ?thesis
    unfolding T(1)
  proof (rule tokenize_from_too_many [OF T(2)])
    show "0 \<notin> set (dropWhile (\<lambda>c. c = 32) line)" using assms(1) set_dropWhileD [of 0 "\<lambda>c. c = 32" line] by auto
  qed (use assms(3) hd_dropWhile_spaces in \<open>simp_all add: words_spaces MAX_ARG_def\<close>)
qed


section \<open>Reading a line\<close>

text \<open>
  The bytes that a sequence of answers to one-byte reads delivers: none for an answer of 0 or less, which
  \<^verbatim>\<open>read_line\<close> takes for ``nothing yet'', one for any other. \<open>byte_answers\<close>: a positive answer brings a byte.
\<close>

definition typed :: "answer list \<Rightarrow> u8 list" where
  "typed as = concat (map (\<lambda>(r, bs). if r \<le> 0 then [] else take 1 bs) as)"

definition byte_answers :: "answer list \<Rightarrow> bool" where
  "byte_answers as \<longleftrightarrow> list_all (\<lambda>(r, bs). r \<le> 0 \<or> bs \<noteq> []) as"

lemma typed_simps [simp]:
  "typed [] = []" "typed ((r, bs) # as) = (if r \<le> 0 then [] else take 1 bs) @ typed as"
  by (simp_all add: typed_def)

lemma byte_answers_simps [simp]:
  "byte_answers []" "byte_answers ((r, bs) # as) \<longleftrightarrow> (r \<le> 0 \<or> bs \<noteq> []) \<and> byte_answers as"
  by (simp_all add: byte_answers_def)

lemma read_line_run:
  assumes "byte_answers as" and "10 \<notin> set (typed as)" and "length as < fuel" and "0 < r"
    and "int (i + length (typed as)) < sz" and "i + length (typed as) < length buf"
  shows "feed (read_line fuel fd buf sz i) (as @ [(r, 10 # bs)]) = (replicate (Suc (length as)) (Read fd 1),
    Ret (take i buf @ typed as @ 10 # drop (Suc (i + length (typed as))) buf, Suc (i + length (typed as))))"
  using assms
proof (induction as arbitrary: fuel i buf)
  case Nil
  then obtain n where n: "fuel = Suc n" by (cases fuel) auto
  then show ?case using Nil.prems by (simp add: upd_conv_take_nth_drop)
next
  case (Cons a as)
  obtain n where n: "fuel = Suc n" using Cons.prems(3) by (cases fuel) auto
  obtain q cs where a: "a = (q, cs)" by (cases a)
  show ?case
  proof (cases "q \<le> 0")
    case True
    then show ?thesis using Cons.IH [of n i buf] Cons.prems n a by simp
  next
    case False
    then obtain c cs' where cs: "cs = c # cs'" using Cons.prems(1) a by (cases cs) auto
    have c: "c \<noteq> 10" using Cons.prems(2) a False cs by auto
    have i: "int i < sz" "i < length buf" using Cons.prems(5,6) by auto
    have "feed (read_line n fd (buf[i := c]) sz (Suc i)) (as @ [(r, 10 # bs)]) = (replicate (Suc (length as)) (Read fd 1),
        Ret (take (Suc i) (buf[i := c]) @ typed as @ 10 # drop (Suc (Suc i + length (typed as))) (buf[i := c]),
          Suc (Suc i + length (typed as))))"
      by (rule Cons.IH) (use Cons.prems n a False cs in simp_all)
    then show ?thesis using n a False cs c i by (simp add: take_Suc_conv_app_nth)
  qed
qed

section \<open>A round of the shell\<close>

lemma read_str_cstring: "cstring (at buf p) w \<Longrightarrow> read_str buf p = Ok w"
proof -
  assume c: "cstring (at buf p) w"
  have at: "at buf p k = Ok (w ! k)" if "k < length w" for k using cstring_nth [OF c that] by blast
  have n: "p + k < length buf \<and> buf ! (p + k) = w ! k" if "k < length w" for k
    using at [OF that] by (simp add: at_def arr_def split: if_splits)
  have "take (length w) (drop p buf) = w"
  proof (rule nth_equalityI)
    show l: "length (take (length w) (drop p buf)) = length w"
      using n [of "length w - 1"] by (cases w) auto
    show "take (length w) (drop p buf) ! k = w ! k" if "k < length (take (length w) (drop p buf))" for k
      using that l n [of k] by simp
  qed
  then show ?thesis using strlen_cstring [OF c] by (simp add: read_str_def)
qed

lemma read_strs_ptrs: "ptrs buf ts ws \<Longrightarrow> read_strs buf ts = Ok ws"
  unfolding ptrs_def by (induction rule: list_all2_induct) (simp_all add: read_str_cstring)

definition exec_failed :: "int \<Rightarrow> u8 list \<Rightarrow> request list" where
  "exec_failed fd w = writes fd (kstr ''execv failed: '') @ writes fd w @ [Write fd [10], Exit 0]"

lemma cstring_kstr: "list_all (\<lambda>c. of_char c \<noteq> (0 :: u8)) xs \<Longrightarrow> length xs < NUL_SCAN \<Longrightarrow> cstring (arr (kstr xs @ [0])) (kstr xs)"
  by (rule cstring_arr) (auto simp: kstr_def list_all_iff)

lemma does_Exit: "does (bindp (syscall (Exit n)) (\<lambda>_. Ret ())) [Exit n] ()"
  by (auto simp: does_def syscall_def length_Suc_conv)

lemma child_run:
  assumes p: "ptrs buf ts ws" and ne: "ws \<noteq> []"
  obtains k where "sh_child fd buf ts = Call (Execv (hd ws) (Some ws)) k" "\<And>a. does (k a) (exec_failed fd (hd ws)) ()"
proof -
  define q where "q = bindp (user_print fd (arr (kstr ''execv failed: '' @ [0]))) (\<lambda>_.
     bindp (user_print fd (at buf (hd ts))) (\<lambda>_.
     bindp (user_puts fd (arr [0])) (\<lambda>_.
     bindp (syscall (Exit 0)) (\<lambda>_. Ret ()))))"
  have "cstring (at buf (hd ts)) (hd ws)"
    using p ne unfolding ptrs_def by (cases ws; cases ts) auto
  then have w: "does (user_print fd (at buf (hd ts))) (writes fd (hd ws)) (length (hd ws))" by (rule does_print)
  have "does (user_puts fd (arr [0])) (writes fd ([] @ [10])) (length ([] :: u8 list) + 1)"
    by (rule does_puts) (use cstring_arr [of "[]" "[]"] in \<open>simp add: NUL_SCAN_def\<close>)
  note 1 = does_bindp [OF this, of "\<lambda>_. bindp (syscall (Exit 0)) (\<lambda>_. Ret ())", OF does_Exit]
  note 2 = does_bindp [OF w, of "\<lambda>_. bindp (user_puts fd (arr [0])) (\<lambda>_. bindp (syscall (Exit 0)) (\<lambda>_. Ret ()))", OF 1]
  have "does (user_print fd (arr (kstr ''execv failed: '' @ [0]))) (writes fd (kstr ''execv failed: '')) (length (kstr ''execv failed: ''))"
    by (rule does_print) (rule cstring_kstr, simp_all add: NUL_SCAN_def)
  from does_bindp [OF this, of "\<lambda>_. bindp (user_print fd (at buf (hd ts))) (\<lambda>_. bindp (user_puts fd (arr [0])) (\<lambda>_. bindp (syscall (Exit 0)) (\<lambda>_. Ret ())))", OF 2]
  have q: "does q (exec_failed fd (hd ws)) ()"
    by (simp add: q_def exec_failed_def writes_def)
  have "sh_child fd buf ts = Call (Execv (hd ws) (Some ws)) (\<lambda>a. q)"
    using read_strs_ptrs [OF p] by (simp add: sh_child_def syscall_def q_def case_prod_beta)
  then show thesis using that q by blast
qed

text \<open>The prompt and the line, up to the newline.\<close>

definition prompt_and_read :: "int \<Rightarrow> nat \<Rightarrow> request list" where
  "prompt_and_read fd n = writes fd (kstr ''$ '') @ replicate n (Read fd 1)"

lemma sh_round_line:
  assumes "byte_answers as" and "typed as = line" and "10 \<notin> set line" and "length as < fuel" and "0 < r"
    and "length line < 1023" and "length buf = 1024" and "length ps = 2"
  shows "feed (sh_round fuel fd buf) (ps @ as @ [(r, 10 # bs)] @ cs) =
    (prompt_and_read fd (Suc (length as)) @ fst (feed (sh_command fd (line @ 0 # drop (Suc (length line)) buf)) cs),
     snd (feed (sh_command fd (line @ 0 # drop (Suc (length line)) buf)) cs))"
proof -
  let ?b = "line @ 10 # drop (Suc (length line)) buf" and ?n = "Suc (length line)"
  define f where "f = (\<lambda>(buf, n). if n = 0 then Wrong ''write before the start of an array'' else sh_command fd (buf[n - 1 := 0]))"
  have rl: "feed (read_line fuel fd buf (1024 - 1) 0) (as @ [(r, 10 # bs)]) = (replicate (Suc (length as)) (Read fd 1), Ret (?b, ?n))"
    using read_line_run [of as fuel r 0 "1024 - 1" buf fd bs] assms by simp
  have rl': "feed (bindp (read_line fuel fd buf (1024 - 1) 0) f) (as @ [(r, 10 # bs)] @ cs) =
      (replicate (Suc (length as)) (Read fd 1) @ fst (feed (f (?b, ?n)) cs), snd (feed (f (?b, ?n)) cs))"
    using feed_bindp [OF rl, of f cs] by simp
  have fb: "f (?b, ?n) = sh_command fd (line @ 0 # drop (Suc (length line)) buf)"
    by (simp add: f_def)
  have pr: "does (user_print fd (arr (kstr ''$ '' @ [0]))) (writes fd (kstr ''$ '')) (length (kstr ''$ ''))"
    by (rule does_print) (rule cstring_kstr, simp_all add: NUL_SCAN_def)
  have "length ps = length (writes fd (kstr ''$ ''))" using assms(8) by (simp add: writes_def kstr_def)
  from does_feed [OF pr this, of "\<lambda>_. bindp (read_line fuel fd buf (1024 - 1) 0) f" "as @ [(r, 10 # bs)] @ cs"]
  show ?thesis
    unfolding rl' fb by (simp add: sh_round_def f_def prompt_and_read_def)
qed

text \<open>
  Property C16: a round of the shell. However often the console has nothing to say in between, the
  shell prompts, reads up to the newline and, when the line has between one and seven words, forks: the
  child asks the kernel to execute the first word with exactly the words of the line as arguments, and
  if that fails says so and exits; the parent waits. An empty line and a line of eight words or more make
  it prompt again. The bytes left in the buffer behind the line must not be all spaces.
\<close>

theorem shell_runs_the_line:
  assumes "byte_answers as" and "typed as = line" and "10 \<notin> set line" and "0 \<notin> set line" and "length line < 1023"
    and "length as < fuel" and "0 < r" and "length buf = 1024" and "tail_ok (drop (Suc (length line)) buf)" and "length ps = 2"
  shows "if words line = [] \<or> 8 \<le> length (words line)
    then feed (sh_round fuel fd buf) (ps @ as @ [(r, 10 # bs)]) = (prompt_and_read fd (Suc (length as)), Ret ())
    else (\<exists>child. feed (sh_round fuel fd buf) (ps @ as @ [(r, 10 # bs)] @ [(0, x)]) =
            (prompt_and_read fd (Suc (length as)) @ [Fork], Call (Execv (hd (words line)) (Some (words line))) child) \<and>
            (\<forall>a. does (child a) (exec_failed fd (hd (words line))) ())) \<and>
         (\<forall>pid \<noteq> 0. feed (sh_round fuel fd buf) (ps @ as @ [(r, 10 # bs)] @ [(pid, x)]) =
            (prompt_and_read fd (Suc (length as)) @ [Fork], Call Wait (\<lambda>_. Ret ())))"
proof -
  let ?rest = "drop (Suc (length line)) buf"
  note R = sh_round_line [OF assms(1-3,6,7,5,8,10), of fd bs]
  have ns: "length line < NUL_SCAN" using assms(5) by (simp add: NUL_SCAN_def)
  show ?thesis
  proof (cases "words line = [] \<or> 8 \<le> length (words line)")
    case True
    have "\<exists>b ts. tokenize (line @ 0 # ?rest) = Ok (b, ts, 0)"
    proof (cases "words line = []")
      case True
      then show ?thesis using tokenize_words [OF assms(4) ns _ assms(9)] by auto
    next
      case False
      then show ?thesis using tokenize_too_many [OF assms(4) ns, of ?rest] True by blast
    qed
    then have "sh_command fd (line @ 0 # ?rest) = Ret ()" by (auto simp: sh_command_def)
    then show ?thesis using R [of "[]"] True by simp
  next
    case False
    then have lt: "length (words line) < 8" by simp
    obtain b ts where T: "tokenize (line @ 0 # ?rest) = Ok (b, ts, length (words line))" "ptrs b ts (words line)"
      using tokenize_words [OF assms(4) ns lt assms(9)] by blast
    obtain k where k: "sh_child fd b ts = Call (Execv (hd (words line)) (Some (words line))) k"
        "\<And>a. does (k a) (exec_failed fd (hd (words line))) ()"
      using child_run [OF T(2), of fd] False by blast
    have C: "sh_command fd (line @ 0 # ?rest) = Call Fork (\<lambda>a. if fst a = 0 then sh_child fd b ts else Call Wait (\<lambda>_. Ret ()))"
      using T(1) False lt by (simp add: sh_command_def MAX_ARG_def syscall_def case_prod_beta cong: if_cong)
    have "feed (sh_round fuel fd buf) (ps @ as @ [(r, 10 # bs)] @ [(0, x)]) =
        (prompt_and_read fd (Suc (length as)) @ [Fork], Call (Execv (hd (words line)) (Some (words line))) k)"
      using R [of "[(0, x)]"] k(1) C by simp
    moreover have "feed (sh_round fuel fd buf) (ps @ as @ [(r, 10 # bs)] @ [(pid, x)]) =
        (prompt_and_read fd (Suc (length as)) @ [Fork], Call Wait (\<lambda>_. Ret ()))" if "pid \<noteq> 0" for pid
      using R [of "[(pid, x)]"] C that by simp
    ultimately show ?thesis using False k(2) by auto
  qed
qed

text \<open>The line \<open>ls a\<close>, its second byte and its newline delivered after one and two empty answers.\<close>

theorem shell_runs_the_line_witness:
  "\<exists>child. feed (sh_round 10 3 (replicate 1024 0))
      [(1, []), (1, []), (1, [108]), (0, []), (1, [115]), (1, [32]), (1, [97]), (0, []), (-1, []), (1, [10]), (0, [])] =
    (prompt_and_read 3 8 @ [Fork], Call (Execv [108, 115] (Some [[108, 115], [97]])) child)"
proof -
  have w: "words [108, 115, 32, 97] = [[108, 115], [97]]" by (simp add: words.simps)
  have t: "tail_ok (drop (Suc (length [108, 115, 32, 97 :: u8])) (replicate 1024 0))" by (simp add: tail_ok_def)
  have b: "byte_answers [(1, [108]), (0, []), (1, [115]), (1, [32]), (1, [97]), (0, []), (-1, [])]" by simp
  have n8: "Suc (Suc (Suc (Suc (Suc (Suc (Suc (Suc 0))))))) = 8" by simp
  show ?thesis
    using shell_runs_the_line [of "[(1, [108]), (0, []), (1, [115]), (1, [32]), (1, [97]), (0, []), (-1, [])]"
        "[108, 115, 32, 97]" 10 1 "replicate 1024 0" "[(1, []), (1, [])]" 3 "[]" "[]", OF b _ _ _ _ _ _ _ t] w n8
    by auto
qed


section \<open>The programs\<close>

fun join_args :: "u8 list list \<Rightarrow> u8 list" where
  "join_args [] = []"
| "join_args [w] = w"
| "join_args (w # ws) = w @ 32 # join_args ws"

definition is_arg :: "u8 list \<Rightarrow> bool" where
  "is_arg w \<longleftrightarrow> 0 \<notin> set w \<and> length w < NUL_SCAN"

lemma does_print_arg: "is_arg w \<Longrightarrow> does (user_print fd (arr (w @ [0]))) (writes fd w) (length w)"
  unfolding is_arg_def by (rule does_print) simp

lemma does_puts_empty: "does (user_puts fd (arr [0])) [Write fd [10]] 1"
  using does_puts [of "arr [0]" "[]" fd] cstring_arr [of "[]" "[]"] by (simp add: NUL_SCAN_def writes_def)

lemma writes_append [simp]: "writes fd (xs @ ys) = writes fd xs @ writes fd ys"
  by (simp add: writes_def)

lemma does_echo_args: "list_all is_arg ws \<Longrightarrow> does (echo_args fd ws) (writes fd (join_args ws)) ()"
proof (induction ws rule: join_args.induct)
  case 1
  then show ?case by (simp add: does_Ret writes_def)
next
  case (2 w)
  then show ?case using does_bindp [OF does_print_arg [of w fd], of "\<lambda>_. Ret ()" "[]" "()"] does_Ret [of "()"] by simp
next
  case (3 w v vs)
  have "does (user_print fd (arr (kstr '' '' @ [0]))) (writes fd (kstr '' '')) (length (kstr '' ''))"
    by (rule does_print) (rule cstring_kstr, simp_all add: NUL_SCAN_def)
  from does_bindp [OF this, of "\<lambda>_. echo_args fd (v # vs)"] 3
  have "does (bindp (user_print fd (arr (kstr '' '' @ [0]))) (\<lambda>_. echo_args fd (v # vs)))
      (writes fd (kstr '' '') @ writes fd (join_args (v # vs))) ()" by simp
  from does_bindp [OF does_print_arg [of w fd], of "\<lambda>_. bindp (user_print fd (arr (kstr '' '' @ [0]))) (\<lambda>_. echo_args fd (v # vs))", OF _ this] 3
  show ?case by (simp add: kstr_def writes_def)
qed

text \<open>\<^verbatim>\<open>echo\<close> prints its arguments with one space between them and a newline, and exits.\<close>

lemma echo_prints_arguments:
  assumes "list_all is_arg (tl argv)" and "length as = length (writes fd (join_args (tl argv))) + 2"
  shows "feed (echo argv) ((fd, x) # as) =
    (Open (kstr ''console'') 0 # writes fd (join_args (tl argv)) @ [Write fd [10], Exit 0], Ret ())"
proof -
  let ?q = "bindp (echo_args fd (tl argv)) (\<lambda>_. bindp (user_puts fd (arr [0])) (\<lambda>_. bindp (syscall (Exit 0)) (\<lambda>_. Ret ())))"
  note 1 = does_bindp [OF does_puts_empty [of fd], of "\<lambda>_. bindp (syscall (Exit 0)) (\<lambda>_. Ret ())", OF does_Exit]
  have "does ?q (writes fd (join_args (tl argv)) @ [Write fd [10], Exit 0]) ()"
    using does_bindp [OF does_echo_args [OF assms(1), of fd], of "\<lambda>_. bindp (user_puts fd (arr [0])) (\<lambda>_. bindp (syscall (Exit 0)) (\<lambda>_. Ret ()))", OF 1]
    by simp
  from doesD [OF this, of as] assms(2) show ?thesis
    by (simp add: echo_def syscall_def)
qed

text \<open>
  \<^verbatim>\<open>cat\<close> ignores how many bytes \<^verbatim>\<open>read\<close> delivered: for a text that does not fill the buffer it writes the
  text followed by what was in the buffer before, up to a NUL there.
\<close>

lemma cat_writes_stale_bytes:
  assumes "0 \<notin> set bs" and "length bs < length buf" and "drop (length bs) buf = old @ 0 # rest" and "0 \<notin> set old"
    and "length bs + length old < NUL_SCAN" and "0 \<le> fd"
  shows "feed (cat_file cfd path buf q) [(fd, x), (r, bs), (v, y), (z, y')] =
    ([Open path 0, Read fd (length buf), Write cfd (bs @ old), Close fd], q)"
proof -
  have o: "overlay (take (length buf) bs) buf = (bs @ old) @ 0 # rest"
    using assms(2,3) by (simp add: overlay_def)
  have "strlen (arr ((bs @ old) @ 0 # rest)) = Ok (length (bs @ old))"
    by (rule strlen_cstring, rule cstring_arr) (use assms(1,4,5) in auto)
  moreover have "feed q [] = ([], q)" by (cases q) simp_all
  ultimately show ?thesis
    using o assms(6) by (simp add: cat_file_def syscall_def read_buf_def user_strlen_def)
qed


section \<open>The copy without an end\<close>

text \<open>
  The user library's \<^verbatim>\<open>strcpy\<close> copies the characters of a string and returns the address behind them, but
  the byte there stays what it was.
\<close>

definition apart :: "u32 \<Rightarrow> u32 \<Rightarrow> nat \<Rightarrow> bool" where
  "apart a b n \<longleftrightarrow> unat a + n < 4294967296 \<and> unat b + n < 4294967296 \<and> (unat a + n < unat b \<or> unat b + n < unat a)"

lemma user_strcpy_from_run:
  assumes "\<And>k. k < length xs \<Longrightarrow> m (src + of_nat k) = xs ! k" and "0 \<notin> set xs" and "m (src + of_nat (length xs)) = 0"
    and "apart dest src (length xs)"
  shows "i \<le> length xs \<Longrightarrow> length xs - i < fuel \<Longrightarrow>
    user_strcpy_from fuel (put_bytes m dest (take i xs)) (dest + of_nat i) src i =
      Ok (put_bytes m dest xs, dest + of_nat (length xs))"
proof (induction fuel arbitrary: i)
  case (Suc fuel)
  have src: "put_bytes m dest (take i xs) (src + of_nat k) = m (src + of_nat k)" if "k \<le> length xs" for k
    using assms(4) that unat_add_lt [of src k] by (intro put_bytes_outside) (auto simp: apart_def)
  show ?case
  proof (cases "i = length xs")
    case True
    then show ?thesis using src [of i] assms(3) by simp
  next
    case False
    then have i: "i < length xs" using Suc.prems by simp
    have "(put_bytes m dest (take i xs))(dest + of_nat i := xs ! i) = put_bytes m dest (take (Suc i) xs)"
      using put_bytes_snoc [of dest "take i xs" m "xs ! i"] i assms(4) by (simp add: apart_def take_Suc_conv_app_nth min_def)
    moreover have "xs ! i \<noteq> 0" using assms(2) i by (metis nth_mem)
    moreover have "dest + of_nat i + 1 = dest + of_nat (Suc i)" by simp
    ultimately show ?thesis
      using Suc.IH [of "Suc i"] Suc.prems i src [of i] assms(1) [OF i] by (simp add: Let_def add_ac)
  qed
qed simp

lemma user_strcpy_no_terminator:
  assumes "\<And>k. k < length xs \<Longrightarrow> m (src + of_nat k) = xs ! k" and "0 \<notin> set xs" and "m (src + of_nat (length xs)) = 0"
    and "apart dest src (length xs)"
  shows "\<exists>m'. user_strcpy m dest src = Ok (m', dest + of_nat (length xs)) \<and>
    (\<forall>k < length xs. m' (dest + of_nat k) = xs ! k) \<and> m' (dest + of_nat (length xs)) = m (dest + of_nat (length xs))"
proof -
  have n: "length xs < NUL_SCAN" using assms(4) by (simp add: apart_def NUL_SCAN_def)
  have "user_strcpy m dest src = Ok (put_bytes m dest xs, dest + of_nat (length xs))"
    using user_strcpy_from_run [OF assms, of 0 NUL_SCAN] n by (simp add: user_strcpy_def)
  moreover have "put_bytes m dest xs (dest + of_nat k) = xs ! k" if "k < length xs" for k
    using put_bytes_inside [OF that, of dest m] assms(4) by (simp add: apart_def)
  moreover have "put_bytes m dest xs (dest + of_nat (length xs)) = m (dest + of_nat (length xs))"
    using put_bytes_outside [of "dest + of_nat (length xs)" dest xs m] unat_add_lt [of dest "length xs"] assms(4)
    by (simp add: apart_def)
  ultimately show ?thesis by blast
qed

end
