(* ===== verification/Boot.thy ===== *)
theory Boot
  imports Exec
begin

text \<open>
  The boot loader, \<^verbatim>\<open>bootc.c\<close>: it reads the kernel's ELF file, which starts at the second sector of the
  disk, into physical memory. Here \<open>mem\<close> is indexed by physical address: paging is off. The disk is a
  device like the others: what its status port answers is \<open>port_in\<close>, and what its data port delivers
  is the argument \<open>drive\<close>, a function of the port writes so far. \<open>ata_drive drive img\<close> is the documented
  behaviour of an ATA disk with the contents \<open>img\<close>.
\<close>

section \<open>Reading sectors\<close>

definition KERN_LINK_PHYS :: u32 where "KERN_LINK_PHYS = 0x00100000"
definition SECT_SIZE :: u32 where "SECT_SIZE = 512"
definition ATA_RDY :: u8 where "ATA_RDY = push_bit 6 1"
definition ATA_BSY :: u8 where "ATA_BSY = push_bit 7 1"

definition CHECK_ATA_READY :: "u8 \<Rightarrow> bool" where
  "CHECK_ATA_READY status \<longleftrightarrow> (status AND 0xff) AND (ATA_RDY OR ATA_BSY) = ATA_RDY"

type_synonym ata = "(u16 \<times> u8) list \<Rightarrow> nat \<Rightarrow> u8"

partial_function (option) ata_wait :: "'z dev_state_scheme \<Rightarrow> 'z dev_state_scheme option" where
  "ata_wait s =
     (if \<not> CHECK_ATA_READY (fst (inb s 0x1f7)) then ata_wait (snd (inb s 0x1f7))
      else Some (snd (inb s 0x1f7)))"

text \<open>\<^verbatim>\<open>rep insd\<close> stores \<open>cnt\<close> double words from the data port one after the other.\<close>

definition insd :: "ata \<Rightarrow> 'z dev_state_scheme \<Rightarrow> u32 \<Rightarrow> u32 \<Rightarrow> 'z dev_state_scheme" where
  "insd drive s dst cnt =
     s\<lparr>mem := fold (\<lambda>k m. m(dst + of_nat k := drive (port_out s) k)) [0..<4 * unat cnt] (mem s)\<rparr>"

definition read_sect :: "ata \<Rightarrow> 'z dev_state_scheme \<Rightarrow> u32 \<Rightarrow> u32 \<Rightarrow> (u32 \<times> 'z dev_state_scheme) outcome" where
  "read_sect drive s dst lba =
     (case ata_wait s of None \<Rightarrow> Diverge
      | Some s \<Rightarrow>
          let s = outb s 0x1f6 (ucast (0xe0 OR (drop_bit 24 lba AND 0x0f)));
              s = outb s 0x1f2 1;
              s = outb s 0x1f3 (ucast lba);
              s = outb s 0x1f4 (ucast (drop_bit 8 lba AND 0xff));
              s = outb s 0x1f5 (ucast (drop_bit 16 lba AND 0xff));
              s = outb s 0x1f7 0x20
          in (case ata_wait s of None \<Rightarrow> Diverge
              | Some s \<Rightarrow> Ok (dst + SECT_SIZE, insd drive s dst (SECT_SIZE div 4))))"

text \<open>
  The loop of \<^verbatim>\<open>read_offset\<close>. The pointer grows by 512 in every round; after 2^23 rounds it has been at
  every address it can reach, so a loop that has not ended by then never does.
\<close>

definition READ_ROUNDS :: nat where "READ_ROUNDS = 8388608"

fun read_sectors :: "nat \<Rightarrow> ata \<Rightarrow> 'z dev_state_scheme \<Rightarrow> u32 \<Rightarrow> u32 \<Rightarrow> u32 \<Rightarrow> 'z dev_state_scheme outcome" where
  "read_sectors 0 drive s p e lba = (if p < e then Diverge else Ok s)"
| "read_sectors (Suc fuel) drive s p e lba =
     (if p < e then bnd (read_sect drive s p lba) (\<lambda>(p, s). read_sectors fuel drive s p e (lba + 1)) else Ok s)"

definition read_offset :: "ata \<Rightarrow> 'z dev_state_scheme \<Rightarrow> u32 \<Rightarrow> u32 \<Rightarrow> u32 \<Rightarrow> 'z dev_state_scheme outcome" where
  "read_offset drive s dst offset sz =
     read_sectors READ_ROUNDS drive s (dst - offset mod SECT_SIZE) (dst + sz) (offset div SECT_SIZE)"

section \<open>Loading the kernel\<close>

definition p_paddr_offset :: u32 where "p_paddr_offset = 12"

definition load_phys :: "ata \<Rightarrow> 'z dev_state_scheme \<Rightarrow> u32 \<Rightarrow> 'z dev_state_scheme outcome" where
  "load_phys drive s phdr =
     (if load32 (mem s) (phdr + p_type_offset) AND PT_LOAD \<noteq> 0
      then read_offset drive s (load32 (mem s) (phdr + p_paddr_offset))
             (SECT_SIZE + load32 (mem s) (phdr + p_offset_offset)) (load32 (mem s) (phdr + p_filesz_offset))
      else Ok s)"

text \<open>As in \<^verbatim>\<open>load_elf\<close>, the number of headers is read in every round and has 16 bits.\<close>

fun load_phys_all :: "nat \<Rightarrow> ata \<Rightarrow> 'z dev_state_scheme \<Rightarrow> u32 \<Rightarrow> nat \<Rightarrow> 'z dev_state_scheme outcome" where
  "load_phys_all 0 drive s ehdr i = Diverge"
| "load_phys_all (Suc fuel) drive s ehdr i =
     (if i < unat (load16 (mem s) (ehdr + e_phnum_offset))
      then bnd (load_phys drive s (elf_phdr (mem s) ehdr i)) (\<lambda>s. load_phys_all fuel drive s ehdr (i + 1))
      else Ok s)"

text \<open>The result is the address \<^verbatim>\<open>bootc\<close> calls, and the state at that moment.\<close>

definition bootc :: "ata \<Rightarrow> 'z dev_state_scheme \<Rightarrow> (u32 \<times> 'z dev_state_scheme) outcome" where
  "bootc drive s =
     (let ehdr = KERN_LINK_PHYS
      in bnd (read_offset drive s ehdr SECT_SIZE SECT_SIZE) (\<lambda>s.
         bnd (load_phys_all ELF_ROUNDS drive s ehdr 0) (\<lambda>s. Ok (load32 (mem s) (ehdr + e_entry_offset), s))))"

section \<open>The disk\<close>

text \<open>
  What an ATA disk delivers: the registers hold what was last written to them, and after the command
  0x20 for one sector, with linear addressing selected for the first drive, the data port gives the
  sector whose 28-bit address is in the registers.
\<close>

fun ata_reg :: "(u16 \<times> u8) list \<Rightarrow> u16 \<Rightarrow> u8" where
  "ata_reg [] port = 0"
| "ata_reg ((q, x) # log) port = (if q = port then x else ata_reg log port)"

definition ata_lba :: "(u16 \<times> u8) list \<Rightarrow> nat" where
  "ata_lba log = unat (ata_reg log 0x1f3) + 256 * unat (ata_reg log 0x1f4) + 65536 * unat (ata_reg log 0x1f5)
     + 16777216 * unat (ata_reg log 0x1f6 AND 0x0f)"

text \<open>In \<open>rev log\<close> the last write comes first.\<close>

definition ata_drive :: "ata \<Rightarrow> (nat \<Rightarrow> u8) \<Rightarrow> bool" where
  "ata_drive drive img \<longleftrightarrow> (\<forall>log. ata_reg log 0x1f7 = 0x20 \<and> ata_reg log 0x1f2 = 1 \<and> ata_reg log 0x1f6 AND 0xf0 = 0xe0 \<longrightarrow>
     (\<forall>k < 512. drive (rev log) k = img (512 * ata_lba log + k)))"

definition ata_ready :: "'z dev_state_scheme \<Rightarrow> bool" where
  "ata_ready s \<longleftrightarrow> (\<forall>t. \<exists>t' \<ge> t. CHECK_ATA_READY (port_in s t' 0x1f7))"

lemma ata_wait_from:
  "CHECK_ATA_READY (port_in s (io_time s + k) 0x1f7) \<Longrightarrow> \<exists>t. ata_wait s = Some (s\<lparr>io_time := t\<rparr>)"
proof (induction k arbitrary: s)
  case 0
  then show ?case by (subst ata_wait.simps) (auto simp: inb_def)
next
  case (Suc k)
  show ?case
  proof (cases "CHECK_ATA_READY (port_in s (io_time s) 0x1f7)")
    case False
    have "\<exists>t. ata_wait (s\<lparr>io_time := Suc (io_time s)\<rparr>) = Some (s\<lparr>io_time := Suc (io_time s)\<rparr>\<lparr>io_time := t\<rparr>)"
      by (rule Suc.IH) (use Suc.prems in simp)
    then show ?thesis using False by (subst ata_wait.simps) (auto simp: inb_def)
  next
    case True
    then show ?thesis by (subst ata_wait.simps) (auto simp: inb_def)
  qed
qed

lemma ata_wait_ready: "ata_ready s \<Longrightarrow> \<exists>t. ata_wait s = Some (s\<lparr>io_time := t\<rparr>)"
proof -
  assume "ata_ready s"
  then obtain t where "io_time s \<le> t" "CHECK_ATA_READY (port_in s t 0x1f7)" by (auto simp: ata_ready_def)
  then show ?thesis using ata_wait_from [of s "t - io_time s"] by simp
qed

lemma insd_bytes:
  assumes "unat a + n < 4294967296"
  shows "fold (\<lambda>k m. m(a + of_nat k := f k)) [0..<n] m = put_bytes m a (map f [0..<n])"
  using assms
proof (induction n)
  case (Suc n)
  have "fold (\<lambda>k m. m(a + of_nat k := f k)) [0..<Suc n] m = (put_bytes m a (map f [0..<n]))(a + of_nat n := f n)"
    unfolding upt_Suc_append [OF le0] fold_append comp_def using Suc by (simp only: fold.simps id_apply comp_def)
  also have "\<dots> = put_bytes m a (map f [0..<n] @ [f n])"
    using put_bytes_snoc [of a "map f [0..<n]" m "f n"] Suc.prems by simp
  finally show ?case by (simp only: upt_Suc_append [OF le0] map_append list.map)
qed simp

text \<open>The command \<^verbatim>\<open>read_sect\<close> sends names the sector \<open>lba\<close>.\<close>

definition ata_command :: "u32 \<Rightarrow> (u16 \<times> u8) list" where
  "ata_command lba = [(0x1f6, ucast (0xe0 OR (drop_bit 24 lba AND 0x0f))), (0x1f2, 1), (0x1f3, ucast lba),
     (0x1f4, ucast (drop_bit 8 lba AND 0xff)), (0x1f5, ucast (drop_bit 16 lba AND 0xff)), (0x1f7, 0x20)]"

lemma command_registers:
  fixes lba :: u32
  shows "(ucast (0xe0 OR (drop_bit 24 lba AND 0x0f)) :: u8) AND 0xf0 = 0xe0"
    and "(ucast (0xe0 OR (drop_bit 24 lba AND 0x0f)) :: u8) AND 0x0f = ucast (drop_bit 24 lba AND 0x0f)"
proof -
  have f0: "(0xf0 :: u8) = push_bit 4 (mask 4)" and e0: "(0xe0 :: u32) = push_bit 5 (mask 3)" "(0xe0 :: u8) = push_bit 5 (mask 3)"
    and f: "(0x0f :: u32) = mask 4" "(0x0f :: u8) = mask 4"
    by (simp_all add: mask_eq_exp_minus_1)
  show "(ucast (0xe0 OR (drop_bit 24 lba AND 0x0f)) :: u8) AND 0xf0 = 0xe0"
    unfolding f0 e0 f by (rule bit_word_eqI) (auto simp: bit_simps)
  show "(ucast (0xe0 OR (drop_bit 24 lba AND 0x0f)) :: u8) AND 0x0f = ucast (drop_bit 24 lba AND 0x0f)"
    unfolding e0 f by (rule bit_word_eqI) (auto simp: bit_simps)
qed

lemma unat_and_mask: "unat ((w :: u32) AND mask n) = unat w mod 2 ^ n"
  by (simp only: take_bit_eq_mask [symmetric] unsigned_take_bit_eq) (simp add: take_bit_eq_mod)

lemma command_lba:
  "unat (ucast lba :: u8) + 256 * unat (ucast (drop_bit 8 lba AND 0xff) :: u8)
     + 65536 * unat (ucast (drop_bit 16 lba AND 0xff) :: u8) + 16777216 * unat (ucast (drop_bit 24 lba AND 0x0f) :: u8)
     = unat (lba :: u32) mod 268435456"
proof -
  have b: "unat (ucast w :: u8) = unat w mod 256" for w :: u32 by (simp add: unsigned_ucast_eq take_bit_eq_mod)
  have "unat (drop_bit 8 lba AND 0xff) = unat lba div 256 mod 256"
    using unat_and_mask [of "drop_bit 8 lba" 8] by (simp only: unat_drop_bit_eq) (simp add: mask_eq_exp_minus_1 drop_bit_eq_div)
  moreover have "unat (drop_bit 16 lba AND 0xff) = unat lba div 65536 mod 256"
    using unat_and_mask [of "drop_bit 16 lba" 8] by (simp only: unat_drop_bit_eq) (simp add: mask_eq_exp_minus_1 drop_bit_eq_div)
  moreover have "unat (drop_bit 24 lba AND 0x0f) = unat lba div 16777216 mod 16"
    using unat_and_mask [of "drop_bit 24 lba" 4] by (simp only: unat_drop_bit_eq) (simp add: mask_eq_exp_minus_1 drop_bit_eq_div)
  moreover have "n mod 256 + 256 * (n div 256 mod 256) + 65536 * (n div 65536 mod 256) + 16777216 * (n div 16777216 mod 16)
      = n mod 268435456" for n :: nat
  proof -
    have "n mod 268435456 = 256 * (n div 256 mod 1048576) + n mod 256" using mod_mult2_eq [of n 256 1048576] by simp
    moreover have "n div 256 mod 1048576 = 256 * (n div 256 div 256 mod 4096) + n div 256 mod 256"
      using mod_mult2_eq [of "n div 256" 256 4096] by simp
    moreover have "n div 256 div 256 mod 4096 = 256 * (n div 256 div 256 div 256 mod 16) + n div 256 div 256 mod 256"
      using mod_mult2_eq [of "n div 256 div 256" 256 16] by simp
    ultimately show ?thesis by (simp add: div_mult2_eq [symmetric])
  qed
  ultimately show ?thesis by (simp only: b mod_mod_trivial) (simp add: mod_mod_cancel)
qed

definition sector :: "(nat \<Rightarrow> u8) \<Rightarrow> nat \<Rightarrow> u8 list" where
  "sector img l = map (\<lambda>k. img (512 * l + k)) [0..<512]"

lemma drive_sector:
  assumes "ata_drive drive img" and "unat lba < 268435456" and "k < 512"
  shows "drive (log @ ata_command lba) k = img (512 * unat lba + k)"
proof -
  let ?r = "rev (log @ ata_command lba)"
  have "ata_lba ?r = unat lba"
    unfolding ata_lba_def by (simp add: ata_command_def command_registers command_lba assms(2))
  moreover have "drive (rev ?r) k = img (512 * ata_lba ?r + k)"
    using assms(1,3) unfolding ata_drive_def by (elim allE [of _ ?r]) (simp add: ata_command_def command_registers)
  ultimately show ?thesis by simp
qed

text \<open>One sector: its 512 bytes are in memory at \<open>dst\<close>, and nothing else of the memory changed.\<close>

lemma read_sect_reads:
  assumes "ata_ready s" and "ata_drive drive img" and "unat lba < 268435456" and "unat dst + 512 < 4294967296"
  obtains s' where "read_sect drive s dst lba = Ok (dst + 512, s')" "mem s' = put_bytes (mem s) dst (sector img (unat lba))"
    "ata_ready s'"
proof -
  obtain t where t: "ata_wait s = Some (s\<lparr>io_time := t\<rparr>)" using ata_wait_ready [OF assms(1)] by blast
  define s1 where "s1 = s\<lparr>io_time := t, port_out := port_out s @ ata_command lba\<rparr>"
  have "ata_ready s1" using assms(1) by (simp add: s1_def ata_ready_def)
  then obtain t' where t': "ata_wait s1 = Some (s1\<lparr>io_time := t'\<rparr>)" using ata_wait_ready by blast
  define s2 where "s2 = insd drive (s1\<lparr>io_time := t'\<rparr>) dst (SECT_SIZE div 4)"
  have "outb (outb (outb (outb (outb (outb (s\<lparr>io_time := t\<rparr>) 0x1f6 (ucast (0xe0 OR (drop_bit 24 lba AND 0x0f)))) 0x1f2 1)
      0x1f3 (ucast lba)) 0x1f4 (ucast (drop_bit 8 lba AND 0xff))) 0x1f5 (ucast (drop_bit 16 lba AND 0xff))) 0x1f7 0x20 = s1"
    by (simp add: outb_def s1_def ata_command_def)
  then have "read_sect drive s dst lba = Ok (dst + 512, s2)"
    using t t' by (simp add: read_sect_def s2_def SECT_SIZE_def Let_def)
  moreover have "mem s2 = put_bytes (mem s) dst (sector img (unat lba))"
  proof -
    have "map (drive (port_out s1)) [0..<512] = sector img (unat lba)"
      using drive_sector [OF assms(2,3)] by (simp add: s1_def sector_def)
    then show ?thesis
      using insd_bytes [of dst 512 "drive (port_out s1)" "mem s"] assms(4)
      by (simp add: s2_def insd_def SECT_SIZE_def s1_def)
  qed
  moreover have "ata_ready s2" using assms(1) by (simp add: s2_def insd_def s1_def ata_ready_def)
  ultimately show thesis by (rule that)
qed


section \<open>Reading a range\<close>

text \<open>
  \<open>covers dst off sz\<close> are the addresses \<^verbatim>\<open>read_offset\<close> writes: whole sectors, so also up to 511 bytes on
  either side of the range asked for. Such an address gets the byte of the disk at the same distance
  from \<open>off\<close> as the address is from \<open>dst\<close>.
\<close>

definition sectors :: "u32 \<Rightarrow> u32 \<Rightarrow> nat" where
  "sectors off sz = (unat off mod 512 + unat sz + 511) div 512"

definition covers :: "u32 \<Rightarrow> u32 \<Rightarrow> u32 \<Rightarrow> u32 \<Rightarrow> bool" where
  "covers dst off sz x \<longleftrightarrow> unat dst - unat off mod 512 \<le> unat x \<and> unat x < unat dst - unat off mod 512 + 512 * sectors off sz"

definition fits :: "u32 \<Rightarrow> u32 \<Rightarrow> u32 \<Rightarrow> bool" where
  "fits dst off sz \<longleftrightarrow> unat off mod 512 \<le> unat dst \<and> unat dst + unat sz + 1024 < 4294967296"

lemma read_sectors_run:
  assumes d: "ata_drive drive img"
  shows "ata_ready s \<Longrightarrow> n \<le> fuel \<Longrightarrow> unat p + 512 * n < 4294967296 \<Longrightarrow> unat lba + n \<le> 268435456 \<Longrightarrow>
    unat e \<le> unat p + 512 * n \<Longrightarrow> n = 0 \<or> unat p + 512 * n < unat e + 512 \<Longrightarrow>
    \<exists>s'. read_sectors fuel drive s p e lba = Ok s' \<and> ata_ready s' \<and>
      mem s' = put_bytes (mem s) p (map img [512 * unat lba..<512 * (unat lba + n)])"
proof (induction n arbitrary: fuel s p lba)
  case 0
  then have "\<not> p < e" by (simp add: word_less_nat_alt)
  then show ?case using 0 by (cases fuel) auto
next
  case (Suc n)
  obtain f where f: "fuel = Suc f" using Suc.prems(2) by (cases fuel) auto
  have pe: "p < e" using Suc.prems(6) by (simp add: word_less_nat_alt)
  have p1: "unat (p + 512) = unat p + 512" using unat_add_lt [of p 512] Suc.prems(3) by simp
  have l1: "unat (lba + 1) = unat lba + 1" using unat_add_lt [of lba 1] Suc.prems(4) by simp
  obtain s1 where s1: "read_sect drive s p lba = Ok (p + 512, s1)" "mem s1 = put_bytes (mem s) p (sector img (unat lba))"
      "ata_ready s1"
    by (rule read_sect_reads [OF Suc.prems(1) d, of lba p]) (use Suc.prems in simp_all)
  have "\<exists>s'. read_sectors f drive s1 (p + 512) e (lba + 1) = Ok s' \<and> ata_ready s' \<and>
      mem s' = put_bytes (mem s1) (p + 512) (map img [512 * unat (lba + 1)..<512 * (unat (lba + 1) + n)])"
  proof (rule Suc.IH)
    show "unat (p + 512) + 512 * n < 4294967296" using Suc.prems(3) p1 by simp
    show "unat e \<le> unat (p + 512) + 512 * n" using Suc.prems(5) p1 by simp
    show "n = 0 \<or> unat (p + 512) + 512 * n < unat e + 512" using Suc.prems(6) p1 by simp
  qed (use s1(3) Suc.prems(2,4) f l1 in simp_all)
  then obtain s' where s': "read_sectors f drive s1 (p + 512) e (lba + 1) = Ok s'" "ata_ready s'"
      "mem s' = put_bytes (mem s1) (p + 512) (map img [512 * unat (lba + 1)..<512 * (unat (lba + 1) + n)])" by blast
  have sec: "sector img (unat lba) = map img [512 * unat lba..<512 * unat lba + 512]"
  proof (rule nth_equalityI)
    show "length (sector img (unat lba)) = length (map img [512 * unat lba..<512 * unat lba + 512])" by (simp add: sector_def)
  qed (simp add: sector_def)
  have "mem s' = put_bytes (put_bytes (mem s) p (sector img (unat lba))) (p + of_nat (length (sector img (unat lba))))
      (map img [512 * unat lba + 512..<512 * unat lba + 512 + 512 * n])"
    using s'(3) s1(2) l1 by (simp add: sector_def algebra_simps)
  also have "\<dots> = put_bytes (mem s) p (sector img (unat lba) @ map img [512 * unat lba + 512..<512 * unat lba + 512 + 512 * n])"
    by (rule put_bytes_append) (use Suc.prems(3) in \<open>simp add: sector_def\<close>)
  also have "sector img (unat lba) @ map img [512 * unat lba + 512..<512 * unat lba + 512 + 512 * n] =
      map img [512 * unat lba..<512 * (unat lba + Suc n)]"
    unfolding sec map_append [symmetric] by (subst upt_add_eq_append [symmetric]) (simp_all add: algebra_simps)
  finally show ?case using s1(1) s'(1,2) pe f by simp
qed

lemma read_offset_reads:
  assumes "ata_ready s" and "ata_drive drive img" and "fits dst off sz"
  shows "\<exists>s'. read_offset drive s dst off sz = Ok s' \<and> ata_ready s' \<and>
    (\<forall>x. mem s' x = (if covers dst off sz x then img (unat x + unat off - unat dst) else mem s x))"
proof -
  let ?p = "dst - off mod 512" and ?n = "sectors off sz" and ?l = "unat off div 512"
  have m: "unat (off mod 512) = unat off mod 512" by (simp add: unat_mod)
  have p: "unat ?p = unat dst - unat off mod 512"
    using assms(3) m by (subst unat_sub) (simp_all add: fits_def word_le_nat_alt)
  have e: "unat (dst + sz) = unat dst + unat sz"
    using unat_add_lt [of dst "unat sz"] assms(3) by (simp add: fits_def)
  have n: "unat off mod 512 + unat sz \<le> 512 * ?n" "512 * ?n < unat off mod 512 + unat sz + 512"
    using mult_div_mod_eq [of 512 "unat off mod 512 + unat sz + 511"] mod_less_divisor [of 512 "unat off mod 512 + unat sz + 511"]
    unfolding sectors_def by linarith+
  have F: "unat ?p + unat off mod 512 = unat dst" "unat dst + unat sz + 1024 < 4294967296"
    using p assms(3) by (simp_all add: fits_def)
  have l: "unat (off div 512) = ?l" "?l < 8388608"
    using unat_lt_2p32 [of off] by (simp_all add: unat_div less_mult_imp_div_less)
  have "\<exists>s'. read_sectors READ_ROUNDS drive s ?p (dst + sz) (off div 512) = Ok s' \<and> ata_ready s' \<and>
      mem s' = put_bytes (mem s) ?p (map img [512 * unat (off div 512)..<512 * (unat (off div 512) + ?n)])"
  proof (rule read_sectors_run [OF assms(2,1)])
    show "?n \<le> READ_ROUNDS" using n(2) F unfolding READ_ROUNDS_def by linarith
    show "unat ?p + 512 * ?n < 4294967296" using n(2) F by linarith
    show "unat (off div 512) + ?n \<le> 268435456" using l n(2) F by linarith
    show "unat (dst + sz) \<le> unat ?p + 512 * ?n" using e n(1) F by linarith
    show "?n = 0 \<or> unat ?p + 512 * ?n < unat (dst + sz) + 512" using e n(2) F by linarith
  qed
  then obtain s' where s': "read_offset drive s dst off sz = Ok s'" "ata_ready s'"
      "mem s' = put_bytes (mem s) ?p (map img [512 * ?l..<512 * (?l + ?n)])"
    unfolding read_offset_def SECT_SIZE_def l by blast
  have "mem s' x = (if covers dst off sz x then img (unat x + unat off - unat dst) else mem s x)" for x
  proof (cases "covers dst off sz x")
    case True
    define k where "k = unat x - unat ?p"
    have k: "k < 512 * ?n" "x = ?p + of_nat k" "unat x = unat ?p + k"
    proof -
      show u: "k < 512 * ?n" "unat x = unat ?p + k"
        using True unfolding covers_def p [symmetric] k_def by linarith+
      then have "unat (?p + of_nat k) = unat x" using unat_add_lt [of ?p k] n(2) F by simp
      then show "x = ?p + of_nat k" by (simp only: word_unat_eq_iff)
    qed
    have "put_bytes (mem s) ?p (map img [512 * ?l..<512 * (?l + ?n)]) (?p + of_nat k) = map img [512 * ?l..<512 * (?l + ?n)] ! k"
      by (rule put_bytes_inside) (use k(1) n(2) F in \<open>simp_all\<close>)
    moreover have "512 * ?l + k = unat x + unat off - unat dst"
      using k(3) F mult_div_mod_eq [of 512 "unat off"] by linarith
    ultimately show ?thesis using s'(3) k True by simp
  next
    case False
    then show ?thesis
      unfolding s'(3) using p by (subst put_bytes_outside) (auto simp: covers_def)
  qed
  then show ?thesis using s'(1,2) by blast
qed


section \<open>The loaded kernel\<close>

text \<open>
  The kernel's headers as they are in the second sector of the disk, and the fields of the program
  headers. \<open>image_entry\<close> is the entry point of the file.
\<close>

definition kernel_header :: "(nat \<Rightarrow> u8) \<Rightarrow> mem" where
  "kernel_header img = (\<lambda>x. img (unat x + 512 - unat KERN_LINK_PHYS))"

definition kernel_phnum :: "(nat \<Rightarrow> u8) \<Rightarrow> nat" where
  "kernel_phnum img = unat (load16 (kernel_header img) (KERN_LINK_PHYS + e_phnum_offset))"

definition kernel_phdr :: "(nat \<Rightarrow> u8) \<Rightarrow> nat \<Rightarrow> u32" where
  "kernel_phdr img i = elf_phdr (kernel_header img) KERN_LINK_PHYS i"

definition image_entry :: "(nat \<Rightarrow> u8) \<Rightarrow> u32" where
  "image_entry img = load32 (kernel_header img) (KERN_LINK_PHYS + e_entry_offset)"

definition seg_field :: "(nat \<Rightarrow> u8) \<Rightarrow> nat \<Rightarrow> u32 \<Rightarrow> u32" where
  "seg_field img i off = load32 (kernel_header img) (kernel_phdr img i + off)"

definition seg_loads :: "(nat \<Rightarrow> u8) \<Rightarrow> nat \<Rightarrow> bool" where
  "seg_loads img i \<longleftrightarrow> seg_field img i p_type_offset AND PT_LOAD \<noteq> 0"

abbreviation "seg_paddr img i \<equiv> seg_field img i p_paddr_offset"
abbreviation "seg_start img i \<equiv> SECT_SIZE + seg_field img i p_offset_offset"
abbreviation "seg_size img i \<equiv> seg_field img i p_filesz_offset"

text \<open>
  A disk whose second sector holds headers such that each program header lies in that sector and all
  sectors to be loaded, the first included, agree on what they put where: either they do not overlap or
  they put the same bytes there, as the kernel's own file does, whose first segment contains the headers.
\<close>

definition kernel_image :: "(nat \<Rightarrow> u8) \<Rightarrow> mem \<Rightarrow> bool" where
  "kernel_image img W \<longleftrightarrow>
     (\<forall>x. covers KERN_LINK_PHYS SECT_SIZE SECT_SIZE x \<longrightarrow> W x = kernel_header img x) \<and>
     (\<forall>i < kernel_phnum img. (\<exists>k \<le> 480. kernel_phdr img i = KERN_LINK_PHYS + of_nat k) \<and>
       (seg_loads img i \<longrightarrow> fits (seg_paddr img i) (seg_start img i) (seg_size img i) \<and>
         (\<forall>x. covers (seg_paddr img i) (seg_start img i) (seg_size img i) x \<longrightarrow>
           W x = img (unat x + unat (seg_start img i) - unat (seg_paddr img i)))))"

definition header_read :: "(nat \<Rightarrow> u8) \<Rightarrow> mem \<Rightarrow> bool" where
  "header_read img m \<longleftrightarrow> (\<forall>k < 512. m (KERN_LINK_PHYS + of_nat k) = kernel_header img (KERN_LINK_PHYS + of_nat k))"

lemma KERN_LINK_PHYS_offset: "k < 512 \<Longrightarrow> unat (KERN_LINK_PHYS + of_nat k) = unat KERN_LINK_PHYS + k"
  by (rule unat_add_lt) (simp add: KERN_LINK_PHYS_def)

lemma covers_header:
  "covers KERN_LINK_PHYS SECT_SIZE SECT_SIZE x \<longleftrightarrow> unat KERN_LINK_PHYS \<le> unat x \<and> unat x < unat KERN_LINK_PHYS + 512"
  by (simp add: covers_def sectors_def SECT_SIZE_def)

lemma header_read_covers:
  "header_read img m \<longleftrightarrow> (\<forall>x. covers KERN_LINK_PHYS SECT_SIZE SECT_SIZE x \<longrightarrow> m x = kernel_header img x)"
proof
  assume h: "header_read img m"
  show "\<forall>x. covers KERN_LINK_PHYS SECT_SIZE SECT_SIZE x \<longrightarrow> m x = kernel_header img x"
  proof (intro allI impI)
    fix x assume "covers KERN_LINK_PHYS SECT_SIZE SECT_SIZE x"
    then have k: "unat x - unat KERN_LINK_PHYS < 512" "unat x = unat KERN_LINK_PHYS + (unat x - unat KERN_LINK_PHYS)"
      unfolding covers_header by linarith+
    then have "x = KERN_LINK_PHYS + of_nat (unat x - unat KERN_LINK_PHYS)"
      using KERN_LINK_PHYS_offset [OF k(1)] by (simp only: word_unat_eq_iff)
    then show "m x = kernel_header img x" using h k(1) unfolding header_read_def by metis
  qed
qed (simp add: header_read_def covers_header KERN_LINK_PHYS_offset)

lemma header_loads:
  assumes "header_read img m"
  shows "k \<le> 508 \<Longrightarrow> load32 m (KERN_LINK_PHYS + of_nat k) = load32 (kernel_header img) (KERN_LINK_PHYS + of_nat k)"
    and "k \<le> 510 \<Longrightarrow> load16 m (KERN_LINK_PHYS + of_nat k) = load16 (kernel_header img) (KERN_LINK_PHYS + of_nat k)"
proof -
  have r: "m (KERN_LINK_PHYS + of_nat k + of_nat j) = kernel_header img (KERN_LINK_PHYS + of_nat k + of_nat j)" if "k + j < 512" for j
    using assms that unfolding header_read_def of_nat_add [symmetric] add.assoc by blast
  show "load32 m (KERN_LINK_PHYS + of_nat k) = load32 (kernel_header img) (KERN_LINK_PHYS + of_nat k)" if "k \<le> 508"
    by (rule load32_cong) (use r [of 0] r [of 1] r [of 2] r [of 3] that in simp_all)
  show "load16 m (KERN_LINK_PHYS + of_nat k) = load16 (kernel_header img) (KERN_LINK_PHYS + of_nat k)" if "k \<le> 510"
    using r [of 0] r [of 1] that by (simp add: load16_def)
qed

lemma header_fields:
  assumes "header_read img m"
  shows "unat (load16 m (KERN_LINK_PHYS + e_phnum_offset)) = kernel_phnum img"
    and "load32 m (KERN_LINK_PHYS + e_entry_offset) = image_entry img"
    and "elf_phdr m KERN_LINK_PHYS i = kernel_phdr img i"
  using header_loads [OF assms, of 44] header_loads [OF assms, of 24] header_loads [OF assms, of 28] header_loads [OF assms, of 42]
  by (simp_all add: kernel_phnum_def image_entry_def kernel_phdr_def elf_phdr_def e_phnum_offset_def
    e_entry_offset_def e_phoff_offset_def e_phentsize_offset_def)

lemma header_seg_field:
  assumes "header_read img m" and "kernel_phdr img i = KERN_LINK_PHYS + of_nat k" and "k \<le> 480" and "j \<le> 28"
  shows "load32 m (kernel_phdr img i + of_nat j) = seg_field img i (of_nat j)"
  unfolding seg_field_def assms(2) add.assoc of_nat_add [symmetric] by (rule header_loads [OF assms(1)]) (use assms(3,4) in simp)

text \<open>What is in memory when \<open>i\<close> segments have been looked at.\<close>

definition loaded_upto :: "(nat \<Rightarrow> u8) \<Rightarrow> nat \<Rightarrow> u32 \<Rightarrow> bool" where
  "loaded_upto img i x \<longleftrightarrow> covers KERN_LINK_PHYS SECT_SIZE SECT_SIZE x \<or>
     (\<exists>j < i. seg_loads img j \<and> covers (seg_paddr img j) (seg_start img j) (seg_size img j) x)"

lemma load_phys_step:
  assumes "ata_ready s" and "ata_drive drive img" and "kernel_image img W" and "i < kernel_phnum img"
    and "\<forall>x. mem s x = (if loaded_upto img i x then W x else m0 x)"
  shows "\<exists>s'. load_phys drive s (elf_phdr (mem s) KERN_LINK_PHYS i) = Ok s' \<and> ata_ready s' \<and>
    (\<forall>x. mem s' x = (if loaded_upto img (Suc i) x then W x else m0 x))"
proof -
  have h: "header_read img (mem s)"
    using assms(3,5) by (simp add: header_read_covers loaded_upto_def kernel_image_def)
  obtain k where k: "k \<le> 480" "kernel_phdr img i = KERN_LINK_PHYS + of_nat k"
    using assms(3,4) unfolding kernel_image_def by blast
  have f: "load32 (mem s) (kernel_phdr img i + p_type_offset) = seg_field img i p_type_offset"
      "load32 (mem s) (kernel_phdr img i + p_paddr_offset) = seg_paddr img i"
      "load32 (mem s) (kernel_phdr img i + p_offset_offset) = seg_field img i p_offset_offset"
      "load32 (mem s) (kernel_phdr img i + p_filesz_offset) = seg_size img i"
    using header_seg_field [OF h k(2,1), of 0] header_seg_field [OF h k(2,1), of 12] header_seg_field [OF h k(2,1), of 4]
      header_seg_field [OF h k(2,1), of 16]
    by (simp_all add: p_type_offset_def p_paddr_offset_def p_offset_offset_def p_filesz_offset_def)
  show ?thesis
  proof (cases "seg_loads img i")
    case False
    then have "loaded_upto img (Suc i) x \<longleftrightarrow> loaded_upto img i x" for x
      by (auto simp: loaded_upto_def less_Suc_eq)
    then show ?thesis
      using False assms(1,5) by (simp add: load_phys_def header_fields [OF h] f seg_loads_def)
  next
    case True
    have I: "fits (seg_paddr img i) (seg_start img i) (seg_size img i)"
        "covers (seg_paddr img i) (seg_start img i) (seg_size img i) x \<Longrightarrow>
          W x = img (unat x + unat (seg_start img i) - unat (seg_paddr img i))" for x
      using assms(3,4) True unfolding kernel_image_def by blast+
    obtain s' where s': "read_offset drive s (seg_paddr img i) (seg_start img i) (seg_size img i) = Ok s'" "ata_ready s'"
        "\<forall>x. mem s' x = (if covers (seg_paddr img i) (seg_start img i) (seg_size img i) x
          then img (unat x + unat (seg_start img i) - unat (seg_paddr img i)) else mem s x)"
      using read_offset_reads [OF assms(1,2) I(1)] by blast
    have "loaded_upto img (Suc i) x \<longleftrightarrow>
        covers (seg_paddr img i) (seg_start img i) (seg_size img i) x \<or> loaded_upto img i x" for x
      using True by (auto simp: loaded_upto_def less_Suc_eq)
    then have "\<forall>x. mem s' x = (if loaded_upto img (Suc i) x then W x else m0 x)"
      using s'(3) assms(5) I(2) by simp
    then show ?thesis
      using True s'(1,2) by (simp add: load_phys_def header_fields [OF h] f seg_loads_def)
  qed
qed

lemma load_phys_all_run:
  assumes "ata_drive drive img" and "kernel_image img W"
  shows "ata_ready s \<Longrightarrow> i + n = kernel_phnum img \<Longrightarrow> n < fuel \<Longrightarrow>
    \<forall>x. mem s x = (if loaded_upto img i x then W x else m0 x) \<Longrightarrow>
    \<exists>s'. load_phys_all fuel drive s KERN_LINK_PHYS i = Ok s' \<and>
      (\<forall>x. mem s' x = (if loaded_upto img (kernel_phnum img) x then W x else m0 x))"
proof (induction n arbitrary: fuel s i)
  case (0 fuel s i)
  have "header_read img (mem s)"
    using assms(2) 0(4) by (simp add: header_read_covers loaded_upto_def kernel_image_def)
  then show ?case using 0 by (cases fuel) (auto simp: header_fields)
next
  case (Suc n fuel s i)
  have h: "header_read img (mem s)"
    using assms(2) Suc.prems(4) by (simp add: header_read_covers loaded_upto_def kernel_image_def)
  obtain f where f: "fuel = Suc f" using Suc.prems(3) by (cases fuel) auto
  have i: "i < kernel_phnum img" using Suc.prems(2) by simp
  obtain s1 where s1: "load_phys drive s (elf_phdr (mem s) KERN_LINK_PHYS i) = Ok s1" "ata_ready s1"
      "\<forall>x. mem s1 x = (if loaded_upto img (Suc i) x then W x else m0 x)"
    using load_phys_step [OF Suc.prems(1) assms i Suc.prems(4)] by blast
  show ?case
    using Suc.IH [OF s1(2) _ _ s1(3), of f] Suc.prems(2,3) f s1(1) i by (simp add: header_fields [OF h])
qed


text \<open>
  Property C17: the boot loader. On a disk that behaves as an ATA disk does, and whatever its status
  port answers as long as it is ready again and again, \<^verbatim>\<open>bootc\<close> returns the entry point of the kernel's
  ELF file with every byte of every segment to be loaded at its physical address, and no other memory
  changed than the sectors that hold them.
\<close>

theorem bootc_loads_kernel:
  assumes "ata_ready s" and "ata_drive drive img" and "kernel_image img W"
  shows "\<exists>s'. bootc drive s = Ok (image_entry img, s') \<and>
    (\<forall>i < kernel_phnum img. seg_loads img i \<longrightarrow> (\<forall>k < unat (seg_size img i).
      mem s' (seg_paddr img i + of_nat k) = img (unat (seg_start img i) + k))) \<and>
    (\<forall>x. \<not> loaded_upto img (kernel_phnum img) x \<longrightarrow> mem s' x = mem s x)"
proof -
  have "fits KERN_LINK_PHYS SECT_SIZE SECT_SIZE" by (simp add: fits_def KERN_LINK_PHYS_def SECT_SIZE_def)
  from read_offset_reads [OF assms(1,2) this]
  obtain s1 where s1: "read_offset drive s KERN_LINK_PHYS SECT_SIZE SECT_SIZE = Ok s1" "ata_ready s1"
      "\<forall>x. mem s1 x = (if covers KERN_LINK_PHYS SECT_SIZE SECT_SIZE x then img (unat x + unat SECT_SIZE - unat KERN_LINK_PHYS) else mem s x)"
    by blast
  have m: "\<forall>x. mem s1 x = (if loaded_upto img 0 x then W x else mem s x)"
    using s1(3) assms(3) by (simp add: loaded_upto_def kernel_image_def kernel_header_def SECT_SIZE_def)
  have n: "kernel_phnum img < ELF_ROUNDS"
    using unsigned_less [of "load16 (kernel_header img) (KERN_LINK_PHYS + e_phnum_offset)", where 'a = nat] by (simp add: kernel_phnum_def ELF_ROUNDS_def)
  obtain s' where s': "load_phys_all ELF_ROUNDS drive s1 KERN_LINK_PHYS 0 = Ok s'"
      "\<forall>x. mem s' x = (if loaded_upto img (kernel_phnum img) x then W x else mem s x)"
    using load_phys_all_run [OF assms(2,3) s1(2) _ n m] by auto
  have h: "header_read img (mem s')"
    using assms(3) s'(2) by (simp add: header_read_covers loaded_upto_def kernel_image_def)
  have "mem s' (seg_paddr img i + of_nat k) = img (unat (seg_start img i) + k)"
    if i: "i < kernel_phnum img" "seg_loads img i" and k: "k < unat (seg_size img i)" for i k
  proof -
    let ?p = "seg_paddr img i" and ?o = "seg_start img i" and ?z = "seg_size img i"
    have I: "fits ?p ?o ?z" "covers ?p ?o ?z x \<Longrightarrow> W x = img (unat x + unat ?o - unat ?p)" for x
      using assms(3) i unfolding kernel_image_def by blast+
    have u: "unat (?p + of_nat k) = unat ?p + k"
      by (rule unat_add_lt) (use I(1) k in \<open>simp add: fits_def\<close>)
    have "unat ?o mod 512 + unat ?z \<le> 512 * sectors ?o ?z"
      using mult_div_mod_eq [of 512 "unat ?o mod 512 + unat ?z + 511"] mod_less_divisor [of 512 "unat ?o mod 512 + unat ?z + 511"]
      unfolding sectors_def by linarith
    moreover have "unat ?o mod 512 \<le> unat ?p" using I(1) by (simp add: fits_def)
    ultimately have c: "covers ?p ?o ?z (?p + of_nat k)" using k unfolding covers_def u by linarith
    then have "loaded_upto img (kernel_phnum img) (?p + of_nat k)" using i unfolding loaded_upto_def by blast
    then show ?thesis using s'(2) I(2) [OF c] u by (simp add: add.commute)
  qed
  moreover have "bootc drive s = Ok (image_entry img, s')"
    using s1(1) s'(1) header_fields(2) [OF h] by (simp add: bootc_def Let_def)
  ultimately show ?thesis using s'(2) by auto
qed

text \<open>
  A kernel of one segment, the whole file, at the address of its headers: 700 bytes in two sectors, so
  that the second sector is read as part of the segment. The disk is busy for three polls.
\<close>

definition sample_image :: "nat \<Rightarrow> u8" where
  "sample_image n = (if n = 536 then 0x0c else if n = 538 then 0x10 else if n = 540 then 52 else if n = 554 then 32
     else if n = 556 then 1 else if n = 564 then 1 else if n = 578 then 0x10 else if n = 580 then 0xbc
     else if n = 581 then 2 else if n = 1200 then 77 else 0)"

definition sample_drive :: ata where
  "sample_drive log k = sample_image (512 * ata_lba (rev log) + k)"

definition sample_boot_dev :: dev_state where
  "sample_boot_dev = sample_dev\<lparr>mem := (\<lambda>_. 9), port_in := (\<lambda>t _. if t < 3 then 0x80 else 0x40)\<rparr>"

theorem bootc_loads_kernel_witness:
  "\<exists>s'. bootc sample_drive sample_boot_dev = Ok (0x10000c, s') \<and> mem s' (0x100000 + 688) = 77 \<and> mem s' 0x90000 = 9"
proof -
  have r: "ata_ready sample_boot_dev"
    unfolding ata_ready_def
  proof
    fix t
    show "\<exists>t' \<ge> t. CHECK_ATA_READY (port_in sample_boot_dev t' 0x1f7)"
      by (rule exI [of _ "t + 3"]) (simp add: sample_boot_dev_def CHECK_ATA_READY_def ATA_RDY_def ATA_BSY_def)
  qed
  have d: "ata_drive sample_drive sample_image" by (simp add: ata_drive_def sample_drive_def)
  have H: "load16 (kernel_header sample_image) (0x100000 + e_phnum_offset) = 1"
      "load32 (kernel_header sample_image) (0x100000 + e_phoff_offset) = 52"
      "load32 (kernel_header sample_image) (0x100000 + e_entry_offset) = 0x10000c"
    by (simp_all add: load16_def load32_def kernel_header_def KERN_LINK_PHYS_def sample_image_def e_phnum_offset_def
      e_phoff_offset_def e_entry_offset_def)
  have n: "kernel_phnum sample_image = 1" "image_entry sample_image = 0x10000c"
      "kernel_phdr sample_image 0 = 0x100000 + of_nat 52"
    using H by (simp_all add: kernel_phnum_def image_entry_def kernel_phdr_def elf_phdr_def KERN_LINK_PHYS_def)
  have f: "seg_field sample_image 0 p_type_offset = 1" "seg_paddr sample_image 0 = 0x100000"
      "seg_field sample_image 0 p_offset_offset = 0" "seg_size sample_image 0 = 700"
    unfolding seg_field_def n
    by (simp_all add: load32_def kernel_header_def KERN_LINK_PHYS_def sample_image_def p_type_offset_def
      p_paddr_offset_def p_offset_offset_def p_filesz_offset_def)
  have l: "seg_loads sample_image 0" by (simp add: seg_loads_def f PT_LOAD_def)
  have k: "kernel_image sample_image (kernel_header sample_image)"
    unfolding kernel_image_def n
    by (auto simp: f SECT_SIZE_def fits_def kernel_header_def KERN_LINK_PHYS_def less_Suc_eq n(3) intro!: exI [of _ 52])
  from bootc_loads_kernel [OF r d k] obtain s' where s': "bootc sample_drive sample_boot_dev = Ok (0x10000c, s')"
      "\<forall>i < 1. seg_loads sample_image i \<longrightarrow> (\<forall>k < unat (seg_size sample_image i).
        mem s' (seg_paddr sample_image i + of_nat k) = sample_image (unat (seg_start sample_image i) + k))"
      "\<forall>x. \<not> loaded_upto sample_image 1 x \<longrightarrow> mem s' x = mem sample_boot_dev x"
    unfolding n by blast
  have "\<forall>k < 700. mem s' (0x100000 + of_nat k) = sample_image (512 + k)"
    using s'(2) l by (simp add: f SECT_SIZE_def)
  then have "mem s' (0x100000 + of_nat 688) = sample_image (512 + 688)" by (elim allE [of _ 688]) simp
  moreover have "\<not> loaded_upto sample_image 1 0x90000"
    by (simp add: loaded_upto_def covers_def f SECT_SIZE_def KERN_LINK_PHYS_def)
  ultimately show ?thesis using s'(1,3) by (simp add: sample_image_def sample_boot_dev_def)
qed

end
