(* ===== verification/KernelStart.thy ===== *)
theory KernelStart
  imports Exec
begin

text \<open>
  The start of the kernel: \<^verbatim>\<open>main.c\<close> and \<^verbatim>\<open>zero_out_bss\<close> of \<^verbatim>\<open>memory.c\<close>. \<^verbatim>\<open>main\<close> puts the components
  together in their order; it ends in the scheduler, which does not return, so \<^verbatim>\<open>bored\<close> is not reached.
  The addresses the linker provides are the record \<open>linker\<close>. The theorem composes the components'
  specifications: from an image with an archive that holds a program \<^verbatim>\<open>init\<close> and a banner, \<^verbatim>\<open>main\<close> reaches
  the first dispatch.
\<close>

section \<open>main\<close>

text \<open>The symbols of \<^verbatim>\<open>kernel.ld\<close> and the addresses of the tables and of assembly code.\<close>

record linker =
  kernel_end :: u32
  bss_start :: u32
  bss_end :: u32
  fsar_start :: u32
  fsar_end :: u32
  gdt_addr :: u32
  task_state_addr :: u32
  idt_addr :: u32
  vector_table :: "nat \<Rightarrow> u32"
  ret_to_int_site :: u32

text \<open>The tables of the processor and the stack pointer, besides the state of the other components.\<close>

record start_state = k_state +
  gdt :: "segment_desc list"
  gdtr :: table_desc
  idt :: "gate list"
  idtr :: table_desc
  esp :: u32

definition FIRST_4MB :: u32 where "FIRST_4MB = (KERN_LINK AND NOT 0x00ffffff) + 1024 * 1024 * 4"

definition zero_gate :: gate where
  "zero_gate = \<lparr>g_offset0 = 0, g_selector = 0, g_unused = 0, g_type = 0, g_s = 0, g_dpl = 0, g_p = 0, g_offset1 = 0\<rparr>"

text \<open>
  The bss holds the variables that are zero at the start, which are fields of the state here, and
  whatever else the linker puts there. The two task pointers become null; nothing follows them before
  \<^verbatim>\<open>init_tasks\<close> sets them, and their fields are left alone.
\<close>

definition zero_out_bss :: "linker \<Rightarrow> 'z start_state_scheme \<Rightarrow> 'z start_state_scheme" where
  "zero_out_bss L s = s\<lparr>
     mem := memset (mem s) (bss_start L) 0 (bss_end L - bss_start L),
     free_pages := NULL, num_allocated := 0,
     buf_len := 0, edit_len := 0, edit_i := 0, write_i := 0, read_i := 0, circular_buf := replicate (unat MAX_BUF) 0,
     filesystem := replicate MAX_FILES zero_file, console_file := zero_file, file_id := 0,
     tasks := replicate MAX_TASKS zero_task, zombie_exists := False, kpgdir := NULL,
     tss_ss0 := 0, tss_esp0 := 0, tss_iomb := 0, ticks := 0,
     gdt := replicate 6 zero_desc, idt := replicate NUM_GATES zero_gate\<rparr>"

definition say :: "'z start_state_scheme \<Rightarrow> string \<Rightarrow> 'z start_state_scheme outcome" where
  "say s msg = bnd (puts s (arr (kstr msg @ [0]))) (\<lambda>(_, s). Ok s)"

text \<open>\<^verbatim>\<open>(int)banner_f->size\<close>: a size of 2^31 or more prints nothing.\<close>

definition show_banner :: "'z start_state_scheme \<Rightarrow> 'z start_state_scheme outcome" where
  "show_banner s =
     bnd (get_file s (arr (kstr ''banner.txt'' @ [0]))) (\<lambda>fp.
     case fp of None \<Rightarrow> Undef ''null pointer dereferenced''
     | Some fp \<Rightarrow>
         loop_from 0 (nat (sint (f_size (get_fp s fp))))
           (\<lambda>i s. putchar s (sint (mem s (f_data (get_fp s fp) + of_nat i)))) s)"

text \<open>The stack pointer moves; the frame of \<^verbatim>\<open>main\<close> stays behind, and nothing in it is read again.\<close>

definition init_kstack :: "'z start_state_scheme \<Rightarrow> u32 \<Rightarrow> 'z start_state_scheme" where
  "init_kstack s kstack = s\<lparr>esp := kstack\<rparr>"

text \<open>\<^verbatim>\<open>main\<close> up to the point where all memory is registered ...\<close>

definition main_memory :: "linker \<Rightarrow> 'z start_state_scheme \<Rightarrow> 'z start_state_scheme outcome" where
  "main_memory L s =
     (let s = init_uart s in
      bnd (say s '''') (\<lambda>s.
      bnd (say s ''Boot quaros'') (\<lambda>s.
      bnd (say s ''Fill bss with zero'') (\<lambda>s.
      let s = zero_out_bss L s in
      bnd (say s ''Setup kmalloc'') (\<lambda>s.
      bnd (register_free_mem s (kernel_end L) FIRST_4MB) (\<lambda>s.
      bnd (init_kernel_memory s) (\<lambda>(pgdir, s).
      let s = s\<lparr>kpgdir := pgdir\<rparr> in
      bnd (kmalloc s) (\<lambda>(kstack, s).
      let s = init_kstack s (kstack + PGSIZE) in
      bnd (say s ''Initialize segmentation'') (\<lambda>s.
      let (table, operand) = init_segmentation (gdt s) (gdt_addr L) (task_state_addr L);
          s = s\<lparr>gdt := table, gdtr := operand\<rparr> in
      bnd (say s ''Setup rest of kmalloc'') (\<lambda>s.
      register_free_mem s FIRST_4MB KERN_TOP))))))))))"

text \<open>... the devices and the interrupt table ...\<close>

definition main_devices :: "linker \<Rightarrow> 'z start_state_scheme \<Rightarrow> 'z start_state_scheme outcome" where
  "main_devices L s =
     bnd (say s ''Initialize lapic'') (\<lambda>s.
     bnd (say s ''Configure timer'') (\<lambda>s.
     let s = init_lapic s in
     bnd (say s ''Disable pic'') (\<lambda>s.
     let s = disable_pic s in
     bnd (say s ''Initialize ioapic'') (\<lambda>s.
     let s = enable_ioapic (init_ioapic s) IRQ_SERIAL in
     bnd (say s ''Initialize interrupt'') (\<lambda>s.
     let (table, operand) = init_idt (idt s) (idt_addr L) (vector_table L)
     in Ok (s\<lparr>idt := table, idtr := operand\<rparr>))))))"

text \<open>... and the files, the tasks and the banner.\<close>

definition main_tasks :: "linker \<Rightarrow> 'z start_state_scheme \<Rightarrow> 'z start_state_scheme outcome" where
  "main_tasks L s =
     bnd (say s ''Initialize file system'') (\<lambda>s.
     bnd (init_fs s (fsar_start L) (fsar_end L)) (\<lambda>s.
     bnd (say s ''Initialize dev files'') (\<lambda>s.
     bnd (init_dev_file s) (\<lambda>s.
     bnd (say s ''Initialize tasks'') (\<lambda>s.
     let s = init_tasks s in
     bnd (say s ''Create init task'') (\<lambda>s.
     bnd (create_init_task (ret_to_int_site L) s) (\<lambda>s.
     bnd (say s ''Welcome to...'') (\<lambda>s.
     show_banner s))))))))"

text \<open>\<open>sp\<close> is the stack pointer at the first switch.\<close>

definition kernel_main ::
    "linker \<Rightarrow> 'z start_state_scheme \<Rightarrow> u32 \<Rightarrow> (nat \<times> u32 \<times> 'z start_state_scheme) outcome" where
  "kernel_main L s sp =
     bnd (main_memory L s) (\<lambda>s.
     bnd (main_devices L s) (\<lambda>s.
     bnd (main_tasks L s) (\<lambda>s.
     schedule_from s 0 sp)))"

section \<open>Printing and devices\<close>

text \<open>\<open>io_only s s'\<close>: only the devices noticed a difference.\<close>

definition io_only :: "'z dev_state_scheme \<Rightarrow> 'z dev_state_scheme \<Rightarrow> bool" where
  "io_only s s' \<longleftrightarrow> (\<exists>t po mo. s' = s\<lparr>io_time := t, port_out := po, mmio_out := mo\<rparr>)"

lemma io_onlyI: "s' = s\<lparr>io_time := t, port_out := po, mmio_out := mo\<rparr> \<Longrightarrow> io_only s s'"
  unfolding io_only_def by blast

lemma io_only_refl: "io_only s s"
  by (rule io_onlyI [where t = "io_time s" and po = "port_out s" and mo = "mmio_out s"]) simp

lemma io_only_trans:
  assumes "io_only s t" and "io_only t u"
  shows "io_only s u"
proof -
  obtain a b c a' b' c' where "t = s\<lparr>io_time := a, port_out := b, mmio_out := c\<rparr>" "u = t\<lparr>io_time := a', port_out := b', mmio_out := c'\<rparr>"
    using assms unfolding io_only_def by blast
  then show ?thesis by (intro io_onlyI [where t = a' and po = b' and mo = c']) simp
qed

lemma io_only_basic:
  "io_only s (outb s port x)" "io_only s (snd (inb s port))" "io_only s (mmio_write s a v)" "io_only s (snd (mmio_read s a))"
  by (rule io_onlyI [where t = "io_time s" and po = "port_out s @ [(port, x)]" and mo = "mmio_out s"], simp add: outb_def)
    (rule io_onlyI [where t = "Suc (io_time s)" and po = "port_out s" and mo = "mmio_out s"], simp add: inb_def,
     rule io_onlyI [where t = "io_time s" and po = "port_out s" and mo = "mmio_out s @ [(a, v)]"], simp add: mmio_write_def,
     rule io_onlyI [where t = "Suc (io_time s)" and po = "port_out s" and mo = "mmio_out s"], simp add: mmio_read_def)

lemma io_only_fields:
  assumes "io_only s s'"
  shows "mem s' = mem s" "free_pages s' = free_pages s" "cr3 s' = cr3 s" "port_in s' = port_in s"
    "dev_state.more s' = dev_state.more s" "kheap s' ps = kheap s ps" "uart_ready s' = uart_ready s"
  using assms by (auto simp: io_only_def kheap_def uart_ready_def)

lemma io_only_write_lapic: "io_only s (write_lapic s reg v)"
  unfolding write_lapic_def by (rule io_only_trans [OF io_only_basic(3) io_only_basic(4)])

lemma io_only_init_uart: "io_only s (init_uart s)"
  unfolding init_uart_def Let_def by (rule io_only_trans [OF _ io_only_basic(1)])+ (rule io_only_refl)

lemma io_only_init_lapic: "io_only s (init_lapic s)"
  unfolding init_lapic_def eoi_def Let_def by (rule io_only_trans [OF _ io_only_write_lapic])+ (rule io_only_refl)

lemma io_only_disable_pic: "io_only s (disable_pic s)"
  unfolding disable_pic_def by (rule io_only_trans [OF io_only_basic(1) io_only_basic(1)])

lemma io_only_write_ioapic: "io_only s (write_ioapic s reg v)"
  unfolding write_ioapic_def by (rule io_only_trans [OF io_only_basic(3) io_only_basic(3)])

lemma io_only_enable_ioapic: "io_only s (enable_ioapic s irq)"
  unfolding enable_ioapic_def by (rule io_only_trans [OF io_only_write_ioapic io_only_write_ioapic])

lemma io_only_fold: "(\<And>s x. io_only s (f x s)) \<Longrightarrow> io_only s (fold f xs s)"
  by (induction xs arbitrary: s) (auto intro: io_only_refl io_only_trans)

lemma io_only_init_ioapic: "io_only s (init_ioapic s)"
proof -
  have r: "io_only s (snd (read_ioapic s reg))" for s :: "'a dev_state_scheme" and reg
    unfolding read_ioapic_def by (rule io_only_trans [OF io_only_basic(3) io_only_basic(4)])
  have "io_only s (disable_ioapic s i)" for s :: "'a dev_state_scheme" and i
    unfolding disable_ioapic_def by (rule io_only_trans [OF io_only_write_ioapic io_only_write_ioapic])
  then show ?thesis
    unfolding init_ioapic_def Let_def case_prod_beta by (intro io_only_trans [OF r io_only_fold])
qed

lemma sends_io_only: "sends s bs s' \<Longrightarrow> io_only s s'"
  unfolding sends_def
proof (elim exE)
  fix t assume "s' = s\<lparr>io_time := t, port_out := port_out s @ map (Pair COM1) bs\<rparr>"
  then show "io_only s s'" by (intro io_onlyI [where t = t and po = "port_out s @ map (Pair COM1) bs" and mo = "mmio_out s"]) simp
qed

lemma say_returns:
  assumes "uart_ready s" and "0 \<notin> set (kstr msg)" and "length msg < NUL_SCAN"
  shows "\<exists>s'. say s msg = Ok s' \<and> sends s (kstr msg @ [10]) s'"
proof -
  have "cstring (arr (kstr msg @ [0])) (kstr msg)"
    by (rule cstring_arr) (use assms(2,3) in \<open>simp_all add: kstr_def\<close>)
  from puts_sends [OF assms(1) this] show ?thesis by (auto simp: say_def)
qed


text \<open>\<open>same_core s s'\<close>: the fields the specifications below speak of are the same.\<close>

definition same_core :: "'z start_state_scheme \<Rightarrow> 'z start_state_scheme \<Rightarrow> bool" where
  "same_core s s' \<longleftrightarrow> mem s' = mem s \<and> free_pages s' = free_pages s \<and> cr3 s' = cr3 s \<and> port_in s' = port_in s \<and>
     kpgdir s' = kpgdir s \<and> filesystem s' = filesystem s \<and> console_file s' = console_file s \<and> tasks s' = tasks s \<and>
     curr_task s' = curr_task s \<and> scheduler_task s' = scheduler_task s"

lemma same_core_trans: "same_core s t \<Longrightarrow> same_core t u \<Longrightarrow> same_core s u"
  by (simp add: same_core_def)

lemma same_core_kheap: "same_core s s' \<Longrightarrow> kheap s' ps = kheap s ps" "same_core s s' \<Longrightarrow> uart_ready s' = uart_ready s"
  by (simp_all add: same_core_def kheap_def uart_ready_def)

lemma io_only_core: "io_only s s' \<Longrightarrow> same_core s (s' :: 'z start_state_scheme)"
  by (auto simp: io_only_def same_core_def)

lemma say_core:
  assumes "uart_ready s" and "0 \<notin> set (kstr msg)" and "length msg < NUL_SCAN"
  shows "\<exists>s'. say s msg = Ok s' \<and> same_core s s' \<and> uart_ready s' \<and> gdt s' = gdt s \<and> idt s' = idt s"
proof -
  obtain s' where s': "say s msg = Ok s'" "sends s (kstr msg @ [10]) s'" using say_returns [OF assms] by blast
  have "gdt s' = gdt s \<and> idt s' = idt s" using s'(2) by (auto simp: sends_def)
  then show ?thesis
    using s'(1) io_only_core [OF sends_io_only [OF s'(2)]] same_core_kheap(2) assms(1) by metis
qed

text \<open>The messages of \<^verbatim>\<open>main\<close> are strings.\<close>

definition message :: "string \<Rightarrow> bool" where
  "message msg \<longleftrightarrow> list_all (\<lambda>c. c \<noteq> (0 :: u8)) (kstr msg) \<and> length msg \<le> 100"

lemma message_core:
  "uart_ready s \<Longrightarrow> message msg \<Longrightarrow> \<exists>s'. say s msg = Ok s' \<and> same_core s s' \<and> uart_ready s' \<and> gdt s' = gdt s \<and> idt s' = idt s"
  by (rule say_core) (auto simp: message_def list_all_iff NUL_SCAN_def)

section \<open>Memory\<close>

lemma mstate_more_fields:
  fixes s s' :: "'z start_state_scheme"
  assumes "mstate.more s' = mstate.more s"
  shows "port_in s' = port_in s" "kpgdir s' = kpgdir s" "console_file s' = console_file s" "uart_ready s' = uart_ready s"
  using k_more [OF assms] by (simp_all add: uart_ready_def)

lemma register_then:
  assumes h: "kheap s ps" and lt: "pgno start < pgno end_addr" "start \<noteq> 0" and d: "set (region_pages start end_addr) \<inter> set ps = {}"
  shows "\<exists>s'. register_free_mem s start end_addr = Ok s' \<and> kheap s' (rev (region_pages start end_addr) @ ps) \<and>
    changes_only (pgno ` set (region_pages start end_addr)) (mem s) (mem s') \<and> cr3 s' = cr3 s \<and> mstate.more s' = mstate.more s"
  using register_free_mem_spec [OF h lt d] for_each_kfree_frame [of "region_pages start end_addr" s]
  unfolding register_free_mem_pages(1) [OF lt(1)] by blast

definition low_pages :: "linker \<Rightarrow> u32 list" where
  "low_pages L = rev (region_pages (kernel_end L) FIRST_4MB)"

definition high_pages :: "u32 list" where
  "high_pages = rev (region_pages FIRST_4MB KERN_TOP)"

lemma region_values: "FIRST_4MB = 0xc0400000" "pgno FIRST_4MB = 787456" "pgno KERN_TOP = 819200" "pgno (PG_ROUNDUP FIRST_4MB) = 787456"
  by (simp_all add: FIRST_4MB_def KERN_LINK_def KERN_TOP_def pgno_def PG_ROUNDUP_def PGSIZE_def)

lemma high_pages_range: "p \<in> set high_pages \<Longrightarrow> page_aligned p \<and> 787456 \<le> pgno p"
  using region_pages_page [of FIRST_4MB KERN_TOP p] region_values(2-4) by (simp add: high_pages_def region_values(1))

lemma length_high_pages: "length high_pages = 31744"
  using region_values by (simp add: high_pages_def region_pages_def)

text \<open>
  The kernel fits: it ends in the low 4 MB with room for the first page directory, its tables and a
  stack behind it.
\<close>

definition kernel_fits :: "linker \<Rightarrow> bool" where
  "kernel_fits L \<longleftrightarrow> KERN_BASE < kernel_end L \<and> pgno (PG_ROUNDUP (kernel_end L)) + kernel_tables + 2 \<le> 787456 \<and> kernel_end L < FIRST_4MB"

lemma low_pages_facts:
  assumes "kernel_fits L"
  shows "pgno (kernel_end L) < pgno FIRST_4MB" "kernel_end L \<noteq> 0" "kernel_tables + 2 \<le> length (low_pages L)"
    "p \<in> set (low_pages L) \<Longrightarrow> page_aligned p \<and> unat (kernel_end L) \<le> unat p \<and> pgno p < 787456"
proof -
  have lt: "unat (kernel_end L) < 4096 * 787456"
    using assms by (simp add: kernel_fits_def region_values word_less_nat_alt)
  then show l: "pgno (kernel_end L) < pgno FIRST_4MB" by (simp add: pgno_def region_values less_mult_imp_div_less)
  show n: "kernel_end L \<noteq> 0" using assms by (auto simp: kernel_fits_def)
  show "kernel_tables + 2 \<le> length (low_pages L)"
    using assms unfolding kernel_fits_def by (simp add: low_pages_def region_pages_def region_values(2)) linarith
  assume "p \<in> set (low_pages L)"
  then have p: "page_aligned p" "pgno (PG_ROUNDUP (kernel_end L)) \<le> pgno p" "pgno p < 787456"
    using region_pages_page [OF l n] by (simp_all add: low_pages_def region_values(2))
  have "(unat (kernel_end L) + 4095) div 4096 \<le> pgno p"
    using p(2) pgno_PG_ROUNDUP(1) [OF l pgno_lt] by simp
  then have "unat (kernel_end L) \<le> 4096 * pgno p" using div_mult_mod_eq [of "unat (kernel_end L) + 4095" 4096] mod_less_divisor [of 4096 "unat (kernel_end L) + 4095"]
    by linarith
  then show "page_aligned p \<and> unat (kernel_end L) \<le> unat p \<and> pgno p < 787456"
    using p by (simp add: page_aligned_unat)
qed


definition boot_heap_pages :: "linker \<Rightarrow> u32 list" where
  "boot_heap_pages L = high_pages @ drop (kernel_tables + 2) (low_pages L)"

text \<open>The memory after the bss has been cleared.\<close>

definition start_mem :: "linker \<Rightarrow> mem \<Rightarrow> mem" where
  "start_mem L m = memset m (bss_start L) 0 (bss_end L - bss_start L)"

definition memory_ready :: "linker \<Rightarrow> mem \<Rightarrow> 'z start_state_scheme \<Rightarrow> bool" where
  "memory_ready L m s \<longleftrightarrow> uart_ready s \<and> kheap s (boot_heap_pages L) \<and>
     changes_only (pgno ` (set (low_pages L) \<union> set high_pages)) (start_mem L m) (mem s) \<and>
     kpgdir s = hd (low_pages L) \<and> console_file s = zero_file"

text \<open>The first region, the kernel's directory and the stack.\<close>

lemma first_memory:
  assumes h: "kheap s []" and fit: "kernel_fits L"
  obtains s1 pd s2 k s3 where "register_free_mem s (kernel_end L) FIRST_4MB = Ok s1" "init_kernel_memory s1 = Ok (pd, s2)"
    "kmalloc (s2\<lparr>kpgdir := pd\<rparr>) = Ok (k, s3)" "kheap s3 (drop (kernel_tables + 2) (low_pages L))"
    "changes_only (pgno ` set (low_pages L)) (mem s) (mem s3)" "kpgdir s3 = hd (low_pages L)"
    "port_in s3 = port_in s" "console_file (s3 :: 'z start_state_scheme) = console_file s"
proof -
  note lp = low_pages_facts [OF fit]
  obtain pd ps where ps: "low_pages L = pd # ps" using lp(3) by (cases "low_pages L") auto
  then have lps: "kernel_tables \<le> length ps" using lp(3) by simp
  obtain k qs where k: "drop kernel_tables ps = k # qs"
    using lp(3) ps by (cases "drop kernel_tables ps") auto
  then have "drop (Suc kernel_tables) ps = qs" by (metis drop_Suc list.sel(3) tl_drop)
  then have qs: "drop (kernel_tables + 2) (low_pages L) = qs" using ps by simp
  obtain s5 where s5: "register_free_mem s (kernel_end L) FIRST_4MB = Ok s5" "kheap s5 (pd # ps)"
      "changes_only (pgno ` set (low_pages L)) (mem s) (mem s5)" "mstate.more s5 = mstate.more s"
    using register_then [OF h lp(1,2)] ps by (auto simp: low_pages_def)
  obtain s6 where s6: "map_kernel s5 = Ok (pd, s6)" "aspace_ok s6 pd (k # qs)"
      "tables (mem s6) pd = insert pd (set (take kernel_tables ps))"
      "changes_only (pgno ` tables (mem s6) pd) (mem s5) (mem s6)" "mstate.more s6 = mstate.more s5"
    using map_kernel_spec [OF s5(2) lps] k by auto
  define s7 where "s7 = lcr3 s6 pd\<lparr>kpgdir := pd\<rparr>"
  have h7: "kheap s7 (k # qs)" using aspace_okD(1) [OF s6(2)] by (simp add: s7_def lcr3_def kheap_def)
  obtain s8 where s8: "kmalloc s7 = Ok (k, s8)" "kheap s8 qs" using kmalloc_heap [OF h7] by blast
  note K8 = kmalloc_fields [OF s8(1)]
  have "pgno ` tables (mem s6) pd \<subseteq> pgno ` set (low_pages L)"
    unfolding s6(3) ps using set_take_subset [of kernel_tables ps] by auto
  then have "changes_only (pgno ` set (low_pages L)) (mem s) (mem s6)"
    by (intro changes_only_trans [OF s5(3) s6(4)]) auto
  then have "changes_only (pgno ` set (low_pages L)) (mem s) (mem s8)" using K8(1) by (simp add: s7_def lcr3_def)
  moreover have "kpgdir s8 = hd (low_pages L)" "port_in s8 = port_in s" "console_file s8 = console_file s"
    using mstate_more_fields [OF s5(4)] mstate_more_fields [OF s6(5)] mstate_more_fields [OF K8(3)] ps
    by (simp_all add: s7_def lcr3_def)
  moreover have "init_kernel_memory s5 = Ok (pd, lcr3 s6 pd)" using s6(1) by (simp add: init_kernel_memory_def)
  ultimately show thesis using that s5(1) s8 qs by (simp add: s7_def)
qed

lemma high_pages_apart:
  assumes "kernel_fits L"
  shows "set (region_pages FIRST_4MB KERN_TOP) \<inter> set (drop n (low_pages L)) = {}"
proof -
  have "787456 \<le> pgno p" if "p \<in> set (region_pages FIRST_4MB KERN_TOP)" for p
    using high_pages_range [of p] that by (simp add: high_pages_def)
  moreover have "pgno p < 787456" if "p \<in> set (drop n (low_pages L))" for p
    using low_pages_facts(4) [OF assms in_set_dropD [OF that]] by blast
  ultimately show ?thesis by fastforce
qed

lemma main_memory_spec:
  assumes u: "uart_ready s" and fit: "kernel_fits L"
  shows "\<exists>s'. main_memory L s = Ok s' \<and> memory_ready L (mem s) s'"
proof -
  define s0 where "s0 = init_uart s"
  have u0: "uart_ready s0" "mem s0 = mem s"
    using io_only_fields(1,7) [OF io_only_init_uart [of s]] u by (simp_all add: s0_def)
  obtain s1 where s1: "say s0 '''' = Ok s1" "same_core s0 s1" "uart_ready s1"
    using message_core [OF u0(1), of "''''"] by (auto simp: message_def kstr_def)
  obtain s2 where s2: "say s1 ''Boot quaros'' = Ok s2" "same_core s1 s2" "uart_ready s2"
    using message_core [OF s1(3), of "''Boot quaros''"] by (auto simp: message_def kstr_def)
  obtain s3 where s3: "say s2 ''Fill bss with zero'' = Ok s3" "same_core s2 s3" "uart_ready s3"
    using message_core [OF s2(3), of "''Fill bss with zero''"] by (auto simp: message_def kstr_def)
  define z where "z = zero_out_bss L s3"
  have z: "mem z = start_mem L (mem s)" "kheap z []" "uart_ready z" "console_file z = zero_file"
    using s1(2) s2(2) s3(2,3) u0(2)
    by (simp_all add: z_def zero_out_bss_def start_mem_def kheap_def uart_ready_def same_core_def)
  obtain s4 where s4: "say z ''Setup kmalloc'' = Ok s4" "same_core z s4" "uart_ready s4"
    using message_core [OF z(3), of "''Setup kmalloc''"] by (auto simp: message_def kstr_def)
  have h4: "kheap s4 []" using z(2) same_core_kheap(1) [OF s4(2)] by simp
  obtain s5 pd s6 k s7 where M: "register_free_mem s4 (kernel_end L) FIRST_4MB = Ok s5" "init_kernel_memory s5 = Ok (pd, s6)"
      "kmalloc (s6\<lparr>kpgdir := pd\<rparr>) = Ok (k, s7)" "kheap s7 (drop (kernel_tables + 2) (low_pages L))"
      "changes_only (pgno ` set (low_pages L)) (mem s4) (mem s7)" "kpgdir s7 = hd (low_pages L)" "port_in s7 = port_in s4"
      "console_file s7 = console_file s4"
    by (rule first_memory [OF h4 fit])
  define s8 where "s8 = s7\<lparr>esp := k + PGSIZE\<rparr>"
  have u8: "uart_ready s8" using s4(3) M(7) by (simp add: s8_def uart_ready_def)
  obtain s9 where s9: "say s8 ''Initialize segmentation'' = Ok s9" "same_core s8 s9" "uart_ready s9"
    using message_core [OF u8, of "''Initialize segmentation''"] by (auto simp: message_def kstr_def)
  obtain tb op where g: "init_segmentation (gdt s9) (gdt_addr L) (task_state_addr L) = (tb, op)" by fastforce
  define t1 where "t1 = s9\<lparr>gdt := tb, gdtr := op\<rparr>"
  have t1: "uart_ready t1" "same_core s8 t1" using s9(2,3) by (simp_all add: t1_def uart_ready_def same_core_def)
  obtain t2 where t2: "say t1 ''Setup rest of kmalloc'' = Ok t2" "same_core t1 t2" "uart_ready t2"
    using message_core [OF t1(1), of "''Setup rest of kmalloc''"] by (auto simp: message_def kstr_def)
  have c: "same_core s8 t2" by (rule same_core_trans [OF t1(2) t2(2)])
  have h: "kheap t2 (drop (kernel_tables + 2) (low_pages L))" using M(4) same_core_kheap(1) [OF c] by (simp add: s8_def kheap_def)
  have lt: "pgno FIRST_4MB < pgno KERN_TOP" "FIRST_4MB \<noteq> 0"
    by (simp add: region_values(2,3), simp add: region_values(1))
  obtain t3 where t3: "register_free_mem t2 FIRST_4MB KERN_TOP = Ok t3"
      "kheap t3 (rev (region_pages FIRST_4MB KERN_TOP) @ drop (kernel_tables + 2) (low_pages L))"
      "changes_only (pgno ` set (region_pages FIRST_4MB KERN_TOP)) (mem t2) (mem t3)" "mstate.more t3 = mstate.more t2"
    using register_then [OF h lt high_pages_apart [OF fit]] by blast
  have m: "mem s4 = start_mem L (mem s)" "mem t2 = mem s7" using s4(2) z(1) c by (simp_all add: same_core_def s8_def)
  have "changes_only (pgno ` (set (low_pages L) \<union> set high_pages)) (start_mem L (mem s)) (mem t3)"
    by (rule changes_only_trans [OF M(5) [unfolded m] t3(3) [unfolded m]]) (auto simp: high_pages_def)
  moreover have "uart_ready t3" "kpgdir t3 = hd (low_pages L)" "console_file t3 = zero_file"
    using mstate_more_fields [OF t3(4)] t2(3) c M(6,8) s4(2) z(4) by (simp_all add: same_core_def s8_def)
  ultimately have "memory_ready L (mem s) t3"
    using t3(2) by (simp add: memory_ready_def boot_heap_pages_def high_pages_def)
  moreover have "main_memory L s = Ok t3"
    using s1(1) s2(1) s3(1) s4(1) M(1-3) s9(1) g t2(1) t3(1)
    by (simp add: main_memory_def init_kstack_def Let_def s0_def [symmetric] z_def [symmetric] s8_def [symmetric] t1_def [symmetric])
  ultimately show ?thesis by blast
qed

section \<open>Devices and interrupts\<close>

lemma main_devices_spec:
  assumes u: "uart_ready s"
  shows "\<exists>s'. main_devices L s = Ok s' \<and> same_core s s' \<and> uart_ready s'"
proof -
  obtain s1 where s1: "say s ''Initialize lapic'' = Ok s1" "same_core s s1" "uart_ready s1"
    using message_core [OF u, of "''Initialize lapic''"] by (auto simp: message_def kstr_def)
  obtain s2 where s2: "say s1 ''Configure timer'' = Ok s2" "same_core s1 s2" "uart_ready s2"
    using message_core [OF s1(3), of "''Configure timer''"] by (auto simp: message_def kstr_def)
  have d2: "same_core s2 (init_lapic s2)" "uart_ready (init_lapic s2)"
    using io_only_core [OF io_only_init_lapic] io_only_fields(7) [OF io_only_init_lapic [of s2]] s2(3) by simp_all
  obtain s3 where s3: "say (init_lapic s2) ''Disable pic'' = Ok s3" "same_core (init_lapic s2) s3" "uart_ready s3"
    using message_core [OF d2(2), of "''Disable pic''"] by (auto simp: message_def kstr_def)
  have d3: "same_core s3 (disable_pic s3)" "uart_ready (disable_pic s3)"
    using io_only_core [OF io_only_disable_pic] io_only_fields(7) [OF io_only_disable_pic [of s3]] s3(3) by simp_all
  obtain s4 where s4: "say (disable_pic s3) ''Initialize ioapic'' = Ok s4" "same_core (disable_pic s3) s4" "uart_ready s4"
    using message_core [OF d3(2), of "''Initialize ioapic''"] by (auto simp: message_def kstr_def)
  have i: "io_only s4 (enable_ioapic (init_ioapic s4) IRQ_SERIAL)"
    by (rule io_only_trans [OF io_only_init_ioapic io_only_enable_ioapic])
  have d4: "same_core s4 (enable_ioapic (init_ioapic s4) IRQ_SERIAL)" "uart_ready (enable_ioapic (init_ioapic s4) IRQ_SERIAL)"
    using io_only_core [OF i] io_only_fields(7) [OF i] s4(3) by simp_all
  obtain s5 where s5: "say (enable_ioapic (init_ioapic s4) IRQ_SERIAL) ''Initialize interrupt'' = Ok s5"
      "same_core (enable_ioapic (init_ioapic s4) IRQ_SERIAL) s5" "uart_ready s5"
    using message_core [OF d4(2), of "''Initialize interrupt''"] by (auto simp: message_def kstr_def)
  obtain tb op where g: "init_idt (idt s5) (idt_addr L) (vector_table L) = (tb, op)" by fastforce
  have "same_core s s5"
    using same_core_trans s1(2) s2(2) d2(1) s3(2) d3(1) s4(2) d4(1) s5(2) by meson
  then have "same_core s (s5\<lparr>idt := tb, idtr := op\<rparr>)" by (simp add: same_core_def)
  moreover have "uart_ready (s5\<lparr>idt := tb, idtr := op\<rparr>)" using s5(3) by (simp add: uart_ready_def)
  ultimately show ?thesis
    using s1(1) s2(1) s3(1) s4(1) s5(1) g by (simp add: main_devices_def Let_def)
qed

section \<open>Files, tasks and the banner\<close>

text \<open>
  \<open>elf_file d vaddr seg memsz start\<close>: wherever the bytes \<open>d\<close> are at the beginning of a page of the kernel, they
  are a program of one segment (\<open>elf_prog\<close>) with that entry point.
\<close>

definition elf_file :: "u8 list \<Rightarrow> u32 \<Rightarrow> u8 list \<Rightarrow> u32 \<Rightarrow> u32 \<Rightarrow> bool" where
  "elf_file d vaddr seg memsz start \<longleftrightarrow> (\<forall>m p. page_aligned p \<and> KERN_BASE \<le> p \<and> mem_bytes m p (length d) = d \<longrightarrow>
     elf_prog m p vaddr seg memsz \<and> load32 m (p + e_entry_offset) = start)"

text \<open>The members of the archive: \<open>fi\<close> is the first named \<^verbatim>\<open>init\<close>, \<open>bi\<close> the first named \<^verbatim>\<open>banner.txt\<close>.\<close>

definition first_named :: "member list \<Rightarrow> string \<Rightarrow> nat \<Rightarrow> bool" where
  "first_named mbs name i \<longleftrightarrow> i < length mbs \<and> mb_name (mbs ! i) = kstr name \<and> (\<forall>j < i. mb_name (mbs ! j) \<noteq> kstr name)"

lemma get_file_loaded:
  assumes l: "loaded s ps mbs" and n: "first_named mbs name i" and nm: "message name" "name \<noteq> []"
    and f: "filesystem s' = filesystem s"
  shows "get_file s' (arr (kstr name @ [0])) = Ok (Some (Fs i))"
proof -
  have i: "i < length mbs" "length mbs \<le> MAX_FILES" using l n by (simp_all add: first_named_def loaded_def)
  have ok: "fs_ok s'" using loaded_fs_ok [OF l] f by (simp add: fs_ok_def)
  have nf: "fname (filesystem s' ! j) = mb_name (mbs ! j)" if "j < length mbs" for j
    using l that by (simp add: loaded_def holds_def f)
  have "cstring (arr (kstr name @ [0])) (kstr name)"
    by (rule cstring_arr) (use nm(1) in \<open>auto simp: message_def list_all_iff NUL_SCAN_def kstr_def\<close>)
  moreover have "List.find (\<lambda>i. fname (filesystem s' ! i) = kstr name) [0..<MAX_FILES] = Some i"
    by (rule find_first) (use i n nf in \<open>auto simp: first_named_def\<close>)
  moreover have "kstr name \<noteq> []" using nm(2) by (simp add: kstr_def)
  ultimately show ?thesis using get_file_find [OF _ ok] by simp
qed

lemma init_dev_file_returns:
  assumes "console_file s = zero_file"
  shows "\<exists>s'. init_dev_file s = Ok s' \<and> mem s' = mem s \<and> free_pages s' = free_pages s \<and> cr3 s' = cr3 s \<and> port_in s' = port_in s \<and>
    filesystem s' = filesystem s \<and> fs_state.more s' = fs_state.more s"
proof -
  have "cstring (arr (kstr ''console'' @ [0])) (kstr ''console'')"
    by (rule cstring_arr) (simp_all add: kstr_def NUL_SCAN_def)
  then obtain nm where "strcpy (f_name zero_file) (arr (kstr ''console'' @ [0])) = Ok nm"
    using strcpy_name [of "arr (kstr ''console'' @ [0])" "kstr ''console''" "f_name zero_file"]
    by (auto simp: zero_file_def MAX_NAME_def kstr_def)
  then show ?thesis by (simp add: init_dev_file_def assms Let_def)
qed

lemma tasks_after_init:
  "tasks (init_tasks s) = boot_tasks[0 := (boot_tasks ! 0)\<lparr>t_pgdir := kpgdir s\<rparr>]" "curr_task (init_tasks s) = 0"
  "scheduler_task (init_tasks s) = 0" "mem (init_tasks s) = mem s" "free_pages (init_tasks s) = free_pages s"
  "filesystem (init_tasks s) = filesystem s" "port_in (init_tasks s) = port_in s" "cr3 (init_tasks s) = cr3 s"
  by (simp_all add: init_tasks_def Let_def upd_task_def boot_tasks_def zero_task_def MAX_TASKS_def)

lemma first_free_task: "unused_task (boot_tasks[0 := (boot_tasks ! 0)\<lparr>t_pgdir := p\<rparr>]) 0 = Some 1"
proof -
  obtain t ts where b: "boot_tasks = t # ts" by (cases boot_tasks) (use boot_tasks_simps(1) in \<open>simp_all add: MAX_TASKS_def\<close>)
  have "t = zero_task\<lparr>t_state := RUNNING\<rparr>" using boot_tasks_simps(2) unfolding b by simp
  moreover have "unused_task (t # ts) 0 = Some 1" using boot_tasks_simps(4) unfolding b by simp
  ultimately show ?thesis by (simp add: b)
qed

lemma show_banner_sends:
  assumes u: "uart_ready s" and g: "get_file s (arr (kstr ''banner.txt'' @ [0])) = Ok (Some (Fs i))"
    and f: "f_size (filesystem s ! i) = of_nat (length d)" "length d \<le> 4096"
      "mem_bytes (mem s) (f_data (filesystem s ! i)) (length d) = d"
  shows "\<exists>s'. show_banner s = Ok s' \<and> sends s d s'"
proof -
  have n: "nat (sint (of_nat (length d) :: u32)) = length d"
    using f(2) by (simp add: signed_of_nat signed_take_bit_int_eq_self)
  have "\<exists>s'. loop_from 0 (length d) (\<lambda>i' t. putchar t (sint (mem t (f_data (get_fp t (Fs i)) + of_nat i')))) s = Ok s' \<and> sends s d s'"
  proof (rule send_loop [OF u])
    fix k t assume k: "k < length d" and t: "sends s (take k d) t"
    have "mem t = mem s" "filesystem t = filesystem s" using t by (auto simp: sends_def)
    moreover have "mem s (f_data (filesystem s ! i) + of_nat k) = d ! k"
      using mem_bytes_nth [OF k, of "mem s" "f_data (filesystem s ! i)"] f(3) by simp
    ultimately show "putchar t (sint (mem t (f_data (get_fp t (Fs i)) + of_nat k))) = uart_write_byte t (d ! k)"
      by (simp add: get_fp_def)
  qed simp
  then show ?thesis using g f(1) n by (simp add: show_banner_def get_fp_def)
qed

text \<open>
  The state after the last phase of \<^verbatim>\<open>main\<close>: the files are loaded, the tables hold the scheduler and
  \<^verbatim>\<open>init\<close>, and the banner is the last thing that was sent.
\<close>

definition tasks_ready ::
    "member list \<Rightarrow> nat \<Rightarrow> u32 list \<Rightarrow> u32 \<Rightarrow> u8 list \<Rightarrow> u32 \<Rightarrow> u32 \<Rightarrow> u32 \<Rightarrow> u32 \<Rightarrow> 'z start_state_scheme \<Rightarrow> bool" where
  "tasks_ready mbs bi us vaddr seg start kpd stk pd s \<longleftrightarrow> uart_ready s \<and> kheap s us \<and> curr_task s = 0 \<and> scheduler_task s = 0 \<and>
     (\<forall>i < length mbs. holds (mem s) (filesystem s ! i) (mbs ! i)) \<and>
     (\<exists>pre. port_out s = pre @ map (Pair COM1) (mb_data (mbs ! bi))) \<and>
     (\<exists>c. tasks s = boot_tasks[0 := (boot_tasks ! 0)\<lparr>t_pgdir := kpd\<rparr>, 1 := zero_task\<lparr>t_pid := int 1, t_kstack := stk,
          t_pgdir := pd, t_context := c, t_state := RUNNABLE\<rparr>] \<and>
        load32 (mem s) (c + sizeof_context + eip_offset) = start) \<and>
     (\<forall>k < length seg. \<exists>x. translate (mem s) pd (vaddr + of_nat k) = Some x \<and> xl_user x \<and>
        mem s (PHYS_TO_VIRT (xl_paddr x)) = seg ! k)"

lemma fs_more_kpgdir: "fs_state.more s' = fs_state.more (s :: 'z start_state_scheme) \<Longrightarrow> kpgdir s' = kpgdir s"
  by (cases s; cases s') simp

lemma main_tasks_spec:
  assumes u: "uart_ready s" and h: "kheap s hp" and c: "console_file s = zero_file"
    and ok: "\<And>mb. mb \<in> set mbs \<Longrightarrow> member_ok mb" "length mbs < MAX_FILES" "length magic = 8"
    and ar: "mem_bytes (mem s) (fsar_start L) (length (ar_archive magic mbs)) = ar_archive magic mbs"
      "unat (fsar_start L) + length (ar_archive magic mbs) < 4294967296"
      "fsar_end L = fsar_start L + of_nat (length (ar_archive magic mbs))"
      "\<And>i. i < length (ar_archive magic mbs) \<Longrightarrow> pgno (fsar_start L + of_nat i) \<notin> pgno ` set hp"
    and hp: "drop (length mbs) hp = stk # pd # ps" "drop kernel_tables ps = q # us" "\<And>p. p \<in> set hp \<Longrightarrow> KERN_BASE \<le> p"
    and nm: "first_named mbs ''init'' fi" "first_named mbs ''banner.txt'' bi"
    and elf: "elf_file (mb_data (mbs ! fi)) vaddr seg memsz start"
  shows "\<exists>s'. main_tasks L s = Ok s' \<and> tasks_ready mbs bi us vaddr seg start (kpgdir s) stk pd s'"
proof -
  obtain s1 where s1: "say s ''Initialize file system'' = Ok s1" "same_core s s1" "uart_ready s1"
    using message_core [OF u, of "''Initialize file system''"] by (auto simp: message_def kstr_def)
  have m1: "mem s1 = mem s" "kheap s1 hp" "console_file s1 = zero_file" "kpgdir s1 = kpgdir s"
    using s1(2) same_core_kheap(1) [OF s1(2)] h c by (simp_all add: same_core_def)
  have lm: "length mbs \<le> length hp" using hp(1) by (metis drop_all linear list.distinct(1))
  obtain s2 where s2: "init_fs s1 (fsar_start L) (fsar_end L) = Ok s2" "loaded s2 (stk # pd # ps) mbs"
      "fs_state.more s2 = fs_state.more s1" "console_file s2 = zero_file" "port_in s2 = port_in s1"
      "\<forall>i < length mbs. f_data (filesystem s2 ! i) \<in> set hp"
    using init_fs_loaded [OF m1(2) lm ok(2,1,3) ar(1) [folded m1(1)] ar(2,4)] unfolding ar(3) hp(1) m1(3) by auto
  have u2: "uart_ready s2" using s1(3) s2(5) by (simp add: uart_ready_def)
  have k2: "kpgdir s2 = kpgdir s" using fs_more_kpgdir [OF s2(3)] m1(4) by simp
  obtain s3 where s3: "say s2 ''Initialize dev files'' = Ok s3" "same_core s2 s3" "uart_ready s3"
    using message_core [OF u2, of "''Initialize dev files''"] by (auto simp: message_def kstr_def)
  have "console_file s3 = zero_file" using s3(2) s2(4) by (simp add: same_core_def)
  from init_dev_file_returns [OF this] obtain s4 where s4: "init_dev_file s3 = Ok s4" "mem s4 = mem s3" "free_pages s4 = free_pages s3"
      "port_in s4 = port_in s3" "filesystem s4 = filesystem s3" "fs_state.more s4 = fs_state.more s3" by blast
  have u4: "uart_ready s4" using s3(3) s4(4) by (simp add: uart_ready_def)
  have k4: "kpgdir s4 = kpgdir s" using fs_more_kpgdir [OF s4(6)] s3(2) k2 by (simp add: same_core_def)
  obtain s5 where s5: "say s4 ''Initialize tasks'' = Ok s5" "same_core s4 s5" "uart_ready s5"
    using message_core [OF u4, of "''Initialize tasks''"] by (auto simp: message_def kstr_def)
  define s6 where "s6 = init_tasks s5"
  note T = tasks_after_init [of s5, folded s6_def]
  have u6: "uart_ready s6" using s5(3) T(7) by (simp add: uart_ready_def)
  obtain s7 where s7: "say s6 ''Create init task'' = Ok s7" "same_core s6 s7" "uart_ready s7"
    using message_core [OF u6, of "''Create init task''"] by (auto simp: message_def kstr_def)
  have e7: "mem s7 = mem s2" "free_pages s7 = free_pages s2" "filesystem s7 = filesystem s2" "curr_task s7 = 0" "scheduler_task s7 = 0"
      "tasks s7 = boot_tasks[0 := (boot_tasks ! 0)\<lparr>t_pgdir := kpgdir s\<rparr>]"
    using s7(2) T s5(2) s4 s3(2) k4 by (simp_all add: same_core_def)
  have h7: "kheap s7 (stk # pd # ps)" using s2(2) e7 by (simp add: loaded_def kheap_def)
  have i7: "unused_task (tasks s7) 0 = Some 1" unfolding e7(6) by (rule first_free_task)
  have q: "KERN_BASE \<le> q"
  proof -
    have "q \<in> set (drop kernel_tables ps)" by (simp add: hp(2))
    then have "q \<in> set ps" by (rule in_set_dropD)
    then have "q \<in> set (drop (length mbs) hp)" by (simp add: hp(1))
    then show ?thesis by (intro hp(3)) (rule in_set_dropD)
  qed
  have fi: "fi < length mbs" "bi < length mbs" using nm by (simp_all add: first_named_def)
  have g7: "get_file s7 (arr (kstr ''init'' @ [0])) = Ok (Some (Fs fi))"
    by (rule get_file_loaded [OF s2(2) nm(1) _ _ e7(3)]) (simp_all add: message_def kstr_def)
  let ?e = "f_data (filesystem s7 ! fi)"
  have hold: "holds (mem s7) (filesystem s7 ! i) (mbs ! i)" "pgno (f_data (filesystem s7 ! i)) \<notin> pgno ` set (stk # pd # ps)"
      "member_ok (mbs ! i)" "f_data (filesystem s7 ! i) \<in> set hp" if "i < length mbs" for i
    using s2(2,6) that e7(1,3) by (simp_all add: loaded_def)
  have prog: "elf_prog (mem s7) ?e vaddr seg memsz" "load32 (mem s7) (?e + e_entry_offset) = start"
    using elf hold(1,4) [OF fi(1)] hp(3) by (simp_all add: elf_file_def holds_def)
  obtain s8 cx where s8: "create_init_task (ret_to_int_site L) s7 = Ok s8" "kheap s8 us"
      "tasks s8 = (tasks s7)[1 := (tasks s7 ! 1)\<lparr>t_pid := int 1, t_kstack := stk, t_pgdir := pd, t_context := cx, t_state := RUNNABLE\<rparr>]"
      "load32 (mem s8) (cx + sizeof_context + eip_offset) = start"
      "\<forall>k < length seg. \<exists>x. translate (mem s8) pd (vaddr + of_nat k) = Some x \<and> xl_user x \<and> mem s8 (PHYS_TO_VIRT (xl_paddr x)) = seg ! k"
      "changes_only (pgno ` set (stk # pd # ps)) (mem s7) (mem s8)" "filesystem s8 = filesystem s7"
      "port_in s8 = port_in s7" "curr_task s8 = 0" "scheduler_task s8 = 0"
    using create_init_task_spec [OF h7 hp(2) q i7 g7 refl prog(1) hold(2) [OF fi(1)] prog(2), of "ret_to_int_site L"]
    unfolding e7(4,5) by blast
  have u8: "uart_ready s8" using s7(3) s8(8) by (simp add: uart_ready_def)
  have hold8: "holds (mem s8) (filesystem s8 ! i) (mbs ! i)" if "i < length mbs" for i
    using holds_frame [OF hold(1) [OF that] s8(6) hold(2) [OF that] hold(3) [OF that]] s8(7) by simp
  obtain s9 where s9: "say s8 ''Welcome to...'' = Ok s9" "same_core s8 s9" "uart_ready s9"
    using message_core [OF u8, of "''Welcome to...''"] by (auto simp: message_def kstr_def)
  have f9: "filesystem s9 = filesystem s2" "mem s9 = mem s8" using s9(2) s8(7) e7(3) by (simp_all add: same_core_def)
  have g9: "get_file s9 (arr (kstr ''banner.txt'' @ [0])) = Ok (Some (Fs bi))"
    by (rule get_file_loaded [OF s2(2) nm(2) _ _ f9(1)]) (simp_all add: message_def kstr_def)
  have "holds (mem s9) (filesystem s9 ! bi) (mbs ! bi)" "length (mb_data (mbs ! bi)) \<le> 4096"
    using hold8 [OF fi(2)] hold(3) [OF fi(2)] s9(2) by (simp_all add: same_core_def member_ok_def)
  then obtain s10 where s10: "show_banner s9 = Ok s10" "sends s9 (mb_data (mbs ! bi)) s10"
    using show_banner_sends [OF s9(3) g9] by (auto simp: holds_def)
  have c10: "same_core s8 s10" by (rule same_core_trans [OF s9(2) io_only_core [OF sends_io_only [OF s10(2)]]])
  have u10: "uart_ready s10" using uart_ready_sends [OF s10(2)] s9(3) by simp
  have run: "main_tasks L s = Ok s10"
    using s1(1) s2(1) s3(1) s4(1) s5(1) s7(1) s8(1) s9(1) s10(1) by (simp add: main_tasks_def Let_def s6_def)
  have "1 < length boot_tasks" "boot_tasks ! 1 = zero_task" by (simp_all add: MAX_TASKS_def)
  then have t8: "tasks s8 = boot_tasks[0 := (boot_tasks ! 0)\<lparr>t_pgdir := kpgdir s\<rparr>, 1 := zero_task\<lparr>t_pid := int 1, t_kstack := stk,
      t_pgdir := pd, t_context := cx, t_state := RUNNABLE\<rparr>]"
    unfolding s8(3) e7(6) by simp
  have "tasks_ready mbs bi us vaddr seg start (kpgdir s) stk pd s10"
    unfolding tasks_ready_def using u10 c10 same_core_kheap(1) [OF c10] s8(2,4,5,9,10) hold8 t8 sends_fields(7) [OF s10(2)]
    by (auto simp: same_core_def)
  then show ?thesis using run by blast
qed

section \<open>From the image to the first dispatch\<close>

text \<open>
  The archive in the loaded image: behind the bss, in front of \<^verbatim>\<open>kernel_end\<close>, with at most 31 well-formed
  members.
\<close>

definition kernel_archive :: "linker \<Rightarrow> mem \<Rightarrow> u8 list \<Rightarrow> member list \<Rightarrow> bool" where
  "kernel_archive L m magic mbs \<longleftrightarrow> list_all member_ok mbs \<and> length mbs < MAX_FILES \<and> length magic = 8 \<and>
     mem_bytes m (fsar_start L) (length (ar_archive magic mbs)) = ar_archive magic mbs \<and>
     fsar_end L = fsar_start L + of_nat (length (ar_archive magic mbs)) \<and>
     unat (fsar_start L) + length (ar_archive magic mbs) \<le> unat (kernel_end L) \<and>
     word_aligned (bss_start L) \<and> bss_start L \<le> bss_end L \<and> bss_end L \<le> fsar_start L"

lemma start_mem_above:
  assumes "word_aligned (bss_start L)" and "bss_start L \<le> bss_end L" and "bss_end L \<le> x"
  shows "start_mem L m x = m x"
proof -
  let ?n = "unat (bss_end L - bss_start L)"
  have n: "unat (bss_start L) + ?n = unat (bss_end L)"
    using assms(2) by (simp add: unat_sub word_le_nat_alt)
  have le: "4 * (?n div 4) \<le> ?n" by simp
  have "unat (bss_start L) + 4 * (?n div 4) \<le> unat x"
    using n le assms(3) unfolding word_le_nat_alt by linarith
  moreover have "unat (bss_start L) + 4 * (?n div 4) \<le> 4294967296"
    using calculation unat_lt_2p32 [of x] by linarith
  ultimately show ?thesis
    using memset_words_spec [OF assms(1), of "?n div 4" 0 m] by (simp add: start_mem_def memset_def)
qed

lemma archive_apart:
  assumes fit: "kernel_fits L" and a: "kernel_archive L m magic mbs" and i: "i < length (ar_archive magic mbs)"
    and p: "p \<in> set (low_pages L) \<union> set high_pages"
  shows "pgno (fsar_start L + of_nat i) \<noteq> pgno p"
proof -
  have le: "unat (fsar_start L) + i < unat (kernel_end L)" using a i by (simp add: kernel_archive_def)
  then have x: "unat (fsar_start L + of_nat i) = unat (fsar_start L) + i"
    by (intro unat_add_lt) (use unat_lt_2p32 [of "kernel_end L"] in linarith)
  have ke: "unat (kernel_end L) < 4096 * 787456"
    using fit by (simp add: kernel_fits_def region_values word_less_nat_alt)
  have "unat (kernel_end L) \<le> 4096 * pgno p"
    using p
  proof
    assume "p \<in> set (low_pages L)"
    from low_pages_facts(4) [OF fit this] show ?thesis by (simp add: page_aligned_unat)
  next
    assume "p \<in> set high_pages"
    then have "787456 \<le> pgno p" using high_pages_range by blast
    then show ?thesis using ke by linarith
  qed
  then have "unat (fsar_start L + of_nat i) < 4096 * pgno p" using x le by linarith
  then show ?thesis using unat_pgno_bounds(1) [of "fsar_start L + of_nat i"] by auto
qed

lemma boot_heap_pages_facts:
  assumes "kernel_fits L"
  shows "p \<in> set (boot_heap_pages L) \<Longrightarrow> p \<in> set (low_pages L) \<union> set high_pages"
    and "p \<in> set (boot_heap_pages L) \<Longrightarrow> KERN_BASE \<le> p"
    and "length (boot_heap_pages L) = 31744 + (length (low_pages L) - (kernel_tables + 2))"
proof -
  show hl: "p \<in> set (low_pages L) \<union> set high_pages" if "p \<in> set (boot_heap_pages L)" for p
    using that by (auto simp: boot_heap_pages_def dest: in_set_dropD)
  show "KERN_BASE \<le> p" if p: "p \<in> set (boot_heap_pages L)"
    using hl [OF p]
  proof
    assume "p \<in> set (low_pages L)"
    then have "unat (kernel_end L) \<le> unat p" using low_pages_facts(4) [OF assms] by blast
    then show ?thesis using assms unfolding kernel_fits_def word_less_nat_alt word_le_nat_alt by linarith
  next
    assume "p \<in> set high_pages"
    then have "787456 \<le> pgno p" using high_pages_range by blast
    then show ?thesis using unat_pgno_bounds(1) [of p] by (simp add: KERN_BASE_def word_le_nat_alt)
  qed
  show "length (boot_heap_pages L) = 31744 + (length (low_pages L) - (kernel_tables + 2))"
    by (simp add: boot_heap_pages_def length_high_pages)
qed

text \<open>The first dispatch: the scheduler finds \<^verbatim>\<open>init\<close> at index 1.\<close>

lemma first_dispatch:
  assumes t: "tasks s = boot_tasks[0 := (boot_tasks ! 0)\<lparr>t_pgdir := kpd\<rparr>, 1 := zero_task\<lparr>t_pid := int 1, t_kstack := stk,
      t_pgdir := pd, t_context := cx, t_state := RUNNABLE\<rparr>]" and c: "curr_task s = 0"
  shows "\<exists>s'. schedule_from s 0 sp = Ok (1, cx, s') \<and> curr_task s' = 1 \<and> state_of s' 1 = RUNNING \<and> state_of s' 0 = RUNNABLE \<and>
    t_pgdir (tasks s' ! 0) = kpd \<and> (\<forall>i. 1 < i \<and> i < MAX_TASKS \<longrightarrow> state_of s' i = UNUSED) \<and> cr3 s' = VIRT_TO_PHYS pd \<and>
    tss_esp0 s' = KSTACK_TOP stk \<and> mem s' = mem s \<and> free_pages s' = free_pages s \<and> filesystem s' = filesystem s \<and>
    port_out s' = port_out s"
proof -
  have b: "0 < length boot_tasks" "1 < length boot_tasks" by (simp_all add: MAX_TASKS_def)
  have s0: "tasks s ! 0 = (boot_tasks ! 0)\<lparr>t_pgdir := kpd\<rparr>" and s1: "tasks s ! 1 = zero_task\<lparr>t_pid := int 1, t_kstack := stk,
      t_pgdir := pd, t_context := cx, t_state := RUNNABLE\<rparr>"
    unfolding t using b by simp_all
  have r: "state_of s 0 = RUNNING" "state_of s 1 = RUNNABLE" using s0 s1 by simp_all
  have l: "length (tasks s) = MAX_TASKS" unfolding t by simp
  have rest: "tasks s ! i = zero_task" if "1 < i" "i < MAX_TASKS" for i unfolding t using that by simp
  have nr: "next_runnable (Suc (Suc k)) (tasks s) 0 = Some 1" for k using r by (simp add: MAX_TASKS_def)
  have n: "next_runnable MAX_TASKS (tasks s) 0 = Some 1" using nr [of 1022] by (simp add: MAX_TASKS_def)
  obtain ctx s' where sw: "switch_to s 1 sp = (ctx, s')" by fastforce
  have lt: "(0 :: nat) < MAX_TASKS" "(1 :: nat) < MAX_TASKS" by (simp_all add: MAX_TASKS_def)
  have e1: "ctx = cx"
    using sw s1 r(1) c l lt by (simp add: switch_to_def context_switch_def Let_def lcr3_def upd_task_def)
  have e2: "s' = upd_task (upd_task (upd_task (lcr3 (s\<lparr>tss_ss0 := of_nat (KERN_DATA_SEG * 8), tss_esp0 := KSTACK_TOP stk,
      tss_iomb := sizeof_taskstate\<rparr>) pd) 0 (\<lambda>t. t\<lparr>t_state := RUNNABLE\<rparr>)) 1 (\<lambda>t. t\<lparr>t_state := RUNNING\<rparr>)) 0
      (\<lambda>t. t\<lparr>t_context := sp\<rparr>)\<lparr>curr_task := 1\<rparr>"
    using sw [unfolded e1] s1 r(1) c l lt by (simp add: switch_to_def context_switch_def Let_def lcr3_def upd_task_def)
  have "schedule_from s 0 sp = Ok (1, cx, s')" using n sw e1 by (simp add: schedule_from_def)
  moreover have "curr_task s' = 1" "cr3 s' = VIRT_TO_PHYS pd" "tss_esp0 s' = KSTACK_TOP stk" "mem s' = mem s" "free_pages s' = free_pages s"
      "filesystem s' = filesystem s" "port_out s' = port_out s"
    unfolding e2 by (simp_all add: lcr3_def upd_task_def)
  moreover have "state_of s' 1 = RUNNING" "state_of s' 0 = RUNNABLE" "t_pgdir (tasks s' ! 0) = kpd"
    unfolding e2 using l lt s0 by (simp_all add: lcr3_def)
  moreover have "state_of s' i = UNUSED" if "1 < i" "i < MAX_TASKS" for i
    unfolding e2 using rest [OF that] that by (simp add: lcr3_def zero_task_def)
  ultimately show ?thesis by blast
qed

text \<open>
  Property C3: the start of the kernel. From an image that fits below 4 MB and whose archive holds a
  program \<^verbatim>\<open>init\<close> and a \<^verbatim>\<open>banner.txt\<close>, with a serial port that is ready again and again, \<^verbatim>\<open>main\<close> gets
  through all its phases without a panic and dispatches task 1: its stack returns into the program's
  entry, its address space shows the program's bytes to user mode, every file of the archive is in the
  file table, the banner was the last output, the scheduler runs on the kernel's own directory, and all
  pages that are not in use are on the free list.
\<close>

theorem main_starts_init:
  assumes "uart_ready s" and "kernel_fits L" and "kernel_archive L (mem s) magic mbs"
    and "first_named mbs ''init'' fi" and "first_named mbs ''banner.txt'' bi"
    and "elf_file (mb_data (mbs ! fi)) vaddr seg memsz start"
  shows "\<exists>ctx s' stk pd free. kernel_main L s sp = Ok (1, ctx, s') \<and> curr_task s' = 1 \<and> state_of s' 1 = RUNNING \<and>
    state_of s' 0 = RUNNABLE \<and> t_pgdir (tasks s' ! 0) = hd (low_pages L) \<and>
    (\<forall>i. 1 < i \<and> i < MAX_TASKS \<longrightarrow> state_of s' i = UNUSED) \<and>
    cr3 s' = VIRT_TO_PHYS pd \<and> tss_esp0 s' = KSTACK_TOP stk \<and>
    load32 (mem s') (ctx + sizeof_context + eip_offset) = start \<and>
    (\<forall>k < length seg. \<exists>x. translate (mem s') pd (vaddr + of_nat k) = Some x \<and> xl_user x \<and>
      mem s' (PHYS_TO_VIRT (xl_paddr x)) = seg ! k) \<and>
    (\<forall>i < length mbs. holds (mem s') (filesystem s' ! i) (mbs ! i)) \<and>
    (\<exists>pre. port_out s' = pre @ map (Pair COM1) (mb_data (mbs ! bi))) \<and>
    kheap s' free \<and> free = drop (length mbs + kernel_tables + 3) (boot_heap_pages L)"
proof -
  note A = assms(3) [unfolded kernel_archive_def]
  obtain s1 where s1: "main_memory L s = Ok s1" "memory_ready L (mem s) s1"
    using main_memory_spec [OF assms(1,2)] by blast
  obtain s2 where s2: "main_devices L s1 = Ok s2" "same_core s1 s2" "uart_ready s2"
    using main_devices_spec [of s1 L] s1(2) by (auto simp: memory_ready_def)
  note hf = boot_heap_pages_facts [OF assms(2)]
  have h2: "kheap s2 (boot_heap_pages L)" "console_file s2 = zero_file" "kpgdir s2 = hd (low_pages L)"
    using s1(2) s2(2) same_core_kheap(1) [OF s2(2)] by (simp_all add: memory_ready_def same_core_def)
  have ap: "pgno (fsar_start L + of_nat i) \<notin> pgno ` (set (low_pages L) \<union> set high_pages)"
    if "i < length (ar_archive magic mbs)" for i
    using archive_apart [OF assms(2,3) that] by blast
  have top: "unat (fsar_start L) + length (ar_archive magic mbs) < 4294967296"
    using A unat_lt_2p32 [of "kernel_end L"] by linarith
  have "mem_bytes (mem s2) (fsar_start L) (length (ar_archive magic mbs)) = mem_bytes (mem s) (fsar_start L) (length (ar_archive magic mbs))"
  proof (rule mem_bytes_cong)
    fix i assume i: "i < length (ar_archive magic mbs)"
    have "unat (fsar_start L + of_nat i) = unat (fsar_start L) + i" by (rule unat_add_lt) (use top i in linarith)
    then have "bss_end L \<le> fsar_start L + of_nat i" using A unfolding word_le_nat_alt by linarith
    then have "start_mem L (mem s) (fsar_start L + of_nat i) = mem s (fsar_start L + of_nat i)"
      using A by (intro start_mem_above) simp_all
    moreover have "mem s1 (fsar_start L + of_nat i) = start_mem L (mem s) (fsar_start L + of_nat i)"
      using s1(2) ap [OF i] unfolding memory_ready_def by (intro changes_onlyD) auto
    ultimately show "mem s2 (fsar_start L + of_nat i) = mem s (fsar_start L + of_nat i)"
      using s2(2) by (simp add: same_core_def)
  qed
  then have ar: "mem_bytes (mem s2) (fsar_start L) (length (ar_archive magic mbs)) = ar_archive magic mbs" using A by simp
  have ap2: "pgno (fsar_start L + of_nat i) \<notin> pgno ` set (boot_heap_pages L)" if "i < length (ar_archive magic mbs)" for i
    using ap [OF that] hf(1) by blast
  have len: "length mbs + kernel_tables + 3 < length (boot_heap_pages L)"
    using A unfolding hf(3) by (simp add: MAX_FILES_def kernel_tables_def)
  have two: "2 \<le> length (drop (length mbs) (boot_heap_pages L))" using len by simp
  obtain stk pd ps where hp: "drop (length mbs) (boot_heap_pages L) = stk # pd # ps"
  proof (cases "drop (length mbs) (boot_heap_pages L)")
    case Nil
    then show ?thesis using two by (metis list.size(3) not_numeral_le_zero)
  next
    case (Cons a l)
    then show ?thesis using two that by (cases l) (simp_all del: length_drop)
  qed
  have dps: "drop (length mbs + 2) (boot_heap_pages L) = ps"
    using arg_cong [OF hp, of "drop 2"] by (simp add: numeral_2_eq_2)
  have "length (drop (length mbs + 2 + kernel_tables) (boot_heap_pages L)) > 0" using len by simp
  then obtain q us where q: "drop kernel_tables ps = q # us"
    unfolding dps [symmetric] drop_drop by (cases "drop (kernel_tables + (length mbs + 2)) (boot_heap_pages L)") (auto simp: add_ac)
  have dus: "drop (length mbs + kernel_tables + 3) (boot_heap_pages L) = us"
    using arg_cong [OF q, of "drop 1"] unfolding dps [symmetric] by (simp add: add_ac numeral_3_eq_3)
  have okm: "member_ok mb" if "mb \<in> set mbs" for mb using A that by (simp add: list_all_iff)
  obtain s3 where s3: "main_tasks L s2 = Ok s3" "tasks_ready mbs bi us vaddr seg start (kpgdir s2) stk pd s3"
    using main_tasks_spec [OF s2(3) h2(1,2) okm _ _ ar top _ ap2 hp q hf(2) assms(4-6)] A by blast
  then obtain cx where cx: "tasks s3 = boot_tasks[0 := (boot_tasks ! 0)\<lparr>t_pgdir := hd (low_pages L)\<rparr>, 1 := zero_task\<lparr>t_pid := int 1,
      t_kstack := stk, t_pgdir := pd, t_context := cx, t_state := RUNNABLE\<rparr>]" "curr_task s3 = 0"
      "load32 (mem s3) (cx + sizeof_context + eip_offset) = start"
    unfolding tasks_ready_def h2(3) by blast
  from first_dispatch [OF cx(1,2), of sp] obtain s' where s': "schedule_from s3 0 sp = Ok (1, cx, s')" "curr_task s' = 1"
      "state_of s' 1 = RUNNING" "state_of s' 0 = RUNNABLE" "t_pgdir (tasks s' ! 0) = hd (low_pages L)"
      "\<forall>i. 1 < i \<and> i < MAX_TASKS \<longrightarrow> state_of s' i = UNUSED" "cr3 s' = VIRT_TO_PHYS pd" "tss_esp0 s' = KSTACK_TOP stk"
      "mem s' = mem s3" "free_pages s' = free_pages s3" "filesystem s' = filesystem s3" "port_out s' = port_out s3"
    by blast
  have "kernel_main L s sp = Ok (1, cx, s')"
    using s1(1) s2(1) s3(1) s'(1) by (simp add: kernel_main_def)
  moreover have "kheap s' us" using s3(2) s'(9,10) by (simp add: tasks_ready_def kheap_def)
  moreover have "(\<forall>i < length mbs. holds (mem s') (filesystem s' ! i) (mbs ! i)) \<and>
      (\<exists>pre. port_out s' = pre @ map (Pair COM1) (mb_data (mbs ! bi))) \<and>
      (\<forall>k < length seg. \<exists>x. translate (mem s') pd (vaddr + of_nat k) = Some x \<and> xl_user x \<and>
        mem s' (PHYS_TO_VIRT (xl_paddr x)) = seg ! k)"
    using s3(2) unfolding tasks_ready_def s'(9,11,12) by blast
  ultimately show ?thesis
    using s'(2-8) cx(3) dus [symmetric] unfolding s'(9) [symmetric] by blast
qed

section \<open>Witness\<close>

definition sample_linker :: linker where
  "sample_linker = \<lparr>kernel_end = 0xc0103000, bss_start = 0xc0101000, bss_end = 0xc0101000, fsar_start = 0xc0102000,
     fsar_end = 0xc01020dc, gdt_addr = 0xc0100000, task_state_addr = 0xc0100100, idt_addr = 0xc0100200,
     vector_table = \<lambda>_. 0xc0100300, ret_to_int_site = 0xc0100400\<rparr>"

definition sample_members :: "member list" where
  "sample_members = [\<lparr>mb_name = kstr ''init'', mb_info = replicate 32 48, mb_data = sample_elf\<rparr>,
     \<lparr>mb_name = kstr ''banner.txt'', mb_info = replicate 32 48, mb_data = kstr ''abc''\<rparr>]"

definition sample_start :: start_state where
  "sample_start = \<lparr>mem = put_bytes (\<lambda>_. 7) 0xc0102000 (ar_archive sample_magic sample_members), cr3 = 0,
     free_pages = 7, num_allocated = 7, port_in = \<lambda>_ _. 0x20, mmio_in = \<lambda>_ _. 0, io_time = 0,
     port_out = [], mmio_out = [], buf_len = 0, edit_len = 0, edit_i = 0, write_i = 0, read_i = 0,
     circular_buf = replicate 4096 0, filesystem = [], console_file = zero_file, file_id = 0,
     tasks = [], curr_task = 0, scheduler_task = 0, zombie_exists = False, kpgdir = NULL, tss_ss0 = 0, tss_esp0 = 0,
     tss_iomb = 0, ticks = 0, gdt = [], gdtr = \<lparr>td_size = 0, td_offset0 = 0, td_offset1 = 0\<rparr>, idt = [],
     idtr = \<lparr>td_size = 0, td_offset0 = 0, td_offset1 = 0\<rparr>, esp = 0\<rparr>"

lemma sample_members_ok: "list_all member_ok sample_members"
  by (simp add: sample_members_def member_ok_def kstr_def of_char_def)

lemma length_sample_members: "length (ar_archive sample_magic sample_members) = 220"
  using sample_members_ok by (simp add: ar_archive_def sample_magic_def sample_members_def length_ar_member kstr_def)

lemma sample_start_archive: "kernel_archive sample_linker (mem sample_start) sample_magic sample_members"
  using sample_members_ok length_sample_members
    mem_bytes_put [of "0xc0102000" "ar_archive sample_magic sample_members" "\<lambda>_. 7"]
  by (simp add: kernel_archive_def sample_linker_def sample_start_def sample_magic_def kstr_def MAX_FILES_def
      word_aligned_def) (simp add: sample_members_def)

lemma sample_start_elf: "elf_file sample_elf 116 [1, 2, 3, 4] 8 116"
  using sample_elf_at by (simp add: elf_file_def)

theorem main_starts_init_witness:
  "\<exists>ctx s' pre. kernel_main sample_linker sample_start 0xc0100ff0 = Ok (1, ctx, s') \<and> state_of s' 1 = RUNNING \<and>
    load32 (mem s') (ctx + sizeof_context + eip_offset) = 116 \<and> port_out s' = pre @ map (Pair COM1) (kstr ''abc'')"
proof -
  have u: "uart_ready sample_start" by (auto simp: uart_ready_def sample_start_def UART_STAT_REG_EMPTY_def)
  have k: "kernel_fits sample_linker"
    by (simp add: kernel_fits_def sample_linker_def KERN_BASE_def region_values PG_ROUNDUP_def PGSIZE_def pgno_def kernel_tables_def)
  have n: "first_named sample_members ''init'' 0" "first_named sample_members ''banner.txt'' 1"
    by (simp_all add: first_named_def sample_members_def kstr_def of_char_def)
  have e: "elf_file (mb_data (sample_members ! 0)) 116 [1, 2, 3, 4] 8 116"
    using sample_start_elf by (simp add: sample_members_def)
  have b: "mb_data (sample_members ! 1) = kstr ''abc''" by (simp add: sample_members_def)
  show ?thesis
    using main_starts_init [OF u k sample_start_archive n e, of "0xc0100ff0"] unfolding b by blast
qed

end
