(* ===== verification/Diag.thy ===== *)
theory Diag
  imports KernelStart
begin

text \<open>
  What the kernel does when it has nothing left to do, and its debugging aids: \<^verbatim>\<open>panic\<close> and \<^verbatim>\<open>dump_regs\<close> of
  \<^verbatim>\<open>util.c\<close>, \<^verbatim>\<open>bored\<close> of \<^verbatim>\<open>main.c\<close> and \<^verbatim>\<open>memset_debug\<close> of \<^verbatim>\<open>proc.c\<close>, with what they send; and
  \<^verbatim>\<open>entry_pgdir\<close> of \<^verbatim>\<open>memory.c\<close>, the page directory in use before \<^verbatim>\<open>init_kernel_memory\<close>, with the
  addresses it maps.
\<close>

section \<open>Messages\<close>

definition put_line :: "'z dev_state_scheme \<Rightarrow> string \<Rightarrow> 'z dev_state_scheme outcome" where
  "put_line s msg = bnd (puts s (arr (kstr msg @ [0]))) (\<lambda>(_, s). Ok s)"

text \<open>
  The state in which the processor halts, with interrupts off, after the two lines. The outcome
  \<open>Panic msg\<close> of the other operations stands for a call of it: nothing runs afterwards.
\<close>

definition panic :: "'z dev_state_scheme \<Rightarrow> reader \<Rightarrow> 'z dev_state_scheme outcome" where
  "panic s msg =
     bnd (put_line s ''I'm sorry Dave:'') (\<lambda>s.
     bnd (puts s msg) (\<lambda>(_, s). Ok s))"

definition gs_offset :: u32 where "gs_offset = 32"
definition fs_offset :: u32 where "fs_offset = 36"

text \<open>One register of the dump: its name, its value, and the end of the line.\<close>

definition dump_reg :: "'z dev_state_scheme \<Rightarrow> string \<Rightarrow> u16 \<Rightarrow> 'z dev_state_scheme outcome" where
  "dump_reg s name v =
     bnd (print s (arr (kstr name @ [0]))) (\<lambda>(_, s).
     bnd (printnum s (uint v)) (\<lambda>s. put_line s ''''))"

definition dump_regs :: "'z dev_state_scheme \<Rightarrow> u32 \<Rightarrow> 'z dev_state_scheme outcome" where
  "dump_regs s regs =
     bnd (dump_reg s ''gs: '' (load16 (mem s) (regs + gs_offset))) (\<lambda>s.
     bnd (dump_reg s ''fs: '' (load16 (mem s) (regs + fs_offset))) (\<lambda>s.
     bnd (dump_reg s ''es: '' (load16 (mem s) (regs + es_offset))) (\<lambda>s.
     bnd (dump_reg s ''ds: '' (load16 (mem s) (regs + ds_offset))) (\<lambda>s.
     dump_reg s ''cs: '' (load16 (mem s) (regs + cs_offset))))))"

text \<open>The first \<open>n\<close> rounds of \<^verbatim>\<open>bored\<close>; the counting between two lines changes nothing.\<close>

definition bored :: "nat \<Rightarrow> 'z dev_state_scheme \<Rightarrow> 'z dev_state_scheme outcome" where
  "bored n s = loop_from 0 n (\<lambda>_ s. put_line s ''I'm Sorry Dave'') s"

text \<open>One round: the memory gets the word, the console the number and what separates it.\<close>

definition debug_round :: "u32 \<Rightarrow> u32 \<Rightarrow> nat \<Rightarrow> 'z dev_state_scheme \<Rightarrow> 'z dev_state_scheme outcome" where
  "debug_round p c i s =
     bnd (printnum s (sint (of_nat i :: u32))) (\<lambda>s.
     bnd (if i mod 16 = 0 then puts s (arr (kstr '''' @ [0])) else print s (arr (kstr '' '' @ [0]))) (\<lambda>(_, s).
     Ok (s\<lparr>mem := store32 (mem s) (p + of_nat (4 * i)) c\<rparr>)))"

definition memset_debug :: "'z dev_state_scheme \<Rightarrow> u32 \<Rightarrow> u32 \<Rightarrow> u32 \<Rightarrow> (u32 \<times> 'z dev_state_scheme) outcome" where
  "memset_debug s p c n =
     bnd (loop_from 0 (unat n div 4) (debug_round p c) s) (\<lambda>s.
     bnd (put_line s ''return'') (\<lambda>s. Ok (p, s)))"

section \<open>What they send\<close>

lemma put_line_sends:
  assumes "uart_ready s" and "0 \<notin> set (kstr msg)" and "length msg < NUL_SCAN"
  shows "\<exists>s'. put_line s msg = Ok s' \<and> sends s (kstr msg @ [10]) s'"
proof -
  have "cstring (arr (kstr msg @ [0])) (kstr msg)"
    by (rule cstring_arr) (use assms(2,3) in \<open>simp_all add: kstr_def\<close>)
  from puts_sends [OF assms(1) this] show ?thesis by (auto simp: put_line_def)
qed

text \<open>Sending one text and then another: the step that the proofs below repeat.\<close>

lemma sends_then:
  assumes "uart_ready s" and "\<exists>s1. r = Ok s1 \<and> sends s xs s1"
    and "\<And>s1. uart_ready s1 \<Longrightarrow> mem s1 = mem s \<Longrightarrow> \<exists>s2. f s1 = Ok s2 \<and> sends s1 ys s2"
  shows "\<exists>s2. bnd r f = Ok s2 \<and> sends s (xs @ ys) s2"
proof -
  obtain s1 where s1: "r = Ok s1" "sends s xs s1" using assms(2) by blast
  then obtain s2 where "f s1 = Ok s2" "sends s1 ys s2"
    using assms(3) [of s1] uart_ready_sends [OF s1(2)] sends_fields(1) [OF s1(2)] assms(1) by auto
  then show ?thesis using s1 sends_append by auto
qed

lemma panic_sends:
  assumes "uart_ready s" and "cstring msg bs"
  shows "\<exists>s'. panic s msg = Ok s' \<and> sends s (kstr ''I'm sorry Dave:'' @ 10 # bs @ [10]) s'"
proof -
  have "\<exists>s'. panic s msg = Ok s' \<and> sends s ((kstr ''I'm sorry Dave:'' @ [10]) @ bs @ [10]) s'"
    unfolding panic_def
  proof (rule sends_then [OF assms(1) put_line_sends [OF assms(1)]])
    fix t :: "'a dev_state_scheme" assume "uart_ready t"
    from puts_sends [OF this assms(2)]
    show "\<exists>u. bnd (puts t msg) (\<lambda>(_, s). Ok s) = Ok u \<and> sends t (bs @ [10]) u" by auto
  qed (simp_all add: kstr_def NUL_SCAN_def)
  then show ?thesis by simp
qed

definition reg_line :: "string \<Rightarrow> u16 \<Rightarrow> u8 list" where
  "reg_line name v = kstr name @ digit_chars (digits (unat v)) @ [10]"

lemma dump_reg_sends:
  assumes "uart_ready s" and "0 \<notin> set (kstr name)" and "length name < NUL_SCAN"
  shows "\<exists>s'. dump_reg s name v = Ok s' \<and> sends s (reg_line name v) s'"
proof -
  have "cstring (arr (kstr name @ [0])) (kstr name)"
    by (rule cstring_arr) (use assms(2,3) in \<open>simp_all add: kstr_def\<close>)
  then obtain s1 where s1: "print s (arr (kstr name @ [0])) = Ok (length (kstr name), s1)" "sends s (kstr name) s1"
    using print_sends [OF assms(1)] by blast
  have r1: "uart_ready s1" using uart_ready_sends [OF s1(2)] assms(1) by simp
  have "unat v < 2147483648" using unsigned_less [of v, where 'a = nat] by simp
  then have n: "\<exists>t. printnum s1 (uint v) = Ok t \<and> sends s1 (digit_chars (digits (unat v))) t"
    using printnum_sends [OF r1, of "unat v"] by simp
  have e: "\<exists>u. put_line t '''' = Ok u \<and> sends t [10] u" if "uart_ready t" for t :: "'a dev_state_scheme"
    using put_line_sends [OF that, of "''''"] by (simp add: kstr_def NUL_SCAN_def)
  obtain s2 where "bnd (printnum s1 (uint v)) (\<lambda>s. put_line s '''') = Ok s2"
    "sends s1 (digit_chars (digits (unat v)) @ [10]) s2"
    using sends_then [OF r1 n e] by blast
  then show ?thesis using s1 sends_append by (auto simp: dump_reg_def reg_line_def)
qed

text \<open>A register of the dump and then the rest of it, which sees the same memory.\<close>

lemma dump_then:
  assumes "uart_ready s \<and> mem s = m" and "0 \<notin> set (kstr name) \<and> length name < NUL_SCAN"
    and "\<And>t. uart_ready t \<and> mem t = m \<Longrightarrow> \<exists>u. f t = Ok u \<and> sends t ys u"
  shows "\<exists>u. bnd (dump_reg s name (load16 (mem s) a)) f = Ok u \<and> sends s (reg_line name (load16 m a) @ ys) u"
  using sends_then [OF _ dump_reg_sends [of s name "load16 (mem s) a"], of f ys] assms by auto

lemma dump_regs_sends:
  assumes "uart_ready s"
  shows "\<exists>s'. dump_regs s regs = Ok s' \<and> sends s
    (reg_line ''gs: '' (load16 (mem s) (regs + gs_offset)) @ reg_line ''fs: '' (load16 (mem s) (regs + fs_offset)) @
     reg_line ''es: '' (load16 (mem s) (regs + es_offset)) @ reg_line ''ds: '' (load16 (mem s) (regs + ds_offset)) @
     reg_line ''cs: '' (load16 (mem s) (regs + cs_offset))) s'"
proof -
  have name: "0 \<notin> set (kstr n) \<and> length n < NUL_SCAN" if "n \<in> {''gs: '', ''fs: '', ''es: '', ''ds: '', ''cs: ''}" for n
    using that by (auto simp: kstr_def NUL_SCAN_def)
  have last: "\<exists>u. dump_reg t ''cs: '' (load16 (mem t) a) = Ok u \<and> sends t (reg_line ''cs: '' (load16 m a)) u"
    if "uart_ready t \<and> mem t = m" for t :: "'a dev_state_scheme" and m a
    using that dump_reg_sends [of t "''cs: ''" "load16 m a"] name [of "''cs: ''"] by simp
  show ?thesis
    unfolding dump_regs_def by (rule dump_then, simp add: assms, rule name, simp)+ (rule last)
qed

lemma bored_repeats:
  assumes "uart_ready s"
  shows "\<exists>s'. bored n s = Ok s' \<and> sends s (concat (replicate n (kstr ''I'm Sorry Dave'' @ [10]))) s'"
proof -
  let ?l = "kstr ''I'm Sorry Dave'' @ [10]"
  have "\<exists>s'. bored n s = Ok s' \<and> sends s (concat (replicate (0 + n) ?l)) s'"
    unfolding bored_def
  proof (rule loop_from_invariant)
    fix j t assume t: "sends s (concat (replicate j ?l)) t"
    then have "uart_ready t" using uart_ready_sends assms by blast
    then obtain t' where "put_line t ''I'm Sorry Dave'' = Ok t'" "sends t ?l t'"
      using put_line_sends [of t "''I'm Sorry Dave''"] by (auto simp: kstr_def NUL_SCAN_def)
    then show "\<exists>t'. put_line t ''I'm Sorry Dave'' = Ok t' \<and> sends s (concat (replicate (Suc j) ?l)) t'"
      using sends_append [OF t] replicate_append_same [of j ?l, symmetric] by auto
  qed simp
  then show ?thesis by simp
qed

section \<open>memset_debug\<close>

lemma sends_mem: "sends s bs t \<Longrightarrow> sends (s\<lparr>mem := m\<rparr>) bs (t\<lparr>mem := m\<rparr>)"
  unfolding sends_def
proof (elim exE)
  fix k assume "t = s\<lparr>io_time := k, port_out := port_out s @ map (Pair COM1) bs\<rparr>"
  then show "\<exists>k. t\<lparr>mem := m\<rparr> = s\<lparr>mem := m\<rparr>\<lparr>io_time := k, port_out := port_out (s\<lparr>mem := m\<rparr>) @ map (Pair COM1) bs\<rparr>"
    by (intro exI [of _ k]) simp
qed

definition count_text :: "nat \<Rightarrow> u8 list" where
  "count_text i = digit_chars (digits i) @ [if i mod 16 = 0 then 10 else 32]"

lemma sint_small: "j < 2147483648 \<Longrightarrow> sint (of_nat j :: u32) = int j"
proof -
  assume j: "j < 2147483648"
  have "unat (of_nat j :: u32) = j" using j by (simp add: unat_of_nat take_bit_eq_mod)
  then have u: "uint (of_nat j :: u32) = int j" by (simp only: uint_nat)
  show ?thesis unfolding sint_uint u using j by (simp add: signed_take_bit_int_eq_self)
qed

lemma debug_round_sends:
  assumes "uart_ready s" and j: "j < 2147483648"
  shows "\<exists>t. debug_round p c j s = Ok (t\<lparr>mem := store32 (mem s) (p + of_nat (4 * j)) c\<rparr>) \<and> sends s (count_text j) t"
proof -
  obtain v where v: "printnum s (int j) = Ok v" "sends s (digit_chars (digits j)) v"
    using printnum_sends [OF assms] by blast
  have rv: "uart_ready v" using uart_ready_sends [OF v(2)] assms(1) by simp
  have c: "cstring (arr (kstr '''' @ [0])) []" "cstring (arr (kstr '' '' @ [0])) [32]"
    using cstring_arr [of "[]" "[]"] cstring_arr [of "[32]" "[]"] by (simp_all add: kstr_def NUL_SCAN_def)
  obtain k w where w: "(if j mod 16 = 0 then puts v (arr (kstr '''' @ [0])) else print v (arr (kstr '' '' @ [0]))) = Ok (k, w)"
    "sends v [if j mod 16 = 0 then 10 else 32] w"
    using puts_sends [OF rv c(1)] print_sends [OF rv c(2)] by (cases "j mod 16 = 0") auto
  have "mem w = mem s" using sends_fields(1) [OF w(2)] sends_fields(1) [OF v(2)] by simp
  moreover have "sends s (count_text j) w" using sends_append [OF v(2) w(2)] by (simp add: count_text_def)
  ultimately show ?thesis by (auto simp: debug_round_def sint_small [OF j] v(1) w(1))
qed

text \<open>The memory is that of \<^verbatim>\<open>memset\<close>; the rest is what it printed.\<close>

lemma memset_debug_is_memset:
  assumes "uart_ready s"
  shows "\<exists>s'. memset_debug s p c n = Ok (p, s') \<and>
    sends (s\<lparr>mem := memset (mem s) p c n\<rparr>) (concat (map count_text [0..<unat n div 4]) @ kstr ''return'' @ [10]) s'"
proof -
  let ?m = "\<lambda>j. fold (\<lambda>i m. store32 m (p + of_nat (4 * i)) c) [0..<j] (mem s)"
  let ?P = "\<lambda>j. sends (s\<lparr>mem := ?m j\<rparr>) (concat (map count_text [0..<j]))"
  have ready: "uart_ready t" if "?P j t" for j t
    using uart_ready_sends [OF that] assms by (simp add: uart_ready_def)
  have "\<exists>t. loop_from 0 (unat n div 4) (debug_round p c) s = Ok t \<and> ?P (0 + unat n div 4) t"
  proof (rule loop_from_invariant)
    show "?P 0 s" by simp
  next
    fix j u assume "j < 0 + unat n div 4" and u: "?P j u"
    then have "j < 2147483648" using div_times_less_eq_dividend [of "unat n" 4] unat_lt_2p32 [of n] by linarith
    then obtain t where t: "debug_round p c j u = Ok (t\<lparr>mem := store32 (mem u) (p + of_nat (4 * j)) c\<rparr>)"
      "sends u (count_text j) t" using debug_round_sends [OF ready [OF u]] by blast
    have "?P (Suc j) (t\<lparr>mem := ?m (Suc j)\<rparr>)"
      using sends_mem [OF sends_append [OF u t(2)], of "?m (Suc j)"] by simp
    then show "\<exists>t'. debug_round p c j u = Ok t' \<and> ?P (Suc j) t'"
      using t(1) sends_fields(1) [OF u] by simp
  qed
  then obtain t where t: "loop_from 0 (unat n div 4) (debug_round p c) s = Ok t" "?P (unat n div 4) t" by auto
  obtain s' where "put_line t ''return'' = Ok s'" "sends t (kstr ''return'' @ [10]) s'"
    using put_line_sends [OF ready [OF t(2)], of "''return''"] by (auto simp: kstr_def NUL_SCAN_def)
  then show ?thesis using t(1) sends_append [OF t(2)] by (auto simp: memset_debug_def memset_def)
qed

section \<open>The first page directory\<close>

definition entry_pgdir :: "u32 list" where
  "entry_pgdir = (replicate 1024 0)
     [0 := 0 OR PDE_P OR PDE_RW OR PDE_US OR PDE_PS,
      unat (drop_bit 22 KERN_LINK) := 0 OR PDE_P OR PDE_RW OR PDE_US OR PDE_PS]"

lemma entry_pgdir_nth: "i < 1024 \<Longrightarrow> entry_pgdir ! i = (if i = 0 \<or> i = 768 then 135 else 0)"
  by (simp add: entry_pgdir_def KERN_LINK_def entry_bits nth_list_update)

definition holds_entry_pgdir :: "mem \<Rightarrow> u32 \<Rightarrow> bool" where
  "holds_entry_pgdir m pgdir \<longleftrightarrow> (\<forall>i < 1024. entry m pgdir i = entry_pgdir ! i)"

text \<open>
  It maps the first 4 MB of the physical memory twice, at 0 and at \<^verbatim>\<open>KERN_BASE\<close>, and nothing else.
\<close>

lemma entry_pgdir_maps:
  assumes "holds_entry_pgdir m pgdir"
  shows "translate m pgdir va = (if pdx va = 0 \<or> pdx va = 768
     then Some \<lparr>xl_paddr = va AND 0x3fffff, xl_write = True, xl_user = True\<rparr> else None)"
  using assms entry_pgdir_nth [of "pdx va"]
  by (simp add: holds_entry_pgdir_def translate_def load32_pde entry_bits pdx_lt)

text \<open>
  The pages that \<^verbatim>\<open>main\<close> registers first are mapped by it where the kernel expects them, at
  \<^verbatim>\<open>VIRT_TO_PHYS\<close>; those it registers after \<^verbatim>\<open>init_kernel_memory\<close> are not mapped yet.
\<close>

lemma entry_pgdir_suffices:
  assumes e: "holds_entry_pgdir m pgdir" and k: "kernel_fits L"
  shows "p \<in> set (low_pages L) \<Longrightarrow> pgno va = pgno p \<Longrightarrow>
      translate m pgdir va = Some \<lparr>xl_paddr = VIRT_TO_PHYS va, xl_write = True, xl_user = True\<rparr>"
    and "p \<in> set high_pages \<Longrightarrow> translate m pgdir p = None"
proof -
  assume p: "p \<in> set (low_pages L)" and va: "pgno va = pgno p"
  have "3221225472 < unat (kernel_end L)" using k by (simp add: kernel_fits_def KERN_BASE_def word_less_nat_alt)
  then have "786432 \<le> pgno p" "pgno p < 787456" using low_pages_facts(4) [OF k p] by (auto simp: pgno_def)
  then have d: "unat va div 4194304 = 768" "pdx va = 768"
    unfolding pdx_def va [symmetric] by (simp_all add: pgno_def flip: div_mult2_eq)
  have "unat (va AND 0x3fffff) = unat va AND mask 22"
    by (simp add: unsigned_and_eq mask_eq_exp_minus_1)
  also have "\<dots> = unat va mod 4194304" by (simp add: take_bit_eq_mod flip: take_bit_eq_mask)
  also have "\<dots> = unat (VIRT_TO_PHYS va)"
    using d(1) mult_div_mod_eq [of 4194304 "unat va"]
    by (simp add: VIRT_TO_PHYS_def KERN_BASE_def unat_sub word_le_nat_alt)
  finally show "translate m pgdir va = Some \<lparr>xl_paddr = VIRT_TO_PHYS va, xl_write = True, xl_user = True\<rparr>"
    using entry_pgdir_maps [OF e, of va] d(2) by (simp add: word_unat_eq_iff)
next
  assume "p \<in> set high_pages"
  then have "769 \<le> pdx p" using high_pages_range [of p] by (auto simp: pdx_def)
  then show "translate m pgdir p = None" using entry_pgdir_maps [OF e, of p] by simp
qed

end
