(* ===== verification/Spec2Isabelle.thy ===== *)
theory Spec2Isabelle
  imports ConSession Ending Execv Shell Boot Diag
begin

text \<open>
  A verification development of quaros, a small kernel for 32-bit x86 with a serial console, an
  in-memory file system, paging, and tasks that fork, execute programs, exit and wait.

  \<^bold>\<open>The program and how its parts interact.\<close> \<^verbatim>\<open>bootc.c\<close> loads the kernel from the disk. \<^verbatim>\<open>main.c\<close> registers the
  physical memory with the page allocator (\<^verbatim>\<open>memory.c\<close>), builds the kernel's page directory, the segments
  and the interrupt table, sets up the interrupt controllers and the serial port (\<^verbatim>\<open>lapic.c\<close>, \<^verbatim>\<open>ioapic.c\<close>,
  \<^verbatim>\<open>uart.c\<close>), reads the archive linked behind the kernel into the file table (\<^verbatim>\<open>fs.c\<close>), creates the task
  \<^verbatim>\<open>init\<close> (\<^verbatim>\<open>proc.c\<close>) and becomes the scheduler. Every trap enters \<^verbatim>\<open>trampoline\<close> (\<^verbatim>\<open>interrupt.c\<close>): the timer
  switches back to the scheduler, the serial line fills the console's buffer (\<^verbatim>\<open>io.c\<close>), and vector 0x80
  calls one of eight handlers (\<^verbatim>\<open>syscall.c\<close>, \<^verbatim>\<open>sys_file.c\<close>, \<^verbatim>\<open>sys_proc.c\<close>), which use the file table, the task
  table, the page allocator and the page tables. The programs of \<^verbatim>\<open>user/\<close> see the kernel through these calls.

  \<^bold>\<open>The state.\<close> Memory is a function from 32-bit addresses to bytes: structures that the kernel
  overlays on memory (free list, page tables, ELF and archive headers, interrupt frames, stacks) are read
  and written there byte by byte, so overlapping and stale contents are visible. Kernel addresses are
  the direct mapping; a virtual address of a task goes through \<open>translate\<close>, the processor's walk of the
  page tables. Static variables are fields of a chain of extensible records, in which every component
  adds its own: \<open>mstate\<close> (memory, free list), \<open>dev_state\<close> (ports and registers), \<open>con_state\<close> (console buffer),
  \<open>fs_state\<close> (file table), \<open>k_state\<close> (task table), \<open>start_state\<close> (processor tables). Every operation is a function
  of such a state with the result type \<open>outcome\<close>: \<open>Ok\<close>, \<open>Panic\<close> with the message of the code, \<open>Undef\<close> where
  the code leaves C (a null pointer, an index out of range) or stores through an unchecked pointer of a
  program to the kernel's own memory, or \<open>Diverge\<close>.

  \<^bold>\<open>The theories, in the order of their imports.\<close>
  \<^item> \<open>Prelude\<close>: machine integers, \<open>outcome\<close> and its loops, page arithmetic. \<open>Store\<close>: loads, stores, \<^verbatim>\<open>memset\<close>,
    \<^verbatim>\<open>memcpy\<close> and the frame relation \<open>changes_only\<close>. \<open>CString\<close>: the rest of \<^verbatim>\<open>string.c\<close> and \<^verbatim>\<open>atoi\<close>, on byte readers.
  \<^item> \<open>Kmalloc\<close>: \<^verbatim>\<open>kmalloc\<close>, \<^verbatim>\<open>kfree\<close>, \<^verbatim>\<open>register_free_mem\<close>; the locale \<open>page_allocator\<close> is the contract its clients use.
  \<^item> \<open>Paging\<close>, \<open>AddrSpace\<close>, \<open>Teardown\<close>: page tables, ranges, the kernel's directory, destruction; the locales
    \<open>page_mapper\<close> and \<open>page_source\<close> carry the proofs for ranges. \<open>UserMem\<close>: the virtual memory of a task and copies
    between address spaces. \<open>Descriptors\<close>: segments, task state and gates.
  \<^item> \<open>Devices\<close>, \<open>Console\<close>: ports, controllers, the serial port; output and the line-editing buffer, with the
    locales \<open>byte_source\<close> and \<open>buffer_reader\<close>. \<open>ConSession\<close>: sessions of key strokes and reads, as runs of a line editor.
  \<^item> \<open>FileSys\<close>, \<open>FileIO\<close>: the archive loader and the operations of \<^verbatim>\<open>fs.c\<close>, and what they do.
  \<^item> \<open>Tasks\<close>, \<open>Exec\<close>: the task table, frames, switch and scheduler of \<^verbatim>\<open>proc.c\<close>; ELF loading and task creation.
  \<^item> \<open>SysFile\<close>, \<open>SysProc\<close>, \<open>Trap\<close>: the system calls and the trap entry. \<open>FileCalls\<close>: what the file
    system calls do for a program, whatever name it opens.
  \<^item> \<open>Simulation\<close>: runs of labelled step relations, with the locales \<open>invariant_system\<close> and \<open>simulation\<close>, whose
    instances are the console's sessions and the kernel's runs. \<open>Ending\<close>: the order of outcomes by how much fuel
    they had; more fuel does not change how a program is loaded.
  \<^item> \<open>ProcSpec\<close>, \<open>Frame\<close>, \<open>Sched\<close>: the abstract process machine with its invariant, what each operation leaves
    alone, and the refinement. \<open>Fork\<close>: what \<^verbatim>\<open>fork\<close> copies. \<open>ArgStack\<close>, \<open>Execv\<close>: the stack that
    \<^verbatim>\<open>prepare_ustack\<close> builds for \<^verbatim>\<open>main(argc, argv)\<close>, and the program that \<^verbatim>\<open>execv\<close> leaves in the task.
  \<^item> \<open>UserProg\<close>, \<open>Shell\<close>: the programs of \<^verbatim>\<open>user/\<close> as trees of system calls; what the shell, \<^verbatim>\<open>echo\<close> and \<^verbatim>\<open>cat\<close> do.
  \<^item> \<open>Boot\<close>: \<^verbatim>\<open>bootc.c\<close> on physical memory and a disk. \<open>KernelStart\<close>: \<^verbatim>\<open>main.c\<close> from the loaded image to the first
    dispatch, composed from the specifications of the other theories. \<open>Diag\<close>: what \<^verbatim>\<open>panic\<close> and the debugging aids
    print, and the page directory in use before \<^verbatim>\<open>init_kernel_memory\<close>.

  \<^bold>\<open>What the lemmas show.\<close> The free list (\<open>kheap\<close>) is an invariant of every client of the allocator, and a page
  that is held is never handed out again. Mapping and unmapping are updates of the translation function.
  Building and destroying an address space or a task returns every page. The console's buffer, in every
  session of keys and reads, is a line editor on two lists. The archive loader inverts the encoding of an archive. Every run of the
  kernel, whatever user programs write to their memory and whatever traps come in what order, is a run
  of the process machine: one RUNNING task, no dispatch of an exited task, every RUNNABLE task within a
  round. \<^verbatim>\<open>main\<close> reaches the state from which those runs start without a panic. The theorems also state
  where the code does less than it should: files read from the start at every position, writes whose
  length wraps around, copies longer than a page, address spaces without a user page, zombies of other parents, tasks that wait for each
  other, DEL after a newline, lines of eight words, bytes of the last file in the output of \<^verbatim>\<open>cat\<close>.

  \<^bold>\<open>Bounds and fuel.\<close> Loops that may not end are \<open>partial_function\<close> (waiting for a device) or have fuel with the
  outcome \<open>Diverge\<close>. \<open>NUL_SCAN\<close> bounds the search for a NUL by the size of the address space; \<open>READ_ROUNDS\<close> is
  2^32/512, the number of sectors an address can pass; \<open>ELF_ROUNDS\<close> exceeds the 16 bits of the number of
  program headers; \<^verbatim>\<open>register_free_mem\<close> and \<^verbatim>\<open>map_memory\<close> run over at most 2^20 pages; \<^verbatim>\<open>init_fs\<close> stops after
  \<open>MAX_FILES\<close> members; the search of the scheduler repeats itself after \<open>MAX_TASKS\<close> steps, so if it finds nothing
  in one round it never does. The \<^verbatim>\<open>read\<close> calls of the shell have fuel that the theorem relates to the number
  of empty answers. The theorems that a routine returns are about these definitions with their own
  fuel (for the loading of a program \<open>Ending\<close> shows that more would not change the result), so no
  theorem has running out of fuel among its cases unless it says so.

  \<^bold>\<open>What comes from outside.\<close> What a port or a device register answers at each time, what the disk
  delivers, the addresses of the linker and of assembly code, and the stack pointer at a switch are
  arguments or fields that no definition computes. Theorems that need a device to answer say so
  (\<open>uart_ready\<close>, \<open>ata_ready\<close>, \<open>ata_drive\<close>).

  \<^bold>\<open>The limits of the memory model.\<close> The static variables are fields and not bytes of memory. No operation
  of the kernel stores to them through a pointer of its own, but \<^verbatim>\<open>sys_read\<close> stores through a pointer of the
  program that it does not check, and the program may point it at the kernel's variables, from KERN_BASE on or through
  the identity map. Such a store (\<open>uwrite\<close>) is \<open>Undef\<close>, so the theorems about runs are silent on what
  follows it; a buffer of a program (\<open>user_buffer\<close>) is one in pages that the program may write itself. Nor
  does \<^verbatim>\<open>load_elf\<close> check the addresses of segments; the model reads kernel addresses by the direct mapping, also
  after a program that has a segment there was loaded.

  \<^bold>\<open>Not modelled.\<close> \<^verbatim>\<open>bootasm.asm\<close>, \<^verbatim>\<open>start.asm\<close> and \<^verbatim>\<open>segment.asm\<close> (processor modes and segment registers), the
  registers that \<^verbatim>\<open>context_switch.asm\<close> and \<^verbatim>\<open>int_common.asm\<close> push apart from the frame the code reads, and the stubs that
  \<^verbatim>\<open>gen_vectors.py\<close> generates, of which only the addresses occur. In the operations that call it, \<^verbatim>\<open>panic\<close> is the
  outcome \<open>Panic\<close> with the message; what it prints is in \<open>Diag\<close>. \<^verbatim>\<open>bored\<close> is not reached, since \<^verbatim>\<open>schedule\<close> does
  not return, and nothing calls \<^verbatim>\<open>dump_regs\<close> and \<^verbatim>\<open>memset_debug\<close>.
  The translation buffer and the ordering of memory accesses are not part of the memory model: a write is
  visible at once, and \<^verbatim>\<open>lcr3\<close> sets the directory in use.
\<close>

end
